(* ===== verification/Libop_Prelude.thy ===== *)
theory Libop_Prelude
  imports Main "HOL-Library.Word" "HOL-Library.Monad_Syntax" "HOL-Library.Multiset"
begin

unbundle bit_operations_syntax

text \<open>
  Shared vocabulary of the development: the machine types of libop, pointers, the
  \<^verbatim>\<open>size_t\<close> arithmetic with its wrap-around written out, the power-of-two masks and the
  bit-smearing \<^verbatim>\<open>next_pow2\<close> that several containers use, and generic lemmas on lists.

  Conventions.  A \<^verbatim>\<open>void *\<close> is \<open>'a ptr\<close> with \<open>NULL\<close> for the null pointer.  A
  \<^verbatim>\<open>size_t\<close> is a \<open>nat\<close>; wherever the C arithmetic can leave the 64-bit range the
  reduction is written out.  An operation that may abort the process or not return
  is an \<open>option\<close>: \<open>None\<close> means that control does not come back to the caller.
\<close>

section \<open>Machine types\<close>

type_synonym u8 = "8 word"
type_synonym u16 = "16 word"
type_synonym u32 = "32 word"
type_synonym u64 = "64 word"
type_synonym 'a ptr = "'a option"
type_synonym addr = u64

abbreviation NULL :: "'a ptr" where
  "NULL \<equiv> None"

definition W64 :: nat where
  "W64 = 2 ^ 64"

definition SIZE_MAX :: nat where
  "SIZE_MAX = W64 - 1"

definition wrap64 :: "nat \<Rightarrow> nat" where
  "wrap64 n = n mod W64"

definition sub64 :: "nat \<Rightarrow> nat \<Rightarrow> nat" where
  "sub64 a b = (a + W64 - b) mod W64"

text \<open>The same for \<^verbatim>\<open>uint32_t\<close> and \<^verbatim>\<open>unsigned int\<close>.\<close>

definition wrap32 :: "nat \<Rightarrow> nat" where
  "wrap32 n = n mod 2 ^ 32"

definition sub32 :: "nat \<Rightarrow> nat \<Rightarrow> nat" where
  "sub32 a b = (a + 2 ^ 32 - b) mod 2 ^ 32"

text \<open>
  An \<^verbatim>\<open>int\<close> is an integer of 32 bits.  Converting a \<^verbatim>\<open>size_t\<close> to it keeps the low bits; an
  addition that leaves its range is undefined.
\<close>

definition int_cast :: "nat \<Rightarrow> int" where
  "int_cast n = sint (word_of_nat n :: 32 word)"

definition int_add :: "int \<Rightarrow> int \<Rightarrow> int option" where
  "int_add a b = (if - (2 ^ 31) \<le> a + b \<and> a + b < 2 ^ 31 then Some (a + b) else None)"

lemma int_cast_small: "n < 2 ^ 31 \<Longrightarrow> int_cast n = int n"
  by (simp add: int_cast_def signed_of_nat signed_take_bit_int_eq_self)

named_theorems size_arith \<open>wrap-around of size_t written out\<close>

lemma W64_pos [simp]: "0 < W64"
  by (simp add: W64_def)

lemma wrap64_small [size_arith]: "n < W64 \<Longrightarrow> wrap64 n = n"
  by (simp add: wrap64_def)

lemma wrap64_less [simp]: "wrap64 n < W64"
  by (simp add: wrap64_def)

lemma wrap64_Suc: "wrap64 (wrap64 n + 1) = wrap64 (Suc n)"
  by (simp add: wrap64_def mod_Suc_eq)

lemma sub64_wrap64: "0 < n \<Longrightarrow> sub64 (wrap64 n) 1 = wrap64 (n - 1)"
  by (cases n) (simp_all add: sub64_def wrap64_def W64_def mod_Suc mod_add_left_eq)

lemma sub64_le [size_arith]: "b \<le> a \<Longrightarrow> a < W64 \<Longrightarrow> sub64 a b = a - b"
proof -
  assume "b \<le> a" "a < W64"
  then have "a + W64 - b = (a - b) + W64" by simp
  then have "sub64 a b = (a - b) mod W64" by (simp only: sub64_def mod_add_self2)
  also have "\<dots> = a - b" using \<open>a < W64\<close> by (intro mod_less) simp
  finally show ?thesis .
qed

section \<open>Power-of-two masks\<close>

lemma and_mask_nat: "(x::nat) AND (2 ^ n - 1) = x mod 2 ^ n"
  by (simp only: mask_eq_exp_minus_1 [symmetric] take_bit_eq_mask [symmetric] take_bit_eq_mod)

lemma pow2_dvd_W64: "n \<le> 64 \<Longrightarrow> 2 ^ n dvd W64"
  unfolding W64_def by (rule le_imp_power_dvd)

text \<open>Masked subtraction is subtraction modulo the capacity, whatever the 64-bit wrap-around.\<close>

lemma sub_mod_dvd:
  fixes a b c w :: nat
  assumes "c dvd w" and "0 < w" and "b < c"
  shows "((a + w - b) mod w) mod c = (a + (c - b)) mod c"
proof -
  from assms(1,2) obtain k where k: "w = c * Suc k"
    by (metis dvd_def mult_0_right not0_implies_Suc not_gr_zero)
  have "a + w - b = (a + (c - b)) + c * k"
    using assms(3) by (simp add: k)
  then have "(a + w - b) mod c = (a + (c - b)) mod c"
    by (simp only: mod_mult_self2)
  then show ?thesis
    by (simp only: mod_mod_cancel [OF assms(1)])
qed

lemma sub64_mask:
  assumes "n \<le> 64" and "b < 2 ^ n"
  shows "sub64 a b AND (2 ^ n - 1) = (a + (2 ^ n - b)) mod 2 ^ n"
  unfolding and_mask_nat sub64_def
  by (rule sub_mod_dvd [OF pow2_dvd_W64 [OF assms(1)] W64_pos assms(2)])

section \<open>Rounding up to a power of two\<close>

text \<open>
  The bit-smearing steps that \<^verbatim>\<open>next_pow2\<close> of \<^verbatim>\<open>htab.c\<close> and \<^verbatim>\<open>deque.c\<close> share: after the
  step that shifts by \<open>w\<close>, bit \<open>i\<close> is set exactly when one of the \<open>2 * w\<close> bits of
  the input from \<open>i\<close> upwards is.
\<close>

definition smear64 :: "nat \<Rightarrow> nat" where
  "smear64 n0 =
     (let n = n0 OR drop_bit 1 n0;
          n = n OR drop_bit 2 n;
          n = n OR drop_bit 4 n;
          n = n OR drop_bit 8 n;
          n = n OR drop_bit 16 n
      in n OR drop_bit 32 n)"

definition window :: "nat \<Rightarrow> nat \<Rightarrow> nat \<Rightarrow> bool" where
  "window n w x \<longleftrightarrow> (\<forall>i. bit x i \<longleftrightarrow> (\<exists>j. i \<le> j \<and> j < i + w \<and> bit n j))"

lemma window_start: "window n 1 n"
  unfolding window_def by (auto simp: less_Suc_eq_le)

lemma window_double:
  assumes "window n w x"
  shows "window n (w + w) (x OR drop_bit w x)"
  unfolding window_def
proof (intro allI iffI)
  fix i
  assume "bit (x OR drop_bit w x) i"
  then have "bit x i \<or> bit x (w + i)" by (simp add: bit_or_iff bit_drop_bit_eq)
  then show "\<exists>j. i \<le> j \<and> j < i + (w + w) \<and> bit n j"
    using assms unfolding window_def by (fastforce simp: add.commute add.left_commute)
next
  fix i
  assume "\<exists>j. i \<le> j \<and> j < i + (w + w) \<and> bit n j"
  then obtain j where j: "i \<le> j" "j < i + (w + w)" "bit n j" by blast
  have "bit x i \<or> bit x (w + i)"
  proof (cases "j < i + w")
    case True
    with j assms show ?thesis unfolding window_def by blast
  next
    case False
    then have "w + i \<le> j \<and> j < w + i + w" using j by simp
    with j(3) assms show ?thesis unfolding window_def by blast
  qed
  then show "bit (x OR drop_bit w x) i" by (simp add: bit_or_iff bit_drop_bit_eq)
qed

lemma smear64_window: "window n 64 (smear64 n)"
proof -
  note step = window_double [of n]
  have "window n 2 (n OR drop_bit 1 n)"
    using step [OF window_start] by (simp only: one_add_one)
  from step [OF this] step [OF step [OF this]] step [OF step [OF step [OF this]]]
    step [OF step [OF step [OF step [OF this]]]]
    step [OF step [OF step [OF step [OF step [OF this]]]]]
  show ?thesis
    unfolding smear64_def Let_def by (simp only: numeral_plus_numeral add_num_simps)
qed

lemma bit_below_pow2: "(n::nat) < 2 ^ k \<Longrightarrow> k \<le> j \<Longrightarrow> \<not> bit n j"
  by (simp add: bit_iff_odd div_less order_less_le_trans)

lemma pow2_bracket: "0 < (n::nat) \<Longrightarrow> \<exists>k. 2 ^ k \<le> n \<and> n < 2 ^ Suc k"
  using ex_power_ivl1 [of 2 n] by auto

lemma smear64_mask:
  assumes "0 < n" and "n < W64"
  shows "\<exists>k. 2 ^ k \<le> n \<and> n < 2 ^ Suc k \<and> smear64 n = 2 ^ Suc k - 1"
proof -
  from pow2_bracket [OF assms(1)] obtain k where k: "2 ^ k \<le> n" "n < 2 ^ Suc k" by blast
  have k64: "k < 64"
  proof (rule ccontr)
    assume "\<not> k < 64"
    then have "(2::nat) ^ 64 \<le> 2 ^ k" by (intro power_increasing) auto
    with k(1) assms(2) show False by (simp only: W64_def)
  qed
  have bk: "bit n k"
  proof -
    have "n div 2 ^ k = 1" using k by (intro div_nat_eqI) auto
    then show ?thesis by (simp add: bit_iff_odd)
  qed
  have "smear64 n = mask (Suc k)"
  proof (rule bit_eqI)
    fix i
    have "bit (smear64 n) i \<longleftrightarrow> i \<le> k"
      using smear64_window [of n] bk k64 bit_below_pow2 [OF k(2)]
      unfolding window_def by (metis Suc_leI add_lessD1 le_add1 less_Suc_eq_le not_less trans_less_add2 order_trans)
    then show "bit (smear64 n) i \<longleftrightarrow> bit (mask (Suc k) :: nat) i"
      by (simp add: bit_mask_iff less_Suc_eq_le)
  qed
  with k show ?thesis by (auto simp: mask_eq_exp_minus_1)
qed

text \<open>Smearing \<open>n - 1\<close> and adding one is the least power of two that is at least \<open>n\<close>.\<close>

lemma smear64_pow2:
  assumes "2 \<le> n" and "n \<le> 2 ^ 63"
  shows "\<exists>k. 0 < k \<and> k \<le> 63 \<and> smear64 (n - 1) + 1 = 2 ^ k \<and> n \<le> 2 ^ k \<and> 2 ^ (k - 1) < n"
proof -
  have less: "n - 1 < W64" using assms(2) by (simp add: W64_def)
  obtain k where k: "2 ^ k \<le> n - 1" "n - 1 < 2 ^ Suc k" "smear64 (n - 1) = 2 ^ Suc k - 1"
    using smear64_mask [OF _ less] assms(1) by auto
  have "(2::nat) ^ k < 2 ^ 63" using k(1) assms by linarith
  then have "k < 63" by (simp only: power_strict_increasing_iff)
  moreover have "smear64 (n - 1) + 1 = 2 ^ Suc k" using k(3) by simp
  moreover have "n \<le> 2 ^ Suc k" "2 ^ (Suc k - 1) < n" using k(1,2) assms(1) by simp_all
  ultimately show ?thesis by (intro exI [of _ "Suc k"]) simp
qed

section \<open>Arrays\<close>

text \<open>
  A C array is a list.  An access outside the allocated block is undefined behaviour, so
  the accessors return \<open>None\<close> there: a lemma that an operation returns \<open>Some\<close> is at the
  same time a proof that it stays inside its allocations.
\<close>

definition arr_get :: "'a list \<Rightarrow> nat \<Rightarrow> 'a option" where
  "arr_get xs i = (if i < length xs then Some (xs ! i) else None)"

definition arr_set :: "'a list \<Rightarrow> nat \<Rightarrow> 'a \<Rightarrow> 'a list option" where
  "arr_set xs i x = (if i < length xs then Some (xs[i := x]) else None)"

text \<open>\<^verbatim>\<open>memmove(&xs[d], &xs[s], n)\<close> inside one array, and \<^verbatim>\<open>memcpy(&xs[d], ys, |ys|)\<close> from another.\<close>

definition arr_move :: "'a list \<Rightarrow> nat \<Rightarrow> nat \<Rightarrow> nat \<Rightarrow> 'a list option" where
  "arr_move xs d s n =
     (if d + n \<le> length xs \<and> s + n \<le> length xs
      then Some (take d xs @ take n (drop s xs) @ drop (d + n) xs) else None)"

definition arr_copy :: "'a list \<Rightarrow> nat \<Rightarrow> 'a list \<Rightarrow> 'a list option" where
  "arr_copy xs d ys =
     (if d + length ys \<le> length xs
      then Some (take d xs @ ys @ drop (d + length ys) xs) else None)"

text \<open>
  \<^verbatim>\<open>op_malloc(n * sizeof(void *))\<close> returns zeroed memory; the byte count wraps at 64 bits.
  The tail that \<^verbatim>\<open>op_realloc\<close> adds is indeterminate in C; the model fills it with \<open>NULL\<close>,
  and no lemma reads a slot before the code has written it.
\<close>

definition slots_bytes :: "nat \<Rightarrow> nat" where
  "slots_bytes n = wrap64 (n * 8)"

definition alloc_slots :: "nat \<Rightarrow> 'a ptr list" where
  "alloc_slots n = replicate (slots_bytes n div 8) NULL"

definition realloc_slots :: "'a ptr list \<Rightarrow> nat \<Rightarrow> 'a ptr list" where
  "realloc_slots xs n =
     (let m = slots_bytes n div 8 in take m xs @ replicate (m - length xs) NULL)"

lemma arr_get_Some [simp]: "i < length xs \<Longrightarrow> arr_get xs i = Some (xs ! i)"
  by (simp add: arr_get_def)

lemma arr_set_Some [simp]: "i < length xs \<Longrightarrow> arr_set xs i x = Some (xs[i := x])"
  by (simp add: arr_set_def)

lemma arr_get_eq_Some: "arr_get xs i = Some x \<longleftrightarrow> i < length xs \<and> x = xs ! i"
  by (auto simp: arr_get_def)

lemma arr_set_eq_Some: "arr_set xs i x = Some ys \<longleftrightarrow> i < length xs \<and> ys = xs[i := x]"
  by (auto simp: arr_set_def)

lemma slots_bytes_div [size_arith]: "n \<le> SIZE_MAX div 8 \<Longrightarrow> slots_bytes n div 8 = n"
proof -
  assume "n \<le> SIZE_MAX div 8"
  then have "n * 8 \<le> SIZE_MAX" by simp
  then have "n * 8 < W64" using W64_pos unfolding SIZE_MAX_def by linarith
  then show ?thesis by (simp add: slots_bytes_def wrap64_small)
qed

lemma length_alloc_slots [size_arith]:
  "n \<le> SIZE_MAX div 8 \<Longrightarrow> length (alloc_slots n) = n"
  by (simp add: alloc_slots_def slots_bytes_div)

lemma length_realloc_slots [size_arith]:
  "n \<le> SIZE_MAX div 8 \<Longrightarrow> length (realloc_slots xs n) = n"
  by (simp add: realloc_slots_def slots_bytes_div)

lemma take_realloc_slots [size_arith]:
  "n \<le> SIZE_MAX div 8 \<Longrightarrow> k \<le> length xs \<Longrightarrow> k \<le> n \<Longrightarrow> take k (realloc_slots xs n) = take k xs"
  by (simp add: realloc_slots_def slots_bytes_div min_def)

lemma take_list_update_last:
  "n < length xs \<Longrightarrow> take (Suc n) (xs[n := x]) = take n xs @ [x]"
  by (simp add: take_Suc_conv_app_nth)

lemma find_append: "List.find P (xs @ ys) = (case List.find P xs of None \<Rightarrow> List.find P ys | Some x \<Rightarrow> Some x)"
  by (induction xs) auto

section \<open>Enumeration with a callback that can stop it\<close>

text \<open>
  Several containers walk their elements with a callback that updates a user state and
  returns whether to continue.  \<open>visit_list\<close> is the reference: the walk over the list of the
  elements, starting from and ending in a stop flag and a user state.
\<close>

definition visit_step :: "('e \<Rightarrow> 's \<Rightarrow> bool \<times> 's) \<Rightarrow> 'e \<Rightarrow> bool \<times> 's \<Rightarrow> bool \<times> 's" where
  "visit_step fn e st = (case st of (stop, ud) \<Rightarrow>
     if stop then (stop, ud) else case fn e ud of (cont, ud') \<Rightarrow> (\<not> cont, ud'))"

definition visit_list :: "('e \<Rightarrow> 's \<Rightarrow> bool \<times> 's) \<Rightarrow> 'e list \<Rightarrow> bool \<times> 's \<Rightarrow> bool \<times> 's" where
  "visit_list fn xs st = fold (visit_step fn) xs st"

lemma visit_Nil [simp]: "visit_list fn [] st = st"
  by (simp add: visit_list_def)

lemma visit_append [simp]: "visit_list fn (xs @ ys) st = visit_list fn ys (visit_list fn xs st)"
  by (simp add: visit_list_def)

lemma visit_Cons: "visit_list fn (e # xs) st = visit_list fn xs (visit_step fn e st)"
  by (simp add: visit_list_def)

lemma visit_stopped [simp]: "visit_list fn xs (True, ud) = (True, ud)"
  by (induction xs) (simp_all add: visit_Cons visit_step_def)

end
