(* ===== verification/Vec.thy ===== *)
theory Vec
  imports Libop_Prelude
begin

text \<open>
  \<^verbatim>\<open>src/vec.c\<close> and the inline part of \<^verbatim>\<open>include/op_vec.h\<close>: the growable pointer vector.
  \<open>vec_list\<close> abstracts a vector to the list of its live elements; every operation is shown
  to be the list operation it stands for, to keep \<open>vec_inv\<close>, and to stay inside the
  allocated block.
\<close>

section \<open>State and capacity policy\<close>

record 'a op_vec =
  vec_data :: "'a ptr list"
  vec_size :: nat
  vec_cap :: nat

definition VEC_DEFAULT_CAP :: nat where
  "VEC_DEFAULT_CAP = 8"

definition vec_resize :: "'a op_vec \<Rightarrow> nat \<Rightarrow> 'a op_vec" where
  "vec_resize v new_cap = v\<lparr>vec_data := realloc_slots (vec_data v) new_cap, vec_cap := new_cap\<rparr>"

definition vec_maybe_grow :: "'a op_vec \<Rightarrow> 'a op_vec option" where
  "vec_maybe_grow v =
     (if vec_size v < vec_cap v then Some v
      else let new_cap = (if vec_cap v \<noteq> 0 then wrap64 (vec_cap v * 2) else VEC_DEFAULT_CAP)
        in if new_cap < vec_cap v \<or> SIZE_MAX div 8 < new_cap then None
           else Some (vec_resize v new_cap))"

definition vec_maybe_shrink :: "'a op_vec \<Rightarrow> 'a op_vec" where
  "vec_maybe_shrink v =
     (if vec_cap v \<le> VEC_DEFAULT_CAP then v
      else if vec_size v > vec_cap v div 4 then v
      else let new_cap = vec_cap v div 2;
               new_cap = (if new_cap < VEC_DEFAULT_CAP then VEC_DEFAULT_CAP else new_cap)
        in vec_resize v new_cap)"

section \<open>Lifecycle\<close>

definition op_vec_init :: "nat \<Rightarrow> 'a op_vec" where
  "op_vec_init initial_cap =
     (let cap = (if initial_cap > 0 then initial_cap else VEC_DEFAULT_CAP)
      in \<lparr>vec_data = alloc_slots cap, vec_size = 0, vec_cap = cap\<rparr>)"

text \<open>
  A callback that frees elements is modelled by the sequence of elements it is called on;
  \<open>has_cb\<close> says whether the pointer is non-NULL.
\<close>

definition op_vec_fini :: "'a op_vec \<Rightarrow> bool \<Rightarrow> 'a op_vec \<times> 'a ptr list" where
  "op_vec_fini v has_cb =
     (v\<lparr>vec_data := [], vec_size := 0, vec_cap := 0\<rparr>,
      if has_cb then take (vec_size v) (vec_data v) else [])"

section \<open>Mutation\<close>

definition op_vec_push :: "'a op_vec \<Rightarrow> 'a ptr \<Rightarrow> 'a op_vec option" where
  "op_vec_push v elem = do {
     v \<leftarrow> vec_maybe_grow v;
     d \<leftarrow> arr_set (vec_data v) (vec_size v) elem;
     Some (v\<lparr>vec_data := d, vec_size := vec_size v + 1\<rparr>)
   }"

definition op_vec_pop :: "'a op_vec \<Rightarrow> ('a ptr \<times> 'a op_vec) option" where
  "op_vec_pop v =
     (if vec_size v = 0 then Some (NULL, v)
      else do {
        elem \<leftarrow> arr_get (vec_data v) (vec_size v - 1);
        Some (elem, vec_maybe_shrink (v\<lparr>vec_size := vec_size v - 1\<rparr>))
      })"

definition op_vec_insert :: "'a op_vec \<Rightarrow> nat \<Rightarrow> 'a ptr \<Rightarrow> 'a op_vec option" where
  "op_vec_insert v idx elem = (let idx = (if idx > vec_size v then vec_size v else idx) in do {
     v \<leftarrow> vec_maybe_grow v;
     d \<leftarrow> (if idx < vec_size v
           then arr_move (vec_data v) (idx + 1) idx (vec_size v - idx)
           else Some (vec_data v));
     d \<leftarrow> arr_set d idx elem;
     Some (v\<lparr>vec_data := d, vec_size := vec_size v + 1\<rparr>)
   })"

definition op_vec_remove :: "'a op_vec \<Rightarrow> nat \<Rightarrow> ('a ptr \<times> 'a op_vec) option" where
  "op_vec_remove v idx =
     (if vec_size v \<le> idx then Some (NULL, v)
      else do {
        elem \<leftarrow> arr_get (vec_data v) idx;
        d \<leftarrow> (if idx < vec_size v - 1
              then arr_move (vec_data v) idx (idx + 1) (vec_size v - idx - 1)
              else Some (vec_data v));
        Some (elem, vec_maybe_shrink (v\<lparr>vec_data := d, vec_size := vec_size v - 1\<rparr>))
      })"

definition op_vec_remove_fast :: "'a op_vec \<Rightarrow> nat \<Rightarrow> ('a ptr \<times> 'a op_vec) option" where
  "op_vec_remove_fast v idx =
     (if vec_size v \<le> idx then Some (NULL, v)
      else do {
        elem \<leftarrow> arr_get (vec_data v) idx;
        lst \<leftarrow> arr_get (vec_data v) (vec_size v - 1);
        d \<leftarrow> arr_set (vec_data v) idx lst;
        Some (elem, vec_maybe_shrink (v\<lparr>vec_data := d, vec_size := vec_size v - 1\<rparr>))
      })"

definition op_vec_clear :: "'a op_vec \<Rightarrow> bool \<Rightarrow> 'a op_vec \<times> 'a ptr list" where
  "op_vec_clear v has_cb =
     (v\<lparr>vec_size := 0\<rparr>, if has_cb then take (vec_size v) (vec_data v) else [])"

definition op_vec_reserve :: "'a op_vec \<Rightarrow> nat \<Rightarrow> 'a op_vec" where
  "op_vec_reserve v new_cap = (if new_cap > vec_cap v then vec_resize v new_cap else v)"

definition op_vec_shrink :: "'a op_vec \<Rightarrow> 'a op_vec" where
  "op_vec_shrink v =
     (if vec_size v = 0
      then v\<lparr>vec_data := alloc_slots VEC_DEFAULT_CAP, vec_cap := VEC_DEFAULT_CAP\<rparr>
      else if vec_size v < vec_cap v then vec_resize v (vec_size v) else v)"

section \<open>Search\<close>

function vec_find_from :: "'a op_vec \<Rightarrow> ('a ptr \<Rightarrow> int) \<Rightarrow> nat \<Rightarrow> nat option" where
  "vec_find_from v cmp i =
     (if i < vec_size v
      then do { x \<leftarrow> arr_get (vec_data v) i;
                if cmp x = 0 then Some i else vec_find_from v cmp (i + 1) }
      else Some SIZE_MAX)"
  by pat_completeness auto
termination
  by (relation "measure (\<lambda>(v, cmp, i). vec_size v - i)") auto

definition op_vec_find :: "'a op_vec \<Rightarrow> ('a ptr \<Rightarrow> int) \<Rightarrow> nat option" where
  "op_vec_find v cmp = vec_find_from v cmp 0"

function vec_bsearch_loop :: "'a op_vec \<Rightarrow> ('a ptr \<Rightarrow> int) \<Rightarrow> nat \<Rightarrow> nat \<Rightarrow> nat option" where
  "vec_bsearch_loop v cmp lo hi =
     (if lo < hi
      then let mid = lo + (hi - lo) div 2 in do {
        x \<leftarrow> arr_get (vec_data v) mid;
        (if cmp x = 0 then Some mid
         else if cmp x < 0 then vec_bsearch_loop v cmp (mid + 1) hi
         else vec_bsearch_loop v cmp lo mid)
      }
      else Some SIZE_MAX)"
  by pat_completeness auto
termination
  by (relation "measure (\<lambda>(v, cmp, lo, hi). hi - lo)") auto

definition op_vec_bsearch :: "'a op_vec \<Rightarrow> ('a ptr \<Rightarrow> int) \<Rightarrow> nat option" where
  "op_vec_bsearch v cmp = vec_bsearch_loop v cmp 0 (vec_size v)"

text \<open>\<^verbatim>\<open>qsort\<close> of the C library is a parameter: it permutes the block it is given.\<close>

definition op_vec_sort :: "('a ptr list \<Rightarrow> 'a ptr list) \<Rightarrow> 'a op_vec \<Rightarrow> 'a op_vec" where
  "op_vec_sort qsort v =
     (if vec_size v > 1
      then v\<lparr>vec_data := qsort (take (vec_size v) (vec_data v)) @ drop (vec_size v) (vec_data v)\<rparr>
      else v)"

section \<open>Inline helpers of the header\<close>

definition op_vec_get :: "'a op_vec \<Rightarrow> nat \<Rightarrow> 'a ptr option" where
  "op_vec_get v idx = arr_get (vec_data v) idx"

definition op_vec_set :: "'a op_vec \<Rightarrow> nat \<Rightarrow> 'a ptr \<Rightarrow> 'a op_vec option" where
  "op_vec_set v idx elem = do {
     d \<leftarrow> arr_set (vec_data v) idx elem; Some (v\<lparr>vec_data := d\<rparr>) }"

function vec_remove_ptr_from :: "'a op_vec \<Rightarrow> 'a ptr \<Rightarrow> nat \<Rightarrow> 'a op_vec option" where
  "vec_remove_ptr_from v p i =
     (if i < vec_size v
      then do {
        x \<leftarrow> arr_get (vec_data v) i;
        (if x = p then map_option snd (op_vec_remove_fast v i)
         else vec_remove_ptr_from v p (i + 1))
      }
      else Some v)"
  by pat_completeness auto
termination
  by (relation "measure (\<lambda>(v, p, i). vec_size v - i)") auto

definition op_vec_remove_ptr :: "'a op_vec \<Rightarrow> 'a ptr \<Rightarrow> 'a op_vec option" where
  "op_vec_remove_ptr v p = vec_remove_ptr_from v p 0"

function vec_contains_from :: "'a op_vec \<Rightarrow> 'a ptr \<Rightarrow> nat \<Rightarrow> bool option" where
  "vec_contains_from v p i =
     (if i < vec_size v
      then do { x \<leftarrow> arr_get (vec_data v) i;
                if x = p then Some True else vec_contains_from v p (i + 1) }
      else Some False)"
  by pat_completeness auto
termination
  by (relation "measure (\<lambda>(v, p, i). vec_size v - i)") auto

definition op_vec_contains :: "'a op_vec \<Rightarrow> 'a ptr \<Rightarrow> bool option" where
  "op_vec_contains v p = vec_contains_from v p 0"

definition op_vec_move_ptr :: "'a op_vec \<Rightarrow> 'a op_vec \<Rightarrow> 'a ptr \<Rightarrow> ('a op_vec \<times> 'a op_vec) option" where
  "op_vec_move_ptr src dst p = do {
     src \<leftarrow> op_vec_remove_ptr src p;
     dst \<leftarrow> op_vec_push dst p;
     Some (src, dst) }"

text \<open>The callback of \<^verbatim>\<open>op_vec_foreach\<close> updates a user state and stops the walk by a non-zero return.\<close>

fun vec_foreach_list :: "('a ptr \<Rightarrow> 's \<Rightarrow> int \<times> 's) \<Rightarrow> 'a ptr list \<Rightarrow> 's \<Rightarrow> 's" where
  "vec_foreach_list cb [] ud = ud"
| "vec_foreach_list cb (x # xs) ud =
     (case cb x ud of (r, ud') \<Rightarrow> if r \<noteq> 0 then ud' else vec_foreach_list cb xs ud')"

definition op_vec_foreach :: "'a op_vec \<Rightarrow> ('a ptr \<Rightarrow> 's \<Rightarrow> int \<times> 's) \<Rightarrow> 's \<Rightarrow> 's" where
  "op_vec_foreach v cb ud = vec_foreach_list cb (take (vec_size v) (vec_data v)) ud"

section \<open>Abstraction and invariant\<close>

definition vec_list :: "'a op_vec \<Rightarrow> 'a ptr list" where
  "vec_list v = take (vec_size v) (vec_data v)"

definition vec_inv :: "'a op_vec \<Rightarrow> bool" where
  "vec_inv v \<longleftrightarrow> length (vec_data v) = vec_cap v \<and> vec_size v \<le> vec_cap v
     \<and> vec_cap v \<le> SIZE_MAX div 8"

definition cmp_sorted :: "('a ptr \<Rightarrow> int) \<Rightarrow> 'a ptr list \<Rightarrow> bool" where
  "cmp_sorted cmp xs \<longleftrightarrow> sorted (map (\<lambda>x. sgn (cmp x)) xs)"

text \<open>The contract a client sees: a sequence with bag operations on pointers.\<close>

locale ptr_sequence =
  fixes add :: "'v \<Rightarrow> 'a ptr \<Rightarrow> 'v option"
    and drop_ptr :: "'v \<Rightarrow> 'a ptr \<Rightarrow> 'v option"
    and contents :: "'v \<Rightarrow> 'a ptr list"
    and invar :: "'v \<Rightarrow> bool"
    and room :: "'v \<Rightarrow> bool"
  assumes add_spec: "invar v \<Longrightarrow> room v \<Longrightarrow>
      \<exists>v'. add v x = Some v' \<and> invar v' \<and> contents v' = contents v @ [x]"
    and drop_spec: "invar v \<Longrightarrow>
      \<exists>v'. drop_ptr v x = Some v' \<and> invar v' \<and> mset (contents v') = mset (contents v) - {#x#}"
begin

lemma add_then_drop:
  assumes "invar v" and "room v" and "add v x = Some w" and "drop_ptr w x = Some u"
  shows "mset (contents u) = mset (contents v)"
  using add_spec [OF assms(1,2), of x] drop_spec [of w x] assms(3,4) by auto

lemma drop_keeps_others:
  assumes "invar v" and "drop_ptr v x = Some w" and "y \<noteq> x"
  shows "y \<in> set (contents w) \<longleftrightarrow> y \<in> set (contents v)"
proof -
  have "mset (contents w) = mset (contents v) - {#x#}"
    using drop_spec [OF assms(1), of x] assms(2) by auto
  then have "y \<in># mset (contents w) \<longleftrightarrow> y \<in># mset (contents v)"
    using assms(3) by (simp add: in_diff_count)
  then show ?thesis by simp
qed

end

named_theorems vec_defs \<open>abstraction and invariant of vectors unfolded\<close>

declare vec_list_def [vec_defs] vec_inv_def [vec_defs]

lemma SIZE_MAX_div8: "SIZE_MAX div 8 = 2305843009213693951"
  by (simp add: SIZE_MAX_def W64_def)

lemma length_vec_list: "vec_inv v \<Longrightarrow> length (vec_list v) = vec_size v"
  by (simp add: vec_defs)

lemma nth_vec_list: "i < vec_size v \<Longrightarrow> vec_list v ! i = vec_data v ! i"
  by (simp add: vec_list_def)

lemma last_vec_list:
  "vec_inv v \<Longrightarrow> 0 < vec_size v \<Longrightarrow> last (vec_list v) = vec_data v ! (vec_size v - 1)"
  by (subst last_conv_nth) (auto simp: vec_defs)

lemma vec_resize_spec:
  "vec_inv v \<Longrightarrow> vec_size v \<le> n \<Longrightarrow> n \<le> SIZE_MAX div 8 \<Longrightarrow>
     vec_inv (vec_resize v n) \<and> vec_list (vec_resize v n) = vec_list v"
  by (simp add: vec_defs vec_resize_def length_realloc_slots take_realloc_slots)

lemma vec_resize_simps [simp]:
  "vec_size (vec_resize v n) = vec_size v" "vec_cap (vec_resize v n) = n"
  by (simp_all add: vec_resize_def)

lemma vec_maybe_grow_spec:
  assumes inv: "vec_inv v" and room: "vec_size v < 2 ^ 60"
  shows "\<exists>w. vec_maybe_grow v = Some w \<and> vec_inv w \<and> vec_list w = vec_list v
           \<and> vec_size w = vec_size v \<and> vec_size w < vec_cap w"
proof (cases "vec_size v < vec_cap v")
  case True
  then show ?thesis using inv by (simp add: vec_maybe_grow_def)
next
  case False
  then have full: "vec_size v = vec_cap v" using inv by (simp add: vec_inv_def)
  define n where "n = (if vec_cap v \<noteq> 0 then wrap64 (vec_cap v * 2) else VEC_DEFAULT_CAP)"
  have "wrap64 (vec_cap v * 2) = vec_cap v * 2"
    using full room by (intro wrap64_small) (simp add: W64_def)
  then have n: "vec_size v < n" "n \<le> SIZE_MAX div 8"
    using full room by (auto simp: n_def VEC_DEFAULT_CAP_def SIZE_MAX_div8)
  then have "vec_maybe_grow v = Some (vec_resize v n)"
    using False full unfolding vec_maybe_grow_def n_def [symmetric] Let_def by simp
  with vec_resize_spec [OF inv, of n] n show ?thesis by simp
qed

lemma vec_maybe_shrink_spec:
  assumes "vec_inv v"
  shows "vec_inv (vec_maybe_shrink v) \<and> vec_list (vec_maybe_shrink v) = vec_list v"
proof -
  define n where "n = (if vec_cap v div 2 < VEC_DEFAULT_CAP then VEC_DEFAULT_CAP else vec_cap v div 2)"
  have "n \<le> SIZE_MAX div 8"
    using assms by (auto simp: n_def vec_inv_def VEC_DEFAULT_CAP_def SIZE_MAX_div8)
  moreover have "vec_size v \<le> vec_cap v div 4 \<Longrightarrow> vec_size v \<le> n"
    by (auto simp: n_def)
  ultimately show ?thesis
    using vec_resize_spec [OF assms, of n] assms
    by (simp add: vec_maybe_shrink_def n_def [symmetric] Let_def)
qed

lemma vec_maybe_shrink_size [simp]: "vec_size (vec_maybe_shrink v) = vec_size v"
  by (simp add: vec_maybe_shrink_def Let_def)

section \<open>Functional behaviour\<close>

lemma op_vec_init_spec:
  "n \<le> SIZE_MAX div 8 \<Longrightarrow> vec_inv (op_vec_init n) \<and> vec_list (op_vec_init n) = []"
  by (auto simp: vec_defs op_vec_init_def Let_def length_alloc_slots VEC_DEFAULT_CAP_def SIZE_MAX_div8)

lemma op_vec_push_spec:
  assumes "vec_inv v" and "vec_size v < 2 ^ 60"
  shows "\<exists>w. op_vec_push v x = Some w \<and> vec_inv w \<and> vec_list w = vec_list v @ [x]"
proof -
  obtain u where u: "vec_maybe_grow v = Some u" "vec_inv u" "vec_list u = vec_list v"
      "vec_size u < vec_cap u"
    using vec_maybe_grow_spec [OF assms] by blast
  then have "op_vec_push v x =
      Some (u\<lparr>vec_data := (vec_data u)[vec_size u := x], vec_size := vec_size u + 1\<rparr>)"
    by (simp add: op_vec_push_def vec_inv_def)
  with u show ?thesis by (simp add: vec_defs take_list_update_last)
qed

lemma op_vec_pop_spec:
  assumes "vec_inv v"
  shows "\<exists>w. op_vec_pop v = Some (if vec_list v = [] then NULL else last (vec_list v), w)
           \<and> vec_inv w \<and> vec_list w = butlast (vec_list v)"
proof (cases "vec_size v = 0")
  case True
  then show ?thesis using assms by (simp add: op_vec_pop_def vec_list_def)
next
  case False
  let ?u = "v\<lparr>vec_size := vec_size v - 1\<rparr>"
  have lt: "vec_size v - 1 < length (vec_data v)" using False assms by (auto simp: vec_inv_def)
  then have "op_vec_pop v = Some (vec_data v ! (vec_size v - 1), vec_maybe_shrink ?u)"
    using False by (simp add: op_vec_pop_def)
  moreover have "vec_inv ?u" "vec_list ?u = butlast (vec_list v)"
    using False assms by (auto simp add: vec_defs butlast_take)
  moreover have "vec_list v \<noteq> []" "last (vec_list v) = vec_data v ! (vec_size v - 1)"
    using False assms lt last_vec_list [OF assms] by (auto simp: vec_defs)
  ultimately show ?thesis using vec_maybe_shrink_spec [of ?u] by auto
qed

lemma vec_list_shift_up:
  assumes "i \<le> n" and "n < length d"
  shows "take (Suc n) ((take (Suc i) d @ take (n - i) (drop i d) @ drop (Suc n) d)[i := x])
           = take i (take n d) @ x # drop i (take n d)"
proof -
  have "take (Suc i) d = take i d @ [d ! i]"
    using assms by (simp add: take_Suc_conv_app_nth)
  then show ?thesis
    using assms by (auto simp add: list_update_append min_def drop_take Suc_diff_le)
qed

lemma op_vec_insert_spec:
  assumes "vec_inv v" and "vec_size v < 2 ^ 60"
  shows "\<exists>w. op_vec_insert v i x = Some w \<and> vec_inv w
           \<and> vec_list w = take i (vec_list v) @ x # drop i (vec_list v)"
proof -
  define j where "j = (if i > vec_size v then vec_size v else i)"
  obtain u where u: "vec_maybe_grow v = Some u" "vec_inv u" "vec_list u = vec_list v"
      "vec_size u = vec_size v" "vec_size u < vec_cap u"
    using vec_maybe_grow_spec [OF assms] by blast
  have j: "j \<le> vec_size u" by (simp add: j_def u(4))
  define d where "d = (if j < vec_size u
      then take (j + 1) (vec_data u) @ take (vec_size u - j) (drop j (vec_data u))
             @ drop (j + 1 + (vec_size u - j)) (vec_data u)
      else vec_data u)"
  have move: "(if j < vec_size u then arr_move (vec_data u) (j + 1) j (vec_size u - j)
      else Some (vec_data u)) = Some d"
    using j u(2,5) by (auto simp: d_def arr_move_def vec_inv_def)
  have len: "length d = vec_cap u"
    using j u(2,5) by (auto simp: d_def vec_inv_def)
  let ?w = "u\<lparr>vec_data := d[j := x], vec_size := vec_size u + 1\<rparr>"
  have "op_vec_insert v i x = Some ?w"
    unfolding op_vec_insert_def Let_def j_def [symmetric] u(1)
    using move j len u(5) by simp
  moreover have "take (Suc (vec_size u)) (d[j := x])
      = take j (vec_list u) @ x # drop j (vec_list u)"
  proof (cases "j < vec_size u")
    case True
    then have "d = take (Suc j) (vec_data u) @ take (vec_size u - j) (drop j (vec_data u))
        @ drop (Suc (vec_size u)) (vec_data u)"
      by (simp add: d_def)
    then show ?thesis using vec_list_shift_up [OF j, of "vec_data u" x] u(2,5)
      by (simp add: vec_defs)
  next
    case False
    then show ?thesis using j u(2,5) by (simp add: d_def vec_defs take_list_update_last)
  qed
  moreover have "take j (vec_list v) = take i (vec_list v)" "drop j (vec_list v) = drop i (vec_list v)"
    using length_vec_list [OF assms(1)] by (auto simp: j_def)
  ultimately show ?thesis
    using u len by (auto simp: vec_inv_def vec_list_def [of "u\<lparr>vec_data := _, vec_size := _\<rparr>"])
qed

lemma op_vec_remove_spec:
  assumes "vec_inv v"
  shows "\<exists>w. op_vec_remove v i = Some (if i < length (vec_list v) then vec_list v ! i else NULL, w)
           \<and> vec_inv w \<and> vec_list w = take i (vec_list v) @ drop (Suc i) (vec_list v)"
proof (cases "i < vec_size v")
  case False
  then show ?thesis using assms length_vec_list [OF assms] by (simp add: op_vec_remove_def)
next
  case True
  define d where "d = (if i < vec_size v - 1
      then take i (vec_data v) @ take (vec_size v - i - 1) (drop (i + 1) (vec_data v))
             @ drop (i + (vec_size v - i - 1)) (vec_data v)
      else vec_data v)"
  let ?u = "v\<lparr>vec_data := d, vec_size := vec_size v - 1\<rparr>"
  have len: "length d = vec_cap v" using True assms by (auto simp: d_def vec_inv_def)
  have "op_vec_remove v i = Some (vec_data v ! i, vec_maybe_shrink ?u)"
    using True assms by (auto simp: op_vec_remove_def d_def arr_move_def vec_inv_def)
  moreover have "vec_inv ?u" using assms len by (auto simp: vec_inv_def)
  moreover have "vec_list ?u = take i (vec_list v) @ drop (Suc i) (vec_list v)"
  proof (cases "i < vec_size v - 1")
    case False
    then have "vec_size v = Suc i" using True by simp
    then show ?thesis using assms by (simp add: vec_defs d_def)
  next
    case lt: True
    then show ?thesis using assms by (auto simp: vec_defs d_def min_def drop_take)
  qed
  ultimately show ?thesis
    using True length_vec_list [OF assms] vec_maybe_shrink_spec [of ?u] by (simp add: nth_vec_list)
qed

lemma op_vec_remove_fast_spec:
  assumes "vec_inv v"
  shows "\<exists>w. op_vec_remove_fast v i = Some (if i < length (vec_list v) then vec_list v ! i else NULL, w)
           \<and> vec_inv w
           \<and> vec_list w = (if i < length (vec_list v)
                then butlast ((vec_list v)[i := last (vec_list v)]) else vec_list v)"
proof (cases "i < vec_size v")
  case False
  then show ?thesis using assms length_vec_list [OF assms] by (simp add: op_vec_remove_fast_def)
next
  case True
  let ?u = "v\<lparr>vec_data := (vec_data v)[i := vec_data v ! (vec_size v - 1)], vec_size := vec_size v - 1\<rparr>"
  have "op_vec_remove_fast v i = Some (vec_data v ! i, vec_maybe_shrink ?u)"
    using True assms by (auto simp: op_vec_remove_fast_def vec_inv_def)
  moreover have "vec_inv ?u" using assms by (auto simp: vec_inv_def)
  moreover have "last (vec_list v) = vec_data v ! (vec_size v - 1)"
    using True last_vec_list [OF assms] by simp
  moreover have "vec_list ?u = butlast ((vec_list v)[i := vec_data v ! (vec_size v - 1)])"
    using True assms
    by (auto simp: vec_defs take_update_swap butlast_take butlast_list_update list_update_beyond)
  ultimately show ?thesis
    using True length_vec_list [OF assms] vec_maybe_shrink_spec [of ?u] by (simp add: nth_vec_list)
qed


lemma mset_butlast_swap:
  assumes "i < length xs"
  shows "mset (butlast (xs[i := last xs])) = mset xs - {#xs ! i#}"
proof -
  have ne: "xs \<noteq> []" using assms by auto
  have l: "last (xs[i := last xs]) = last xs"
    using ne by (simp add: last_list_update)
  have "mset (butlast (xs[i := last xs])) + {#last xs#} = mset (xs[i := last xs])"
    using append_butlast_last_id [of "xs[i := last xs]"] ne l
    by (metis list_update_nonempty mset_append mset_single_iff union_commute mset.simps(1) mset.simps(2) add_mset_add_single)
  also have "\<dots> = mset xs - {#xs ! i#} + {#last xs#}"
    using assms by (simp add: mset_update)
  finally show ?thesis by simp
qed

lemma op_vec_reserve_spec:
  "vec_inv v \<Longrightarrow> n \<le> SIZE_MAX div 8 \<Longrightarrow>
     vec_inv (op_vec_reserve v n) \<and> vec_list (op_vec_reserve v n) = vec_list v"
  using vec_resize_spec [of v n] by (auto simp: op_vec_reserve_def vec_inv_def)

lemma op_vec_shrink_spec:
  assumes "vec_inv v"
  shows "vec_inv (op_vec_shrink v) \<and> vec_list (op_vec_shrink v) = vec_list v"
proof (cases "vec_size v = 0")
  case True
  then show ?thesis using assms
    by (auto simp: op_vec_shrink_def vec_defs length_alloc_slots VEC_DEFAULT_CAP_def SIZE_MAX_div8)
next
  case False
  then show ?thesis using assms vec_resize_spec [OF assms, of "vec_size v"]
    by (auto simp: op_vec_shrink_def vec_inv_def)
qed

declare vec_find_from.simps [simp del] vec_bsearch_loop.simps [simp del]
  vec_remove_ptr_from.simps [simp del] vec_contains_from.simps [simp del]

text \<open>
  The linear searches visit the elements in order: the result is described on the part of
  the list that is still to be scanned.
\<close>

lemma vec_find_from_spec:
  assumes "vec_inv v"
  shows "i \<le> vec_size v \<Longrightarrow> \<exists>r. vec_find_from v cmp i = Some r
     \<and> (if \<exists>j. i \<le> j \<and> j < vec_size v \<and> cmp (vec_list v ! j) = 0
         then i \<le> r \<and> r < vec_size v \<and> cmp (vec_list v ! r) = 0
            \<and> (\<forall>j. i \<le> j \<and> j < r \<longrightarrow> cmp (vec_list v ! j) \<noteq> 0)
         else r = SIZE_MAX)"
proof (induction "vec_size v - i" arbitrary: i)
  case 0
  then show ?case by (auto simp: vec_find_from.simps [of v cmp i])
next
  case (Suc n)
  then have lt: "i < vec_size v" by simp
  then have get: "arr_get (vec_data v) i = Some (vec_list v ! i)"
    using assms by (simp add: vec_inv_def nth_vec_list)
  show ?case
  proof (cases "cmp (vec_list v ! i) = 0")
    case True
    then have "vec_find_from v cmp i = Some i"
      using lt get by (simp add: vec_find_from.simps [of v cmp i])
    then show ?thesis using lt True by auto
  next
    case False
    then have "vec_find_from v cmp i = vec_find_from v cmp (Suc i)"
      using lt get by (simp add: vec_find_from.simps [of v cmp i])
    moreover have "n = vec_size v - Suc i" "Suc i \<le> vec_size v" using Suc.hyps(2) lt by auto
    ultimately obtain r where r: "vec_find_from v cmp i = Some r"
        "if \<exists>j. Suc i \<le> j \<and> j < vec_size v \<and> cmp (vec_list v ! j) = 0
         then Suc i \<le> r \<and> r < vec_size v \<and> cmp (vec_list v ! r) = 0
            \<and> (\<forall>j. Suc i \<le> j \<and> j < r \<longrightarrow> cmp (vec_list v ! j) \<noteq> 0)
         else r = SIZE_MAX"
      using Suc.hyps(1) [of "Suc i"] by auto
    have skip: "i \<le> j \<and> cmp (vec_list v ! j) = 0 \<longleftrightarrow> Suc i \<le> j \<and> cmp (vec_list v ! j) = 0" for j
      using False by (metis Suc_leD le_neq_implies_less Suc_leI)
    then have "(\<exists>j. i \<le> j \<and> j < vec_size v \<and> cmp (vec_list v ! j) = 0)
        = (\<exists>j. Suc i \<le> j \<and> j < vec_size v \<and> cmp (vec_list v ! j) = 0)"
      by metis
    with r skip show ?thesis by (metis Suc_leD)
  qed
qed

lemma vec_remove_ptr_from_spec:
  assumes "vec_inv v"
  shows "i \<le> vec_size v \<Longrightarrow> p \<notin> set (take i (vec_list v)) \<Longrightarrow>
     \<exists>w. vec_remove_ptr_from v p i = Some w \<and> vec_inv w
       \<and> mset (vec_list w) = mset (vec_list v) - {#p#}"
proof (induction "vec_size v - i" arbitrary: i)
  case 0
  then have "p \<notin> set (vec_list v)" using length_vec_list [OF assms] by simp
  then show ?case using 0 assms by (simp add: vec_remove_ptr_from.simps [of v p i])
next
  case (Suc n)
  then have lt: "i < vec_size v" by simp
  then have get: "arr_get (vec_data v) i = Some (vec_list v ! i)"
    using assms by (simp add: vec_inv_def nth_vec_list)
  have il: "i < length (vec_list v)" using lt length_vec_list [OF assms] by simp
  show ?case
  proof (cases "vec_list v ! i = p")
    case True
    then have "vec_remove_ptr_from v p i = map_option snd (op_vec_remove_fast v i)"
      using lt get by (simp add: vec_remove_ptr_from.simps [of v p i])
    then show ?thesis
      using op_vec_remove_fast_spec [OF assms, of i] il True mset_butlast_swap [OF il] by auto
  next
    case False
    then have "vec_remove_ptr_from v p i = vec_remove_ptr_from v p (Suc i)"
      using lt get by (simp add: vec_remove_ptr_from.simps [of v p i])
    moreover have "p \<notin> set (take (Suc i) (vec_list v))"
      using Suc.prems(2) False il by (simp add: take_Suc_conv_app_nth)
    moreover have "n = vec_size v - Suc i" using Suc.hyps(2) by simp
    ultimately show ?thesis using Suc.hyps(1) [of "Suc i"] lt by simp
  qed
qed

lemma op_vec_remove_ptr_spec:
  "vec_inv v \<Longrightarrow> \<exists>w. op_vec_remove_ptr v p = Some w \<and> vec_inv w
       \<and> mset (vec_list w) = mset (vec_list v) - {#p#}"
  using vec_remove_ptr_from_spec [of v 0 p] by (simp add: op_vec_remove_ptr_def)

interpretation vecs: ptr_sequence op_vec_push op_vec_remove_ptr vec_list vec_inv
    "\<lambda>v. vec_size v < 2 ^ 60"
  by unfold_locales (rule op_vec_push_spec op_vec_remove_ptr_spec, assumption+)+

text \<open>
  Binary search over a vector whose comparison values are sorted (negative before zero
  before positive) finds a matching element exactly when there is one.
\<close>

lemma cmp_sorted_nth:
  assumes "cmp_sorted cmp xs" and "i \<le> j" and "j < length xs"
  shows "sgn (cmp (xs ! i)) \<le> sgn (cmp (xs ! j))"
  using assms sorted_nth_mono [of "map (\<lambda>x. sgn (cmp x)) xs" i j]
  by (simp add: cmp_sorted_def)

text \<open>
  The matching elements of an ordered vector are those from \<open>first_match\<close> up to \<open>end_match\<close>.
\<close>

definition first_match :: "('a ptr \<Rightarrow> int) \<Rightarrow> 'a ptr list \<Rightarrow> nat" where
  "first_match cmp xs = length (takeWhile (\<lambda>x. cmp x < 0) xs)"

definition end_match :: "('a ptr \<Rightarrow> int) \<Rightarrow> 'a ptr list \<Rightarrow> nat" where
  "end_match cmp xs = length (takeWhile (\<lambda>x. cmp x \<le> 0) xs)"

lemma takeWhile_index:
  assumes "\<And>i j. i \<le> j \<Longrightarrow> j < length xs \<Longrightarrow> P (xs ! j) \<Longrightarrow> P (xs ! i)" and "i < length xs"
  shows "P (xs ! i) \<longleftrightarrow> i < length (takeWhile P xs)"
proof
  let ?n = "length (takeWhile P xs)"
  show "i < ?n \<Longrightarrow> P (xs ! i)" by (metis nth_mem set_takeWhileD takeWhile_nth)
  show "P (xs ! i) \<Longrightarrow> i < ?n"
  proof (rule ccontr)
    assume "P (xs ! i)" and n: "\<not> i < ?n"
    then have "P (xs ! ?n)" "?n < length xs" using assms(1) [of ?n i] assms(2) by auto
    then show False using nth_length_takeWhile by blast
  qed
qed

lemma match_range:
  assumes "cmp_sorted cmp xs" and "i < length xs"
  shows "cmp (xs ! i) < 0 \<longleftrightarrow> i < first_match cmp xs" and "cmp (xs ! i) \<le> 0 \<longleftrightarrow> i < end_match cmp xs"
proof -
  have mono: "sgn (cmp (xs ! i)) \<le> sgn (cmp (xs ! j))" if "i \<le> j" "j < length xs" for i j
    by (rule cmp_sorted_nth [OF assms(1) that])
  show "cmp (xs ! i) < 0 \<longleftrightarrow> i < first_match cmp xs"
    unfolding first_match_def
  proof (rule takeWhile_index [OF _ assms(2)])
    fix i j assume "i \<le> j" "j < length xs" "cmp (xs ! j) < 0"
    then show "cmp (xs ! i) < 0" using mono [of i j] by (simp add: sgn_if split: if_splits)
  qed
  show "cmp (xs ! i) \<le> 0 \<longleftrightarrow> i < end_match cmp xs"
    unfolding end_match_def
  proof (rule takeWhile_index [OF _ assms(2)])
    fix i j assume "i \<le> j" "j < length xs" "cmp (xs ! j) \<le> 0"
    then show "cmp (xs ! i) \<le> 0" using mono [of i j] by (simp add: sgn_if split: if_splits)
  qed
qed

lemma end_match_le: "end_match cmp xs \<le> length xs" "first_match cmp xs \<le> end_match cmp xs"
proof -
  show "end_match cmp xs \<le> length xs" by (simp add: end_match_def length_takeWhile_le)
  show "first_match cmp xs \<le> end_match cmp xs"
    unfolding first_match_def end_match_def by (induction xs) auto
qed

text \<open>Halving an interval until a midpoint falls into the range from \<open>l\<close> up to \<open>u\<close>.\<close>

function bisect :: "nat \<Rightarrow> nat \<Rightarrow> nat \<Rightarrow> nat \<Rightarrow> nat" where
  "bisect l u lo hi =
     (if lo < hi then
        let mid = (lo + hi) div 2 in
        if mid < l then bisect l u (mid + 1) hi else if u \<le> mid then bisect l u lo mid else mid
      else SIZE_MAX)"
  by pat_completeness auto
termination
  by (relation "measure (\<lambda>(l, u, lo, hi). hi - lo)") auto

declare bisect.simps [simp del]

lemma vec_bsearch_loop_bisect:
  assumes inv: "vec_inv v" and srt: "cmp_sorted cmp (vec_list v)"
  shows "hi \<le> vec_size v \<Longrightarrow> vec_bsearch_loop v cmp lo hi =
    Some (bisect (first_match cmp (vec_list v)) (end_match cmp (vec_list v)) lo hi)"
proof (induction "hi - lo" arbitrary: lo hi rule: less_induct)
  case less
  show ?case
  proof (cases "lo < hi")
    case False
    then show ?thesis by (simp add: vec_bsearch_loop.simps [of v cmp lo hi] bisect.simps [of _ _ lo hi])
  next
    case True
    define mid where "mid = (lo + hi) div 2"
    have m: "lo + (hi - lo) div 2 = mid" using True by (simp add: mid_def)
    have mid: "lo \<le> mid" "mid < hi" using True by (auto simp: mid_def)
    have get: "arr_get (vec_data v) mid = Some (vec_list v ! mid)"
      using mid less.prems inv by (simp add: vec_inv_def nth_vec_list)
    have len: "mid < length (vec_list v)" using mid less.prems length_vec_list [OF inv] by simp
    note r = match_range [OF srt len]
    note step = vec_bsearch_loop.simps [of v cmp lo hi, unfolded Let_def m] bisect.simps [of _ _ lo hi, unfolded Let_def mid_def [symmetric]]
    consider "cmp (vec_list v ! mid) < 0" | "cmp (vec_list v ! mid) > 0" | "cmp (vec_list v ! mid) = 0" by linarith
    then show ?thesis
    proof cases
      case 1
      then show ?thesis using less.hyps [of hi "mid + 1"] mid True get step r less.prems by simp
    next
      case 2
      then show ?thesis using less.hyps [of mid lo] mid True get step r less.prems by simp
    next
      case 3
      then show ?thesis using True get step r by simp
    qed
  qed
qed

lemma bisect_range:
  "lo \<le> l \<Longrightarrow> u \<le> hi \<Longrightarrow> if l < u then l \<le> bisect l u lo hi \<and> bisect l u lo hi < u else bisect l u lo hi = SIZE_MAX"
proof (induction "hi - lo" arbitrary: lo hi rule: less_induct)
  case less
  define mid where "mid = (lo + hi) div 2"
  note step = bisect.simps [of l u lo hi, unfolded Let_def mid_def [symmetric]]
  show ?case
  proof (cases "lo < hi")
    case True
    then have "lo \<le> mid" "mid < hi" by (auto simp: mid_def)
    then show ?thesis using less.hyps [of hi "mid + 1"] less.hyps [of mid lo] less.prems True step
      by (auto split: if_splits)
  qed (use less.prems step in auto)
qed

section \<open>Runs of requests\<close>

text \<open>A client's requests to one vector, and the same requests on a list.\<close>

datatype 'a vec_req =
    VPush "'a ptr"
  | VPop
  | VInsert nat "'a ptr"
  | VRemove nat
  | VRemoveFast nat
  | VReserve nat
  | VShrink

fun vec_step :: "'a op_vec \<Rightarrow> 'a vec_req \<Rightarrow> ('a ptr \<times> 'a op_vec) option" where
  "vec_step v (VPush x) = map_option (Pair NULL) (op_vec_push v x)"
| "vec_step v VPop = op_vec_pop v"
| "vec_step v (VInsert i x) = map_option (Pair NULL) (op_vec_insert v i x)"
| "vec_step v (VRemove i) = op_vec_remove v i"
| "vec_step v (VRemoveFast i) = op_vec_remove_fast v i"
| "vec_step v (VReserve n) = Some (NULL, op_vec_reserve v n)"
| "vec_step v VShrink = Some (NULL, op_vec_shrink v)"

fun vec_run :: "'a op_vec \<Rightarrow> 'a vec_req list \<Rightarrow> ('a ptr list \<times> 'a op_vec) option" where
  "vec_run v [] = Some ([], v)"
| "vec_run v (r # rs) = do { (a, v) \<leftarrow> vec_step v r; (as, v) \<leftarrow> vec_run v rs; Some (a # as, v) }"

definition nth_or_null :: "'a ptr list \<Rightarrow> nat \<Rightarrow> 'a ptr" where
  "nth_or_null xs i = (if i < length xs then xs ! i else NULL)"

fun list_step :: "'a ptr list \<Rightarrow> 'a vec_req \<Rightarrow> 'a ptr \<times> 'a ptr list" where
  "list_step xs (VPush x) = (NULL, xs @ [x])"
| "list_step xs VPop = (if xs = [] then NULL else last xs, butlast xs)"
| "list_step xs (VInsert i x) = (NULL, take i xs @ x # drop i xs)"
| "list_step xs (VRemove i) = (nth_or_null xs i, take i xs @ drop (Suc i) xs)"
| "list_step xs (VRemoveFast i) =
     (nth_or_null xs i, if i < length xs then butlast (xs[i := last xs]) else xs)"
| "list_step xs (VReserve n) = (NULL, xs)"
| "list_step xs VShrink = (NULL, xs)"

fun list_run :: "'a ptr list \<Rightarrow> 'a vec_req list \<Rightarrow> 'a ptr list \<times> 'a ptr list" where
  "list_run xs [] = ([], xs)"
| "list_run xs (r # rs) = (let (a, xs') = list_step xs r; (as, ys) = list_run xs' rs in (a # as, ys))"

definition reserves_fit :: "'a vec_req list \<Rightarrow> bool" where
  "reserves_fit rs = list_all (\<lambda>r. case r of VReserve n \<Rightarrow> n \<le> SIZE_MAX div 8 | _ \<Rightarrow> True) rs"

lemma length_list_step: "length (snd (list_step xs r)) \<le> Suc (length xs)"
  by (cases r) auto

lemma vec_step_refines:
  assumes "vec_inv v" and "vec_size v < 2 ^ 60" and "reserves_fit [r]"
  shows "\<exists>w. vec_step v r = Some (fst (list_step (vec_list v) r), w) \<and> vec_inv w
     \<and> vec_list w = snd (list_step (vec_list v) r)"
proof (cases r)
  case (VPush x)
  then show ?thesis using op_vec_push_spec [OF assms(1,2), of x] by auto
next
  case (VInsert i x)
  then show ?thesis using op_vec_insert_spec [OF assms(1,2), of i x] by auto
next
  case (VReserve n)
  then show ?thesis using op_vec_reserve_spec [OF assms(1), of n] assms(3) by (simp add: reserves_fit_def)
qed (use op_vec_pop_spec [OF assms(1)] op_vec_remove_spec [OF assms(1)] op_vec_remove_fast_spec [OF assms(1)]
      op_vec_shrink_spec [OF assms(1)] in \<open>simp_all add: nth_or_null_def\<close>)

lemma vec_run_refines:
  assumes "vec_inv v" and "vec_size v + length rs \<le> 2 ^ 60" and "reserves_fit rs"
  shows "\<exists>w. vec_run v rs = Some (fst (list_run (vec_list v) rs), w) \<and> vec_inv w
     \<and> vec_list w = snd (list_run (vec_list v) rs)"
  using assms
proof (induction rs arbitrary: v)
  case (Cons r rs)
  have fit: "reserves_fit [r]" "reserves_fit rs" using Cons.prems(3) by (auto simp: reserves_fit_def)
  obtain u where u: "vec_step v r = Some (fst (list_step (vec_list v) r), u)" "vec_inv u"
      "vec_list u = snd (list_step (vec_list v) r)"
    using vec_step_refines [OF Cons.prems(1) _ fit(1)] Cons.prems(2) by auto
  have "vec_size u \<le> Suc (vec_size v)"
    using length_list_step [of "vec_list v" r] length_vec_list [OF u(2)] length_vec_list [OF Cons.prems(1)] u(3)
    by simp
  then show ?case using Cons.IH [OF u(2) _ fit(2)] Cons.prems(2) u(1,3) by (auto simp: case_prod_beta)
qed simp

section \<open>Properties\<close>

text \<open>
  C6. Any sequence of push, pop, insert, remove, swap-remove, reserve and shrink calls on a
  vector gives the answers the same calls give on a plain list, keeps size, capacity and
  block consistent, and never leaves the allocated block, whatever growing and shrinking
  happens on the way.
\<close>

theorem vec_refines_list:
  assumes "vec_inv v" and "vec_size v + length rs \<le> 2 ^ 60" and "reserves_fit rs"
  shows "\<exists>w. vec_run v rs = Some (fst (list_run (vec_list v) rs), w) \<and> vec_inv w
     \<and> vec_list w = snd (list_run (vec_list v) rs)"
  by (rule vec_run_refines [OF assms])

theorem vec_refines_list_witness:
  "\<exists>w :: nat op_vec. vec_run (op_vec_init 1)
       [VPush (Some 1), VPush (Some 2), VInsert 1 (Some 3), VRemoveFast 0, VReserve 9, VRemove 5, VPop]
     = Some ([NULL, NULL, NULL, Some 1, NULL, NULL, Some 3], w) \<and> vec_list w = [Some 2]"
proof -
  let ?rs = "[VPush (Some 1), VPush (Some 2), VInsert 1 (Some 3), VRemoveFast 0, VReserve 9, VRemove 5, VPop] :: nat vec_req list"
  have v: "vec_inv (op_vec_init 1 :: nat op_vec)" "vec_list (op_vec_init 1 :: nat op_vec) = []"
    using op_vec_init_spec [of 1] by (auto simp: SIZE_MAX_div8)
  have run: "list_run [] ?rs = ([NULL, NULL, NULL, Some 1, NULL, NULL, Some 3], [Some 2])"
    by (simp add: nth_or_null_def)
  have "vec_size (op_vec_init 1 :: nat op_vec) + length ?rs \<le> 2 ^ 60" "reserves_fit ?rs"
    by (simp_all add: op_vec_init_def reserves_fit_def SIZE_MAX_div8)
  from vec_refines_list [OF v(1) this] show ?thesis unfolding v(2) run by auto
qed

text \<open>
  C26. On a vector whose elements are ordered for the comparison function, the matching
  elements are consecutive, and binary search returns \<^verbatim>\<open>SIZE_MAX\<close> when there is none and otherwise
  the index of one of them: the first midpoint, in the halving of the whole vector, that falls
  among them.  A single match is found at its index; when all elements match the answer is half
  the size.  The header promises the first matching index, which is what the code returns for a
  single match but not in general.
\<close>

theorem vec_bsearch_correct:
  assumes "vec_inv v" and "cmp_sorted cmp (vec_list v)"
  shows "\<exists>r l u. op_vec_bsearch v cmp = Some r \<and> u \<le> vec_size v
     \<and> (\<forall>i < vec_size v. cmp (vec_list v ! i) = 0 \<longleftrightarrow> l \<le> i \<and> i < u)
     \<and> (if l < u then l \<le> r \<and> r < u \<and> r = bisect l u 0 (vec_size v) else r = SIZE_MAX)
     \<and> (u = Suc l \<longrightarrow> r = l) \<and> (l = 0 \<and> u = vec_size v \<and> 0 < u \<longrightarrow> r = vec_size v div 2)"
proof -
  let ?xs = "vec_list v" let ?l = "first_match cmp ?xs" and ?u = "end_match cmp ?xs"
  let ?r = "bisect ?l ?u 0 (vec_size v)"
  have len: "length ?xs = vec_size v" by (rule length_vec_list [OF assms(1)])
  have u: "?u \<le> vec_size v" using end_match_le(1) [of cmp ?xs] len by simp
  have s: "op_vec_bsearch v cmp = Some ?r"
    using vec_bsearch_loop_bisect [OF assms order_refl] by (simp add: op_vec_bsearch_def)
  have m: "cmp (?xs ! i) = 0 \<longleftrightarrow> ?l \<le> i \<and> i < ?u" if "i < vec_size v" for i
    using match_range [OF assms(2), of i] that len by linarith
  have r: "if ?l < ?u then ?l \<le> ?r \<and> ?r < ?u else ?r = SIZE_MAX" by (rule bisect_range) (use u in auto)
  have "?r = vec_size v div 2" if "?l = 0" "?u = vec_size v" "0 < ?u"
  proof -
    have "\<not> vec_size v \<le> vec_size v div 2" using that by arith
    then show ?thesis using that by (subst bisect.simps) (simp only: Let_def, simp)
  qed
  then show ?thesis using s u m r by (intro exI [of _ ?r] exI [of _ ?l] exI [of _ ?u]) (auto split: if_splits)
qed

theorem vec_bsearch_correct_witness:
  "\<exists>r. op_vec_bsearch \<lparr>vec_data = [Some 1, Some 4, Some 9], vec_size = 3, vec_cap = 3\<rparr> (\<lambda>x. the x - 9) = Some r
     \<and> r < 3 \<and> [Some 1, Some 4, Some 9] ! r = Some (9 :: int)"
proof -
  let ?v = "\<lparr>vec_data = [Some 1, Some 4, Some 9], vec_size = 3, vec_cap = 3\<rparr> :: int op_vec"
  have inv: "vec_inv ?v" "cmp_sorted (\<lambda>x. the x - 9) (vec_list ?v)" and xs: "vec_list ?v = [Some 1, Some 4, Some 9]"
    by (auto simp: vec_inv_def vec_list_def cmp_sorted_def SIZE_MAX_div8 numeral_3_eq_3)
  obtain r l u where r: "op_vec_bsearch ?v (\<lambda>x. the x - 9) = Some r" "u \<le> vec_size ?v"
      "\<forall>i < vec_size ?v. the (vec_list ?v ! i) - 9 = 0 \<longleftrightarrow> l \<le> i \<and> i < u"
      "if l < u then l \<le> r \<and> r < u \<and> r = bisect l u 0 (vec_size ?v) else r = SIZE_MAX"
    using vec_bsearch_correct [OF inv] by blast
  have "l \<le> 2 \<and> 2 < u" using r(3) [rule_format, of 2] xs by simp
  then have b: "l \<le> r" "r < u" using r(4) by (simp_all split: if_splits)
  then have lt: "r < 3" using r(2) by simp
  then have "the ([Some 1, Some 4, Some 9] ! r) = (9 :: int)" using r(3) [rule_format, of r] b xs by simp
  then have "r = 2" using lt by (auto simp: less_Suc_eq numeral_3_eq_3)
  then show ?thesis using r(1) by simp
qed

end
