(* ===== verification/Htab.thy ===== *)
theory Htab
  imports Vec
begin

unbundle bit_operations_syntax

text \<open>
  \<^verbatim>\<open>src/htab.c\<close>: the Robin Hood open-addressing hash table.  The probe loops of the source
  have no bound of their own, so they are \<^theory_text>\<open>partial_function (option)\<close>: \<open>None\<close> is a
  loop that never leaves, an access outside the slot array, or an abort on allocation.

  The heart of the theory is the local Robin Hood invariant \<open>rh_ok\<close>: going from a slot to
  the next one, the probe length rises by at most one.  Insertion with displacement and
  backward-shift deletion both keep it, and it alone justifies the early exit of lookup.
\<close>

section \<open>State\<close>

record ('k, 'v) op_htab_slot =
  s_key :: "'k ptr"
  s_val :: "'v ptr"
  s_hash :: u64

record ('k, 'v) op_htab =
  ht_hash_fn :: "'k ptr \<Rightarrow> u64"
  ht_eq_fn :: "'k ptr \<Rightarrow> 'k ptr \<Rightarrow> bool"
  ht_slots :: "('k, 'v) op_htab_slot list"
  ht_mask :: nat
  ht_count :: nat
  ht_name :: string

record op_htab_iter =
  it_idx :: nat
  it_cur :: nat

text \<open>The registry of live tables, \<^verbatim>\<open>htab_list\<close> and \<^verbatim>\<open>htab_list_inited\<close>: tables are known by address.\<close>

record htab_registry =
  htab_list :: "addr op_vec"
  htab_list_inited :: bool

definition empty_slot :: "('k, 'v) op_htab_slot" where
  "empty_slot = \<lparr>s_key = NULL, s_val = NULL, s_hash = 0\<rparr>"

text \<open>\<^verbatim>\<open>op_calloc(n, sizeof(op_htab_slot_t))\<close> with 24-byte slots aborts when the product overflows.\<close>

definition calloc_slots :: "nat \<Rightarrow> ('k, 'v) op_htab_slot list option" where
  "calloc_slots n = (if n * 24 > SIZE_MAX then None else Some (replicate n empty_slot))"

section \<open>Helpers\<close>

definition fix_hash :: "u64 \<Rightarrow> u64" where
  "fix_hash h = (if h \<noteq> 0 then h else 1)"

definition dib :: "nat \<Rightarrow> nat \<Rightarrow> u64 \<Rightarrow> nat" where
  "dib msk i h = sub64 i (unat h AND msk) AND msk"

definition htab_next_pow2 :: "nat \<Rightarrow> nat" where
  "htab_next_pow2 n = (if n < 16 then 16 else wrap64 (smear64 (n - 1) + 1))"

section \<open>Probing\<close>

partial_function (option) htab_lookup_loop ::
  "('k, 'v) op_htab \<Rightarrow> 'k ptr \<Rightarrow> u64 \<Rightarrow> nat \<Rightarrow> nat \<Rightarrow> ('k, 'v) op_htab_slot ptr option" where
  "htab_lookup_loop ht key hash i dist = do {
     s \<leftarrow> arr_get (ht_slots ht) i;
     (if s_hash s = 0 then Some NULL
      else if dib (ht_mask ht) i (s_hash s) < dist then Some NULL
      else if s_hash s = hash \<and> ht_eq_fn ht (s_key s) key then Some (Some s)
      else htab_lookup_loop ht key hash ((i + 1) AND ht_mask ht) (dist + 1))
   }"

definition htab_lookup ::
  "('k, 'v) op_htab \<Rightarrow> 'k ptr \<Rightarrow> u64 \<Rightarrow> ('k, 'v) op_htab_slot ptr option" where
  "htab_lookup ht key hash = htab_lookup_loop ht key hash (unat hash AND ht_mask ht) 0"

partial_function (option) htab_find_idx_loop ::
  "('k, 'v) op_htab \<Rightarrow> 'k ptr \<Rightarrow> u64 \<Rightarrow> nat \<Rightarrow> nat \<Rightarrow> nat option" where
  "htab_find_idx_loop ht key hash i dist = do {
     s \<leftarrow> arr_get (ht_slots ht) i;
     (if s_hash s = 0 then Some SIZE_MAX
      else if dib (ht_mask ht) i (s_hash s) < dist then Some SIZE_MAX
      else if s_hash s = hash \<and> ht_eq_fn ht (s_key s) key then Some i
      else htab_find_idx_loop ht key hash ((i + 1) AND ht_mask ht) (dist + 1))
   }"

definition htab_find_idx :: "('k, 'v) op_htab \<Rightarrow> 'k ptr \<Rightarrow> u64 \<Rightarrow> nat option" where
  "htab_find_idx ht key hash = htab_find_idx_loop ht key hash (unat hash AND ht_mask ht) 0"

text \<open>The entry being placed travels as a slot value \<open>e\<close>; a poorer entry evicts a richer one.\<close>

partial_function (option) htab_insert_loop ::
  "('k, 'v) op_htab_slot list \<Rightarrow> nat \<Rightarrow> ('k, 'v) op_htab_slot \<Rightarrow> nat \<Rightarrow> nat
     \<Rightarrow> ('k, 'v) op_htab_slot list option" where
  "htab_insert_loop slots msk e i dist = do {
     s \<leftarrow> arr_get slots i;
     (if s_hash s = 0 then arr_set slots i e
      else let sitting_dist = dib msk i (s_hash s)
        in if sitting_dist < dist
           then do {
             slots \<leftarrow> arr_set slots i e;
             htab_insert_loop slots msk s ((i + 1) AND msk) (sitting_dist + 1)
           }
           else htab_insert_loop slots msk e ((i + 1) AND msk) (dist + 1))
   }"

definition htab_insert_slot ::
  "('k, 'v) op_htab_slot list \<Rightarrow> nat \<Rightarrow> 'k ptr \<Rightarrow> 'v ptr \<Rightarrow> u64
     \<Rightarrow> ('k, 'v) op_htab_slot list option" where
  "htab_insert_slot slots msk key val hash =
     htab_insert_loop slots msk \<lparr>s_key = key, s_val = val, s_hash = hash\<rparr> (unat hash AND msk) 0"

partial_function (option) htab_del_loop ::
  "('k, 'v) op_htab_slot list \<Rightarrow> nat \<Rightarrow> nat \<Rightarrow> ('k, 'v) op_htab_slot list option" where
  "htab_del_loop slots msk i = (let j = (i + 1) AND msk in do {
     nxt \<leftarrow> arr_get slots j;
     (if s_hash nxt = 0 \<or> dib msk j (s_hash nxt) = 0
      then arr_set slots i empty_slot
      else do {
        slots \<leftarrow> arr_set slots i nxt;
        htab_del_loop slots msk j
      })
   })"

definition htab_del_at :: "('k, 'v) op_htab \<Rightarrow> nat \<Rightarrow> ('k, 'v) op_htab option" where
  "htab_del_at ht i = do {
     slots \<leftarrow> htab_del_loop (ht_slots ht) (ht_mask ht) i;
     Some (ht\<lparr>ht_slots := slots, ht_count := sub64 (ht_count ht) 1\<rparr>)
   }"

section \<open>Resizing\<close>

fun htab_reinsert ::
  "('k, 'v) op_htab_slot list \<Rightarrow> ('k, 'v) op_htab_slot list \<Rightarrow> nat
     \<Rightarrow> ('k, 'v) op_htab_slot list option" where
  "htab_reinsert [] new_slots new_mask = Some new_slots"
| "htab_reinsert (s # olds) new_slots new_mask =
     (if s_hash s \<noteq> 0
      then do {
        new_slots \<leftarrow> htab_insert_slot new_slots new_mask (s_key s) (s_val s) (s_hash s);
        htab_reinsert olds new_slots new_mask
      }
      else htab_reinsert olds new_slots new_mask)"

definition htab_resize :: "('k, 'v) op_htab \<Rightarrow> nat \<Rightarrow> ('k, 'v) op_htab option" where
  "htab_resize ht new_cap = do {
     new_slots \<leftarrow> calloc_slots new_cap;
     new_slots \<leftarrow> htab_reinsert (take (ht_mask ht + 1) (ht_slots ht)) new_slots (sub64 new_cap 1);
     Some (ht\<lparr>ht_slots := new_slots, ht_mask := sub64 new_cap 1\<rparr>)
   }"

definition htab_maybe_grow :: "('k, 'v) op_htab \<Rightarrow> ('k, 'v) op_htab option" where
  "htab_maybe_grow ht = (let cap = wrap64 (ht_mask ht + 1) in
     if wrap64 (ht_count ht * 4) \<ge> wrap64 (cap * 3) then htab_resize ht (wrap64 (cap * 2))
     else Some ht)"

section \<open>Construction and destruction\<close>

definition htab_register :: "htab_registry \<Rightarrow> addr \<Rightarrow> htab_registry option" where
  "htab_register reg self = do {
     let reg = (if \<not> htab_list_inited reg
       then reg\<lparr>htab_list := op_vec_init 16, htab_list_inited := True\<rparr> else reg);
     v \<leftarrow> op_vec_push (htab_list reg) (Some self);
     Some (reg\<lparr>htab_list := v\<rparr>)
   }"

text \<open>\<open>self\<close> is the address that \<^verbatim>\<open>op_malloc\<close> returns for the table.\<close>

definition op_htab_create ::
  "htab_registry \<Rightarrow> addr \<Rightarrow> string \<Rightarrow> ('k ptr \<Rightarrow> u64) \<Rightarrow> ('k ptr \<Rightarrow> 'k ptr \<Rightarrow> bool) \<Rightarrow> nat
     \<Rightarrow> (('k, 'v) op_htab \<times> htab_registry) option" where
  "op_htab_create reg self name hash_fn eq_fn initial_cap = (let cap = htab_next_pow2 initial_cap in do {
     slots \<leftarrow> calloc_slots cap;
     reg \<leftarrow> htab_register reg self;
     Some (\<lparr>ht_hash_fn = hash_fn, ht_eq_fn = eq_fn, ht_slots = slots, ht_mask = sub64 cap 1,
            ht_count = 0, ht_name = name\<rparr>, reg)
   })"

definition slot_live :: "('k, 'v) op_htab_slot \<Rightarrow> bool" where
  "slot_live s \<longleftrightarrow> s_hash s \<noteq> 0"

text \<open>Destruction reports the pairs the destroy callback is called on, in slot order.\<close>

definition op_htab_destroy ::
  "htab_registry \<Rightarrow> addr \<Rightarrow> ('k, 'v) op_htab \<Rightarrow> bool
     \<Rightarrow> (('k ptr \<times> 'v ptr) list \<times> htab_registry) option" where
  "op_htab_destroy reg self ht has_cb = do {
     v \<leftarrow> op_vec_remove_ptr (htab_list reg) (Some self);
     Some (if has_cb
           then map (\<lambda>s. (s_key s, s_val s)) (filter slot_live (take (ht_mask ht + 1) (ht_slots ht)))
           else [],
           reg\<lparr>htab_list := v\<rparr>)
   }"

section \<open>Mutation and lookup\<close>

definition op_htab_set ::
  "('k, 'v) op_htab \<Rightarrow> 'k ptr \<Rightarrow> 'v ptr \<Rightarrow> (int \<times> 'v ptr \<times> ('k, 'v) op_htab) option" where
  "op_htab_set ht key val = (let hash = fix_hash (ht_hash_fn ht key) in do {
     i \<leftarrow> htab_find_idx ht key hash;
     (if i \<noteq> SIZE_MAX
      then do {
        s \<leftarrow> arr_get (ht_slots ht) i;
        slots \<leftarrow> arr_set (ht_slots ht) i (s\<lparr>s_val := val\<rparr>);
        Some (0, s_val s, ht\<lparr>ht_slots := slots\<rparr>)
      }
      else do {
        ht \<leftarrow> htab_maybe_grow ht;
        slots \<leftarrow> htab_insert_slot (ht_slots ht) (ht_mask ht) key val hash;
        Some (1, NULL, ht\<lparr>ht_slots := slots, ht_count := ht_count ht + 1\<rparr>)
      })
   })"

definition op_htab_del ::
  "('k, 'v) op_htab \<Rightarrow> 'k ptr \<Rightarrow> ('v ptr \<times> ('k, 'v) op_htab) option" where
  "op_htab_del ht key = (let hash = fix_hash (ht_hash_fn ht key) in do {
     i \<leftarrow> htab_find_idx ht key hash;
     (if i = SIZE_MAX then Some (NULL, ht)
      else do {
        s \<leftarrow> arr_get (ht_slots ht) i;
        ht \<leftarrow> htab_del_at ht i;
        Some (s_val s, ht)
      })
   })"

definition op_htab_get_or_set ::
  "('k, 'v) op_htab \<Rightarrow> 'k ptr \<Rightarrow> 'v ptr \<Rightarrow> ('v ptr \<times> bool \<times> ('k, 'v) op_htab) option" where
  "op_htab_get_or_set ht key val = (let hash = fix_hash (ht_hash_fn ht key) in do {
     i \<leftarrow> htab_find_idx ht key hash;
     (if i \<noteq> SIZE_MAX
      then do { s \<leftarrow> arr_get (ht_slots ht) i; Some (s_val s, False, ht) }
      else do {
        ht \<leftarrow> htab_maybe_grow ht;
        slots \<leftarrow> htab_insert_slot (ht_slots ht) (ht_mask ht) key val hash;
        Some (val, True, ht\<lparr>ht_slots := slots, ht_count := ht_count ht + 1\<rparr>)
      })
   })"

definition op_htab_get :: "('k, 'v) op_htab \<Rightarrow> 'k ptr \<Rightarrow> 'v ptr option" where
  "op_htab_get ht key = do {
     s \<leftarrow> htab_lookup ht key (fix_hash (ht_hash_fn ht key));
     Some (case s of None \<Rightarrow> NULL | Some s \<Rightarrow> s_val s)
   }"

definition op_htab_has :: "('k, 'v) op_htab \<Rightarrow> 'k ptr \<Rightarrow> bool option" where
  "op_htab_has ht key = do {
     s \<leftarrow> htab_lookup ht key (fix_hash (ht_hash_fn ht key));
     Some (s \<noteq> NULL)
   }"

definition op_htab_size :: "('k, 'v) op_htab \<Rightarrow> nat" where
  "op_htab_size ht = ht_count ht"

definition op_htab_cap :: "('k, 'v) op_htab \<Rightarrow> nat" where
  "op_htab_cap ht = wrap64 (ht_mask ht + 1)"

definition op_htab_compact :: "('k, 'v) op_htab \<Rightarrow> ('k, 'v) op_htab option" where
  "op_htab_compact ht = (let new_cap = htab_next_pow2 (wrap64 (ht_count ht * 2 + 1)) in
     if new_cap < wrap64 (ht_mask ht + 1) then htab_resize ht new_cap else Some ht)"

section \<open>Iteration and merge\<close>

definition op_htab_iter_init :: "op_htab_iter" where
  "op_htab_iter_init = \<lparr>it_idx = 0, it_cur = SIZE_MAX\<rparr>"

function htab_iter_scan ::
  "('k, 'v) op_htab \<Rightarrow> nat \<Rightarrow> (nat \<times> ('k, 'v) op_htab_slot) option option" where
  "htab_iter_scan ht idx =
     (if idx < ht_mask ht + 1
      then do {
        s \<leftarrow> arr_get (ht_slots ht) idx;
        (if s_hash s \<noteq> 0 then Some (Some (idx, s)) else htab_iter_scan ht (idx + 1))
      }
      else Some None)"
  by pat_completeness auto
termination
  by (relation "measure (\<lambda>(ht, idx). ht_mask ht + 1 - idx)") auto

text \<open>\<open>Some (kv, it)\<close>: \<open>kv\<close> is the pair stored through the out parameters when the result is true.\<close>

definition op_htab_iter_next ::
  "('k, 'v) op_htab \<Rightarrow> op_htab_iter \<Rightarrow> (('k ptr \<times> 'v ptr) option \<times> op_htab_iter) option" where
  "op_htab_iter_next ht it = do {
     r \<leftarrow> htab_iter_scan ht (it_idx it);
     (case r of
        Some (i, s) \<Rightarrow> Some (Some (s_key s, s_val s), \<lparr>it_idx = i + 1, it_cur = i\<rparr>)
      | None \<Rightarrow> Some (None, \<lparr>it_idx = max (it_idx it) (ht_mask ht + 1), it_cur = SIZE_MAX\<rparr>))
   }"

definition op_htab_iter_del ::
  "('k, 'v) op_htab \<Rightarrow> op_htab_iter \<Rightarrow> ('v ptr \<times> ('k, 'v) op_htab \<times> op_htab_iter) option" where
  "op_htab_iter_del ht it = (let i = it_cur it in
     if i = SIZE_MAX \<or> i \<ge> ht_mask ht + 1 then Some (NULL, ht, it)
     else do {
       s \<leftarrow> arr_get (ht_slots ht) i;
       (if s_hash s = 0 then Some (NULL, ht, it)
        else do {
          ht \<leftarrow> htab_del_at ht i;
          Some (s_val s, ht, \<lparr>it_idx = i, it_cur = SIZE_MAX\<rparr>)
        })
     })"

fun htab_foreach_slots ::
  "('k ptr \<Rightarrow> 'v ptr \<Rightarrow> 's \<Rightarrow> int \<times> 's) \<Rightarrow> ('k, 'v) op_htab_slot list \<Rightarrow> 's \<Rightarrow> 's" where
  "htab_foreach_slots cb [] ud = ud"
| "htab_foreach_slots cb (s # ss) ud =
     (if s_hash s \<noteq> 0
      then (case cb (s_key s) (s_val s) ud of
              (r, ud') \<Rightarrow> if r \<noteq> 0 then ud' else htab_foreach_slots cb ss ud')
      else htab_foreach_slots cb ss ud)"

definition op_htab_foreach ::
  "('k, 'v) op_htab \<Rightarrow> ('k ptr \<Rightarrow> 'v ptr \<Rightarrow> 's \<Rightarrow> int \<times> 's) \<Rightarrow> 's \<Rightarrow> 's" where
  "op_htab_foreach ht cb ud = htab_foreach_slots cb (take (ht_mask ht + 1) (ht_slots ht)) ud"

text \<open>
  Merging reports the calls of the conflict callback in order, each with its four arguments
  \<^verbatim>\<open>dst_key\<close>, \<^verbatim>\<open>dst_val\<close>, \<^verbatim>\<open>src_key\<close> and \<^verbatim>\<open>src_val\<close>; for \<^verbatim>\<open>dst_key\<close> the code passes the source's key.
\<close>

fun htab_merge_slots ::
  "('k, 'v) op_htab \<Rightarrow> ('k, 'v) op_htab_slot list \<Rightarrow> bool
     \<Rightarrow> (('k, 'v) op_htab \<times> ('k ptr \<times> 'v ptr \<times> 'k ptr \<times> 'v ptr) list) option" where
  "htab_merge_slots dst [] has_cb = Some (dst, [])"
| "htab_merge_slots dst (s # ss) has_cb =
     (if s_hash s = 0 then htab_merge_slots dst ss has_cb
      else do {
        (rc, old_val, dst) \<leftarrow> op_htab_set dst (s_key s) (s_val s);
        (if rc = 0 \<and> has_cb
         then do {
           (_, _, dst) \<leftarrow> op_htab_set dst (s_key s) old_val;
           (dst, calls) \<leftarrow> htab_merge_slots dst ss has_cb;
           Some (dst, (s_key s, old_val, s_key s, s_val s) # calls)
         }
         else htab_merge_slots dst ss has_cb)
      })"

definition op_htab_merge ::
  "('k, 'v) op_htab \<Rightarrow> ('k, 'v) op_htab \<Rightarrow> bool
     \<Rightarrow> (('k, 'v) op_htab \<times> ('k ptr \<times> 'v ptr \<times> 'k ptr \<times> 'v ptr) list) option" where
  "op_htab_merge dst src has_cb =
     htab_merge_slots dst (take (ht_mask src + 1) (ht_slots src)) has_cb"

section \<open>Invariants\<close>

text \<open>
  \<open>psl\<close> is the probe length of a slot, counted from one and zero for an empty slot;
  \<open>live_mset\<close> abstracts a slot array to the entries stored in it, wherever they sit.
\<close>

definition is_mask :: "nat \<Rightarrow> bool" where
  "is_mask m \<longleftrightarrow> (\<exists>n. 1 \<le> n \<and> n \<le> 59 \<and> m = 2 ^ n - 1)"

definition psl :: "nat \<Rightarrow> nat \<Rightarrow> ('k, 'v) op_htab_slot \<Rightarrow> nat" where
  "psl msk i s = (if s_hash s = 0 then 0 else dib msk i (s_hash s) + 1)"

definition rh_ok :: "nat \<Rightarrow> ('k, 'v) op_htab_slot list \<Rightarrow> bool" where
  "rh_ok msk slots \<longleftrightarrow>
     (\<forall>i < Suc msk. psl msk (Suc i mod Suc msk) (slots ! (Suc i mod Suc msk)) \<le> psl msk i (slots ! i) + 1)"

definition live_mset :: "('k, 'v) op_htab_slot list \<Rightarrow> ('k, 'v) op_htab_slot multiset" where
  "live_mset slots = mset (filter slot_live slots)"

definition key_match :: "('k, 'v) op_htab \<Rightarrow> 'k ptr \<Rightarrow> u64 \<Rightarrow> ('k, 'v) op_htab_slot \<Rightarrow> bool" where
  "key_match ht key hash s \<longleftrightarrow> s_hash s = hash \<and> ht_eq_fn ht (s_key s) key"

definition htab_wf :: "('k, 'v) op_htab \<Rightarrow> bool" where
  "htab_wf ht \<longleftrightarrow> is_mask (ht_mask ht) \<and> 15 \<le> ht_mask ht
     \<and> length (ht_slots ht) = Suc (ht_mask ht) \<and> rh_ok (ht_mask ht) (ht_slots ht)
     \<and> ht_count ht = size (live_mset (ht_slots ht))
     \<and> ht_count ht * 4 \<le> Suc (ht_mask ht) * 3"

section \<open>Masks\<close>

lemma is_maskE:
  assumes "is_mask m"
  obtains n where "1 \<le> n" "n \<le> 59" "m = 2 ^ n - 1" "Suc m = 2 ^ n"
  using assms unfolding is_mask_def by (metis Suc_diff_1 zero_less_numeral zero_less_power)

lemma is_mask_and: "is_mask m \<Longrightarrow> x AND m = x mod Suc m"
  by (elim is_maskE) (simp only: and_mask_nat)

lemma is_mask_gt: "is_mask m \<Longrightarrow> 1 \<le> m"
  by (elim is_maskE) (metis One_nat_def Suc_le_mono Suc_leI one_less_numeral_iff one_less_power semiring_norm(76) zero_less_one less_le_trans)

lemma is_mask_lt: "is_mask m \<Longrightarrow> Suc m \<le> 2 ^ 59"
  by (elim is_maskE) (simp only: power_increasing_iff one_less_numeral_iff semiring_norm)

lemma dib_mod: "is_mask m \<Longrightarrow> dib m i h = (i + (Suc m - unat h mod Suc m)) mod Suc m"
proof (elim is_maskE)
  fix n assume n: "1 \<le> n" "n \<le> 59" "m = 2 ^ n - 1" "Suc m = 2 ^ n"
  have "unat h AND m = unat h mod 2 ^ n" unfolding n(3) by (rule and_mask_nat)
  then have "dib m i h = sub64 i (unat h mod 2 ^ n) AND (2 ^ n - 1)"
    by (simp only: dib_def n(3))
  also have "\<dots> = (i + (2 ^ n - unat h mod 2 ^ n)) mod 2 ^ n"
    using n(2) by (intro sub64_mask) simp_all
  finally show ?thesis by (simp only: n(4))
qed

lemma dib_less: "is_mask m \<Longrightarrow> dib m i h < Suc m"
  by (simp add: dib_mod)

lemma dib_home: "is_mask m \<Longrightarrow> dib m (unat h mod Suc m) h = 0"
  by (simp add: dib_mod le_add_diff_inverse mod_less_divisor less_imp_le)

lemma dib_Suc:
  assumes "is_mask m" and "dib m i h + 1 < Suc m"
  shows "dib m (Suc i mod Suc m) h = dib m i h + 1"
proof -
  let ?c = "Suc m - unat h mod Suc m"
  have "dib m (Suc i mod Suc m) h = (Suc i mod Suc m + ?c) mod Suc m"
    by (rule dib_mod [OF assms(1)])
  also have "\<dots> = Suc (i + ?c) mod Suc m" by (metis add_Suc mod_add_left_eq)
  also have "\<dots> = Suc ((i + ?c) mod Suc m) mod Suc m" by (metis mod_Suc_eq)
  also have "(i + ?c) mod Suc m = dib m i h" using dib_mod [OF assms(1)] by simp
  finally show ?thesis using assms(2) by simp
qed

lemma dib_offset:
  assumes "is_mask m" and "t \<le> m"
  shows "dib m ((unat h + t) mod Suc m) h = t"
  using assms(2)
proof (induction t)
  case 0
  then show ?case using dib_home [OF assms(1)] by simp
next
  case (Suc t)
  then have "dib m ((unat h + t) mod Suc m) h = t" by simp
  then have "dib m (Suc ((unat h + t) mod Suc m) mod Suc m) h = t + 1"
    using dib_Suc [OF assms(1), of "(unat h + t) mod Suc m" h] Suc.prems by simp
  then show ?case by (simp add: mod_Suc_eq)
qed

lemma dib_position:
  assumes "is_mask m" and "i < Suc m"
  shows "(unat h + dib m i h) mod Suc m = i"
proof -
  have le: "unat h mod Suc m \<le> Suc m" by (simp add: less_imp_le)
  have "(unat h + dib m i h) mod Suc m
      = (unat h mod Suc m + (i + (Suc m - unat h mod Suc m))) mod Suc m"
    by (simp only: dib_mod [OF assms(1)] mod_add_left_eq mod_add_right_eq)
  also have "unat h mod Suc m + (i + (Suc m - unat h mod Suc m)) = i + Suc m"
    using le by (simp only: add.left_commute [of "unat h mod Suc m"] le_add_diff_inverse)
  also have "(i + Suc m) mod Suc m = i"
    using assms(2) by (simp only: mod_add_self2 mod_less)
  finally show ?thesis .
qed

section \<open>The Robin Hood invariant\<close>

lemma psl_empty [simp]: "psl m i empty_slot = 0"
  by (simp add: psl_def empty_slot_def)

lemma rh_ok_step:
  "rh_ok m slots \<Longrightarrow> i < Suc m \<Longrightarrow>
     psl m (Suc i mod Suc m) (slots ! (Suc i mod Suc m)) \<le> psl m i (slots ! i) + 1"
  by (simp add: rh_ok_def)

lemma rh_ok_update:
  assumes rh: "rh_ok m slots" and len: "length slots = Suc m" and m: "1 \<le> m" and i: "i < Suc m"
    and before: "\<And>j. j < Suc m \<Longrightarrow> Suc j mod Suc m = i \<Longrightarrow> psl m i x \<le> psl m j (slots ! j) + 1"
    and after: "psl m (Suc i mod Suc m) (slots ! (Suc i mod Suc m)) \<le> psl m i x + 1"
  shows "rh_ok m (slots[i := x])"
  unfolding rh_ok_def
proof (intro allI impI)
  fix j assume j: "j < Suc m"
  have neq: "Suc j mod Suc m \<noteq> j"
    using j m by (cases "j = m") auto
  consider "j = i" | "Suc j mod Suc m = i" "j \<noteq> i" | "j \<noteq> i" "Suc j mod Suc m \<noteq> i" by blast
  then show "psl m (Suc j mod Suc m) (slots[i := x] ! (Suc j mod Suc m)) \<le> psl m j (slots[i := x] ! j) + 1"
  proof cases
    case 1
    then show ?thesis using after neq i len by simp
  next
    case 2
    then show ?thesis using before [OF j] i len by simp
  next
    case 3
    then show ?thesis using rh_ok_step [OF rh j] by simp
  qed
qed

lemma rh_climb:
  assumes "rh_ok m slots" and "j < Suc m"
  shows "psl m ((j + u) mod Suc m) (slots ! ((j + u) mod Suc m)) \<le> psl m j (slots ! j) + u"
proof (induction u)
  case 0
  then show ?case using assms(2) by simp
next
  case (Suc u)
  have "Suc ((j + u) mod Suc m) mod Suc m = (j + Suc u) mod Suc m" by (simp add: mod_Suc_eq)
  then show ?case using rh_ok_step [OF assms(1), of "(j + u) mod Suc m"] Suc by simp
qed

text \<open>On the way from its home slot to an entry every slot is taken, by entries that are at least as far from home.\<close>

lemma rh_probe:
  assumes m: "is_mask m" and rh: "rh_ok m slots"
    and p: "p < Suc m" "s_hash (slots ! p) = h" "h \<noteq> 0" and t: "t \<le> dib m p h"
  shows "s_hash (slots ! ((unat h + t) mod Suc m)) \<noteq> 0
     \<and> t \<le> dib m ((unat h + t) mod Suc m) (s_hash (slots ! ((unat h + t) mod Suc m)))"
proof -
  let ?j = "(unat h + t) mod Suc m"
  obtain u where u: "dib m p h = t + u" using t le_Suc_ex by blast
  have "(?j + u) mod Suc m = (unat h + dib m p h) mod Suc m"
    by (simp only: u mod_add_left_eq add.assoc)
  then have "(?j + u) mod Suc m = p" using dib_position [OF m p(1)] by simp
  then have "dib m p h + 1 \<le> psl m ?j (slots ! ?j) + u"
    using rh_climb [OF rh, of ?j u] p by (simp add: psl_def)
  then show ?thesis using u by (auto simp: psl_def split: if_splits)
qed


text \<open>Distance to an empty slot: the loops that walk over live slots reach it.\<close>

lemma reach_slot:
  assumes "i < Suc m" and "e < Suc m"
  obtains k where "k < Suc m" "(i + k) mod Suc m = e"
proof
  show "(e + (Suc m - i)) mod Suc m < Suc m" by simp
  have "(i + (e + (Suc m - i)) mod Suc m) mod Suc m = (i + (e + (Suc m - i))) mod Suc m"
    by (simp only: mod_add_right_eq)
  also have "i + (e + (Suc m - i)) = e + Suc m" using assms(1) by simp
  also have "(e + Suc m) mod Suc m = e" using assms(2) by (simp only: mod_add_self2 mod_less)
  finally show "(i + (e + (Suc m - i)) mod Suc m) mod Suc m = e" .
qed

lemma step_towards:
  "(i + Suc k) mod Suc m = e \<Longrightarrow> (Suc i mod Suc m + k) mod Suc m = e"
  by (metis add_Suc add_Suc_right mod_add_left_eq)

lemma mod_here: "i < Suc m \<Longrightarrow> (i + 0) mod Suc m = i"
  by simp

text \<open>The live entries as a multiset; storing into a slot exchanges one entry.\<close>

lemma live_mset_update:
  assumes "i < length slots"
  shows "live_mset (slots[i := x]) + (if slot_live (slots ! i) then {#slots ! i#} else {#})
       = live_mset slots + (if slot_live x then {#x#} else {#})"
proof -
  have "mset (slots[i := x]) + {#slots ! i#} = mset slots + {#x#}"
    using assms by (simp add: mset_update)
  then have "filter_mset slot_live (mset (slots[i := x]) + {#slots ! i#})
      = filter_mset slot_live (mset slots + {#x#})" by simp
  then show ?thesis by (simp add: live_mset_def split: if_splits)
qed

lemma live_msetI: "i < length slots \<Longrightarrow> s_hash (slots ! i) \<noteq> 0 \<Longrightarrow> slots ! i \<in># live_mset slots"
  by (simp add: live_mset_def slot_live_def)

lemma live_msetE:
  assumes "s \<in># live_mset slots"
  obtains i where "i < length slots" "slots ! i = s" "s_hash s \<noteq> 0"
  using assms by (auto simp: live_mset_def slot_live_def in_set_conv_nth)

lemma live_mset_empty_slot:
  assumes "size (live_mset slots) < length slots"
  obtains e where "e < length slots" "s_hash (slots ! e) = 0"
proof -
  have "\<exists>s \<in> set slots. \<not> slot_live s"
  proof (rule ccontr)
    assume "\<not> ?thesis"
    then have "filter slot_live slots = slots" by (simp add: filter_id_conv)
    with assms show False by (simp add: live_mset_def)
  qed
  then show ?thesis using that by (auto simp: slot_live_def in_set_conv_nth)
qed

section \<open>Insertion\<close>

lemma rh_place:
  assumes m: "is_mask m" and rh: "rh_ok m slots" and len: "length slots = Suc m" and i: "i < Suc m"
    and ge: "psl m i (slots ! i) \<le> psl m i x"
    and before: "\<And>j. j < Suc m \<Longrightarrow> Suc j mod Suc m = i \<Longrightarrow> psl m i x \<le> psl m j (slots ! j) + 1"
  shows "rh_ok m (slots[i := x])"
  using rh_ok_update [OF rh len is_mask_gt [OF m] i before] rh_ok_step [OF rh i] ge by simp

lemma htab_insert_at_empty:
  assumes m: "is_mask m" and len: "length slots = Suc m" and rh: "rh_ok m slots" and i: "i < Suc m"
    and empty: "s_hash (slots ! i) = 0" and x: "s_hash x \<noteq> 0" and dist: "dist = dib m i (s_hash x)"
    and before: "\<And>j. j < Suc m \<Longrightarrow> Suc j mod Suc m = i \<Longrightarrow> dist \<le> psl m j (slots ! j)"
  shows "\<exists>slots'. htab_insert_loop slots m x i dist = Some slots' \<and> length slots' = Suc m \<and> rh_ok m slots'
     \<and> live_mset slots' = add_mset x (live_mset slots)"
proof (intro exI conjI)
  show "htab_insert_loop slots m x i dist = Some (slots[i := x])"
    using i len empty by (subst htab_insert_loop.simps) simp
  show "rh_ok m (slots[i := x])"
    using empty x dist before by (intro rh_place [OF m rh len i]) (auto simp: psl_def)
  show "live_mset (slots[i := x]) = add_mset x (live_mset slots)"
    using live_mset_update [of i slots x] i len empty x by (simp add: slot_live_def)
qed (simp add: len)

lemma htab_insert_loop_spec:
  assumes m: "is_mask m" and e: "e < Suc m"
  shows "length slots = Suc m \<Longrightarrow> rh_ok m slots \<Longrightarrow> s_hash (slots ! e) = 0 \<Longrightarrow> i < Suc m \<Longrightarrow>
     (i + k) mod Suc m = e \<Longrightarrow> s_hash x \<noteq> 0 \<Longrightarrow> dist = dib m i (s_hash x) \<Longrightarrow> dist + k < Suc m \<Longrightarrow>
     (\<And>j. j < Suc m \<Longrightarrow> Suc j mod Suc m = i \<Longrightarrow> dist \<le> psl m j (slots ! j)) \<Longrightarrow>
     \<exists>slots'. htab_insert_loop slots m x i dist = Some slots' \<and> length slots' = Suc m \<and> rh_ok m slots'
        \<and> live_mset slots' = add_mset x (live_mset slots)"
proof (induction k arbitrary: slots i x dist)
  case (0 slots i x dist)
  then show ?case using m by (intro htab_insert_at_empty) auto
next
  case (Suc k slots i x dist)
  note len = Suc.prems(1) and rh = Suc.prems(2) and i = Suc.prems(4) and x = Suc.prems(6)
    and dist = Suc.prems(7)
  let ?n = "Suc i mod Suc m"
  have px: "psl m i x = dist + 1" using x dist by (simp add: psl_def)
  have n: "(?n + k) mod Suc m = e" "?n < Suc m" using step_towards [OF Suc.prems(5)] by simp_all
  have neq: "?n \<noteq> i" using i is_mask_gt [OF m] by (cases "i = m") auto
  have am: "(i + 1) AND m = ?n" using is_mask_and [OF m] by simp
  show ?case
  proof (cases "s_hash (slots ! i) = 0")
    case True
    then show ?thesis using Suc.prems m by (intro htab_insert_at_empty) auto
  next
    case False
    define s where "s = slots ! i"
    define sd where "sd = dib m i (s_hash s)"
    have ps: "psl m i (slots ! i) = sd + 1" using False by (simp add: psl_def sd_def s_def)
    have pred: "j = i" if "j < Suc m" "Suc j mod Suc m = ?n" for j
      using that i by (auto simp: mod_Suc split: if_splits)
    show ?thesis
    proof (cases "sd < dist")
      case True
      let ?slots = "slots[i := x]"
      have rh': "rh_ok m ?slots"
        using Suc.prems(9) px ps True by (intro rh_place [OF m rh len i]) auto
      have "e \<noteq> i" using False Suc.prems(3) by auto
      have "\<exists>slots'. htab_insert_loop ?slots m s ?n (sd + 1) = Some slots' \<and> length slots' = Suc m
          \<and> rh_ok m slots' \<and> live_mset slots' = add_mset s (live_mset ?slots)"
      proof (rule Suc.IH [OF _ rh' _ n(2,1)])
        show "length ?slots = Suc m" using len by simp
        show "s_hash (?slots ! e) = 0" using Suc.prems(3) \<open>e \<noteq> i\<close> by simp
        show "s_hash s \<noteq> 0" using False by (simp add: s_def)
        show "sd + 1 = dib m ?n (s_hash s)"
          using dib_Suc [OF m, of i "s_hash s"] True Suc.prems(8) by (simp add: sd_def)
        show "sd + 1 + k < Suc m" using True Suc.prems(8) by simp
        show "sd + 1 \<le> psl m j (?slots ! j)" if "j < Suc m" "Suc j mod Suc m = ?n" for j
          using pred [OF that] px True i len by simp
      qed
      moreover have "htab_insert_loop slots m x i dist = htab_insert_loop ?slots m s ?n (sd + 1)"
        using False True i len am by (subst htab_insert_loop.simps) (simp add: s_def sd_def)
      moreover have "add_mset s (live_mset ?slots) = add_mset x (live_mset slots)"
        using live_mset_update [of i slots x] False x i len by (simp add: slot_live_def s_def)
      ultimately show ?thesis by simp
    next
      case False': False
      have "\<exists>slots'. htab_insert_loop slots m x ?n (dist + 1) = Some slots' \<and> length slots' = Suc m
          \<and> rh_ok m slots' \<and> live_mset slots' = add_mset x (live_mset slots)"
      proof (rule Suc.IH [OF len rh Suc.prems(3) n(2,1) x])
        show "dist + 1 = dib m ?n (s_hash x)"
          using dib_Suc [OF m, of i "s_hash x"] dist Suc.prems(8) by simp
        show "dist + 1 + k < Suc m" using Suc.prems(8) by simp
        show "dist + 1 \<le> psl m j (slots ! j)" if "j < Suc m" "Suc j mod Suc m = ?n" for j
          using pred [OF that] ps False' by simp
      qed
      moreover have "htab_insert_loop slots m x i dist = htab_insert_loop slots m x ?n (dist + 1)"
        using False False' i len am by (subst htab_insert_loop.simps) (simp add: s_def sd_def)
      ultimately show ?thesis by simp
    qed
  qed
qed


lemma htab_insert_slot_spec:
  assumes m: "is_mask m" and len: "length slots = Suc m" and rh: "rh_ok m slots"
    and room: "size (live_mset slots) < Suc m" and h: "hash \<noteq> 0"
  shows "\<exists>slots'. htab_insert_slot slots m key val hash = Some slots' \<and> length slots' = Suc m
     \<and> rh_ok m slots'
     \<and> live_mset slots' = add_mset \<lparr>s_key = key, s_val = val, s_hash = hash\<rparr> (live_mset slots)"
proof -
  let ?i = "unat hash mod Suc m"
  obtain e where e: "e < Suc m" "s_hash (slots ! e) = 0"
    using live_mset_empty_slot [of slots] room len by auto
  obtain k where "k < Suc m" "(?i + k) mod Suc m = e"
    using reach_slot [of ?i m e] e(1) by auto
  then show ?thesis
    unfolding htab_insert_slot_def is_mask_and [OF m]
    using htab_insert_loop_spec [OF m e(1) len rh e(2), of ?i k
        "\<lparr>s_key = key, s_val = val, s_hash = hash\<rparr>" 0] dib_home [OF m, of hash] h by simp
qed

section \<open>Deletion\<close>

lemma htab_del_stop:
  assumes m: "is_mask m" and len: "length slots = Suc m" and rh: "rh_ok m slots" and i: "i < Suc m"
    and live: "s_hash (slots ! i) \<noteq> 0"
    and stop: "s_hash (slots ! (Suc i mod Suc m)) = 0
       \<or> dib m (Suc i mod Suc m) (s_hash (slots ! (Suc i mod Suc m))) = 0"
  shows "\<exists>slots'. htab_del_loop slots m i = Some slots' \<and> length slots' = Suc m \<and> rh_ok m slots'
     \<and> live_mset slots' = live_mset slots - {#slots ! i#}"
proof (intro exI conjI)
  show "htab_del_loop slots m i = Some (slots[i := empty_slot])"
    using i len stop is_mask_and [OF m] by (subst htab_del_loop.simps) (simp add: Let_def)
  show "rh_ok m (slots[i := empty_slot])"
    using stop by (intro rh_ok_update [OF rh len is_mask_gt [OF m] i]) (auto simp: psl_def empty_slot_def)
  show "live_mset (slots[i := empty_slot]) = live_mset slots - {#slots ! i#}"
    using live_mset_update [of i slots empty_slot] i len live
    by (simp add: slot_live_def empty_slot_def) (metis add_mset_remove_trivial)
qed (simp add: len)

lemma dib_back:
  assumes m: "is_mask m" and i: "i < Suc m" and pos: "dib m (Suc i mod Suc m) h \<noteq> 0"
  shows "dib m i h + 1 = dib m (Suc i mod Suc m) h"
proof -
  have "dib m i h + 1 < Suc m"
  proof (rule ccontr)
    assume "\<not> dib m i h + 1 < Suc m"
    then have d: "dib m i h = m" using dib_less [OF m, of i h] by simp
    have "Suc i mod Suc m = Suc ((unat h + m) mod Suc m) mod Suc m"
      using dib_position [OF m i, of h] d by simp
    also have "\<dots> = (unat h + Suc m) mod Suc m" by (simp only: mod_Suc_eq add_Suc_right)
    also have "\<dots> = unat h mod Suc m" by (simp only: mod_add_self2)
    finally have "Suc i mod Suc m = unat h mod Suc m" .
    then show False using pos dib_home [OF m] by simp
  qed
  then show ?thesis using dib_Suc [OF m] by simp
qed

lemma htab_del_loop_spec:
  assumes m: "is_mask m" and e: "e < Suc m"
  shows "length slots = Suc m \<Longrightarrow> rh_ok m slots \<Longrightarrow> s_hash (slots ! e) = 0 \<Longrightarrow> i < Suc m \<Longrightarrow>
     (Suc i mod Suc m + k) mod Suc m = e \<Longrightarrow> s_hash (slots ! i) \<noteq> 0 \<Longrightarrow>
     \<exists>slots'. htab_del_loop slots m i = Some slots' \<and> length slots' = Suc m \<and> rh_ok m slots'
        \<and> live_mset slots' = live_mset slots - {#slots ! i#}"
proof (induction k arbitrary: slots i)
  case (0 slots i)
  then show ?case using m by (intro htab_del_stop) auto
next
  case (Suc k slots i)
  note len = Suc.prems(1) and rh = Suc.prems(2) and i = Suc.prems(4)
  let ?j = "Suc i mod Suc m"
  have jm: "?j < Suc m" by simp
  have neq: "?j \<noteq> i" using i is_mask_gt [OF m] by (cases "i = m") auto
  show ?case
  proof (cases "s_hash (slots ! ?j) = 0 \<or> dib m ?j (s_hash (slots ! ?j)) = 0")
    case True
    then show ?thesis using Suc.prems m by (intro htab_del_stop) auto
  next
    case False
    let ?s = "slots ! ?j" and ?slots = "slots[i := slots ! ?j]"
    have "e \<noteq> i" using Suc.prems(3,6) by auto
    have "e \<noteq> ?j" using Suc.prems(3) False by auto
    have psl_back: "psl m i ?s + 1 = psl m ?j ?s"
      using False dib_back [OF m i, of "s_hash ?s"] by (simp add: psl_def)
    have rh': "rh_ok m ?slots"
    proof (rule rh_ok_update [OF rh len is_mask_gt [OF m] i])
      show "psl m i ?s \<le> psl m j (slots ! j) + 1" if "j < Suc m" "Suc j mod Suc m = i" for j
        using psl_back rh_ok_step [OF rh i] rh_ok_step [OF rh that(1)] that(2) by simp
      show "psl m ?j (slots ! ?j) \<le> psl m i ?s + 1" using psl_back by simp
    qed
    have "\<exists>slots'. htab_del_loop ?slots m ?j = Some slots' \<and> length slots' = Suc m \<and> rh_ok m slots'
        \<and> live_mset slots' = live_mset ?slots - {#?slots ! ?j#}"
    proof (rule Suc.IH [OF _ rh' _ jm])
      show "length ?slots = Suc m" using len by simp
      show "s_hash (?slots ! e) = 0" using Suc.prems(3) \<open>e \<noteq> i\<close> by simp
      show "(Suc ?j mod Suc m + k) mod Suc m = e" using step_towards [OF Suc.prems(5)] by simp
      show "s_hash (?slots ! ?j) \<noteq> 0" using False neq by simp
    qed
    moreover have "htab_del_loop slots m i = htab_del_loop ?slots m ?j"
      using False i len is_mask_and [OF m] by (subst htab_del_loop.simps) (simp add: Let_def)
    moreover have "live_mset ?slots - {#?slots ! ?j#} = live_mset slots - {#slots ! i#}"
    proof -
      have "live_mset ?slots + {#slots ! i#} = live_mset slots + {#?s#}"
        using live_mset_update [of i slots ?s] False Suc.prems(6) i len by (simp add: slot_live_def)
      then have "live_mset ?slots = live_mset slots + {#?s#} - {#slots ! i#}"
        by (metis add_diff_cancel_right')
      moreover have "slots ! i \<in># live_mset slots"
        using live_msetI [of i slots] Suc.prems(6) i len by simp
      ultimately show ?thesis using neq by (simp add: multiset_eq_iff)
    qed
    ultimately show ?thesis by simp
  qed
qed


section \<open>Lookup\<close>

lemma rh_exit:
  assumes m: "is_mask m" and rh: "rh_ok m slots" and h: "hash \<noteq> 0"
    and passed: "\<And>p. p < Suc m \<Longrightarrow> P (slots ! p) \<Longrightarrow> s_hash (slots ! p) = hash \<and> t \<le> dib m p hash"
    and exit: "s_hash (slots ! ((unat hash + t) mod Suc m)) = 0
       \<or> dib m ((unat hash + t) mod Suc m) (s_hash (slots ! ((unat hash + t) mod Suc m))) < t"
    and p: "p < Suc m"
  shows "\<not> P (slots ! p)"
  using rh_probe [OF m rh p, of hash t] passed [OF p] exit h by auto

lemma htab_probe_spec:
  fixes ht :: "('k, 'v) op_htab"
  defines "m \<equiv> ht_mask ht" and "slots \<equiv> ht_slots ht"
  assumes m: "is_mask m" and len: "length slots = Suc m" and rh: "rh_ok m slots"
    and e: "e < Suc m" "s_hash (slots ! e) = 0" and h: "hash \<noteq> 0"
  shows "i = (unat hash + dist) mod Suc m \<Longrightarrow> (i + k) mod Suc m = e \<Longrightarrow>
     (\<And>p. p < Suc m \<Longrightarrow> key_match ht key hash (slots ! p) \<Longrightarrow> dist \<le> dib m p hash) \<Longrightarrow>
     (\<exists>j < Suc m. key_match ht key hash (slots ! j)
        \<and> htab_find_idx_loop ht key hash i dist = Some j
        \<and> htab_lookup_loop ht key hash i dist = Some (Some (slots ! j)))
     \<or> (\<forall>j < Suc m. \<not> key_match ht key hash (slots ! j))
        \<and> htab_find_idx_loop ht key hash i dist = Some SIZE_MAX
        \<and> htab_lookup_loop ht key hash i dist = Some NULL"
proof (induction k arbitrary: i dist)
  case (0 i dist)
  then have i: "i = e" "i < Suc m" using e(1) by simp_all
  have "\<not> key_match ht key hash (slots ! p)" if "p < Suc m" for p
    using rh_exit [OF m rh h _ _ that, of "key_match ht key hash" dist] 0 i e
    by (auto simp: key_match_def)
  then show ?case using i e len unfolding slots_def m_def
    by (intro disjI2) (simp add: htab_find_idx_loop.simps htab_lookup_loop.simps)
next
  case (Suc k i dist)
  have i: "i < Suc m" using Suc.prems(1) by simp
  define s where "s = slots ! i"
  have get: "arr_get (ht_slots ht) i = Some s" using i len by (simp add: s_def slots_def)
  note unf = htab_find_idx_loop.simps [of ht key hash i] htab_lookup_loop.simps [of ht key hash i]
  show ?case
  proof (cases "s_hash s = 0 \<or> dib m i (s_hash s) < dist")
    case True
    have "\<not> key_match ht key hash (slots ! p)" if "p < Suc m" for p
      using rh_exit [OF m rh h _ _ that, of "key_match ht key hash" dist] Suc.prems(1,3) True
      by (auto simp: key_match_def s_def)
    then show ?thesis using True get by (intro disjI2) (auto simp: unf m_def)
  next
    case False
    show ?thesis
    proof (cases "key_match ht key hash s")
      case True
      then show ?thesis using False get i
        by (intro disjI1 exI [of _ i]) (auto simp: unf key_match_def m_def s_def)
    next
      case no_match: False
      have "Suc i mod Suc m = (unat hash + Suc dist) mod Suc m"
        using Suc.prems(1) by (simp add: mod_Suc_eq)
      moreover have "(Suc i mod Suc m + k) mod Suc m = e"
        by (rule step_towards [OF Suc.prems(2)])
      moreover have "Suc dist \<le> dib m p hash" if p: "p < Suc m" "key_match ht key hash (slots ! p)" for p
      proof -
        have "dib m p hash \<noteq> dist"
        proof
          assume "dib m p hash = dist"
          then have "p = i" using dib_position [OF m p(1), of hash] Suc.prems(1) by simp
          then show False using p(2) no_match by (simp add: s_def)
        qed
        then show ?thesis using Suc.prems(3) [OF p] by simp
      qed
      ultimately have "(\<exists>j < Suc m. key_match ht key hash (slots ! j)
           \<and> htab_find_idx_loop ht key hash (Suc i mod Suc m) (Suc dist) = Some j
           \<and> htab_lookup_loop ht key hash (Suc i mod Suc m) (Suc dist) = Some (Some (slots ! j)))
         \<or> (\<forall>j < Suc m. \<not> key_match ht key hash (slots ! j))
           \<and> htab_find_idx_loop ht key hash (Suc i mod Suc m) (Suc dist) = Some SIZE_MAX
           \<and> htab_lookup_loop ht key hash (Suc i mod Suc m) (Suc dist) = Some NULL"
        by (rule Suc.IH)
      moreover have "(i + 1) AND ht_mask ht = Suc i mod Suc m"
        using is_mask_and [OF m] by (simp add: m_def)
      then have "htab_find_idx_loop ht key hash i dist
            = htab_find_idx_loop ht key hash (Suc i mod Suc m) (Suc dist)"
          "htab_lookup_loop ht key hash i dist
            = htab_lookup_loop ht key hash (Suc i mod Suc m) (Suc dist)"
        using False no_match get by (auto simp: unf key_match_def m_def)
      ultimately show ?thesis by simp
    qed
  qed
qed

section \<open>Well-formed tables\<close>

lemma htab_wfD:
  assumes "htab_wf ht"
  shows "is_mask (ht_mask ht)" "15 \<le> ht_mask ht" "length (ht_slots ht) = Suc (ht_mask ht)"
    "rh_ok (ht_mask ht) (ht_slots ht)" "ht_count ht = size (live_mset (ht_slots ht))"
    "ht_count ht * 4 \<le> Suc (ht_mask ht) * 3" "size (live_mset (ht_slots ht)) < Suc (ht_mask ht)"
  using assms by (auto simp: htab_wf_def)

lemma htab_find_spec:
  assumes wf: "htab_wf ht" and h: "hash \<noteq> 0"
  shows "(\<exists>j < length (ht_slots ht). key_match ht key hash (ht_slots ht ! j)
        \<and> htab_find_idx ht key hash = Some j \<and> htab_lookup ht key hash = Some (Some (ht_slots ht ! j)))
     \<or> (\<forall>j < length (ht_slots ht). \<not> key_match ht key hash (ht_slots ht ! j))
        \<and> htab_find_idx ht key hash = Some SIZE_MAX \<and> htab_lookup ht key hash = Some NULL"
proof -
  let ?m = "ht_mask ht"
  note m = htab_wfD(1) [OF wf]
  obtain e where e: "e < Suc ?m" "s_hash (ht_slots ht ! e) = 0"
    using live_mset_empty_slot [of "ht_slots ht"] htab_wfD [OF wf] by auto
  obtain k where "k < Suc ?m" "(unat hash mod Suc ?m + k) mod Suc ?m = e"
    using reach_slot [of "unat hash mod Suc ?m" ?m e] e(1) by auto
  then show ?thesis
    unfolding htab_find_idx_def htab_lookup_def is_mask_and [OF m]
    using htab_probe_spec [OF m htab_wfD(3,4) [OF wf] e h, of "unat hash mod Suc ?m" 0 k key]
      htab_wfD(3) [OF wf] by simp
qed

lemma index_not_SIZE_MAX: "htab_wf ht \<Longrightarrow> j < length (ht_slots ht) \<Longrightarrow> j \<noteq> SIZE_MAX"
  using is_mask_lt [of "ht_mask ht"] htab_wfD(1,3) [of ht] by (auto simp: SIZE_MAX_def W64_def)

section \<open>Resizing\<close>

lemma htab_reinsert_spec:
  assumes m: "is_mask m"
  shows "length slots = Suc m \<Longrightarrow> rh_ok m slots \<Longrightarrow>
     size (live_mset slots) + size (live_mset olds) < Suc m + 1 \<Longrightarrow> 
     \<exists>slots'. htab_reinsert olds slots m = Some slots' \<and> length slots' = Suc m \<and> rh_ok m slots'
       \<and> live_mset slots' = live_mset slots + live_mset olds"
proof (induction olds arbitrary: slots)
  case Nil
  then show ?case by (simp add: live_mset_def)
next
  case (Cons s olds)
  show ?case
  proof (cases "s_hash s = 0")
    case True
    then have "live_mset (s # olds) = live_mset olds" by (simp add: live_mset_def slot_live_def)
    then show ?thesis using Cons True by simp
  next
    case False
    then have l: "live_mset (s # olds) = add_mset s (live_mset olds)"
      by (simp add: live_mset_def slot_live_def)
    then obtain slots1 where "htab_insert_slot slots m (s_key s) (s_val s) (s_hash s) = Some slots1"
        "length slots1 = Suc m" "rh_ok m slots1" "live_mset slots1 = add_mset s (live_mset slots)"
      using htab_insert_slot_spec [OF m Cons.prems(1,2) _ False, of "s_key s" "s_val s"] Cons.prems(3)
      by auto
    with Cons.IH [of slots1] Cons.prems(3) l False show ?thesis by auto
  qed
qed

lemma rh_ok_fresh: "rh_ok m (replicate (Suc m) empty_slot)"
  by (simp add: rh_ok_def del: replicate_Suc)

lemma live_mset_fresh: "live_mset (replicate n empty_slot) = {#}"
  by (simp add: live_mset_def slot_live_def empty_slot_def)

lemma htab_resize_spec:
  fixes ht :: "('k, 'v) op_htab"
  assumes wf: "htab_wf ht" and n: "4 \<le> n" "n \<le> 59" and room: "ht_count ht \<le> 2 ^ n"
  shows "\<exists>slots. htab_resize ht (2 ^ n) = Some (ht\<lparr>ht_slots := slots, ht_mask := 2 ^ n - 1\<rparr>)
     \<and> length slots = 2 ^ n \<and> rh_ok (2 ^ n - 1) slots \<and> is_mask (2 ^ n - 1)
     \<and> live_mset slots = live_mset (ht_slots ht)"
proof -
  let ?m = "2 ^ n - 1 :: nat"
  have m: "is_mask ?m" using n unfolding is_mask_def by (intro exI [of _ n]) simp
  have S: "Suc ?m = 2 ^ n" by simp
  have lt: "(2::nat) ^ n \<le> 2 ^ 59" using n(2) by (intro power_increasing) auto
  then have calloc: "calloc_slots (2 ^ n) = Some (replicate (Suc ?m) (empty_slot :: ('k, 'v) op_htab_slot))"
    by (simp add: calloc_slots_def SIZE_MAX_def W64_def S)
  have sub: "sub64 (2 ^ n) 1 = ?m" using lt by (intro sub64_le) (auto simp: W64_def)
  obtain slots where "htab_reinsert (ht_slots ht) (replicate (Suc ?m) empty_slot) ?m = Some slots"
      "length slots = Suc ?m" "rh_ok ?m slots" "live_mset slots = live_mset (ht_slots ht)"
    using htab_reinsert_spec [OF m _ rh_ok_fresh, of "ht_slots ht"] room htab_wfD(5) [OF wf]
    unfolding live_mset_fresh by auto
  then show ?thesis using calloc sub htab_wfD(3) [OF wf] m S
    by (intro exI [of _ slots]) (simp add: htab_resize_def)
qed

end
