(* ===== verification/Htab_Map.thy ===== *)
theory Htab_Map
  imports Htab
begin

text \<open>
  The finite-map contract of the hash table.  \<open>htab_map\<close> reads a table as a map from keys to
  stored pointers; the locale \<open>htab_keys\<close> holds what \<^verbatim>\<open>op_htab.h\<close> asks of the two callbacks a
  table is created with (an equivalence, and a hash that respects it).  Inside it every
  operation is shown to act on the map as documented and to keep the invariant \<open>htab_ok\<close>.
\<close>

section \<open>Abstraction\<close>

definition htab_map :: "('k, 'v) op_htab \<Rightarrow> 'k ptr \<Rightarrow> 'v ptr option" where
  "htab_map ht key =
     map_option s_val (List.find (\<lambda>s. slot_live s \<and> ht_eq_fn ht (s_key s) key) (ht_slots ht))"

definition entries_ok ::
  "('k ptr \<Rightarrow> u64) \<Rightarrow> ('k ptr \<Rightarrow> 'k ptr \<Rightarrow> bool) \<Rightarrow> ('k, 'v) op_htab_slot multiset \<Rightarrow> bool" where
  "entries_ok hash_fn eq_fn M \<longleftrightarrow>
     (\<forall>s \<in># M. s_hash s = fix_hash (hash_fn (s_key s)))
     \<and> (\<forall>key. size (filter_mset (\<lambda>s. eq_fn (s_key s) key) M) \<le> 1)"

definition htab_ok ::
  "('k ptr \<Rightarrow> u64) \<Rightarrow> ('k ptr \<Rightarrow> 'k ptr \<Rightarrow> bool) \<Rightarrow> ('k, 'v) op_htab \<Rightarrow> bool" where
  "htab_ok hash_fn eq_fn ht \<longleftrightarrow> htab_wf ht \<and> ht_hash_fn ht = hash_fn \<and> ht_eq_fn ht = eq_fn
     \<and> entries_ok hash_fn eq_fn (live_mset (ht_slots ht))"

text \<open>Room for \<open>n\<close> more insertions: the sizes computed while growing stay representable.\<close>

definition htab_room :: "nat \<Rightarrow> ('k, 'v) op_htab \<Rightarrow> bool" where
  "htab_room n ht \<longleftrightarrow> ht_mask ht < 2 ^ 58 \<and> ht_count ht + n \<le> 2 ^ 56"

locale htab_keys =
  fixes hash_fn :: "'k ptr \<Rightarrow> u64" and eq_fn :: "'k ptr \<Rightarrow> 'k ptr \<Rightarrow> bool"
  assumes eq_refl: "eq_fn a a"
    and eq_sym: "eq_fn a b \<Longrightarrow> eq_fn b a"
    and eq_trans: "eq_fn a b \<Longrightarrow> eq_fn b c \<Longrightarrow> eq_fn a c"
    and hash_cong: "eq_fn a b \<Longrightarrow> hash_fn a = hash_fn b"
begin

lemma eq_iff: "eq_fn a b \<Longrightarrow> eq_fn a c \<longleftrightarrow> eq_fn b c"
  using eq_sym eq_trans by blast

end

section \<open>Reading the map off the entries\<close>

lemma fix_hash_neq0 [simp]: "fix_hash h \<noteq> 0"
  by (simp add: fix_hash_def)

lemma live_mset_live: "s \<in># live_mset slots \<Longrightarrow> slot_live s"
  by (simp add: live_mset_def)

lemma entries_uniq:
  assumes "entries_ok hash_fn eq_fn M" and "s \<in># M" "t \<in># M" and "eq_fn (s_key s) key" "eq_fn (s_key t) key"
  shows "s = t"
proof (rule ccontr)
  assume neq: "s \<noteq> t"
  let ?F = "filter_mset (\<lambda>s. eq_fn (s_key s) key) M"
  have "s \<in># ?F" "t \<in># ?F" using assms by auto
  then obtain F where "?F = add_mset s F" "t \<in># F"
    using neq by (metis insert_noteq_member multi_member_split)
  then have "2 \<le> size ?F" by (auto dest!: multi_member_split)
  moreover have "size ?F \<le> 1" using assms(1) unfolding entries_ok_def by blast
  ultimately show False by simp
qed

lemma entries_ok_two:
  assumes ok: "entries_ok hash_fn eq_fn (add_mset s N)" and t: "t \<in># N" "eq_fn (s_key s) k"
  shows "\<not> eq_fn (s_key t) k"
proof
  let ?F = "\<lambda>M. filter_mset (\<lambda>u. eq_fn (s_key u) k) M"
  assume "eq_fn (s_key t) k"
  then have m: "t \<in># ?F N" using t by simp
  obtain F where "?F N = add_mset t F" using multi_member_split [OF m] by blast
  then have "1 < size (?F (add_mset s N))" using t(2) by simp
  then show False using ok unfolding entries_ok_def by (meson not_less)
qed

lemma htab_map_Some:
  assumes "entries_ok hash_fn (ht_eq_fn ht) (live_mset (ht_slots ht))"
  shows "htab_map ht key = Some v \<longleftrightarrow>
    (\<exists>s \<in># live_mset (ht_slots ht). ht_eq_fn ht (s_key s) key \<and> s_val s = v)"
proof -
  let ?P = "\<lambda>s. slot_live s \<and> ht_eq_fn ht (s_key s) key"
  have live: "s \<in># live_mset (ht_slots ht) \<longleftrightarrow> s \<in> set (ht_slots ht) \<and> slot_live s" for s
    by (auto simp: live_mset_def)
  show ?thesis
  proof (cases "List.find ?P (ht_slots ht)")
    case None
    then have "\<forall>s \<in># live_mset (ht_slots ht). \<not> ht_eq_fn ht (s_key s) key"
      by (auto simp: find_None_iff live)
    then show ?thesis using None by (auto simp: htab_map_def)
  next
    case (Some s)
    then have "s \<in># live_mset (ht_slots ht)" "ht_eq_fn ht (s_key s) key"
      by (auto simp: find_Some_iff live)
    then show ?thesis using Some entries_uniq [OF assms] by (auto simp: htab_map_def)
  qed
qed

lemma htab_map_None:
  "htab_map ht key = None \<longleftrightarrow> (\<forall>s \<in># live_mset (ht_slots ht). \<not> ht_eq_fn ht (s_key s) key)"
  by (auto simp: htab_map_def find_None_iff live_mset_def)

lemma htab_okD:
  assumes "htab_ok hash_fn eq_fn ht"
  shows "htab_wf ht" "ht_hash_fn ht = hash_fn" "ht_eq_fn ht = eq_fn"
    "entries_ok hash_fn eq_fn (live_mset (ht_slots ht))"
  using assms by (simp_all add: htab_ok_def)

lemma htab_maybe_grow_spec:
  fixes ht :: "('k, 'v) op_htab"
  assumes wf: "htab_wf ht" and room: "ht_mask ht < 2 ^ 58"
  shows "\<exists>ht'. htab_maybe_grow ht = Some ht' \<and> htab_wf ht' \<and> (ht_count ht' + 1) * 4 \<le> Suc (ht_mask ht') * 3
     \<and> live_mset (ht_slots ht') = live_mset (ht_slots ht) \<and> ht_count ht' = ht_count ht
     \<and> ht_hash_fn ht' = ht_hash_fn ht \<and> ht_eq_fn ht' = ht_eq_fn ht
     \<and> (\<forall>n. htab_room (Suc n) ht \<longrightarrow> htab_room (Suc n) ht')"
proof -
  let ?m = "ht_mask ht"
  obtain n where n: "1 \<le> n" "n \<le> 59" "?m = 2 ^ n - 1" "Suc ?m = 2 ^ n"
    using htab_wfD(1) [OF wf] by (rule is_maskE)
  have n4: "4 \<le> n"
  proof (rule ccontr)
    assume "\<not> 4 \<le> n"
    then have "(2::nat) ^ n \<le> 2 ^ 3" by (intro power_increasing) auto
    then show False using n(4) htab_wfD(2) [OF wf] by simp
  qed
  have "(2::nat) ^ n \<le> 2 ^ 58" using n(4) room by simp
  then have n58: "n \<le> 58" by (simp only: power_increasing_iff one_less_numeral_iff semiring_norm)
  have cap: "wrap64 (?m + 1) = 2 ^ n" "wrap64 (2 ^ n * 3) = 2 ^ n * 3" "wrap64 (ht_count ht * 4) = ht_count ht * 4"
      "wrap64 (2 ^ n * 2) = 2 ^ Suc n"
    using \<open>2 ^ n \<le> 2 ^ 58\<close> n(4) htab_wfD(6) [OF wf] by (simp_all add: wrap64_small W64_def)
  obtain q where four: "(2::nat) ^ n = 4 * q"
    using n4 le_imp_power_dvd [of 2 n "2::nat"] by (auto simp: dvd_def)
  show ?thesis
  proof (cases "ht_count ht * 4 \<ge> 2 ^ n * 3")
    case False
    then have "htab_maybe_grow ht = Some ht" unfolding htab_maybe_grow_def Let_def cap by simp
    moreover have "(ht_count ht + 1) * 4 \<le> 2 ^ n * 3"
      using False unfolding four by presburger
    ultimately show ?thesis using wf n(4) by simp
  next
    case True
    then have "htab_maybe_grow ht = htab_resize ht (2 ^ Suc n)"
      unfolding htab_maybe_grow_def Let_def cap by simp
    moreover obtain slots where s: "htab_resize ht (2 ^ Suc n) = Some (ht\<lparr>ht_slots := slots, ht_mask := 2 ^ Suc n - 1\<rparr>)"
      "length slots = 2 ^ Suc n" "rh_ok (2 ^ Suc n - 1) slots" "is_mask (2 ^ Suc n - 1)"
      "live_mset slots = live_mset (ht_slots ht)"
      using htab_resize_spec [OF wf, of "Suc n"] n4 n58 htab_wfD(6) [OF wf] n(4) by auto
    moreover have "(ht_count ht + 1) * 4 \<le> 2 ^ Suc n * 3"
      using htab_wfD(6) [OF wf] n(4) htab_wfD(2) [OF wf] by simp
    moreover have "2 ^ Suc n - 1 < (2::nat) ^ 58" if "ht_count ht + Suc k \<le> 2 ^ 56" for k
      using True that by simp
    ultimately show ?thesis using n(4) htab_wfD(2,5) [OF wf]
      by (auto simp: htab_wf_def htab_room_def)
  qed
qed


lemma rh_ok_same_hash:
  assumes "rh_ok m slots" and "i < length slots" and "s_hash x = s_hash (slots ! i)"
  shows "rh_ok m (slots[i := x])"
proof -
  have "psl m j (slots[i := x] ! j) = psl m j (slots ! j)" for j
    using assms(2,3) by (cases "j = i") (auto simp: psl_def)
  then show ?thesis using assms(1) by (simp add: rh_ok_def)
qed

lemma live_mset_overwrite:
  assumes "i < length slots" and "slot_live (slots ! i)" and "slot_live x"
  shows "live_mset (slots[i := x]) = add_mset x (live_mset slots - {#slots ! i#})"
proof -
  have "add_mset (slots ! i) (live_mset (slots[i := x])) = add_mset x (live_mset slots)"
    using live_mset_update [OF assms(1), of x] assms(2,3) by simp
  moreover have "slots ! i \<in># live_mset slots"
    using live_msetI [OF assms(1)] assms(2) by (simp add: slot_live_def)
  ultimately show ?thesis by (metis add_mset_remove_trivial diff_union_swap2)
qed

lemma entries_ok_remove: "entries_ok hash_fn eq_fn M \<Longrightarrow> entries_ok hash_fn eq_fn (M - N)"
proof -
  assume ok: "entries_ok hash_fn eq_fn M"
  have "size (filter_mset P (M - N)) \<le> size (filter_mset P M)" for P
    by (intro size_mset_mono multiset_filter_mono) simp
  with ok show ?thesis unfolding entries_ok_def by (meson in_diffD le_trans)
qed

context htab_keys
begin

lemma entries_ok_add:
  assumes "entries_ok hash_fn eq_fn M" and "s_hash x = fix_hash (hash_fn (s_key x))"
    and "\<forall>s \<in># M. \<not> eq_fn (s_key s) (s_key x)"
  shows "entries_ok hash_fn eq_fn (add_mset x M)"
proof -
  have "filter_mset (\<lambda>s. eq_fn (s_key s) key) M = {#}" if "eq_fn (s_key x) key" for key
    using assms(3) that eq_sym eq_trans by (metis filter_mset_eq_mempty_iff)
  with assms(1,2) show ?thesis by (auto simp: entries_ok_def)
qed

lemma entries_ok_replace:
  assumes ok: "entries_ok hash_fn eq_fn M" and s: "s \<in># M" and x: "s_key x = s_key s" "s_hash x = s_hash s"
  shows "entries_ok hash_fn eq_fn (add_mset x (M - {#s#}))"
proof (rule entries_ok_add [OF entries_ok_remove [OF ok]])
  show "s_hash x = fix_hash (hash_fn (s_key x))" using ok s x by (simp add: entries_ok_def)
  show "\<forall>t \<in># M - {#s#}. \<not> eq_fn (s_key t) (s_key x)"
  proof -
    obtain N where N: "M = add_mset s N" using multi_member_split [OF s] by blast
    then show ?thesis using entries_ok_two [of hash_fn eq_fn s N] ok x(1) eq_refl by auto
  qed
qed

lemma key_match_iff:
  assumes "htab_ok hash_fn eq_fn ht" and "s \<in> set (ht_slots ht)"
  shows "key_match ht key (fix_hash (hash_fn key)) s \<longleftrightarrow> slot_live s \<and> eq_fn (s_key s) key"
proof -
  have "slot_live s \<Longrightarrow> s_hash s = fix_hash (hash_fn (s_key s))"
    using htab_okD(4) [OF assms(1)] assms(2) by (simp add: entries_ok_def live_mset_def)
  then show ?thesis using htab_okD(3) [OF assms(1)] hash_cong fix_hash_neq0
    by (auto simp: key_match_def slot_live_def)
qed

lemma find_cases:
  assumes ok: "htab_ok hash_fn eq_fn ht"
  obtains (hit) j s where "j < length (ht_slots ht)" "j \<noteq> SIZE_MAX" "ht_slots ht ! j = s" "slot_live s"
      "s \<in># live_mset (ht_slots ht)" "eq_fn (s_key s) key" "htab_map ht key = Some (s_val s)"
      "htab_find_idx ht key (fix_hash (hash_fn key)) = Some j"
      "htab_lookup ht key (fix_hash (hash_fn key)) = Some (Some s)"
  | (miss) "htab_map ht key = None" "\<forall>s \<in># live_mset (ht_slots ht). \<not> eq_fn (s_key s) key"
      "htab_find_idx ht key (fix_hash (hash_fn key)) = Some SIZE_MAX"
      "htab_lookup ht key (fix_hash (hash_fn key)) = Some NULL"
proof -
  let ?h = "fix_hash (hash_fn key)"
  note wf = htab_okD(1) [OF ok]
  have eqf: "ht_eq_fn ht = eq_fn" by (rule htab_okD(3) [OF ok])
  from htab_find_spec [OF wf fix_hash_neq0, of key "hash_fn key"]
  show thesis
  proof (elim disjE exE conjE)
    fix j assume j: "j < length (ht_slots ht)" "key_match ht key ?h (ht_slots ht ! j)"
      "htab_find_idx ht key ?h = Some j" "htab_lookup ht key ?h = Some (Some (ht_slots ht ! j))"
    have l: "slot_live (ht_slots ht ! j)" "eq_fn (s_key (ht_slots ht ! j)) key"
      using j(2) key_match_iff [OF ok] j(1) by auto
    then have m: "ht_slots ht ! j \<in># live_mset (ht_slots ht)"
      using live_msetI [OF j(1)] by (simp add: slot_live_def)
    then have "htab_map ht key = Some (s_val (ht_slots ht ! j))"
      using htab_map_Some [of hash_fn ht key] htab_okD(4) [OF ok] l eqf by auto
    then show thesis using hit [OF j(1) index_not_SIZE_MAX [OF wf j(1)] refl l(1) m l(2)] j(3,4) by simp
  next
    assume n: "\<forall>j<length (ht_slots ht). \<not> key_match ht key ?h (ht_slots ht ! j)"
      "htab_find_idx ht key ?h = Some SIZE_MAX" "htab_lookup ht key ?h = Some NULL"
    have "\<forall>s \<in># live_mset (ht_slots ht). \<not> eq_fn (s_key s) key"
    proof
      fix s assume s: "s \<in># live_mset (ht_slots ht)"
      then obtain j where "j < length (ht_slots ht)" "ht_slots ht ! j = s" by (auto elim: live_msetE)
      then have "\<not> key_match ht key ?h s" "s \<in> set (ht_slots ht)" using n(1) by auto
      then show "\<not> eq_fn (s_key s) key" using key_match_iff [OF ok] live_mset_live [OF s] by simp
    qed
    then show thesis using miss n(2,3) htab_map_None [of ht key] eqf by simp
  qed
qed

lemma get_spec:
  assumes "htab_ok hash_fn eq_fn ht"
  shows "op_htab_get ht key = Some (case htab_map ht key of None \<Rightarrow> NULL | Some v \<Rightarrow> v)"
    and "op_htab_has ht key = Some (htab_map ht key \<noteq> None)"
  using htab_okD(2) [OF assms]
  by (cases rule: find_cases [OF assms, of key]; simp add: op_htab_get_def op_htab_has_def)+


lemma map_eqI:
  assumes "htab_ok hash_fn eq_fn ht"
    and "\<And>k v. (\<exists>s \<in># live_mset (ht_slots ht). eq_fn (s_key s) k \<and> s_val s = v) \<longleftrightarrow> f k = Some v"
  shows "htab_map ht = f"
proof
  fix k
  have "htab_map ht k = Some v \<longleftrightarrow> f k = Some v" for v
    using htab_map_Some [of hash_fn ht k v] htab_okD(3,4) [OF assms(1)] assms(2) [of k v] by simp
  then show "htab_map ht k = f k" by (metis not_None_eq)
qed

lemma map_iff:
  assumes "htab_ok hash_fn eq_fn ht"
  shows "htab_map ht k = Some v \<longleftrightarrow> (\<exists>s \<in># live_mset (ht_slots ht). eq_fn (s_key s) k \<and> s_val s = v)"
  using htab_map_Some [of hash_fn ht k v] htab_okD(3,4) [OF assms] by simp

text \<open>Adding an entry under a new key, removing an entry, replacing the value of an entry.\<close>

lemma map_add_entry:
  assumes ok: "htab_ok hash_fn eq_fn ht" and ok': "htab_ok hash_fn eq_fn ht'"
    and M: "live_mset (ht_slots ht') = add_mset x (live_mset (ht_slots ht))"
    and new: "\<forall>s \<in># live_mset (ht_slots ht). \<not> eq_fn (s_key s) (s_key x)"
  shows "htab_map ht' = (\<lambda>k. if eq_fn (s_key x) k then Some (s_val x) else htab_map ht k)"
proof (rule map_eqI [OF ok'])
  fix k v
  show "(\<exists>s \<in># live_mset (ht_slots ht'). eq_fn (s_key s) k \<and> s_val s = v) \<longleftrightarrow>
      (if eq_fn (s_key x) k then Some (s_val x) else htab_map ht k) = Some v"
  proof (cases "eq_fn (s_key x) k")
    case True
    then have "\<forall>s \<in># live_mset (ht_slots ht). \<not> eq_fn (s_key s) k" using new eq_sym eq_trans by blast
    then show ?thesis using True by (auto simp: M)
  next
    case False
    then show ?thesis using map_iff [OF ok, of k v] by (simp add: M)
  qed
qed

lemma map_remove_entry:
  assumes ok: "htab_ok hash_fn eq_fn ht" and ok': "htab_ok hash_fn eq_fn ht'"
    and M: "live_mset (ht_slots ht') = live_mset (ht_slots ht) - {#s#}"
    and s: "s \<in># live_mset (ht_slots ht)"
  shows "htab_map ht' = (\<lambda>k. if eq_fn (s_key s) k then None else htab_map ht k)"
proof (rule map_eqI [OF ok'])
  fix k v
  obtain N where N: "live_mset (ht_slots ht) = add_mset s N" using multi_member_split [OF s] by blast
  have "\<forall>t \<in># N. eq_fn (s_key s) k \<longrightarrow> \<not> eq_fn (s_key t) k"
    using entries_ok_two htab_okD(4) [OF ok] unfolding N by blast
  then show "(\<exists>s \<in># live_mset (ht_slots ht'). eq_fn (s_key s) k \<and> s_val s = v) \<longleftrightarrow>
      (if eq_fn (s_key s) k then None else htab_map ht k) = Some v"
    using map_iff [OF ok, of k v] by (auto simp: M N)
qed

lemma map_replace_entry:
  assumes ok: "htab_ok hash_fn eq_fn ht" and ok': "htab_ok hash_fn eq_fn ht'"
    and M: "live_mset (ht_slots ht') = add_mset (s\<lparr>s_val := v\<rparr>) (live_mset (ht_slots ht) - {#s#})"
    and s: "s \<in># live_mset (ht_slots ht)"
  shows "htab_map ht' = (\<lambda>k. if eq_fn (s_key s) k then Some v else htab_map ht k)"
proof (rule map_eqI [OF ok'])
  fix k w
  obtain N where N: "live_mset (ht_slots ht) = add_mset s N" using multi_member_split [OF s] by blast
  have "\<forall>t \<in># N. eq_fn (s_key s) k \<longrightarrow> \<not> eq_fn (s_key t) k"
    using entries_ok_two htab_okD(4) [OF ok] unfolding N by blast
  then show "(\<exists>s \<in># live_mset (ht_slots ht'). eq_fn (s_key s) k \<and> s_val s = w) \<longleftrightarrow>
      (if eq_fn (s_key s) k then Some v else htab_map ht k) = Some w"
    using map_iff [OF ok, of k w] by (auto simp: M N)
qed

lemma insert_new:
  assumes ok: "htab_ok hash_fn eq_fn ht" and room: "ht_mask ht < 2 ^ 58"
    and new: "\<forall>s \<in># live_mset (ht_slots ht). \<not> eq_fn (s_key s) key"
  shows "\<exists>hg slots ht'. htab_maybe_grow ht = Some hg
     \<and> htab_insert_slot (ht_slots hg) (ht_mask hg) key val (fix_hash (hash_fn key)) = Some slots
     \<and> ht' = hg\<lparr>ht_slots := slots, ht_count := ht_count hg + 1\<rparr> \<and> htab_ok hash_fn eq_fn ht'
     \<and> live_mset slots = add_mset \<lparr>s_key = key, s_val = val, s_hash = fix_hash (hash_fn key)\<rparr> (live_mset (ht_slots ht))
     \<and> htab_map ht' = (\<lambda>k. if eq_fn key k then Some val else htab_map ht k)
     \<and> ht_count ht' = ht_count ht + 1 \<and> (\<forall>n. htab_room (Suc n) ht \<longrightarrow> htab_room n ht')"
proof -
  let ?x = "\<lparr>s_key = key, s_val = val, s_hash = fix_hash (hash_fn key)\<rparr>"
  obtain hg where g: "htab_maybe_grow ht = Some hg" "htab_wf hg"
      "(ht_count hg + 1) * 4 \<le> Suc (ht_mask hg) * 3" "live_mset (ht_slots hg) = live_mset (ht_slots ht)"
      "ht_count hg = ht_count ht" "ht_hash_fn hg = ht_hash_fn ht" "ht_eq_fn hg = ht_eq_fn ht"
      "\<forall>n. htab_room (Suc n) ht \<longrightarrow> htab_room (Suc n) hg"
    using htab_maybe_grow_spec [OF htab_okD(1) [OF ok] room] by blast
  note w = htab_wfD [OF g(2)]
  obtain slots where s: "htab_insert_slot (ht_slots hg) (ht_mask hg) key val (fix_hash (hash_fn key)) = Some slots"
      "length slots = Suc (ht_mask hg)" "rh_ok (ht_mask hg) slots"
      "live_mset slots = add_mset ?x (live_mset (ht_slots hg))"
    using htab_insert_slot_spec [OF w(1,3,4,7) fix_hash_neq0] by blast
  let ?ht = "hg\<lparr>ht_slots := slots, ht_count := ht_count hg + 1\<rparr>"
  have "htab_wf ?ht" using w s g(3) by (simp add: htab_wf_def)
  moreover have "entries_ok hash_fn eq_fn (live_mset slots)"
    using entries_ok_add [OF htab_okD(4) [OF ok], of ?x] new s(4) g(4) by simp
  ultimately have ok': "htab_ok hash_fn eq_fn ?ht"
    using g(6,7) htab_okD(2,3) [OF ok] by (simp add: htab_ok_def)
  moreover have "htab_map ?ht = (\<lambda>k. if eq_fn key k then Some val else htab_map ht k)"
    using map_add_entry [OF ok ok', of ?x] new s(4) g(4) by (simp cong: if_cong)
  moreover have "\<forall>n. htab_room (Suc n) ht \<longrightarrow> htab_room n ?ht" using g(8) by (auto simp: htab_room_def)
  ultimately show ?thesis using g s by auto
qed

lemma set_spec:
  assumes ok: "htab_ok hash_fn eq_fn ht" and room: "ht_mask ht < 2 ^ 58"
  shows "\<exists>ht'. op_htab_set ht key val
       = Some (if htab_map ht key = None then 1 else 0, case htab_map ht key of None \<Rightarrow> NULL | Some v \<Rightarrow> v, ht')
     \<and> htab_ok hash_fn eq_fn ht'
     \<and> htab_map ht' = (\<lambda>k. if eq_fn key k then Some val else htab_map ht k)
     \<and> ht_count ht' = (if htab_map ht key = None then ht_count ht + 1 else ht_count ht)
     \<and> (\<forall>n. htab_room (Suc n) ht \<longrightarrow> htab_room n ht')"
  using ok
proof (cases rule: find_cases [where key = key])
  case (hit j s)
  let ?slots = "(ht_slots ht)[j := s\<lparr>s_val := val\<rparr>]"
  let ?ht = "ht\<lparr>ht_slots := ?slots\<rparr>"
  note w = htab_wfD [OF htab_okD(1) [OF ok]]
  have M: "live_mset ?slots = add_mset (s\<lparr>s_val := val\<rparr>) (live_mset (ht_slots ht) - {#s#})"
    using live_mset_overwrite [of j "ht_slots ht" "s\<lparr>s_val := val\<rparr>"] hit by (simp add: slot_live_def)
  have "size (live_mset ?slots) = size (live_mset (ht_slots ht))"
    by (metis M hit(5) insert_DiffM size_add_mset)
  then have "htab_wf ?ht"
    using w hit rh_ok_same_hash [OF w(4), of j "s\<lparr>s_val := val\<rparr>"] by (simp add: htab_wf_def)
  moreover have "entries_ok hash_fn eq_fn (live_mset ?slots)"
    using entries_ok_replace [OF htab_okD(4) [OF ok] hit(5), of "s\<lparr>s_val := val\<rparr>"] M by simp
  ultimately have ok': "htab_ok hash_fn eq_fn ?ht" using htab_okD(2,3) [OF ok] by (simp add: htab_ok_def)
  have "htab_map ?ht = (\<lambda>k. if eq_fn (s_key s) k then Some val else htab_map ht k)"
    using map_replace_entry [OF ok ok' _ hit(5), of val] M by simp
  moreover have "eq_fn (s_key s) k = eq_fn key k" for k using eq_iff [OF hit(6)] .
  ultimately have "htab_map ?ht = (\<lambda>k. if eq_fn key k then Some val else htab_map ht k)" by simp
  moreover have "op_htab_set ht key val = Some (0, s_val s, ?ht)"
    using hit htab_okD(2) [OF ok] by (simp add: op_htab_set_def)
  moreover have "\<forall>n. htab_room (Suc n) ht \<longrightarrow> htab_room n ?ht" by (auto simp: htab_room_def)
  ultimately show ?thesis using hit ok' by auto
next
  case miss
  obtain hg slots ht' where i: "htab_maybe_grow ht = Some hg"
      "htab_insert_slot (ht_slots hg) (ht_mask hg) key val (fix_hash (hash_fn key)) = Some slots"
      "ht' = hg\<lparr>ht_slots := slots, ht_count := ht_count hg + 1\<rparr>" "htab_ok hash_fn eq_fn ht'"
      "htab_map ht' = (\<lambda>k. if eq_fn key k then Some val else htab_map ht k)"
      "ht_count ht' = ht_count ht + 1" "\<forall>n. htab_room (Suc n) ht \<longrightarrow> htab_room n ht'"
    using insert_new [OF ok room miss(2), of val] by blast
  have "op_htab_set ht key val = Some (1, NULL, ht')"
    using miss i(1,2,3) htab_okD(2) [OF ok] by (simp add: op_htab_set_def)
  then show ?thesis using i miss(1) by simp
qed

lemma get_or_set_spec:
  assumes ok: "htab_ok hash_fn eq_fn ht" and room: "ht_mask ht < 2 ^ 58"
  shows "\<exists>ht'. op_htab_get_or_set ht key val
       = Some (case htab_map ht key of None \<Rightarrow> val | Some v \<Rightarrow> v, htab_map ht key = None, ht')
     \<and> htab_ok hash_fn eq_fn ht'
     \<and> htab_map ht' = (\<lambda>k. if eq_fn key k \<and> htab_map ht key = None then Some val else htab_map ht k)
     \<and> (\<forall>n. htab_room (Suc n) ht \<longrightarrow> htab_room n ht')"
  using ok
proof (cases rule: find_cases [where key = key])
  case (hit j s)
  then show ?thesis using ok htab_okD(2) [OF ok] by (simp add: op_htab_get_or_set_def htab_room_def)
next
  case miss
  obtain hg slots ht' where i: "htab_maybe_grow ht = Some hg"
      "htab_insert_slot (ht_slots hg) (ht_mask hg) key val (fix_hash (hash_fn key)) = Some slots"
      "ht' = hg\<lparr>ht_slots := slots, ht_count := ht_count hg + 1\<rparr>" "htab_ok hash_fn eq_fn ht'"
      "htab_map ht' = (\<lambda>k. if eq_fn key k then Some val else htab_map ht k)"
      "\<forall>n. htab_room (Suc n) ht \<longrightarrow> htab_room n ht'"
    using insert_new [OF ok room miss(2), of val] by blast
  then have "op_htab_get_or_set ht key val = Some (val, True, ht')"
    using miss htab_okD(2) [OF ok] by (simp add: op_htab_get_or_set_def)
  then show ?thesis using i miss(1) by auto
qed

lemma del_at_spec:
  assumes ok: "htab_ok hash_fn eq_fn ht" and j: "j < length (ht_slots ht)" "slot_live (ht_slots ht ! j)"
  shows "\<exists>ht'. htab_del_at ht j = Some ht' \<and> htab_ok hash_fn eq_fn ht'
     \<and> live_mset (ht_slots ht') = live_mset (ht_slots ht) - {#ht_slots ht ! j#}
     \<and> htab_map ht' = (\<lambda>k. if eq_fn (s_key (ht_slots ht ! j)) k then None else htab_map ht k)
     \<and> ht_count ht' + 1 = ht_count ht \<and> ht_mask ht' = ht_mask ht"
proof -
  note wf = htab_okD(1) [OF ok]
  note w = htab_wfD [OF wf]
  let ?s = "ht_slots ht ! j"
  have mem: "?s \<in># live_mset (ht_slots ht)" using live_msetI [OF j(1)] j(2) by (simp add: slot_live_def)
  obtain e where e: "e < Suc (ht_mask ht)" "s_hash (ht_slots ht ! e) = 0"
    using live_mset_empty_slot [of "ht_slots ht"] w by auto
  obtain k where k: "(Suc j mod Suc (ht_mask ht) + k) mod Suc (ht_mask ht) = e"
    using reach_slot [of "Suc j mod Suc (ht_mask ht)" "ht_mask ht" e] e(1) by auto
  obtain slots where s: "htab_del_loop (ht_slots ht) (ht_mask ht) j = Some slots"
      "length slots = Suc (ht_mask ht)" "rh_ok (ht_mask ht) slots"
      "live_mset slots = live_mset (ht_slots ht) - {#?s#}"
    using htab_del_loop_spec [OF w(1) e(1) w(3,4) e(2) _ k] j w(3) by (auto simp: slot_live_def)
  have pos: "0 < ht_count ht" using mem w(5) by (auto simp: nonempty_has_size [symmetric])
  have sub: "sub64 (ht_count ht) 1 = ht_count ht - 1"
    using pos w(6) is_mask_lt [OF w(1)] by (intro sub64_le) (auto simp: W64_def)
  let ?ht = "ht\<lparr>ht_slots := slots, ht_count := ht_count ht - 1\<rparr>"
  have "htab_wf ?ht" using w s mem by (auto simp: htab_wf_def size_Diff_singleton)
  moreover have "entries_ok hash_fn eq_fn (live_mset slots)"
    using entries_ok_remove [OF htab_okD(4) [OF ok]] s(4) by simp
  ultimately have ok': "htab_ok hash_fn eq_fn ?ht" using htab_okD(2,3) [OF ok] by (simp add: htab_ok_def)
  moreover have "htab_map ?ht = (\<lambda>k. if eq_fn (s_key ?s) k then None else htab_map ht k)"
    using map_remove_entry [OF ok ok' _ mem] s(4) by simp
  moreover have "htab_del_at ht j = Some ?ht" using s(1) sub by (simp add: htab_del_at_def)
  ultimately show ?thesis using s(4) pos by auto
qed

lemma del_spec:
  assumes ok: "htab_ok hash_fn eq_fn ht"
  shows "\<exists>ht'. op_htab_del ht key = Some (case htab_map ht key of None \<Rightarrow> NULL | Some v \<Rightarrow> v, ht')
     \<and> htab_ok hash_fn eq_fn ht'
     \<and> htab_map ht' = (\<lambda>k. if eq_fn key k then None else htab_map ht k)
     \<and> ht_count ht' = (if htab_map ht key = None then ht_count ht else ht_count ht - 1)
     \<and> (\<forall>n. htab_room n ht \<longrightarrow> htab_room n ht')"
  using ok
proof (cases rule: find_cases [where key = key])
  case (hit j s)
  obtain ht' where d: "htab_del_at ht j = Some ht'" "htab_ok hash_fn eq_fn ht'"
      "htab_map ht' = (\<lambda>k. if eq_fn (s_key s) k then None else htab_map ht k)"
      "ht_count ht' + 1 = ht_count ht" "ht_mask ht' = ht_mask ht"
    using del_at_spec [OF ok hit(1)] hit(3,4) by auto
  have "op_htab_del ht key = Some (s_val s, ht')"
    using hit d(1) htab_okD(2) [OF ok] by (simp add: op_htab_del_def)
  moreover have "eq_fn (s_key s) k = eq_fn key k" for k using eq_iff [OF hit(6)] .
  ultimately show ?thesis using d hit by (auto simp: htab_room_def)
next
  case miss
  have "htab_map ht = (\<lambda>k. if eq_fn key k then None else htab_map ht k)"
  proof
    fix k
    show "htab_map ht k = (if eq_fn key k then None else htab_map ht k)"
      using miss(2) htab_map_None [of ht k] htab_okD(3) [OF ok] eq_sym eq_trans by (metis)
  qed
  moreover have "op_htab_del ht key = Some (NULL, ht)"
    using miss htab_okD(2) [OF ok] by (simp add: op_htab_del_def)
  ultimately show ?thesis using miss(1) ok by auto
qed

end

section \<open>Creation and compaction\<close>

definition registry_ok :: "htab_registry \<Rightarrow> bool" where
  "registry_ok reg \<longleftrightarrow> (htab_list_inited reg \<longrightarrow> vec_inv (htab_list reg) \<and> vec_size (htab_list reg) < 2 ^ 60)"

definition registered :: "htab_registry \<Rightarrow> addr ptr list" where
  "registered reg = (if htab_list_inited reg then vec_list (htab_list reg) else [])"

lemma htab_register_spec:
  assumes "registry_ok reg"
  shows "\<exists>reg'. htab_register reg self = Some reg' \<and> htab_list_inited reg' \<and> vec_inv (htab_list reg')
     \<and> registered reg' = registered reg @ [Some self]"
proof (cases "htab_list_inited reg")
  case True
  then obtain w where "op_vec_push (htab_list reg) (Some self) = Some w" "vec_inv w"
      "vec_list w = vec_list (htab_list reg) @ [Some self]"
    using vecs.add_spec [of "htab_list reg" "Some self"] assms by (auto simp: registry_ok_def)
  then show ?thesis using True by (simp add: htab_register_def registered_def)
next
  case False
  have i: "vec_inv (op_vec_init 16 :: addr op_vec)" "vec_list (op_vec_init 16 :: addr op_vec) = []"
      "vec_size (op_vec_init 16 :: addr op_vec) = 0"
    using op_vec_init_spec [of 16] by (auto simp: SIZE_MAX_div8 op_vec_init_def)
  then obtain w where "op_vec_push (op_vec_init 16) (Some self) = Some w" "vec_inv w" "vec_list w = [Some self]"
    using vecs.add_spec [of "op_vec_init 16" "Some self"] by auto
  then show ?thesis using False by (simp add: htab_register_def registered_def)
qed

lemma pow2_lt_exp: "(2::nat) ^ k < 2 ^ n \<Longrightarrow> k < n"
  by (simp only: power_strict_increasing_iff one_less_numeral_iff semiring_norm)

lemma htab_next_pow2_spec:
  assumes "n \<le> 2 ^ 63"
  shows "\<exists>k. 4 \<le> k \<and> k \<le> 63 \<and> htab_next_pow2 n = 2 ^ k \<and> n \<le> 2 ^ k \<and> (16 < (2::nat) ^ k \<longrightarrow> 2 ^ k < 2 * n)"
proof (cases "n < 16")
  case True
  then show ?thesis by (intro exI [of _ 4]) (simp add: htab_next_pow2_def)
next
  case False
  obtain k where k: "0 < k" "k \<le> 63" "smear64 (n - 1) + 1 = 2 ^ k" "n \<le> 2 ^ k" "2 ^ (k - 1) < n"
    using smear64_pow2 [of n] False assms by auto
  have "2 ^ k < 2 * n" using k(1,5) by (cases k) auto
  moreover have "(2::nat) ^ 3 < 2 ^ k" using k(4) False by simp
  then have "3 < k" by (rule pow2_lt_exp)
  moreover have "(2::nat) ^ k \<le> 2 ^ 63" using k(2) by (intro power_increasing) auto
  then have "wrap64 (2 ^ k) = 2 ^ k" by (intro wrap64_small) (simp add: W64_def)
  ultimately show ?thesis using k False by (intro exI [of _ k]) (simp add: htab_next_pow2_def)
qed

text \<open>The table a constructor returns for capacity \<open>2 ^ k\<close>.\<close>

definition fresh_htab ::
  "string \<Rightarrow> ('k ptr \<Rightarrow> u64) \<Rightarrow> ('k ptr \<Rightarrow> 'k ptr \<Rightarrow> bool) \<Rightarrow> nat \<Rightarrow> ('k, 'v) op_htab" where
  "fresh_htab name hash_fn eq_fn cap = \<lparr>ht_hash_fn = hash_fn, ht_eq_fn = eq_fn,
     ht_slots = replicate cap empty_slot, ht_mask = cap - 1, ht_count = 0, ht_name = name\<rparr>"

lemma fresh_htab_simps [simp]:
  "ht_mask (fresh_htab name hash_fn eq_fn cap) = cap - 1" "ht_count (fresh_htab name hash_fn eq_fn cap) = 0"
  by (simp_all add: fresh_htab_def)

lemma fresh_htab_ok:
  fixes hash_fn :: "'k ptr \<Rightarrow> u64"
  assumes "4 \<le> k" and "k \<le> 59"
  shows "htab_ok hash_fn eq_fn (fresh_htab name hash_fn eq_fn (2 ^ k) :: ('k, 'v) op_htab)"
    and "htab_map (fresh_htab name hash_fn eq_fn (2 ^ k) :: ('k, 'v) op_htab) = Map.empty"
proof -
  let ?ht = "fresh_htab name hash_fn eq_fn (2 ^ k) :: ('k, 'v) op_htab"
  let ?m = "2 ^ k - 1 :: nat"
  have "is_mask ?m" using assms unfolding is_mask_def by (intro exI [of _ k]) simp
  moreover have "(2::nat) ^ 4 \<le> 2 ^ k" using assms(1) by (intro power_increasing) auto
  moreover have "rh_ok ?m (replicate (2 ^ k) (empty_slot :: ('k, 'v) op_htab_slot))"
    using rh_ok_fresh [of ?m] by simp
  ultimately have "htab_wf ?ht" by (simp add: htab_wf_def live_mset_fresh fresh_htab_def)
  then show "htab_ok hash_fn eq_fn ?ht"
    by (simp add: htab_ok_def entries_ok_def live_mset_fresh fresh_htab_def)
  show "htab_map ?ht = Map.empty"
    by (rule ext) (auto simp: htab_map_def find_None_iff slot_live_def empty_slot_def fresh_htab_def)
qed

lemma htab_create_spec:
  fixes hash_fn :: "'k ptr \<Rightarrow> u64"
  assumes "registry_ok reg" and "initial_cap \<le> 2 ^ 59"
  shows "\<exists>ht reg'. op_htab_create reg self name hash_fn eq_fn initial_cap = Some (ht :: ('k, 'v) op_htab, reg')
     \<and> htab_ok hash_fn eq_fn ht \<and> ht_count ht = 0 \<and> htab_map ht = Map.empty
     \<and> initial_cap \<le> Suc (ht_mask ht) \<and> registered reg' = registered reg @ [Some self]
     \<and> (initial_cap \<le> 2 ^ 57 \<longrightarrow> ht_mask ht < 2 ^ 58)"
proof -
  have "initial_cap \<le> 2 ^ 63" using assms(2) by simp
  then obtain k where k0: "4 \<le> k" "htab_next_pow2 initial_cap = 2 ^ k" "initial_cap \<le> 2 ^ k"
      "16 < (2::nat) ^ k \<longrightarrow> 2 ^ k < 2 * initial_cap"
    using htab_next_pow2_spec by blast
  have "(2::nat) ^ k < 2 ^ 60" using k0(4) assms(2) by (cases "16 < (2::nat) ^ k") auto
  then have "k < 60" by (rule pow2_lt_exp)
  then have k: "4 \<le> k" "k \<le> 59" "htab_next_pow2 initial_cap = 2 ^ k" "initial_cap \<le> 2 ^ k"
    using k0 by auto
  obtain reg' where r: "htab_register reg self = Some reg'" "registered reg' = registered reg @ [Some self]"
    using htab_register_spec [OF assms(1)] by blast
  have lt: "(2::nat) ^ k \<le> 2 ^ 59" using k(2) by (intro power_increasing) auto
  have sub: "sub64 (2 ^ k) 1 = 2 ^ k - 1" using lt by (intro sub64_le) (auto simp: W64_def)
  have calloc: "calloc_slots (2 ^ k) = Some (replicate (2 ^ k) (empty_slot :: ('k, 'v) op_htab_slot))"
    using lt by (simp add: calloc_slots_def SIZE_MAX_def W64_def)
  let ?ht = "fresh_htab name hash_fn eq_fn (2 ^ k) :: ('k, 'v) op_htab"
  have c: "op_htab_create reg self name hash_fn eq_fn initial_cap = Some (?ht, reg')"
    using k(3) calloc r(1) sub by (simp add: op_htab_create_def Let_def fresh_htab_def)
  have "initial_cap \<le> 2 ^ 57 \<longrightarrow> (2::nat) ^ k - 1 < 2 ^ 58"
    using k0(4) by (cases "16 < (2::nat) ^ k") auto
  then show ?thesis using c r(2) k(4)
    by (intro exI [of _ ?ht] exI [of _ reg']) (simp add: fresh_htab_ok [OF k(1,2)])
qed

lemma htab_compact_spec:
  assumes ok: "htab_ok hash_fn eq_fn ht"
  shows "\<exists>ht'. op_htab_compact ht = Some ht' \<and> htab_ok hash_fn eq_fn ht'
     \<and> live_mset (ht_slots ht') = live_mset (ht_slots ht) \<and> ht_count ht' = ht_count ht
     \<and> ht_mask ht' \<le> ht_mask ht \<and> (ht_mask ht' < ht_mask ht \<longrightarrow> 2 * ht_count ht < Suc (ht_mask ht'))"
proof -
  note wf = htab_okD(1) [OF ok]
  note w = htab_wfD [OF wf]
  have b: "ht_count ht * 2 + 1 \<le> 2 * Suc (ht_mask ht)" "Suc (ht_mask ht) \<le> 2 ^ 59"
    using w(6) is_mask_lt [OF w(1)] by auto
  have wr: "wrap64 (ht_count ht * 2 + 1) = ht_count ht * 2 + 1" "wrap64 (ht_mask ht + 1) = Suc (ht_mask ht)"
    using b by (auto intro!: wrap64_small simp: W64_def)
  show ?thesis
  proof (cases "htab_next_pow2 (ht_count ht * 2 + 1) < Suc (ht_mask ht)")
    case False
    then show ?thesis using ok by (simp add: op_htab_compact_def Let_def wr [simplified])
  next
    case True
    have "ht_count ht * 2 + 1 \<le> 2 ^ 63" using b by simp
    then obtain k where k0: "4 \<le> k" "htab_next_pow2 (ht_count ht * 2 + 1) = 2 ^ k" "ht_count ht * 2 + 1 \<le> 2 ^ k"
      using htab_next_pow2_spec by blast
    have "(2::nat) ^ k < 2 ^ 59" using True b(2) k0(2) by simp
    then have "k < 59" by (rule pow2_lt_exp)
    then have k: "4 \<le> k" "k \<le> 59" "htab_next_pow2 (ht_count ht * 2 + 1) = 2 ^ k" "ht_count ht * 2 + 1 \<le> 2 ^ k"
      using k0 by auto
    obtain slots where s: "htab_resize ht (2 ^ k) = Some (ht\<lparr>ht_slots := slots, ht_mask := 2 ^ k - 1\<rparr>)"
        "length slots = 2 ^ k" "rh_ok (2 ^ k - 1) slots" "is_mask (2 ^ k - 1)"
        "live_mset slots = live_mset (ht_slots ht)"
      using htab_resize_spec [OF wf k(1,2)] k(4) by auto
    have ge: "(2::nat) ^ 4 \<le> 2 ^ k" using k(1) by (intro power_increasing) auto
    let ?ht = "ht\<lparr>ht_slots := slots, ht_mask := 2 ^ k - 1\<rparr>"
    have "htab_wf ?ht" using s w(5) k(4) ge by (simp add: htab_wf_def)
    then have "htab_ok hash_fn eq_fn ?ht" using ok s(5) by (simp add: htab_ok_def)
    moreover have "op_htab_compact ht = Some ?ht" using True k(3) s(1) by (simp add: op_htab_compact_def Let_def wr [simplified])
    ultimately show ?thesis using s(5) True k(3,4) by auto
  qed
qed


section \<open>Merging\<close>

definition slots_map :: "('k ptr \<Rightarrow> 'k ptr \<Rightarrow> bool) \<Rightarrow> ('k, 'v) op_htab_slot list \<Rightarrow> 'k ptr \<Rightarrow> 'v ptr option" where
  "slots_map eq_fn ss k = map_option s_val (List.find (\<lambda>s. slot_live s \<and> eq_fn (s_key s) k) ss)"

lemma slots_map_simps [simp]:
  "slots_map eq_fn [] k = None"
  "slots_map eq_fn (s # ss) k =
     (if slot_live s \<and> eq_fn (s_key s) k then Some (s_val s) else slots_map eq_fn ss k)"
  by (simp_all add: slots_map_def)

lemma slots_map_None:
  "slots_map eq_fn ss k = None \<longleftrightarrow> (\<forall>s \<in> set ss. slot_live s \<longrightarrow> \<not> eq_fn (s_key s) k)"
  by (auto simp: slots_map_def find_None_iff)

lemma htab_map_slots: "htab_map ht = slots_map (ht_eq_fn ht) (ht_slots ht)"
  by (rule ext) (simp add: htab_map_def slots_map_def)

lemma live_mset_Cons: "live_mset (s # ss) = (if slot_live s then add_mset s (live_mset ss) else live_mset ss)"
  by (simp add: live_mset_def)

lemma set_live_mset: "s \<in># live_mset ss \<longleftrightarrow> s \<in> set ss \<and> slot_live s"
  by (auto simp: live_mset_def)

lemma entries_ok_Cons:
  assumes "entries_ok hash_fn eq_fn (live_mset (s # ss))"
  shows "entries_ok hash_fn eq_fn (live_mset ss)"
  using entries_ok_remove [OF assms, of "{#s#}"] assms by (simp add: live_mset_Cons split: if_splits)

context htab_keys
begin

lemma map_cong:
  fixes ht :: "('k, 'v) op_htab"
  assumes "htab_ok hash_fn eq_fn ht" and "eq_fn a b"
  shows "htab_map ht a = htab_map ht b"
proof -
  have "(\<lambda>s :: ('k, 'v) op_htab_slot. slot_live s \<and> eq_fn (s_key s) a) = (\<lambda>s. slot_live s \<and> eq_fn (s_key s) b)"
    using assms(2) eq_sym eq_trans by (intro ext) blast
  then show ?thesis unfolding htab_map_def htab_okD(3) [OF assms(1)] by (simp only:)
qed

lemma later_keys:
  assumes "entries_ok hash_fn eq_fn (live_mset (s # ss))" and "slot_live s" and "t \<in> set ss" "slot_live t"
  shows "\<not> eq_fn (s_key s) (s_key t)"
  using entries_ok_two [of hash_fn eq_fn s "live_mset ss" t "s_key t"] assms eq_refl
  by (auto simp: live_mset_Cons set_live_mset)

lemma later_keys_filter:
  assumes "entries_ok hash_fn eq_fn (live_mset (s # ss))" and "slot_live s"
    and "\<forall>k. \<not> eq_fn (s_key s) k \<longrightarrow> f k = g k"
  shows "filter (\<lambda>t. slot_live t \<and> f (s_key t) \<noteq> None) ss = filter (\<lambda>t. slot_live t \<and> g (s_key t) \<noteq> None) ss"
    and "map (\<lambda>t. (s_key t, the (f (s_key t)), s_key t, s_val t)) (filter (\<lambda>t. slot_live t \<and> g (s_key t) \<noteq> None) ss)
       = map (\<lambda>t. (s_key t, the (g (s_key t)), s_key t, s_val t)) (filter (\<lambda>t. slot_live t \<and> g (s_key t) \<noteq> None) ss)"
  using later_keys [OF assms(1,2)] assms(3) by (auto intro!: filter_cong)

lemma merge_keep:
  assumes "htab_ok hash_fn eq_fn dst" and "entries_ok hash_fn eq_fn (live_mset ss)"
    and "htab_room (2 * size (live_mset ss)) dst"
  shows "\<exists>dst'. htab_merge_slots dst ss True = Some (dst',
         map (\<lambda>s. (s_key s, the (htab_map dst (s_key s)), s_key s, s_val s))
           (filter (\<lambda>s. slot_live s \<and> htab_map dst (s_key s) \<noteq> None) ss))
     \<and> htab_ok hash_fn eq_fn dst'
     \<and> htab_map dst' = (\<lambda>k. case htab_map dst k of Some v \<Rightarrow> Some v | None \<Rightarrow> slots_map eq_fn ss k)"
  using assms
proof (induction ss arbitrary: dst)
  case Nil
  then show ?case by (auto split: option.splits)
next
  case (Cons s ss)
  note ok = Cons.prems(1)
  note ent = entries_ok_Cons [OF Cons.prems(2)]
  show ?case
  proof (cases "slot_live s")
    case False
    then have "s_hash s = 0" by (simp add: slot_live_def)
    then show ?thesis using Cons.IH [OF ok ent] Cons.prems(3) False
      by (simp add: live_mset_Cons cong: option.case_cong)
  next
    case live: True
    have room: "htab_room (Suc (Suc (2 * size (live_mset ss)))) dst"
      using Cons.prems(3) live by (simp add: live_mset_Cons)
    have small: "ht_mask dst < 2 ^ 58" using room by (simp add: htab_room_def)
    obtain d1 where d1: "op_htab_set dst (s_key s) (s_val s) = Some (if htab_map dst (s_key s) = None then 1 else 0,
          case htab_map dst (s_key s) of None \<Rightarrow> NULL | Some v \<Rightarrow> v, d1)" "htab_ok hash_fn eq_fn d1"
        "htab_map d1 = (\<lambda>k. if eq_fn (s_key s) k then Some (s_val s) else htab_map dst k)"
        "htab_room (Suc (2 * size (live_mset ss))) d1"
      using set_spec [OF ok small, of "s_key s" "s_val s"] room by blast
    have small1: "ht_mask d1 < 2 ^ 58" "htab_room (2 * size (live_mset ss)) d1"
      using d1(4) by (simp_all add: htab_room_def)
    show ?thesis
    proof (cases "htab_map dst (s_key s)")
      case None
      have m: "\<forall>k. \<not> eq_fn (s_key s) k \<longrightarrow> htab_map d1 k = htab_map dst k" using d1(3) by simp
      note f = later_keys_filter [OF Cons.prems(2) live m]
      obtain d2 where d2: "htab_merge_slots d1 ss True = Some (d2,
         map (\<lambda>s. (s_key s, the (htab_map d1 (s_key s)), s_key s, s_val s))
           (filter (\<lambda>s. slot_live s \<and> htab_map d1 (s_key s) \<noteq> None) ss))" "htab_ok hash_fn eq_fn d2"
         "htab_map d2 = (\<lambda>k. case htab_map d1 k of Some v \<Rightarrow> Some v | None \<Rightarrow> slots_map eq_fn ss k)"
        using Cons.IH [OF d1(2) ent small1(2)] by blast
      have "htab_merge_slots dst (s # ss) True = Some (d2,
         map (\<lambda>s. (s_key s, the (htab_map dst (s_key s)), s_key s, s_val s))
           (filter (\<lambda>s. slot_live s \<and> htab_map dst (s_key s) \<noteq> None) (s # ss)))"
        using d1(1) d2(1) None live f by (simp add: slot_live_def)
      moreover have "htab_map d2 = (\<lambda>k. case htab_map dst k of Some v \<Rightarrow> Some v | None \<Rightarrow> slots_map eq_fn (s # ss) k)"
        using d2(3) d1(3) live None map_cong [OF ok, of "s_key s"] by (auto split: option.splits)
      ultimately show ?thesis using d2(2) by blast
    next
      case (Some old)
      obtain d2 where d2: "op_htab_set d1 (s_key s) old = Some (0, s_val s, d2)" "htab_ok hash_fn eq_fn d2"
        "htab_map d2 = (\<lambda>k. if eq_fn (s_key s) k then Some old else htab_map d1 k)"
        "htab_room (2 * size (live_mset ss)) d2"
        using set_spec [OF d1(2) small1(1), of "s_key s" old] d1(3,4) eq_refl by auto
      have dk: "htab_map dst k = Some old" if "eq_fn (s_key s) k" for k
        using map_cong [OF ok that] Some by simp
      have eq: "htab_map d2 = htab_map dst"
        using d2(3) d1(3) Some map_cong [OF ok, of "s_key s"] by auto
      then obtain d3 where d3: "htab_merge_slots d2 ss True = Some (d3,
         map (\<lambda>s. (s_key s, the (htab_map dst (s_key s)), s_key s, s_val s))
           (filter (\<lambda>s. slot_live s \<and> htab_map dst (s_key s) \<noteq> None) ss))" "htab_ok hash_fn eq_fn d3"
         "htab_map d3 = (\<lambda>k. case htab_map dst k of Some v \<Rightarrow> Some v | None \<Rightarrow> slots_map eq_fn ss k)"
        using Cons.IH [OF d2(2) ent d2(4)] by auto
      have "htab_map d3 = (\<lambda>k. case htab_map dst k of Some v \<Rightarrow> Some v | None \<Rightarrow> slots_map eq_fn (s # ss) k)"
        unfolding d3(3) by (intro ext) (auto dest: dk split: option.splits)
      moreover have "htab_merge_slots dst (s # ss) True = Some (d3,
         map (\<lambda>s. (s_key s, the (htab_map dst (s_key s)), s_key s, s_val s))
           (filter (\<lambda>s. slot_live s \<and> htab_map dst (s_key s) \<noteq> None) (s # ss)))"
        using d1(1) d2(1) d3(1) Some live by (simp add: slot_live_def)
      ultimately show ?thesis using d3(2) by blast
    qed
  qed
qed

lemma merge_overwrite:
  assumes "htab_ok hash_fn eq_fn dst" and "entries_ok hash_fn eq_fn (live_mset ss)"
    and "htab_room (size (live_mset ss)) dst"
  shows "\<exists>dst'. htab_merge_slots dst ss False = Some (dst', []) \<and> htab_ok hash_fn eq_fn dst'
     \<and> htab_map dst' = (\<lambda>k. case slots_map eq_fn ss k of Some v \<Rightarrow> Some v | None \<Rightarrow> htab_map dst k)"
  using assms
proof (induction ss arbitrary: dst)
  case Nil
  then show ?case by auto
next
  case (Cons s ss)
  note ok = Cons.prems(1)
  note ent = entries_ok_Cons [OF Cons.prems(2)]
  show ?case
  proof (cases "slot_live s")
    case False
    then have "s_hash s = 0" by (simp add: slot_live_def)
    then show ?thesis using Cons.IH [OF ok ent] Cons.prems(3) False
      by (simp add: live_mset_Cons cong: option.case_cong)
  next
    case live: True
    have room: "htab_room (Suc (size (live_mset ss))) dst"
      using Cons.prems(3) live by (simp add: live_mset_Cons)
    have small: "ht_mask dst < 2 ^ 58" using room by (simp add: htab_room_def)
    obtain d1 rc ov where d1: "op_htab_set dst (s_key s) (s_val s) = Some (rc, ov, d1)" "htab_ok hash_fn eq_fn d1"
        "htab_map d1 = (\<lambda>k. if eq_fn (s_key s) k then Some (s_val s) else htab_map dst k)"
        "htab_room (size (live_mset ss)) d1"
      using set_spec [OF ok small, of "s_key s" "s_val s"] room by blast
    obtain d2 where d2: "htab_merge_slots d1 ss False = Some (d2, [])" "htab_ok hash_fn eq_fn d2"
        "htab_map d2 = (\<lambda>k. case slots_map eq_fn ss k of Some v \<Rightarrow> Some v | None \<Rightarrow> htab_map d1 k)"
      using Cons.IH [OF d1(2) ent d1(4)] by blast
    have "slots_map eq_fn ss k = None" if "eq_fn (s_key s) k" for k
      using later_keys [OF Cons.prems(2) live] that eq_sym eq_trans unfolding slots_map_None by blast
    then have "htab_map d2 = (\<lambda>k. case slots_map eq_fn (s # ss) k of Some v \<Rightarrow> Some v | None \<Rightarrow> htab_map dst k)"
      using d2(3) d1(3) live by (auto split: option.splits)
    moreover have "htab_merge_slots dst (s # ss) False = Some (d2, [])"
      using d1(1) d2(1) live by (simp add: slot_live_def)
    ultimately show ?thesis using d2(2) by blast
  qed
qed

end

end
