(* ===== verification/Cstring.thy ===== *)
theory Cstring
  imports Libop_Prelude
begin

text \<open>
  NUL-terminated byte strings as the C code reads them, shared by the string-keyed
  components: the byte a pointer stands on, advancing it, the text up to the terminator,
  \<^verbatim>\<open>strcmp\<close> and the C-locale \<^verbatim>\<open>tolower\<close>.
\<close>

section \<open>C strings\<close>

text \<open>
  A string object is the list of its bytes; reading past the last byte reads the terminating
  zero, and a zero byte inside the list ends the string as it does in C.  The string
  callbacks dereference their argument, so a null key is outside their contract; the model
  reads it as an empty object.
\<close>

type_synonym cstr = "u8 list"

definition cbyte :: "cstr \<Rightarrow> u8" where
  "cbyte s = (case s of [] \<Rightarrow> 0 | c # _ \<Rightarrow> c)"

definition deref_str :: "cstr ptr \<Rightarrow> cstr" where
  "deref_str p = (case p of None \<Rightarrow> [] | Some s \<Rightarrow> s)"

definition cstr_text :: "cstr \<Rightarrow> u8 list" where
  "cstr_text s = takeWhile (\<lambda>c. c \<noteq> 0) s"

function c_strcmp :: "cstr \<Rightarrow> cstr \<Rightarrow> int" where
  "c_strcmp a b =
     (if cbyte a \<noteq> cbyte b then (if cbyte a < cbyte b then -1 else 1)
      else if cbyte a = 0 then 0
      else c_strcmp (tl a) (tl b))"
  by pat_completeness auto
termination
  by (relation "measure (\<lambda>(a, b). length a)") (auto simp: cbyte_def split: list.splits)

definition c_tolower :: "u8 \<Rightarrow> u8" where
  "c_tolower c = (if 0x41 \<le> c \<and> c \<le> 0x5A then c + 0x20 else c)"

declare c_strcmp.simps [simp del]

section \<open>Reading a string\<close>

lemma cbyte_Nil [simp]: "cbyte [] = 0"
  by (simp add: cbyte_def)

lemma cbyte_Cons [simp]: "cbyte (c # s) = c"
  by (simp add: cbyte_def)

lemma cstr_text_unroll: "cstr_text s = (if cbyte s = 0 then [] else cbyte s # cstr_text (tl s))"
  by (cases s) (simp_all add: cstr_text_def)

lemma cstr_text_Nil_iff: "cstr_text s = [] \<longleftrightarrow> cbyte s = 0"
  by (subst cstr_text_unroll) simp

lemma cstr_text_nonzero: "0 \<notin> set (cstr_text s)"
  by (auto simp: cstr_text_def dest: set_takeWhileD)

lemma cstr_text_id: "0 \<notin> set s \<Longrightarrow> cstr_text s = s"
  by (auto simp: cstr_text_def takeWhile_eq_all_conv)

lemma cstr_text_term: "0 \<notin> set s \<Longrightarrow> cstr_text (s @ 0 # r) = s"
  by (induction s) (simp_all add: cstr_text_def)

lemma cbyte_tl_length: "cbyte (tl s) \<noteq> 0 \<Longrightarrow> length s - Suc 0 < length s"
  by (cases s) simp_all

lemma cbyte_length: "cbyte s \<noteq> 0 \<Longrightarrow> length s - Suc 0 < length s"
  by (cases s) simp_all

lemma c_strcmp_0: "c_strcmp a b = 0 \<longleftrightarrow> cstr_text a = cstr_text b"
proof (induction a b rule: c_strcmp.induct)
  case (1 a b)
  show ?case
  proof (cases "cbyte a \<noteq> cbyte b \<or> cbyte a = 0")
    case True
    then show ?thesis
      by (subst c_strcmp.simps) (auto simp: cbyte_def cstr_text_def split: list.splits)
  next
    case False
    then have "c_strcmp a b = c_strcmp (tl a) (tl b)" by (subst c_strcmp.simps) simp
    moreover have "cstr_text a = cbyte a # cstr_text (tl a)" "cstr_text b = cbyte b # cstr_text (tl b)"
      using False by (auto simp: cbyte_def cstr_text_def split: list.splits)
    ultimately show ?thesis using "1" False by simp
  qed
qed

lemma c_tolower_0: "c_tolower c = 0 \<longleftrightarrow> c = 0"
proof -
  have "c + 0x20 \<noteq> 0" if "0x41 \<le> c" "c \<le> 0x5A" for c :: u8
    using that by unat_arith simp
  then show ?thesis by (auto simp: c_tolower_def)
qed

end
