(* ===== verification/Htab_Keys.thy ===== *)
theory Htab_Keys
  imports Htab_Map Cstring
begin

unbundle bit_operations_syntax

text \<open>
  The three key modes of \<^verbatim>\<open>src/htab.c\<close>: case-sensitive strings, IRC case-insensitive
  strings (RFC 1459 folding) and pointer identity.  Each pair of callbacks is shown to meet
  the contract \<open>htab_keys\<close>, so the map theorems apply to the tables the convenience
  constructors build; the client-level theorem runs any sequence of requests against a table
  and against a plain map side by side.
\<close>

section \<open>Case-sensitive strings\<close>

fun hash_str_loop :: "cstr \<Rightarrow> u64 \<Rightarrow> u64" where
  "hash_str_loop [] h = h"
| "hash_str_loop (c # s) h =
     (if c = 0 then h else hash_str_loop s ((h XOR ucast c) * 1099511628211))"

definition op_htab_hash_str :: "cstr ptr \<Rightarrow> u64" where
  "op_htab_hash_str key = fix_hash (hash_str_loop (deref_str key) 14695981039346656037)"

definition htab_eq_str :: "cstr ptr \<Rightarrow> cstr ptr \<Rightarrow> bool" where
  "htab_eq_str a b \<longleftrightarrow> c_strcmp (deref_str a) (deref_str b) = 0"

definition op_htab_create_str ::
  "htab_registry \<Rightarrow> addr \<Rightarrow> string \<Rightarrow> nat \<Rightarrow> ((cstr, 'v) op_htab \<times> htab_registry) option" where
  "op_htab_create_str reg self name initial_cap =
     op_htab_create reg self name op_htab_hash_str htab_eq_str initial_cap"

section \<open>IRC case-insensitive strings\<close>

definition irc_fold :: "u8 \<Rightarrow> u8" where
  "irc_fold c = (if c \<ge> 0x41 \<and> c \<le> 0x5A then c OR 0x20
     else if c \<ge> 0x5B \<and> c \<le> 0x5E then c + 0x20 else c)"

fun hash_istr_loop :: "cstr \<Rightarrow> u64 \<Rightarrow> u64" where
  "hash_istr_loop [] h = h"
| "hash_istr_loop (c # s) h =
     (if c = 0 then h else hash_istr_loop s ((h XOR ucast (irc_fold c)) * 1099511628211))"

definition op_htab_hash_istr :: "cstr ptr \<Rightarrow> u64" where
  "op_htab_hash_istr key = fix_hash (hash_istr_loop (deref_str key) 14695981039346656037)"

lemma irc_fold_0 [simp]: "irc_fold 0 = 0"
  by (simp add: irc_fold_def)

function eq_istr_loop :: "cstr \<Rightarrow> cstr \<Rightarrow> bool" where
  "eq_istr_loop ua ub = (let ca = irc_fold (cbyte ua); cb = irc_fold (cbyte ub) in
     if ca = cb \<and> ca \<noteq> 0 then eq_istr_loop (tl ua) (tl ub) else ca = cb)"
  by pat_completeness auto
termination
  by (relation "measure (\<lambda>(a, b). length a)") (auto simp: cbyte_def split: list.splits)

definition htab_eq_istr :: "cstr ptr \<Rightarrow> cstr ptr \<Rightarrow> bool" where
  "htab_eq_istr a b \<longleftrightarrow> eq_istr_loop (deref_str a) (deref_str b)"

definition op_htab_create_istr ::
  "htab_registry \<Rightarrow> addr \<Rightarrow> string \<Rightarrow> nat \<Rightarrow> ((cstr, 'v) op_htab \<times> htab_registry) option" where
  "op_htab_create_istr reg self name initial_cap =
     op_htab_create reg self name op_htab_hash_istr htab_eq_istr initial_cap"

section \<open>Pointer identity\<close>

text \<open>A pointer key is its address; the null pointer is address zero.\<close>

definition op_htab_hash_ptr :: "addr ptr \<Rightarrow> u64" where
  "op_htab_hash_ptr key = (let v = (case key of None \<Rightarrow> 0 | Some a \<Rightarrow> a);
       v = v XOR drop_bit 30 v;
       v = v * 0xbf58476d1ce4e5b9;
       v = v XOR drop_bit 27 v;
       v = v * 0x94d049bb133111eb;
       v = v XOR drop_bit 31 v
     in fix_hash v)"

definition htab_eq_ptr :: "addr ptr \<Rightarrow> addr ptr \<Rightarrow> bool" where
  "htab_eq_ptr a b \<longleftrightarrow> a = b"

definition op_htab_create_ptr ::
  "htab_registry \<Rightarrow> addr \<Rightarrow> string \<Rightarrow> nat \<Rightarrow> ((addr, 'v) op_htab \<times> htab_registry) option" where
  "op_htab_create_ptr reg self name initial_cap =
     op_htab_create reg self name op_htab_hash_ptr htab_eq_ptr initial_cap"

text \<open>
  The case mapping of RFC 1459 as the table of its pairs: the letters, and the four characters
  whose lower case are braces, the bar and the tilde.
\<close>

definition rfc1459_pairs :: "(u8 \<times> u8) list" where
  "rfc1459_pairs = zip (map of_char (''ABCDEFGHIJKLMNOPQRSTUVWXYZ['' @ [CHR 0x5C] @ '']^''))
     (map of_char (''abcdefghijklmnopqrstuvwxyz{|}'' @ [CHR 0x7E]))"

definition rfc1459_lower :: "u8 \<Rightarrow> u8" where
  "rfc1459_lower c = (case map_of rfc1459_pairs c of Some l \<Rightarrow> l | None \<Rightarrow> c)"

definition rfc1459_eq :: "cstr ptr \<Rightarrow> cstr ptr \<Rightarrow> bool" where
  "rfc1459_eq a b \<longleftrightarrow>
     map rfc1459_lower (cstr_text (deref_str a)) = map rfc1459_lower (cstr_text (deref_str b))"

section \<open>Requests\<close>

text \<open>
  A client's requests to one table and their answers: the return code and the pointer the
  call hands back (the displaced, removed or stored value).
\<close>

datatype ('k, 'v) htab_req =
    HSet "'k ptr" "'v ptr"
  | HDel "'k ptr"
  | HGet "'k ptr"
  | HHas "'k ptr"
  | HGetOrSet "'k ptr" "'v ptr"
  | HCompact

fun htab_step :: "('k, 'v) op_htab \<Rightarrow> ('k, 'v) htab_req \<Rightarrow> ((int \<times> 'v ptr) \<times> ('k, 'v) op_htab) option" where
  "htab_step ht (HSet k v) = do { (rc, old, ht) \<leftarrow> op_htab_set ht k v; Some ((rc, old), ht) }"
| "htab_step ht (HDel k) = do { (v, ht) \<leftarrow> op_htab_del ht k; Some ((0, v), ht) }"
| "htab_step ht (HGet k) = do { v \<leftarrow> op_htab_get ht k; Some ((0, v), ht) }"
| "htab_step ht (HHas k) = do { b \<leftarrow> op_htab_has ht k; Some ((of_bool b, NULL), ht) }"
| "htab_step ht (HGetOrSet k v) = do { (r, ins, ht) \<leftarrow> op_htab_get_or_set ht k v; Some ((of_bool ins, r), ht) }"
| "htab_step ht HCompact = do { ht \<leftarrow> op_htab_compact ht; Some ((0, NULL), ht) }"

fun htab_run :: "('k, 'v) op_htab \<Rightarrow> ('k, 'v) htab_req list \<Rightarrow> ((int \<times> 'v ptr) list \<times> ('k, 'v) op_htab) option" where
  "htab_run ht [] = Some ([], ht)"
| "htab_run ht (r # rs) = do {
     (a, ht) \<leftarrow> htab_step ht r;
     (as, ht) \<leftarrow> htab_run ht rs;
     Some (a # as, ht)
   }"

text \<open>The same requests on a map from keys to pointers, keys being compared with \<open>eq\<close>.\<close>

definition stored :: "'v ptr option \<Rightarrow> 'v ptr" where
  "stored r = (case r of None \<Rightarrow> NULL | Some v \<Rightarrow> v)"

fun map_step :: "('k ptr \<Rightarrow> 'k ptr \<Rightarrow> bool) \<Rightarrow> ('k ptr \<Rightarrow> 'v ptr option) \<Rightarrow> ('k, 'v) htab_req
    \<Rightarrow> (int \<times> 'v ptr) \<times> ('k ptr \<Rightarrow> 'v ptr option)" where
  "map_step eq m (HSet k v) =
     ((if m k = None then 1 else 0, stored (m k)), \<lambda>x. if eq k x then Some v else m x)"
| "map_step eq m (HDel k) = ((0, stored (m k)), \<lambda>x. if eq k x then None else m x)"
| "map_step eq m (HGet k) = ((0, stored (m k)), m)"
| "map_step eq m (HHas k) = ((if m k = None then 0 else 1, NULL), m)"
| "map_step eq m (HGetOrSet k v) =
     (case m k of Some w \<Rightarrow> ((0, w), m) | None \<Rightarrow> ((1, v), \<lambda>x. if eq k x then Some v else m x))"
| "map_step eq m HCompact = ((0, NULL), m)"

fun map_run :: "('k ptr \<Rightarrow> 'k ptr \<Rightarrow> bool) \<Rightarrow> ('k ptr \<Rightarrow> 'v ptr option) \<Rightarrow> ('k, 'v) htab_req list
    \<Rightarrow> (int \<times> 'v ptr) list \<times> ('k ptr \<Rightarrow> 'v ptr option)" where
  "map_run eq m [] = ([], m)"
| "map_run eq m (r # rs) = (let (a, m') = map_step eq m r; (as, m'') = map_run eq m' rs in (a # as, m''))"

section \<open>The callbacks meet the contract\<close>

declare eq_istr_loop.simps [simp del]

lemma irc_fold_eq_0: "irc_fold c = 0 \<longleftrightarrow> c = 0"
proof
  assume "irc_fold c = 0"
  moreover have "c OR 0x20 \<noteq> 0" by (simp add: or_eq_0_iff)
  moreover have "c + 0x20 \<noteq> 0" if "c \<ge> 0x5B" "c \<le> 0x5E"
    using that by (simp add: word_le_nat_alt unat_eq_0 [symmetric] unat_word_ariths del: unat_eq_0)
  ultimately show "c = 0" by (auto simp: irc_fold_def split: if_splits)
qed simp

lemma eq_istr_loop_iff:
  "eq_istr_loop a b \<longleftrightarrow> map irc_fold (cstr_text a) = map irc_fold (cstr_text b)"
proof (induction a b rule: eq_istr_loop.induct)
  case (1 a b)
  let ?ca = "irc_fold (cbyte a)" and ?cb = "irc_fold (cbyte b)"
  have unroll: "cstr_text s = (if cbyte s = 0 then [] else cbyte s # cstr_text (tl s))" for s
    by (auto simp: cbyte_def cstr_text_def split: list.splits)
  show ?case
  proof (cases "?ca = ?cb \<and> ?ca \<noteq> 0")
    case True
    then have "eq_istr_loop a b = eq_istr_loop (tl a) (tl b)" by (subst eq_istr_loop.simps) (auto simp: Let_def)
    then show ?thesis using "1" [OF refl refl True] True
      by (subst unroll [of a], subst unroll [of b]) (auto simp: irc_fold_eq_0)
  next
    case False
    then have "eq_istr_loop a b \<longleftrightarrow> ?ca = ?cb" by (subst eq_istr_loop.simps) (auto simp: Let_def)
    then show ?thesis using False
      by (subst unroll [of a], subst unroll [of b]) (auto simp: irc_fold_eq_0 dest: sym)
  qed
qed

lemma rfc1459_keys: "map fst rfc1459_pairs = map word_of_nat [0x41..<0x5F]"
  by code_simp

lemma irc_fold_rfc1459: "irc_fold c = rfc1459_lower c"
proof (cases "0x41 \<le> unat c \<and> unat c < 0x5F")
  case True
  have "list_all (\<lambda>n. irc_fold (word_of_nat n) = rfc1459_lower (word_of_nat n)) [0x41..<0x5F]" by code_simp
  moreover have "unat c \<in> set [0x41..<0x5F]" using True by (simp only: set_upt atLeastLessThan_iff)
  ultimately have "irc_fold (word_of_nat (unat c)) = rfc1459_lower (word_of_nat (unat c))" by (simp only: list_all_iff)
  then show ?thesis by simp
next
  case False
  have "c \<notin> set (map fst rfc1459_pairs)"
  proof
    assume "c \<in> set (map fst rfc1459_pairs)"
    then obtain n where "0x41 \<le> n" "n < 0x5F" "c = word_of_nat n"
      unfolding rfc1459_keys by (auto simp only: set_map set_upt image_iff atLeastLessThan_iff)
    then show False using False by (simp add: unat_of_nat)
  qed
  then have "map_of rfc1459_pairs c = None" by (simp add: map_of_eq_None_iff)
  moreover have "irc_fold c = c" using False by (auto simp: irc_fold_def word_le_nat_alt)
  ultimately show ?thesis by (simp add: rfc1459_lower_def)
qed

lemma eq_istr_rfc1459: "htab_eq_istr = rfc1459_eq"
  by (intro ext) (simp add: htab_eq_istr_def eq_istr_loop_iff rfc1459_eq_def irc_fold_rfc1459 [abs_def])

lemma hash_str_loop_text: "hash_str_loop s h = hash_str_loop (cstr_text s) h"
  by (induction s arbitrary: h) (auto simp: cstr_text_def)

lemma hash_istr_loop_text:
  "hash_istr_loop s h = fold (\<lambda>c h. (h XOR ucast c) * 1099511628211) (map irc_fold (cstr_text s)) h"
  by (induction s arbitrary: h) (auto simp: cstr_text_def)

interpretation strs: htab_keys op_htab_hash_str htab_eq_str
proof
  fix a b assume "htab_eq_str a b"
  then have "cstr_text (deref_str a) = cstr_text (deref_str b)" by (simp add: htab_eq_str_def c_strcmp_0)
  then show "op_htab_hash_str a = op_htab_hash_str b"
    unfolding op_htab_hash_str_def by (subst (1 2) hash_str_loop_text) simp
qed (auto simp: htab_eq_str_def c_strcmp_0)

interpretation istrs: htab_keys op_htab_hash_istr htab_eq_istr
  by unfold_locales (auto simp: htab_eq_istr_def eq_istr_loop_iff op_htab_hash_istr_def hash_istr_loop_text)

interpretation ptrs: htab_keys op_htab_hash_ptr htab_eq_ptr
  by unfold_locales (auto simp: htab_eq_ptr_def)

section \<open>Runs of requests\<close>

context htab_keys
begin

lemma step_refines:
  assumes ok: "htab_ok hash_fn eq_fn ht" and room: "htab_room (Suc n) ht"
  shows "\<exists>ht'. htab_step ht r = Some (fst (map_step eq_fn (htab_map ht) r), ht')
     \<and> htab_ok hash_fn eq_fn ht' \<and> htab_room n ht' \<and> htab_map ht' = snd (map_step eq_fn (htab_map ht) r)"
proof -
  have small: "ht_mask ht < 2 ^ 58" and less: "htab_room n ht" using room by (auto simp: htab_room_def)
  show ?thesis
  proof (cases r)
    case (HSet k v)
    then show ?thesis using set_spec [OF ok small, of k v] room by (fastforce simp: stored_def)
  next
    case (HDel k)
    then show ?thesis using del_spec [OF ok, of k] less by (fastforce simp: stored_def)
  next
    case (HGetOrSet k v)
    then show ?thesis using get_or_set_spec [OF ok small, of k v] room
      by (cases "htab_map ht k") (fastforce cong: if_cong)+
  next
    case HCompact
    obtain ht' where h: "op_htab_compact ht = Some ht'" "htab_ok hash_fn eq_fn ht'"
        "live_mset (ht_slots ht') = live_mset (ht_slots ht)" "ht_count ht' = ht_count ht" "ht_mask ht' \<le> ht_mask ht"
      using htab_compact_spec [OF ok] by blast
    have "htab_map ht' = htab_map ht" using map_iff [OF ok] h(3) by (intro map_eqI [OF h(2)]) simp
    then show ?thesis using HCompact h less by (simp add: htab_room_def)
  qed (use get_spec [OF ok] ok less in \<open>simp_all add: stored_def\<close>)
qed

lemma run_refines:
  assumes "htab_ok hash_fn eq_fn ht" and "htab_room (length rs) ht"
  shows "\<exists>ht'. htab_run ht rs = Some (fst (map_run eq_fn (htab_map ht) rs), ht')
     \<and> htab_ok hash_fn eq_fn ht' \<and> htab_map ht' = snd (map_run eq_fn (htab_map ht) rs)"
  using assms
proof (induction rs arbitrary: ht)
  case (Cons r rs)
  obtain h where h: "htab_step ht r = Some (fst (map_step eq_fn (htab_map ht) r), h)" "htab_ok hash_fn eq_fn h"
      "htab_room (length rs) h" "htab_map h = snd (map_step eq_fn (htab_map ht) r)"
    using step_refines [OF Cons.prems(1)] Cons.prems(2) by auto
  then show ?case using Cons.IH [OF h(2,3)]
    by (auto simp: case_prod_beta)
qed simp

end

text \<open>A table with one entry, for the examples below.\<close>

lemma one_entry:
  "\<exists>ht :: (addr, 'v) op_htab. htab_ok op_htab_hash_ptr htab_eq_ptr ht \<and> htab_map ht (Some 64) = Some (Some v)
     \<and> ht_count ht = 1 \<and> htab_room 2 ht"
proof -
  define e where "e = (fresh_htab [] op_htab_hash_ptr htab_eq_ptr (2 ^ 4) :: (addr, 'v) op_htab)"
  have ok: "htab_ok op_htab_hash_ptr htab_eq_ptr e" and emp: "htab_map e = Map.empty"
    unfolding e_def by (rule fresh_htab_ok; simp)+
  have room: "htab_room (Suc 2) e" and cnt: "ht_count e = 0" by (simp_all add: htab_room_def e_def)
  then have small: "ht_mask e < 2 ^ 58" by (simp add: htab_room_def)
  obtain ht where h: "htab_ok op_htab_hash_ptr htab_eq_ptr ht" "htab_room 2 ht" "ht_count ht = 1"
      "htab_map ht = (\<lambda>k. if htab_eq_ptr (Some 64) k then Some (Some v) else htab_map e k)"
    using ptrs.set_spec [OF ok small, of "Some 64" "Some v"] room emp cnt by auto
  then show ?thesis by (intro exI [of _ ht]) (simp add: htab_eq_ptr_def)
qed

section \<open>Properties\<close>

text \<open>
  C1. For every pair of callbacks that forms an equivalence with a compatible hash, any
  sequence of set, delete, get, has, get-or-set and compact calls on a well-formed table
  returns, answers exactly as the same sequence on a finite map, and leaves a well-formed
  table representing the resulting map: the Robin Hood displacement, the early exit of
  lookups, the backward shift of deletions and the resizes are invisible to the caller.
\<close>

theorem htab_run_refines_map:
  assumes "htab_keys hash_fn eq_fn" and "htab_ok hash_fn eq_fn ht" and "htab_room (length rs) ht"
  shows "\<exists>ht'. htab_run ht rs = Some (fst (map_run eq_fn (htab_map ht) rs), ht')
     \<and> htab_ok hash_fn eq_fn ht' \<and> htab_map ht' = snd (map_run eq_fn (htab_map ht) rs)"
  by (rule htab_keys.run_refines [OF assms])

theorem htab_run_refines_map_witness:
  "\<exists>ht'. htab_run (fresh_htab ''peers'' op_htab_hash_ptr htab_eq_ptr 16 :: (addr, nat) op_htab)
       [HSet (Some 64) (Some 1), HSet (Some 80) (Some 2), HSet (Some 64) (Some 3), HDel (Some 80), HHas (Some 80), HGet (Some 64)]
     = Some ([(1, NULL), (1, NULL), (0, Some 1), (0, Some 2), (0, NULL), (0, Some 3)], ht')"
proof -
  have ok: "htab_ok op_htab_hash_ptr htab_eq_ptr (fresh_htab ''peers'' op_htab_hash_ptr htab_eq_ptr 16 :: (addr, nat) op_htab)"
    "htab_map (fresh_htab ''peers'' op_htab_hash_ptr htab_eq_ptr 16 :: (addr, nat) op_htab) = Map.empty"
    using fresh_htab_ok [where k = 4 and hash_fn = op_htab_hash_ptr and eq_fn = htab_eq_ptr and name = "''peers''"] by simp_all
  show ?thesis
    using htab_run_refines_map [OF ptrs.htab_keys_axioms ok(1), of
        "[HSet (Some 64) (Some 1), HSet (Some 80) (Some 2), HSet (Some 64) (Some 3), HDel (Some 80), HHas (Some 80), HGet (Some 64)]"]
    by (auto simp: htab_room_def ok(2) htab_eq_ptr_def stored_def)
qed

text \<open>
  C18. A table made by the case-insensitive constructor behaves, from creation through any
  sequence of requests, as a map whose keys are strings compared under the case mapping of
  RFC 1459, given by its table of pairs.
\<close>

theorem istr_table_refines_map:
  assumes "registry_ok reg" and "initial_cap \<le> 2 ^ 57" and "length rs \<le> 2 ^ 56"
  shows "\<exists>ht reg' ht'. op_htab_create_istr reg self name initial_cap = Some (ht :: (cstr, 'v) op_htab, reg')
     \<and> registered reg' = registered reg @ [Some self]
     \<and> htab_run ht rs = Some (fst (map_run rfc1459_eq Map.empty rs), ht')
     \<and> htab_map ht' = snd (map_run rfc1459_eq Map.empty rs)"
proof -
  have "initial_cap \<le> 2 ^ 59" using assms(2) by simp
  then obtain ht reg' where c: "op_htab_create reg self name op_htab_hash_istr htab_eq_istr initial_cap
        = Some (ht :: (cstr, 'v) op_htab, reg')" "htab_ok op_htab_hash_istr htab_eq_istr ht" "ht_count ht = 0"
      "htab_map ht = Map.empty" "registered reg' = registered reg @ [Some self]" "ht_mask ht < 2 ^ 58"
    using htab_create_spec [OF assms(1), of initial_cap] assms(2) by blast
  then have "htab_room (length rs) ht" using assms(3) by (simp add: htab_room_def)
  from istrs.run_refines [OF c(2) this] c show ?thesis
    unfolding eq_istr_rfc1459 [symmetric] by (auto simp: op_htab_create_istr_def)
qed

theorem istr_table_refines_map_witness:
  "\<exists>ht reg' ht'. op_htab_create_istr \<lparr>htab_list = op_vec_init 0, htab_list_inited = False\<rparr> 4096 ''nicks'' 32
       = Some (ht :: (cstr, nat) op_htab, reg') \<and> registered reg' = [Some 4096]
     \<and> htab_run ht [HSet (Some [0x4E, 0x5B, 0x5E]) (Some 1), HGet (Some [0x6E, 0x7B, 0x7E]), HHas (Some [0x6E])]
       = Some ([(1, NULL), (0, Some 1), (0, NULL)], ht')"
proof -
  let ?rs = "[HSet (Some [0x4E, 0x5B, 0x5E]) (Some 1), HGet (Some [0x6E, 0x7B, 0x7E]), HHas (Some [0x6E])] :: (cstr, nat) htab_req list"
  have fold: "rfc1459_eq (Some [0x4E, 0x5B, 0x5E]) (Some [0x6E, 0x7B, 0x7E])" by code_simp
  have other: "\<not> rfc1459_eq (Some [0x4E, 0x5B, 0x5E]) (Some [0x6E])" by code_simp
  let ?reg = "\<lparr>htab_list = op_vec_init 0, htab_list_inited = False\<rparr>"
  have run: "fst (map_run rfc1459_eq Map.empty ?rs) = [(1, NULL), (0, Some 1), (0, NULL)]"
    by (simp add: stored_def fold other)
  have reg: "registry_ok ?reg" "registered ?reg = []" by (simp_all add: registry_ok_def registered_def)
  have "(32::nat) \<le> 2 ^ 57" "length ?rs \<le> 2 ^ 56" by simp_all
  from istr_table_refines_map [OF reg(1) this, of 4096 "''nicks''"] show ?thesis
    unfolding run reg(2) append_Nil by blast
qed

text \<open>
  Hashing and equality of the case-insensitive mode agree: two keys are equal exactly
  when their folded texts are, and the hash is a function of the folded text alone, so that
  equal keys hash alike.
\<close>

theorem istr_hash_consistent:
  "(htab_eq_istr a b \<longleftrightarrow> map irc_fold (cstr_text (deref_str a)) = map irc_fold (cstr_text (deref_str b)))
   \<and> op_htab_hash_istr a = fix_hash (fold (\<lambda>c h. (h XOR ucast c) * 1099511628211)
        (map irc_fold (cstr_text (deref_str a))) 14695981039346656037)"
  by (simp add: htab_eq_istr_def eq_istr_loop_iff op_htab_hash_istr_def hash_istr_loop_text)

text \<open>
  C24. Merging with a conflict callback keeps every entry of the destination, adds the
  entries of the source whose key the destination lacks, and calls the callback once per
  conflicting source entry, in slot order, with the destination's value and the source's key and
  value.  The first argument, for which the header announces the destination's key, is the
  source's key as well: an equal key, but the other object.
\<close>

theorem htab_merge_with_callback:
  assumes "htab_keys hash_fn eq_fn" and "htab_ok hash_fn eq_fn dst" and "htab_ok hash_fn eq_fn src"
    and "htab_room (2 * ht_count src) dst"
  shows "\<exists>dst'. op_htab_merge dst src True = Some (dst',
         map (\<lambda>s. (s_key s, the (htab_map dst (s_key s)), s_key s, s_val s))
           (filter (\<lambda>s. slot_live s \<and> htab_map dst (s_key s) \<noteq> None) (ht_slots src)))
     \<and> htab_ok hash_fn eq_fn dst'
     \<and> htab_map dst' = (\<lambda>k. case htab_map dst k of Some v \<Rightarrow> Some v | None \<Rightarrow> htab_map src k)"
proof -
  have m: "slots_map eq_fn (ht_slots src) = htab_map src"
    using htab_okD(3) [OF assms(3)] by (simp add: htab_map_slots)
  show ?thesis
    using htab_keys.merge_keep [OF assms(1,2) htab_okD(4) [OF assms(3)]] assms(4)
      htab_wfD(3,5) [OF htab_okD(1) [OF assms(3)]]
    unfolding m by (simp add: op_htab_merge_def)
qed

theorem htab_merge_with_callback_witness:
  "\<exists>dst src dst' calls. htab_map dst (Some 64) = Some (Some 1) \<and> htab_map src (Some 64) = Some (Some 2)
     \<and> op_htab_merge dst (src :: (addr, nat) op_htab) True = Some (dst', calls)
     \<and> htab_map dst' (Some 64) = Some (Some 1)"
proof -
  obtain d s :: "(addr, nat) op_htab" where
    d: "htab_ok op_htab_hash_ptr htab_eq_ptr d" "htab_map d (Some 64) = Some (Some 1)" "htab_room 2 d"
    and s: "htab_ok op_htab_hash_ptr htab_eq_ptr s" "htab_map s (Some 64) = Some (Some 2)" "ht_count s = 1"
    using one_entry [of "1 :: nat"] one_entry [of "2 :: nat"] by blast
  have "\<exists>dst' calls. op_htab_merge d s True = Some (dst', calls) \<and> htab_map dst' (Some 64) = Some (Some 1)"
    using htab_merge_with_callback [OF ptrs.htab_keys_axioms d(1) s(1)] d(2,3) s(3) by auto
  then show ?thesis using d(2) s(2) by blast
qed

text \<open>
  Two case-insensitive tables that spell a key differently: the callback is given the source's
  spelling for both keys, while the destination keeps its own.
\<close>

text \<open>
  C25. Merging without a conflict callback lets the source win: every key of the source
  ends up with the source's value, also where the destination had one.  The comment of
  \<^verbatim>\<open>op_htab_merge\<close> promises the opposite (``duplicates in dst silently win'').
\<close>

theorem htab_merge_without_callback:
  assumes "htab_keys hash_fn eq_fn" and "htab_ok hash_fn eq_fn dst" and "htab_ok hash_fn eq_fn src"
    and "htab_room (ht_count src) dst"
  shows "\<exists>dst'. op_htab_merge dst src False = Some (dst', []) \<and> htab_ok hash_fn eq_fn dst'
     \<and> htab_map dst' = (\<lambda>k. case htab_map src k of Some v \<Rightarrow> Some v | None \<Rightarrow> htab_map dst k)"
proof -
  have m: "slots_map eq_fn (ht_slots src) = htab_map src"
    using htab_okD(3) [OF assms(3)] by (simp add: htab_map_slots)
  show ?thesis
    using htab_keys.merge_overwrite [OF assms(1,2) htab_okD(4) [OF assms(3)]] assms(4)
      htab_wfD(3,5) [OF htab_okD(1) [OF assms(3)]]
    unfolding m by (simp add: op_htab_merge_def)
qed

theorem htab_merge_without_callback_witness:
  "\<exists>dst src dst'. htab_map dst (Some 64) = Some (Some 1) \<and> htab_map src (Some 64) = Some (Some 2)
     \<and> op_htab_merge dst (src :: (addr, nat) op_htab) False = Some (dst', [])
     \<and> htab_map dst' (Some 64) = Some (Some 2)"
proof -
  obtain d s :: "(addr, nat) op_htab" where
    d: "htab_ok op_htab_hash_ptr htab_eq_ptr d" "htab_map d (Some 64) = Some (Some 1)" "htab_room 2 d"
    and s: "htab_ok op_htab_hash_ptr htab_eq_ptr s" "htab_map s (Some 64) = Some (Some 2)" "ht_count s = 1"
    using one_entry [of "1 :: nat"] one_entry [of "2 :: nat"] by blast
  have "htab_room 1 d" using d(3) by (simp add: htab_room_def)
  then have "\<exists>dst'. op_htab_merge d s False = Some (dst', []) \<and> htab_map dst' (Some 64) = Some (Some 2)"
    using htab_merge_without_callback [OF ptrs.htab_keys_axioms d(1) s(1)] s(2,3) by auto
  then show ?thesis using d(2) s(2) by blast
qed

end
