(* ===== verification/Pqueue.thy ===== *)
theory Pqueue
  imports Vec
begin

text \<open>
  \<^verbatim>\<open>src/pqueue.c\<close>: the binary min-heap priority queue.  The heap is 1-based, slot 0 of the
  block is an unused sentinel.  A queue is abstracted to the multiset of its elements; the
  contract is the locale \<open>prio_queue\<close>, and draining a queue through it is shown to sort.
\<close>

section \<open>State\<close>

record 'a op_pqueue =
  pq_cmp :: "'a ptr \<Rightarrow> 'a ptr \<Rightarrow> int"
  pq_heap :: "'a ptr list"
  pq_size :: nat
  pq_cap :: nat

definition PQ_DEFAULT_CAP :: nat where
  "PQ_DEFAULT_CAP = 16"

section \<open>Helpers\<close>

definition pq_swap :: "'a ptr list \<Rightarrow> nat \<Rightarrow> nat \<Rightarrow> 'a ptr list option" where
  "pq_swap heap a b = do {
     tmp \<leftarrow> arr_get heap a;
     y \<leftarrow> arr_get heap b;
     heap \<leftarrow> arr_set heap a y;
     arr_set heap b tmp
   }"

definition pq_resize :: "'a op_pqueue \<Rightarrow> nat \<Rightarrow> 'a op_pqueue" where
  "pq_resize pq new_cap =
     pq\<lparr>pq_heap := realloc_slots (pq_heap pq) (new_cap + 1), pq_cap := new_cap\<rparr>"

function pq_sift_up :: "('a ptr \<Rightarrow> 'a ptr \<Rightarrow> int) \<Rightarrow> 'a ptr list \<Rightarrow> nat \<Rightarrow> 'a ptr list option" where
  "pq_sift_up cmp heap i =
     (if i > 1
      then let parent = i div 2 in do {
        x \<leftarrow> arr_get heap i;
        y \<leftarrow> arr_get heap parent;
        (if cmp x y < 0
         then do { heap \<leftarrow> pq_swap heap i parent; pq_sift_up cmp heap parent }
         else Some heap)
      }
      else Some heap)"
  by pat_completeness auto
termination
  by (relation "measure (\<lambda>(cmp, heap, i). i)") auto

text \<open>The position among \<open>i\<close> and its children below \<open>n\<close> whose element comes first.\<close>

definition pq_smallest :: "('a ptr \<Rightarrow> 'a ptr \<Rightarrow> int) \<Rightarrow> 'a ptr list \<Rightarrow> nat \<Rightarrow> nat \<Rightarrow> nat option" where
  "pq_smallest cmp heap n i = (let left = 2 * i; right = 2 * i + 1 in do {
     smallest \<leftarrow>
       (if left \<le> n
        then do { x \<leftarrow> arr_get heap left; y \<leftarrow> arr_get heap i; Some (if cmp x y < 0 then left else i) }
        else Some i);
     (if right \<le> n
      then do { x \<leftarrow> arr_get heap right; y \<leftarrow> arr_get heap smallest;
                Some (if cmp x y < 0 then right else smallest) }
      else Some smallest)
   })"

lemma pq_smallest_cases:
  "pq_smallest cmp heap n i = Some s \<Longrightarrow> s = i \<or> (s = 2 * i \<or> s = 2 * i + 1) \<and> s \<le> n"
  by (auto simp: pq_smallest_def Let_def bind_eq_Some_conv split: if_splits)

function pq_sift_down :: "('a ptr \<Rightarrow> 'a ptr \<Rightarrow> int) \<Rightarrow> 'a ptr list \<Rightarrow> nat \<Rightarrow> nat \<Rightarrow> 'a ptr list option" where
  "pq_sift_down cmp heap n i =
     (case pq_smallest cmp heap n i of
        None \<Rightarrow> None
      | Some smallest \<Rightarrow>
          if smallest = i then Some heap
          else do { heap \<leftarrow> pq_swap heap i smallest; pq_sift_down cmp heap n smallest })"
  by pat_completeness auto
termination
  by (relation "measure (\<lambda>(cmp, heap, n, i). n + 1 - i)") (auto dest!: pq_smallest_cases)

section \<open>Operations\<close>

definition op_pqueue_create :: "('a ptr \<Rightarrow> 'a ptr \<Rightarrow> int) \<Rightarrow> nat \<Rightarrow> 'a op_pqueue option" where
  "op_pqueue_create cmp initial = (let cap = (if initial > 0 then initial else PQ_DEFAULT_CAP) in do {
     heap \<leftarrow> arr_set (alloc_slots (wrap64 (cap + 1))) 0 NULL;
     Some \<lparr>pq_cmp = cmp, pq_heap = heap, pq_size = 0, pq_cap = cap\<rparr>
   })"

definition op_pqueue_destroy :: "'a op_pqueue \<Rightarrow> bool \<Rightarrow> 'a ptr list" where
  "op_pqueue_destroy pq has_cb = (if has_cb then take (pq_size pq) (drop 1 (pq_heap pq)) else [])"

definition op_pqueue_push :: "'a op_pqueue \<Rightarrow> 'a ptr \<Rightarrow> 'a op_pqueue option" where
  "op_pqueue_push pq elem = do {
     pq \<leftarrow> (if pq_size pq \<ge> pq_cap pq
            then let new_cap = wrap64 (pq_cap pq * 2)
              in if new_cap < pq_cap pq \<or> new_cap > SIZE_MAX div 8 then None
                 else Some (pq_resize pq (if new_cap < PQ_DEFAULT_CAP then PQ_DEFAULT_CAP else new_cap))
            else Some pq);
     let pq = pq\<lparr>pq_size := pq_size pq + 1\<rparr>;
     heap \<leftarrow> arr_set (pq_heap pq) (pq_size pq) elem;
     heap \<leftarrow> pq_sift_up (pq_cmp pq) heap (pq_size pq);
     Some (pq\<lparr>pq_heap := heap\<rparr>)
   }"

definition op_pqueue_pop :: "'a op_pqueue \<Rightarrow> ('a ptr \<times> 'a op_pqueue) option" where
  "op_pqueue_pop pq =
     (if pq_size pq = 0 then Some (NULL, pq)
      else do {
        top \<leftarrow> arr_get (pq_heap pq) 1;
        lst \<leftarrow> arr_get (pq_heap pq) (pq_size pq);
        heap \<leftarrow> arr_set (pq_heap pq) 1 lst;
        let n = pq_size pq - 1;
        heap \<leftarrow> (if n > 0 then pq_sift_down (pq_cmp pq) heap n 1 else Some heap);
        let pq = pq\<lparr>pq_heap := heap, pq_size := n\<rparr>;
        Some (top, if n > 0 \<and> n \<le> pq_cap pq div 4 \<and> pq_cap pq > PQ_DEFAULT_CAP
                   then pq_resize pq (pq_cap pq div 2) else pq)
      })"

function pq_remove_from :: "'a op_pqueue \<Rightarrow> 'a ptr \<Rightarrow> nat \<Rightarrow> (bool \<times> 'a op_pqueue) option" where
  "pq_remove_from pq elem i =
     (if i \<le> pq_size pq
      then do {
        x \<leftarrow> arr_get (pq_heap pq) i;
        (if x \<noteq> elem then pq_remove_from pq elem (i + 1)
         else do {
           lst \<leftarrow> arr_get (pq_heap pq) (pq_size pq);
           heap \<leftarrow> arr_set (pq_heap pq) i lst;
           let n = pq_size pq - 1;
           heap \<leftarrow> (if i \<le> n
                     then do { heap \<leftarrow> pq_sift_up (pq_cmp pq) heap i; pq_sift_down (pq_cmp pq) heap n i }
                     else Some heap);
           Some (True, pq\<lparr>pq_heap := heap, pq_size := n\<rparr>)
         })
      }
      else Some (False, pq))"
  by pat_completeness auto
termination
  by (relation "measure (\<lambda>(pq, elem, i). pq_size pq + 1 - i)") auto

definition op_pqueue_remove :: "'a op_pqueue \<Rightarrow> 'a ptr \<Rightarrow> (bool \<times> 'a op_pqueue) option" where
  "op_pqueue_remove pq elem = pq_remove_from pq elem 1"

definition op_pqueue_peek :: "'a op_pqueue \<Rightarrow> 'a ptr option" where
  "op_pqueue_peek pq = (if pq_size pq > 0 then arr_get (pq_heap pq) 1 else Some NULL)"

definition op_pqueue_size :: "'a op_pqueue \<Rightarrow> nat" where
  "op_pqueue_size pq = pq_size pq"

definition op_pqueue_empty :: "'a op_pqueue \<Rightarrow> bool" where
  "op_pqueue_empty pq \<longleftrightarrow> pq_size pq = 0"

definition op_pqueue_foreach :: "'a op_pqueue \<Rightarrow> ('a ptr \<Rightarrow> 's \<Rightarrow> int \<times> 's) \<Rightarrow> 's \<Rightarrow> 's" where
  "op_pqueue_foreach pq cb ud = vec_foreach_list cb (take (pq_size pq) (drop 1 (pq_heap pq))) ud"

section \<open>Invariant\<close>

text \<open>What the header asks of a comparison function: a strict weak order.\<close>

definition cmp_order :: "('a ptr \<Rightarrow> 'a ptr \<Rightarrow> int) \<Rightarrow> bool" where
  "cmp_order cmp \<longleftrightarrow> (\<forall>a b. cmp a b < 0 \<longrightarrow> \<not> cmp b a < 0)
     \<and> (\<forall>a b c. \<not> cmp b a < 0 \<longrightarrow> \<not> cmp c b < 0 \<longrightarrow> \<not> cmp c a < 0)"

definition heap_elems :: "nat \<Rightarrow> 'a ptr list \<Rightarrow> 'a ptr list" where
  "heap_elems n heap = take n (drop 1 heap)"

definition pq_elems :: "'a op_pqueue \<Rightarrow> 'a ptr multiset" where
  "pq_elems pq = mset (heap_elems (pq_size pq) (pq_heap pq))"

text \<open>\<open>parent_ok\<close>: the element at \<open>j\<close> does not come before the one at its parent.\<close>

definition parent_ok :: "('a ptr \<Rightarrow> 'a ptr \<Rightarrow> int) \<Rightarrow> 'a ptr list \<Rightarrow> nat \<Rightarrow> bool" where
  "parent_ok cmp heap j \<longleftrightarrow> \<not> cmp (heap ! j) (heap ! (j div 2)) < 0"

definition heap_ok :: "('a ptr \<Rightarrow> 'a ptr \<Rightarrow> int) \<Rightarrow> 'a ptr list \<Rightarrow> nat \<Rightarrow> bool" where
  "heap_ok cmp heap n \<longleftrightarrow> (\<forall>j. 2 \<le> j \<and> j \<le> n \<longrightarrow> parent_ok cmp heap j)"

text \<open>The children of \<open>i\<close> do not come before the parent of \<open>i\<close>.\<close>

definition grand_ok :: "('a ptr \<Rightarrow> 'a ptr \<Rightarrow> int) \<Rightarrow> 'a ptr list \<Rightarrow> nat \<Rightarrow> nat \<Rightarrow> bool" where
  "grand_ok cmp heap n i \<longleftrightarrow> (2 \<le> i \<longrightarrow>
     (\<forall>j. j \<le> n \<and> j div 2 = i \<longrightarrow> \<not> cmp (heap ! j) (heap ! (i div 2)) < 0))"

definition pq_inv :: "'a op_pqueue \<Rightarrow> bool" where
  "pq_inv pq \<longleftrightarrow> cmp_order (pq_cmp pq) \<and> length (pq_heap pq) = pq_cap pq + 1 \<and> pq_size pq \<le> pq_cap pq
     \<and> pq_cap pq < SIZE_MAX div 8 \<and> heap_ok (pq_cmp pq) (pq_heap pq) (pq_size pq)"

section \<open>Sifting\<close>

lemma cmp_orderD:
  assumes "cmp_order cmp"
  shows cmp_asym: "cmp a b < 0 \<Longrightarrow> \<not> cmp b a < 0"
    and cmp_trans: "\<not> cmp b a < 0 \<Longrightarrow> \<not> cmp c b < 0 \<Longrightarrow> \<not> cmp c a < 0"
  using assms unfolding cmp_order_def by blast+

lemma cmp_less_trans:
  assumes "cmp_order cmp" and "cmp c b < 0" and "cmp b a < 0"
  shows "cmp c a < 0"
  using cmp_trans [OF assms(1), of a b c] cmp_asym [OF assms(1)] assms(2,3) by blast

lemma pq_swap_Some:
  "a < length h \<Longrightarrow> b < length h \<Longrightarrow> pq_swap h a b = Some (h[a := h ! b, b := h ! a])"
  by (simp add: pq_swap_def)

lemma heap_elems_update:
  "0 < a \<Longrightarrow> heap_elems n (h[a := x]) = (heap_elems n h)[a - Suc 0 := x]"
  by (cases h; cases a) (simp_all add: heap_elems_def take_update_swap)

lemma length_heap_elems: "n < length h \<Longrightarrow> length (heap_elems n h) = n"
  by (simp add: heap_elems_def)

lemma nth_heap_elems: "n < length h \<Longrightarrow> 0 < a \<Longrightarrow> a \<le> n \<Longrightarrow> heap_elems n h ! (a - Suc 0) = h ! a"
  by (simp add: heap_elems_def)

lemma mset_heap_swap:
  assumes "n < length h" and "0 < a" "a \<le> n" and "0 < b" "b \<le> n"
  shows "mset (heap_elems n (h[a := h ! b, b := h ! a])) = mset (heap_elems n h)"
proof -
  have "heap_elems n (h[a := h ! b, b := h ! a])
      = (heap_elems n h)[a - Suc 0 := heap_elems n h ! (b - Suc 0), b - Suc 0 := heap_elems n h ! (a - Suc 0)]"
    using assms by (simp add: heap_elems_update nth_heap_elems)
  then show ?thesis using mset_swap [of "b - Suc 0" "heap_elems n h" "a - Suc 0"] assms
    by (simp add: length_heap_elems)
qed

lemma div2_less: "2 \<le> (j::nat) \<Longrightarrow> j div 2 < j" and div2_ge1: "2 \<le> (j::nat) \<Longrightarrow> 1 \<le> j div 2"
  by auto

lemma sift_up_swap:
  assumes ord: "cmp_order cmp" and n: "n < length h" and i: "2 \<le> i" "i \<le> n"
    and ok: "\<forall>j. 2 \<le> j \<and> j \<le> n \<and> j \<noteq> i \<and> j div 2 \<noteq> i \<longrightarrow> parent_ok cmp h j" and g: "grand_ok cmp h n i"
    and less: "cmp (h ! i) (h ! (i div 2)) < 0"
  defines "h' \<equiv> h[i := h ! (i div 2), i div 2 := h ! i]"
  shows "\<forall>j. 2 \<le> j \<and> j \<le> n \<and> j \<noteq> i div 2 \<longrightarrow> parent_ok cmp h' j" and "grand_ok cmp h' n (i div 2)"
proof -
  let ?p = "i div 2"
  have p: "?p < i" "1 \<le> ?p" "?p < length h" "i < length h" using i n by auto
  have h': "h' ! i = h ! ?p" "h' ! ?p = h ! i" "\<And>j. j \<noteq> i \<Longrightarrow> j \<noteq> ?p \<Longrightarrow> h' ! j = h ! j"
    using p by (simp_all add: h'_def)
  show "\<forall>j. 2 \<le> j \<and> j \<le> n \<and> j \<noteq> ?p \<longrightarrow> parent_ok cmp h' j"
  proof (intro allI impI, elim conjE)
    fix j assume j: "2 \<le> j" "j \<le> n" "j \<noteq> ?p"
    have jd: "j div 2 < j" using j(1) by simp
    consider "j = i" | "j \<noteq> i" "j div 2 = i" | "j \<noteq> i" "j div 2 = ?p" | "j \<noteq> i" "j div 2 \<noteq> i" "j div 2 \<noteq> ?p" by blast
    then show "parent_ok cmp h' j"
    proof cases
      case 1
      then show ?thesis using h'(1,2) cmp_asym [OF ord less] by (simp add: parent_ok_def)
    next
      case 2
      have "\<not> cmp (h ! j) (h ! ?p) < 0" using g j(2) 2(2) i(1) unfolding grand_ok_def by blast
      then show ?thesis unfolding parent_ok_def 2(2) h'(1) h'(3) [OF 2(1) j(3)] .
    next
      case 3
      then have "j div 2 \<noteq> i" using p by simp
      then have "parent_ok cmp h j" using ok j(1,2) 3(1) by blast
      then have "\<not> cmp (h ! j) (h ! i) < 0"
        unfolding parent_ok_def 3(2) by (rule cmp_trans [OF ord cmp_asym [OF ord less]])
      then show ?thesis unfolding parent_ok_def 3(2) h'(2) h'(3) [OF 3(1) j(3)] .
    next
      case 4
      then have "parent_ok cmp h j" using ok j(1,2) by blast
      then show ?thesis unfolding parent_ok_def h'(3) [OF 4(1) j(3)] h'(3) [OF 4(2,3)] .
    qed
  qed
  show "grand_ok cmp h' n ?p"
    unfolding grand_ok_def
  proof (intro impI allI, elim conjE)
    fix j assume p2: "2 \<le> ?p" and j: "j \<le> n" "j div 2 = ?p"
    have pp: "?p div 2 \<noteq> i" "?p div 2 \<noteq> ?p" using p2 p by linarith+
    have "?p \<noteq> i" "?p \<le> n" using p i by linarith+
    then have "parent_ok cmp h ?p" using ok p2 pp(1) by blast
    then have okp: "\<not> cmp (h ! ?p) (h ! (?p div 2)) < 0" unfolding parent_ok_def .
    show "\<not> cmp (h' ! j) (h' ! (?p div 2)) < 0"
    proof (cases "j = i")
      case True
      then show ?thesis unfolding h'(3) [OF pp] using h'(1) okp by simp
    next
      case False
      have jp: "j \<noteq> ?p" "2 \<le> j" "j div 2 \<noteq> i" using j p2 p by linarith+
      then have "parent_ok cmp h j" using ok j(1) False by blast
      then have "\<not> cmp (h ! j) (h ! ?p) < 0" unfolding parent_ok_def j(2) .
      then show ?thesis unfolding h'(3) [OF pp] h'(3) [OF False jp(1)] by (rule cmp_trans [OF ord okp])
    qed
  qed
qed

declare pq_sift_up.simps [simp del] pq_sift_down.simps [simp del] pq_remove_from.simps [simp del]

lemma pq_sift_up_spec:
  assumes ord: "cmp_order cmp"
  shows "n < length h \<Longrightarrow> 1 \<le> i \<Longrightarrow> i \<le> n \<Longrightarrow> \<forall>j. 2 \<le> j \<and> j \<le> n \<and> j \<noteq> i \<longrightarrow> parent_ok cmp h j \<Longrightarrow>
    grand_ok cmp h n i \<Longrightarrow>
    \<exists>h'. pq_sift_up cmp h i = Some h' \<and> length h' = length h \<and> heap_ok cmp h' n
       \<and> mset (heap_elems n h') = mset (heap_elems n h)"
proof (induction i arbitrary: h rule: less_induct)
  case (less i)
  show ?case
  proof (cases "1 < i \<and> cmp (h ! i) (h ! (i div 2)) < 0")
    case False
    then have "pq_sift_up cmp h i = Some h" using less.prems
      by (subst pq_sift_up.simps) (auto simp: Let_def)
    moreover have "parent_ok cmp h j" if "2 \<le> j" "j \<le> n" for j
      using that False less.prems(4) by (cases "j = i") (auto simp: parent_ok_def)
    then have "heap_ok cmp h n" by (simp add: heap_ok_def)
    ultimately show ?thesis by simp
  next
    case True
    let ?p = "i div 2" and ?h = "h[i := h ! (i div 2), i div 2 := h ! i]"
    have p: "?p < i" "1 \<le> ?p" using True by auto
    have "\<forall>j. 2 \<le> j \<and> j \<le> n \<and> j \<noteq> i \<and> j div 2 \<noteq> i \<longrightarrow> parent_ok cmp h j" using less.prems(4) by blast
    note s = sift_up_swap [OF ord less.prems(1) _ less.prems(3) this less.prems(5) conjunct2 [OF True]]
    have "\<exists>h'. pq_sift_up cmp ?h ?p = Some h' \<and> length h' = length ?h \<and> heap_ok cmp h' n
       \<and> mset (heap_elems n h') = mset (heap_elems n ?h)"
      by (rule less.IH [OF p(1)]) (use p less.prems(1,3) s True in simp_all)
    moreover have "pq_sift_up cmp h i = pq_sift_up cmp ?h ?p"
      using True less.prems(1,3) p(1) by (subst pq_sift_up.simps) (simp add: Let_def pq_swap_Some)
    moreover have "mset (heap_elems n ?h) = mset (heap_elems n h)"
      using less.prems(1,3) p by (intro mset_heap_swap) auto
    ultimately show ?thesis by simp
  qed
qed


lemma pq_smallest_spec:
  assumes ord: "cmp_order cmp" and n: "n < length h" and i: "0 < i" "i \<le> n"
  shows "\<exists>s. pq_smallest cmp h n i = Some s \<and>
     (s = i \<and> (\<forall>j. j \<le> n \<and> j div 2 = i \<longrightarrow> parent_ok cmp h j)
      \<or> s \<noteq> i \<and> s \<le> n \<and> s div 2 = i \<and> cmp (h ! s) (h ! i) < 0
        \<and> (\<forall>j. j \<le> n \<and> j div 2 = i \<longrightarrow> \<not> cmp (h ! j) (h ! s) < 0))"
proof -
  have ch: "j div 2 = i \<longleftrightarrow> j = 2 * i \<or> j = Suc (2 * i)" for j by auto
  have irr: "\<not> cmp a a < 0" for a using cmp_asym [OF ord, of a a] by blast
  show ?thesis
  proof (cases "2 * i \<le> n \<and> cmp (h ! (2 * i)) (h ! i) < 0")
    case left: True
    show ?thesis
    proof (cases "Suc (2 * i) \<le> n \<and> cmp (h ! Suc (2 * i)) (h ! (2 * i)) < 0")
      case True
      then have "cmp (h ! Suc (2 * i)) (h ! i) < 0"
        using left cmp_less_trans [OF ord] by blast
      then show ?thesis using True left n i irr cmp_asym [OF ord]
        by (intro exI [of _ "Suc (2 * i)"]) (auto simp: pq_smallest_def Let_def ch)
    next
      case False
      then show ?thesis using left n i irr
        by (intro exI [of _ "2 * i"]) (auto simp: pq_smallest_def Let_def ch)
    qed
  next
    case left: False
    show ?thesis
    proof (cases "Suc (2 * i) \<le> n \<and> cmp (h ! Suc (2 * i)) (h ! i) < 0")
      case True
      have "\<not> cmp (h ! (2 * i)) (h ! Suc (2 * i)) < 0"
        using left True cmp_trans [OF ord, of "h ! i" "h ! Suc (2 * i)" "h ! (2 * i)"] cmp_asym [OF ord] by auto
      then show ?thesis using True left n i irr
        by (intro exI [of _ "Suc (2 * i)"]) (auto simp: pq_smallest_def Let_def ch)
    next
      case False
      then show ?thesis using left n i
        by (intro exI [of _ i]) (auto simp: pq_smallest_def Let_def ch parent_ok_def)
    qed
  qed
qed

lemma sift_down_swap:
  assumes ord: "cmp_order cmp" and n: "n < length h" and i: "0 < i" "i \<le> n"
    and ok: "\<forall>j. 2 \<le> j \<and> j \<le> n \<and> j div 2 \<noteq> i \<longrightarrow> parent_ok cmp h j" and g: "grand_ok cmp h n i"
    and s: "s \<noteq> i" "s \<le> n" "s div 2 = i" "cmp (h ! s) (h ! i) < 0"
      "\<forall>j. j \<le> n \<and> j div 2 = i \<longrightarrow> \<not> cmp (h ! j) (h ! s) < 0"
  defines "h' \<equiv> h[i := h ! s, s := h ! i]"
  shows "\<forall>j. 2 \<le> j \<and> j \<le> n \<and> j div 2 \<noteq> s \<longrightarrow> parent_ok cmp h' j" and "grand_ok cmp h' n s"
proof -
  have lt: "i < s" using s i by auto
  have h': "h' ! i = h ! s" "h' ! s = h ! i" "\<And>j. j \<noteq> i \<Longrightarrow> j \<noteq> s \<Longrightarrow> h' ! j = h ! j"
    using n i s by (simp_all add: h'_def)
  show "\<forall>j. 2 \<le> j \<and> j \<le> n \<and> j div 2 \<noteq> s \<longrightarrow> parent_ok cmp h' j"
  proof (intro allI impI, elim conjE)
    fix j assume j: "2 \<le> j" "j \<le> n" "j div 2 \<noteq> s"
    consider "j = s" | "j \<noteq> s" "j div 2 = i" | "j = i" | "j \<noteq> s" "j div 2 \<noteq> i" "j \<noteq> i" by blast
    then show "parent_ok cmp h' j"
    proof cases
      case 1
      then show ?thesis using h'(1,2) s(3) cmp_asym [OF ord s(4)] by (simp add: parent_ok_def)
    next
      case 2
      have "j \<noteq> i" using 2 j(1) by linarith
      then show ?thesis unfolding parent_ok_def 2(2) h'(1) h'(3) [OF \<open>j \<noteq> i\<close> 2(1)] using s(5) 2(2) j(2) by blast
    next
      case 3
      have d: "i div 2 \<noteq> i" "i div 2 \<noteq> s" using i lt by linarith+
      have "\<not> cmp (h ! s) (h ! (i div 2)) < 0" using g s(2,3) j(1) 3 unfolding grand_ok_def by blast
      then show ?thesis unfolding parent_ok_def 3 h'(1) h'(3) [OF d] .
    next
      case 4
      then have "parent_ok cmp h j" using ok j(1,2) by blast
      then show ?thesis unfolding parent_ok_def h'(3) [OF 4(3,1)] h'(3) [OF 4(2) j(3)] .
    qed
  qed
  show "grand_ok cmp h' n s"
    unfolding grand_ok_def
  proof (intro impI allI, elim conjE)
    fix j assume "2 \<le> s" and j: "j \<le> n" "j div 2 = s"
    then have d: "2 \<le> j" "j \<noteq> i" "j \<noteq> s" "j div 2 \<noteq> i" using lt by linarith+
    then have "parent_ok cmp h j" using ok j(1) by blast
    then show "\<not> cmp (h' ! j) (h' ! (s div 2)) < 0"
      unfolding s(3) h'(1) h'(3) [OF d(2,3)] parent_ok_def j(2) .
  qed
qed

lemma pq_sift_down_spec:
  assumes ord: "cmp_order cmp"
  shows "n < length h \<Longrightarrow> 0 < i \<Longrightarrow> i \<le> n \<Longrightarrow> \<forall>j. 2 \<le> j \<and> j \<le> n \<and> j div 2 \<noteq> i \<longrightarrow> parent_ok cmp h j \<Longrightarrow>
    grand_ok cmp h n i \<Longrightarrow>
    \<exists>h'. pq_sift_down cmp h n i = Some h' \<and> length h' = length h \<and> heap_ok cmp h' n
       \<and> mset (heap_elems n h') = mset (heap_elems n h)"
proof (induction "n - i" arbitrary: h i rule: less_induct)
  case less
  obtain s where s: "pq_smallest cmp h n i = Some s"
     "s = i \<and> (\<forall>j. j \<le> n \<and> j div 2 = i \<longrightarrow> parent_ok cmp h j)
      \<or> s \<noteq> i \<and> s \<le> n \<and> s div 2 = i \<and> cmp (h ! s) (h ! i) < 0
        \<and> (\<forall>j. j \<le> n \<and> j div 2 = i \<longrightarrow> \<not> cmp (h ! j) (h ! s) < 0)"
    using pq_smallest_spec [OF ord less.prems(1-3)] by blast
  show ?case
  proof (cases "s = i")
    case True
    then have "heap_ok cmp h n" using s(2) less.prems(4) unfolding heap_ok_def by blast
    moreover have "pq_sift_down cmp h n i = Some h" using s(1) True by (subst pq_sift_down.simps) simp
    ultimately show ?thesis by simp
  next
    case False
    let ?h = "h[i := h ! s, s := h ! i]"
    have s': "s \<le> n" "s div 2 = i" "cmp (h ! s) (h ! i) < 0"
        "\<forall>j. j \<le> n \<and> j div 2 = i \<longrightarrow> \<not> cmp (h ! j) (h ! s) < 0" using s(2) False by auto
    have lt: "i < s" using s'(2) less.prems(2) by auto
    note w = sift_down_swap [OF ord less.prems False s']
    have "\<exists>h'. pq_sift_down cmp ?h n s = Some h' \<and> length h' = length ?h \<and> heap_ok cmp h' n
       \<and> mset (heap_elems n h') = mset (heap_elems n ?h)"
      by (rule less.hyps) (use less.prems(1-3) s'(1) lt w in simp_all)
    moreover have "pq_sift_down cmp h n i = pq_sift_down cmp ?h n s"
      using s(1) False less.prems(1-3) s'(1) by (subst pq_sift_down.simps) (simp add: pq_swap_Some)
    moreover have "mset (heap_elems n ?h) = mset (heap_elems n h)"
      using less.prems(1-3) s'(1) lt by (intro mset_heap_swap) auto
    ultimately show ?thesis by simp
  qed
qed


section \<open>Operations keep the invariant\<close>

lemma heap_ok_cong:
  assumes "\<And>j. 0 < j \<Longrightarrow> j \<le> n \<Longrightarrow> h' ! j = h ! j"
  shows "heap_ok cmp h' n = heap_ok cmp h n"
proof -
  have "parent_ok cmp h' j = parent_ok cmp h j" if "2 \<le> j" "j \<le> n" for j
    unfolding parent_ok_def using assms [of j] assms [of "j div 2"] that by auto
  then show ?thesis by (auto simp: heap_ok_def)
qed

lemma heap_elems_cong:
  assumes "n < length h" "n < length h'" and "\<And>j. 0 < j \<Longrightarrow> j \<le> n \<Longrightarrow> h' ! j = h ! j"
  shows "heap_elems n h' = heap_elems n h"
  using assms by (intro nth_equalityI) (auto simp: heap_elems_def)

lemma heap_ok_less: "heap_ok cmp h n \<Longrightarrow> m \<le> n \<Longrightarrow> heap_ok cmp h m"
  by (auto simp: heap_ok_def)

lemma heap_ok_grand:
  assumes "cmp_order cmp" and "heap_ok cmp h n" and "i \<le> n"
  shows "grand_ok cmp h n i"
  unfolding grand_ok_def
proof (intro impI allI, elim conjE)
  fix j assume i: "2 \<le> i" and j: "j \<le> n" "j div 2 = i"
  have "parent_ok cmp h j" using assms(2) i j unfolding heap_ok_def by auto
  then have b: "\<not> cmp (h ! j) (h ! i) < 0" unfolding parent_ok_def j(2) .
  have a: "\<not> cmp (h ! i) (h ! (i div 2)) < 0" using assms(2,3) i unfolding heap_ok_def parent_ok_def by auto
  show "\<not> cmp (h ! j) (h ! (i div 2)) < 0" by (rule cmp_trans [OF assms(1) a b])
qed

lemma heap_root:
  assumes ord: "cmp_order cmp" and ok: "heap_ok cmp h n"
  shows "0 < j \<Longrightarrow> j \<le> n \<Longrightarrow> \<not> cmp (h ! j) (h ! 1) < 0"
proof (induction j rule: less_induct)
  case (less j)
  show ?case
  proof (cases "j = 1")
    case True
    then show ?thesis using cmp_asym [OF ord] by blast
  next
    case False
    then have j2: "2 \<le> j" using less.prems by simp
    have "0 < j div 2" "j div 2 < j" "j div 2 \<le> n" using j2 less.prems by auto
    then have a: "\<not> cmp (h ! (j div 2)) (h ! 1) < 0" by (intro less.IH)
    have "parent_ok cmp h j" using ok j2 less.prems(2) unfolding heap_ok_def by blast
    then show ?thesis unfolding parent_ok_def by (rule cmp_trans [OF ord a])
  qed
qed

lemma set_heap_elems: "n < length h \<Longrightarrow> y \<in> set (heap_elems n h) \<longleftrightarrow> (\<exists>j. 0 < j \<and> j \<le> n \<and> y = h ! j)"
proof -
  assume n: "n < length h"
  have "y \<in> set (heap_elems n h) \<longleftrightarrow> (\<exists>k<n. y = h ! Suc k)"
    using n by (auto simp: heap_elems_def in_set_conv_nth)
  also have "\<dots> \<longleftrightarrow> (\<exists>j. 0 < j \<and> j \<le> n \<and> y = h ! j)"
    by (metis Suc_le_eq Suc_pred zero_less_Suc)
  finally show ?thesis .
qed

lemma mset_heap_drop:
  assumes "Suc n < length h" and "0 < i" "i \<le> Suc n"
  shows "mset (heap_elems n (h[i := h ! Suc n])) = mset (heap_elems (Suc n) h) - {#h ! i#}"
proof -
  let ?xs = "heap_elems (Suc n) h"
  have len: "length ?xs = Suc n" using assms(1) by (rule length_heap_elems)
  have "heap_elems n g = butlast (heap_elems (Suc n) g)" if "Suc n < length g" for g :: "'a ptr list"
    using that by (simp add: heap_elems_def butlast_take)
  then have "heap_elems n (h[i := h ! Suc n]) = butlast (heap_elems (Suc n) (h[i := h ! Suc n]))"
    using assms(1) by simp
  then have "heap_elems n (h[i := h ! Suc n]) = butlast (?xs[i - Suc 0 := h ! Suc n])"
    unfolding heap_elems_update [OF assms(2)] .
  moreover have "last ?xs = h ! Suc n"
    using len nth_heap_elems [of "Suc n" h "Suc n"] assms(1) by (subst last_conv_nth) auto
  moreover have "?xs ! (i - Suc 0) = h ! i" using assms by (intro nth_heap_elems) auto
  ultimately show ?thesis using mset_butlast_swap [of "i - Suc 0" ?xs] assms len by simp
qed

lemma pq_push_spec:
  assumes inv: "pq_inv pq" and room: "pq_size pq < 2 ^ 59"
  shows "\<exists>pq'. op_pqueue_push pq x = Some pq' \<and> pq_inv pq' \<and> pq_elems pq' = add_mset x (pq_elems pq)
     \<and> pq_cmp pq' = pq_cmp pq \<and> pq_size pq' = Suc (pq_size pq)"
proof -
  let ?n = "pq_size pq" and ?cmp = "pq_cmp pq"
  note i = inv [unfolded pq_inv_def]
  obtain h cap where g: "(if ?n \<ge> pq_cap pq
            then let new_cap = wrap64 (pq_cap pq * 2)
              in if new_cap < pq_cap pq \<or> new_cap > SIZE_MAX div 8 then None
                 else Some (pq_resize pq (if new_cap < PQ_DEFAULT_CAP then PQ_DEFAULT_CAP else new_cap))
            else Some pq) = Some (pq\<lparr>pq_heap := h, pq_cap := cap\<rparr>)"
      "length h = cap + 1" "?n < cap" "cap < SIZE_MAX div 8" "take (Suc ?n) h = take (Suc ?n) (pq_heap pq)"
  proof (cases "?n \<ge> pq_cap pq")
    case False
    then show thesis using that [where h = "pq_heap pq" and cap = "pq_cap pq"] i by simp
  next
    case True
    let ?c = "if pq_cap pq * 2 < PQ_DEFAULT_CAP then PQ_DEFAULT_CAP else pq_cap pq * 2"
    have eq: "?n = pq_cap pq" using True i by simp
    have w: "wrap64 (pq_cap pq * 2) = pq_cap pq * 2" using room eq by (intro wrap64_small) (simp add: W64_def)
    have c: "?c + 1 \<le> SIZE_MAX div 8" "?n < ?c"
      using room eq by (auto simp: SIZE_MAX_div8 PQ_DEFAULT_CAP_def)
    show thesis
      by (rule that [where h = "realloc_slots (pq_heap pq) (?c + 1)" and cap = ?c])
        (use c True eq i room in \<open>auto simp: w Let_def pq_resize_def SIZE_MAX_div8 PQ_DEFAULT_CAP_def
           length_realloc_slots take_realloc_slots\<close>)
  qed
  have nth: "h ! j = pq_heap pq ! j" if "j \<le> ?n" for j
    using g(5) that by (metis le_imp_less_Suc nth_take)
  let ?h = "h[Suc ?n := x]"
  have len: "Suc ?n < length h" using g(2,3) by simp
  have same: "?h ! j = pq_heap pq ! j" if "j \<le> ?n" for j using nth that by simp
  have "heap_ok ?cmp ?h ?n = heap_ok ?cmp (pq_heap pq) ?n" using same by (intro heap_ok_cong) simp
  then have ok: "\<forall>j. 2 \<le> j \<and> j \<le> Suc ?n \<and> j \<noteq> Suc ?n \<longrightarrow> parent_ok ?cmp ?h j"
    using i unfolding heap_ok_def by auto
  have gr: "grand_ok ?cmp ?h (Suc ?n) (Suc ?n)" by (auto simp: grand_ok_def)
  obtain h' where h': "pq_sift_up ?cmp ?h (Suc ?n) = Some h'" "length h' = length ?h" "heap_ok ?cmp h' (Suc ?n)"
      "mset (heap_elems (Suc ?n) h') = mset (heap_elems (Suc ?n) ?h)"
    using pq_sift_up_spec [OF _ _ _ _ ok gr] i len by auto
  have "heap_elems (Suc ?n) ?h = heap_elems ?n (pq_heap pq) @ [x]"
  proof -
    have "heap_elems (Suc ?n) ?h = heap_elems ?n ?h @ [?h ! Suc ?n]"
      using len by (simp add: heap_elems_def take_Suc_conv_app_nth)
    moreover have "heap_elems ?n ?h = heap_elems ?n (pq_heap pq)"
      using len i same by (intro heap_elems_cong) auto
    ultimately show ?thesis using len by simp
  qed
  then have el: "mset (heap_elems (Suc ?n) h') = add_mset x (pq_elems pq)" using h'(4) by (simp add: pq_elems_def)
  let ?pq = "pq\<lparr>pq_heap := h', pq_size := Suc ?n, pq_cap := cap\<rparr>"
  have "op_pqueue_push pq x = Some ?pq"
    unfolding op_pqueue_push_def g(1) using h'(1) len by simp
  moreover have "pq_inv ?pq" using i h'(2,3) g(2,3,4) by (simp add: pq_inv_def)
  ultimately show ?thesis using el by (auto simp: pq_elems_def)
qed


lemma pq_resize_inv:
  assumes "pq_inv pq" and "pq_size pq \<le> c" and "c < SIZE_MAX div 8" and "c \<le> pq_cap pq"
  shows "pq_inv (pq_resize pq c)" and "pq_elems (pq_resize pq c) = pq_elems pq"
proof -
  note i = assms(1) [unfolded pq_inv_def]
  let ?h = "realloc_slots (pq_heap pq) (c + 1)"
  have t: "take (Suc (pq_size pq)) ?h = take (Suc (pq_size pq)) (pq_heap pq)"
    using i assms(2,3,4) by (intro take_realloc_slots) auto
  have nth: "?h ! j = pq_heap pq ! j" if "j \<le> pq_size pq" for j
    using t that by (metis le_imp_less_Suc nth_take)
  have len: "length ?h = c + 1" using assms(3) by (intro length_realloc_slots) simp
  have "heap_ok (pq_cmp pq) ?h (pq_size pq)"
    using i nth heap_ok_cong [of "pq_size pq" ?h "pq_heap pq"] by simp
  then show "pq_inv (pq_resize pq c)" using i assms(2,3) len by (simp add: pq_inv_def pq_resize_def)
  show "pq_elems (pq_resize pq c) = pq_elems pq"
    using heap_elems_cong [of "pq_size pq" "pq_heap pq" ?h] nth len i assms(2)
    by (simp add: pq_elems_def pq_resize_def)
qed

lemma pq_pop_spec:
  assumes inv: "pq_inv pq" and ne: "pq_size pq \<noteq> 0"
  shows "\<exists>pq'. op_pqueue_pop pq = Some (pq_heap pq ! 1, pq') \<and> pq_inv pq' \<and> pq_cmp pq' = pq_cmp pq
     \<and> pq_elems pq' = pq_elems pq - {#pq_heap pq ! 1#} \<and> Suc (pq_size pq') = pq_size pq"
proof -
  note i = inv [unfolded pq_inv_def]
  let ?cmp = "pq_cmp pq" and ?h = "(pq_heap pq)[1 := pq_heap pq ! pq_size pq]"
  obtain n where n: "pq_size pq = Suc n" using ne not0_implies_Suc by blast
  have len: "Suc n < length (pq_heap pq)" using i n by simp
  have el: "mset (heap_elems n ?h) = pq_elems pq - {#pq_heap pq ! 1#}"
    using mset_heap_drop [OF len, of 1] n by (simp add: pq_elems_def)
  have "\<exists>h'. (if n > 0 then pq_sift_down ?cmp ?h n 1 else Some ?h) = Some h' \<and> length h' = length ?h
      \<and> heap_ok ?cmp h' n \<and> mset (heap_elems n h') = mset (heap_elems n ?h)"
  proof (cases "n = 0")
    case True
    then show ?thesis by (simp add: heap_ok_def)
  next
    case False
    have "parent_ok ?cmp ?h j" if "2 \<le> j" "j \<le> n" "j div 2 \<noteq> 1" for j
    proof -
      have "?h ! j = pq_heap pq ! j" "?h ! (j div 2) = pq_heap pq ! (j div 2)" using that by auto
      moreover have "parent_ok ?cmp (pq_heap pq) j" using i that n unfolding heap_ok_def by auto
      ultimately show ?thesis by (simp add: parent_ok_def)
    qed
    then show ?thesis using pq_sift_down_spec [of ?cmp n ?h 1] i False len by (simp add: grand_ok_def)
  qed
  then obtain h' where h': "(if n > 0 then pq_sift_down ?cmp ?h n 1 else Some ?h) = Some h'"
      "length h' = length ?h" "heap_ok ?cmp h' n" "mset (heap_elems n h') = mset (heap_elems n ?h)" by blast
  let ?pq = "pq\<lparr>pq_heap := h', pq_size := n\<rparr>"
  have p: "pq_inv ?pq" "pq_elems ?pq = pq_elems pq - {#pq_heap pq ! 1#}"
    using i h'(2-4) n el by (simp_all add: pq_inv_def pq_elems_def)
  let ?r = "if n > 0 \<and> n \<le> pq_cap pq div 4 \<and> pq_cap pq > PQ_DEFAULT_CAP then pq_resize ?pq (pq_cap pq div 2) else ?pq"
  have "op_pqueue_pop pq = Some (pq_heap pq ! 1, ?r)"
    using n len h'(1) i by (cases "n = 0") (simp_all add: op_pqueue_pop_def Let_def)
  moreover have "pq_inv ?r \<and> pq_elems ?r = pq_elems ?pq"
  proof (cases "n > 0 \<and> n \<le> pq_cap pq div 4 \<and> pq_cap pq > PQ_DEFAULT_CAP")
    case True
    have "pq_size ?pq \<le> pq_cap pq div 2" "pq_cap pq div 2 < SIZE_MAX div 8" "pq_cap pq div 2 \<le> pq_cap ?pq"
      using i n True by (auto intro: le_trans)
    then show ?thesis using pq_resize_inv [OF p(1)] True by simp
  qed (use p in auto)
  ultimately show ?thesis using p(2) n by (intro exI [of _ ?r]) (simp add: pq_resize_def)
qed

lemma sift_up_anywhere:
  assumes ord: "cmp_order cmp" and n: "n < length h" and i: "0 < i" "i \<le> n"
    and ok: "\<forall>j. 2 \<le> j \<and> j \<le> n \<and> j \<noteq> i \<and> j div 2 \<noteq> i \<longrightarrow> parent_ok cmp h j" and g: "grand_ok cmp h n i"
  shows "\<exists>h'. pq_sift_up cmp h i = Some h' \<and> length h' = length h
     \<and> (\<forall>j. 2 \<le> j \<and> j \<le> n \<and> j div 2 \<noteq> i \<longrightarrow> parent_ok cmp h' j) \<and> grand_ok cmp h' n i
     \<and> mset (heap_elems n h') = mset (heap_elems n h)"
proof (cases "1 < i \<and> cmp (h ! i) (h ! (i div 2)) < 0")
  case False
  then have "pq_sift_up cmp h i = Some h" using i n by (subst pq_sift_up.simps) (auto simp: Let_def)
  moreover have "parent_ok cmp h j" if "2 \<le> j" "j \<le> n" "j div 2 \<noteq> i" for j
    using that False ok by (cases "j = i") (auto simp: parent_ok_def)
  ultimately show ?thesis using g by simp
next
  case True
  let ?p = "i div 2" and ?h = "h[i := h ! (i div 2), i div 2 := h ! i]"
  have p: "?p < i" "1 \<le> ?p" "?p \<le> n" using True i by auto
  have i2: "2 \<le> i" using True by simp
  note s = sift_up_swap [OF ord n i2 i(2) ok g conjunct2 [OF True]]
  obtain h' where h': "pq_sift_up cmp ?h ?p = Some h'" "length h' = length ?h" "heap_ok cmp h' n"
      "mset (heap_elems n h') = mset (heap_elems n ?h)"
    using pq_sift_up_spec [OF ord _ p(2,3) s] n by auto
  moreover have "pq_sift_up cmp h i = pq_sift_up cmp ?h ?p"
    using True n i p(1) by (subst pq_sift_up.simps) (simp add: Let_def pq_swap_Some)
  moreover have "mset (heap_elems n ?h) = mset (heap_elems n h)"
    using n i p by (intro mset_heap_swap) auto
  ultimately show ?thesis using heap_ok_grand [OF ord h'(3) i(2)] by (auto simp: heap_ok_def)
qed

lemma pq_remove_hit:
  assumes inv: "pq_inv pq" and i: "0 < i" "i \<le> pq_size pq" "pq_heap pq ! i = elem"
  shows "\<exists>pq'. pq_remove_from pq elem i = Some (True, pq') \<and> pq_inv pq'
     \<and> pq_elems pq' = pq_elems pq - {#elem#} \<and> pq_cmp pq' = pq_cmp pq"
proof -
  note v = inv [unfolded pq_inv_def]
  let ?cmp = "pq_cmp pq" and ?h = "(pq_heap pq)[i := pq_heap pq ! pq_size pq]"
  obtain n where n: "pq_size pq = Suc n" using i(1,2) by (cases "pq_size pq") auto
  have len: "Suc n < length (pq_heap pq)" using v n by simp
  have ord: "cmp_order ?cmp" using v by blast
  have el: "mset (heap_elems n ?h) = pq_elems pq - {#elem#}"
    using mset_heap_drop [OF len i(1)] n i by (simp add: pq_elems_def)
  have "\<exists>h'. (if i \<le> n then do { heap \<leftarrow> pq_sift_up ?cmp ?h i; pq_sift_down ?cmp heap n i } else Some ?h) = Some h'
      \<and> length h' = length ?h \<and> heap_ok ?cmp h' n \<and> mset (heap_elems n h') = mset (heap_elems n ?h)"
  proof (cases "i \<le> n")
    case False
    have "heap_ok ?cmp ?h n = heap_ok ?cmp (pq_heap pq) n" using False by (intro heap_ok_cong) simp
    moreover have "heap_ok ?cmp (pq_heap pq) n" using v n by (intro heap_ok_less [of ?cmp _ "Suc n" n]) simp_all
    ultimately show ?thesis using False by simp
  next
    case True
    have "parent_ok ?cmp ?h j" if "2 \<le> j" "j \<le> n" "j \<noteq> i" "j div 2 \<noteq> i" for j
    proof -
      have "?h ! j = pq_heap pq ! j" "?h ! (j div 2) = pq_heap pq ! (j div 2)" using that by auto
      moreover have "parent_ok ?cmp (pq_heap pq) j" using v that n unfolding heap_ok_def by auto
      ultimately show ?thesis by (simp add: parent_ok_def)
    qed
    moreover have "grand_ok ?cmp ?h n i"
    proof -
      have g: "grand_ok ?cmp (pq_heap pq) (Suc n) i" using heap_ok_grand [OF ord] v n i(2) by simp
      show ?thesis unfolding grand_ok_def
      proof (intro impI allI, elim conjE)
        fix j assume a: "2 \<le> i" "j \<le> n" "j div 2 = i"
        have "j \<noteq> i" "i div 2 \<noteq> i" "j \<le> Suc n" using a by linarith+
        then have "?h ! j = pq_heap pq ! j" "?h ! (i div 2) = pq_heap pq ! (i div 2)" by simp_all
        moreover have "\<not> ?cmp (pq_heap pq ! j) (pq_heap pq ! (i div 2)) < 0"
          using g a(1,3) \<open>j \<le> Suc n\<close> unfolding grand_ok_def by blast
        ultimately show "\<not> ?cmp (?h ! j) (?h ! (i div 2)) < 0" by simp
      qed
    qed
    ultimately obtain h1 where h1: "pq_sift_up ?cmp ?h i = Some h1" "length h1 = length ?h"
        "\<forall>j. 2 \<le> j \<and> j \<le> n \<and> j div 2 \<noteq> i \<longrightarrow> parent_ok ?cmp h1 j" "grand_ok ?cmp h1 n i"
        "mset (heap_elems n h1) = mset (heap_elems n ?h)"
      using sift_up_anywhere [OF ord _ i(1) True, of ?h] len by auto
    then show ?thesis using pq_sift_down_spec [OF ord _ i(1) True h1(3,4)] len True by auto
  qed
  then obtain h' where h': "(if i \<le> n then do { heap \<leftarrow> pq_sift_up ?cmp ?h i; pq_sift_down ?cmp heap n i } else Some ?h) = Some h'"
      "length h' = length ?h" "heap_ok ?cmp h' n" "mset (heap_elems n h') = mset (heap_elems n ?h)" by blast
  let ?pq = "pq\<lparr>pq_heap := h', pq_size := n\<rparr>"
  have "pq_remove_from pq elem i = Some (True, ?pq)"
    using n len i h'(1) v by (subst pq_remove_from.simps, cases "i \<le> n") (auto simp: bind_eq_Some_conv)
  moreover have "pq_inv ?pq" "pq_elems ?pq = pq_elems pq - {#elem#}"
    using v h'(2-4) n el by (simp_all add: pq_inv_def pq_elems_def)
  ultimately show ?thesis by simp
qed

lemma pq_remove_from_spec:
  assumes inv: "pq_inv pq"
  shows "0 < i \<Longrightarrow> \<forall>j. 0 < j \<and> j < i \<and> j \<le> pq_size pq \<longrightarrow> pq_heap pq ! j \<noteq> elem \<Longrightarrow>
    \<exists>pq'. pq_remove_from pq elem i = Some (elem \<in># pq_elems pq, pq') \<and> pq_inv pq'
     \<and> pq_elems pq' = pq_elems pq - {#elem#} \<and> pq_cmp pq' = pq_cmp pq"
proof (induction "pq_size pq + 1 - i" arbitrary: i rule: less_induct)
  case less
  note v = inv [unfolded pq_inv_def]
  have mem: "elem \<in># pq_elems pq \<longleftrightarrow> (\<exists>j. 0 < j \<and> j \<le> pq_size pq \<and> elem = pq_heap pq ! j)"
    using set_heap_elems [of "pq_size pq" "pq_heap pq" elem] v by (simp add: pq_elems_def)
  consider "pq_size pq < i" | "i \<le> pq_size pq" "pq_heap pq ! i = elem" | "i \<le> pq_size pq" "pq_heap pq ! i \<noteq> elem"
    by linarith
  then show ?case
  proof cases
    case 1
    then have no: "elem \<notin># pq_elems pq" using less.prems mem by (metis le_less_trans)
    then show ?thesis using 1 inv by (subst pq_remove_from.simps) (simp add: diff_single_trivial)
  next
    case 2
    then have "elem \<in># pq_elems pq" using mem less.prems(1) by blast
    then show ?thesis using pq_remove_hit [OF inv less.prems(1) 2] by auto
  next
    case 3
    have "\<forall>j. 0 < j \<and> j < i + 1 \<and> j \<le> pq_size pq \<longrightarrow> pq_heap pq ! j \<noteq> elem"
      using less.prems(2) 3(2) by (metis Suc_eq_plus1 less_SucE)
    then have "\<exists>pq'. pq_remove_from pq elem (i + 1) = Some (elem \<in># pq_elems pq, pq') \<and> pq_inv pq'
     \<and> pq_elems pq' = pq_elems pq - {#elem#} \<and> pq_cmp pq' = pq_cmp pq"
      using less.hyps [of "i + 1"] 3(1) by simp
    then show ?thesis using 3 v by (subst pq_remove_from.simps) simp
  qed
qed


section \<open>The contract\<close>

text \<open>
  A priority queue for its clients: a multiset with insertion and removal of an element that
  no other element comes before.
\<close>

locale prio_queue =
  fixes push :: "'q \<Rightarrow> 'a ptr \<Rightarrow> 'q option"
    and pop :: "'q \<Rightarrow> ('a ptr \<times> 'q) option"
    and elems :: "'q \<Rightarrow> 'a ptr multiset"
    and before :: "'q \<Rightarrow> 'a ptr \<Rightarrow> 'a ptr \<Rightarrow> bool"
    and invar :: "'q \<Rightarrow> bool"
    and room :: "'q \<Rightarrow> bool"
  assumes push: "invar q \<Longrightarrow> room q \<Longrightarrow>
      \<exists>q'. push q x = Some q' \<and> invar q' \<and> elems q' = add_mset x (elems q) \<and> before q' = before q"
    and pop_empty: "invar q \<Longrightarrow> elems q = {#} \<Longrightarrow> pop q = Some (NULL, q)"
    and pop_min: "invar q \<Longrightarrow> elems q \<noteq> {#} \<Longrightarrow>
      \<exists>x q'. pop q = Some (x, q') \<and> invar q' \<and> x \<in># elems q \<and> elems q' = elems q - {#x#}
        \<and> (\<forall>y \<in># elems q. \<not> before q y x) \<and> before q' = before q"

text \<open>Popping \<open>n\<close> times in a row.\<close>

fun pop_many :: "('q \<Rightarrow> ('a ptr \<times> 'q) option) \<Rightarrow> nat \<Rightarrow> 'q \<Rightarrow> ('a ptr list \<times> 'q) option" where
  "pop_many pop 0 q = Some ([], q)"
| "pop_many pop (Suc n) q = do { (x, q) \<leftarrow> pop q; (xs, q) \<leftarrow> pop_many pop n q; Some (x # xs, q) }"

fun push_many :: "('q \<Rightarrow> 'a ptr \<Rightarrow> 'q option) \<Rightarrow> 'a ptr list \<Rightarrow> 'q \<Rightarrow> 'q option" where
  "push_many push [] q = Some q"
| "push_many push (x # xs) q = do { q \<leftarrow> push q x; push_many push xs q }"

context prio_queue
begin

lemma drain:
  assumes "invar q" and "n = size (elems q)"
  shows "\<exists>xs q'. pop_many pop n q = Some (xs, q') \<and> mset xs = elems q
     \<and> sorted_wrt (\<lambda>x y. \<not> before q y x) xs \<and> invar q' \<and> elems q' = {#}"
  using assms
proof (induction n arbitrary: q)
  case (Suc n)
  have "elems q \<noteq> {#}" using Suc.prems(2) by auto
  then obtain x q1 where p: "pop q = Some (x, q1)" "invar q1" "x \<in># elems q" "elems q1 = elems q - {#x#}"
      "\<forall>y \<in># elems q. \<not> before q y x" "before q1 = before q"
    using pop_min [OF Suc.prems(1)] by blast
  have "n = size (elems q1)" using Suc.prems(2) p(3,4) by (simp add: size_Diff_singleton)
  then obtain xs q2 where r: "pop_many pop n q1 = Some (xs, q2)" "mset xs = elems q1"
      "sorted_wrt (\<lambda>x y. \<not> before q1 y x) xs" "invar q2" "elems q2 = {#}"
    using Suc.IH [OF p(2)] by blast
  have "mset (x # xs) = elems q" using r(2) p(3,4) by simp
  moreover have "\<forall>y \<in> set xs. \<not> before q y x"
    using p(5) \<open>mset (x # xs) = elems q\<close> by (metis list.set_intros(2) set_mset_mset)
  ultimately show ?case using p(1,6) r by auto
qed simp

end

interpretation pqs: prio_queue op_pqueue_push op_pqueue_pop pq_elems "\<lambda>pq x y. pq_cmp pq x y < 0" pq_inv
    "\<lambda>pq. pq_size pq < 2 ^ 59"
proof
  fix q :: "'a op_pqueue" and x
  assume inv: "pq_inv q"
  note v = inv [unfolded pq_inv_def]
  have emp: "pq_elems q = {#} \<longleftrightarrow> pq_size q = 0"
    using v length_heap_elems [of "pq_size q" "pq_heap q"] by (auto simp: pq_elems_def)
  {
    assume "pq_size q < 2 ^ 59"
    then show "\<exists>q'. op_pqueue_push q x = Some q' \<and> pq_inv q' \<and> pq_elems q' = add_mset x (pq_elems q)
        \<and> (\<lambda>x y. pq_cmp q' x y < 0) = (\<lambda>x y. pq_cmp q x y < 0)"
      using pq_push_spec [OF inv, of x] by auto
  next
    assume "pq_elems q = {#}"
    then show "op_pqueue_pop q = Some (NULL, q)" using emp by (simp add: op_pqueue_pop_def)
  next
    assume "pq_elems q \<noteq> {#}"
    then have ne: "pq_size q \<noteq> 0" using emp by simp
    have mem: "y \<in># pq_elems q \<longleftrightarrow> (\<exists>j. 0 < j \<and> j \<le> pq_size q \<and> y = pq_heap q ! j)" for y
      using set_heap_elems [of "pq_size q" "pq_heap q" y] v by (simp add: pq_elems_def)
    have "pq_heap q ! 1 \<in># pq_elems q" using mem ne by (metis less_one linorder_not_less neq0_conv)
    moreover have "\<forall>y \<in># pq_elems q. \<not> pq_cmp q y (pq_heap q ! 1) < 0"
      using mem heap_root v by metis
    ultimately show "\<exists>x q'. op_pqueue_pop q = Some (x, q') \<and> pq_inv q' \<and> x \<in># pq_elems q
        \<and> pq_elems q' = pq_elems q - {#x#} \<and> (\<forall>y \<in># pq_elems q. \<not> pq_cmp q y x < 0)
        \<and> (\<lambda>x y. pq_cmp q' x y < 0) = (\<lambda>x y. pq_cmp q x y < 0)"
      using pq_pop_spec [OF inv ne] by auto
  }
qed


lemma pq_create_spec:
  assumes "cmp_order cmp" and "initial < 2 ^ 60"
  shows "\<exists>pq. op_pqueue_create cmp initial = Some pq \<and> pq_inv pq \<and> pq_elems pq = {#} \<and> pq_cmp pq = cmp \<and> pq_size pq = 0"
proof -
  let ?cap = "if initial > 0 then initial else PQ_DEFAULT_CAP"
  have c: "?cap + 1 \<le> SIZE_MAX div 8" using assms(2) by (simp add: SIZE_MAX_div8 PQ_DEFAULT_CAP_def)
  then have w: "wrap64 (?cap + 1) = ?cap + 1" by (intro wrap64_small) (simp add: SIZE_MAX_div8 W64_def)
  have len: "length (alloc_slots (?cap + 1) :: 'a ptr list) = ?cap + 1" using c by (rule length_alloc_slots)
  let ?pq = "\<lparr>pq_cmp = cmp, pq_heap = (alloc_slots (?cap + 1))[0 := NULL], pq_size = 0, pq_cap = ?cap\<rparr> :: 'a op_pqueue"
  have "op_pqueue_create cmp initial = Some ?pq"
    unfolding op_pqueue_create_def Let_def w using len by simp
  moreover have "pq_inv ?pq" using assms(1) c len by (simp add: pq_inv_def heap_ok_def)
  ultimately show ?thesis by (simp add: pq_elems_def heap_elems_def)
qed

lemma pq_push_many_spec:
  assumes "pq_inv pq" and "pq_size pq + length xs \<le> 2 ^ 59"
  shows "\<exists>pq'. push_many op_pqueue_push xs pq = Some pq' \<and> pq_inv pq' \<and> pq_elems pq' = pq_elems pq + mset xs
     \<and> pq_cmp pq' = pq_cmp pq"
  using assms
proof (induction xs arbitrary: pq)
  case (Cons x xs)
  obtain p where p: "op_pqueue_push pq x = Some p" "pq_inv p" "pq_elems p = add_mset x (pq_elems pq)"
      "pq_cmp p = pq_cmp pq" "pq_size p = Suc (pq_size pq)"
    using pq_push_spec [OF Cons.prems(1), of x] Cons.prems(2) by auto
  then show ?case using Cons.IH [OF p(2)] Cons.prems(2) by auto
qed simp

section \<open>Properties\<close>

text \<open>
  C10. Pushing any elements into a new queue and popping as many times returns exactly those
  elements, each one not preceded by any later one: the heap sorts, through every growth and
  shrink of its block, without an access outside it.
\<close>

theorem pqueue_drains_sorted:
  assumes "cmp_order cmp" and "initial < 2 ^ 60" and "length xs \<le> 2 ^ 59"
  shows "\<exists>pq pq' ys pq''. op_pqueue_create cmp initial = Some pq
     \<and> push_many op_pqueue_push xs pq = Some pq'
     \<and> pop_many op_pqueue_pop (length xs) pq' = Some (ys, pq'')
     \<and> mset ys = mset xs \<and> sorted_wrt (\<lambda>x y. \<not> cmp y x < 0) ys \<and> op_pqueue_empty pq''"
proof -
  obtain pq where c: "op_pqueue_create cmp initial = Some pq" "pq_inv pq" "pq_elems pq = {#}" "pq_cmp pq = cmp" "pq_size pq = 0"
    using pq_create_spec [OF assms(1,2)] by blast
  obtain p where p: "push_many op_pqueue_push xs pq = Some p" "pq_inv p" "pq_elems p = mset xs" "pq_cmp p = cmp"
    using pq_push_many_spec [OF c(2), of xs] c(3,4,5) assms(3) by auto
  obtain ys q where d: "pop_many op_pqueue_pop (length xs) p = Some (ys, q)" "mset ys = pq_elems p"
      "sorted_wrt (\<lambda>x y. \<not> pq_cmp p y x < 0) ys" "pq_inv q" "pq_elems q = {#}"
    using pqs.drain [OF p(2), of "length xs"] p(3) by auto
  have "op_pqueue_empty q"
    using d(4,5) length_heap_elems [of "pq_size q" "pq_heap q"] by (auto simp: pq_inv_def pq_elems_def op_pqueue_empty_def)
  then show ?thesis using c(1) p d by auto
qed

theorem pqueue_drains_sorted_witness:
  "\<exists>pq pq' ys pq''. op_pqueue_create (\<lambda>a b. the a - the b) 0 = Some pq
     \<and> push_many op_pqueue_push [Some 5, Some 1, Some (3 :: int)] pq = Some pq'
     \<and> pop_many op_pqueue_pop 3 pq' = Some (ys, pq'')
     \<and> mset ys = {#Some 1, Some 3, Some 5#} \<and> sorted_wrt (\<lambda>x y. the x \<le> the y) ys"
proof -
  have "cmp_order (\<lambda>a b. the a - the b :: int)" by (auto simp: cmp_order_def)
  from pqueue_drains_sorted [OF this, of 0 "[Some 5, Some 1, Some 3]"] show ?thesis
    by (simp add: not_less add_mset_commute numeral_3_eq_3 del: push_many.simps pop_many.simps) blast
qed

text \<open>
  C27. Removing by pointer from anywhere in the heap reports whether the element was queued,
  takes out exactly one occurrence, and restores the heap order, also when the element that
  replaces it has to move towards the root.
\<close>

theorem pqueue_remove_correct:
  assumes "pq_inv pq"
  shows "\<exists>pq'. op_pqueue_remove pq elem = Some (elem \<in># pq_elems pq, pq') \<and> pq_inv pq'
     \<and> pq_elems pq' = pq_elems pq - {#elem#}"
  using pq_remove_from_spec [OF assms, of 1 elem] by (auto simp: op_pqueue_remove_def)

theorem pqueue_remove_correct_witness:
  "\<exists>pq'. op_pqueue_remove \<lparr>pq_cmp = \<lambda>a b. the a - the b, pq_heap = [NULL, Some 1, Some 7, Some 2, Some 9, Some 8, Some 3],
       pq_size = 6, pq_cap = 6\<rparr> (Some (9 :: int)) = Some (True, pq') \<and> pq_inv pq'
     \<and> pq_elems pq' = {#Some 1, Some 7, Some 2, Some 8, Some 3#}"
proof -
  let ?pq = "\<lparr>pq_cmp = \<lambda>a b. the a - the b, pq_heap = [NULL, Some 1, Some 7, Some 2, Some 9, Some 8, Some 3],
       pq_size = 6, pq_cap = 6\<rparr> :: int op_pqueue"
  have "parent_ok (pq_cmp ?pq) (pq_heap ?pq) j" if "2 \<le> j" "j \<le> 6" for j
  proof -
    have "j = 2 \<or> j = 3 \<or> j = 4 \<or> j = 5 \<or> j = 6" using that by auto
    then show ?thesis by (elim disjE) (simp_all add: parent_ok_def)
  qed
  then have "pq_inv ?pq" by (simp add: pq_inv_def cmp_order_def heap_ok_def SIZE_MAX_div8)
  from pqueue_remove_correct [OF this, of "Some 9"] show ?thesis
    by (simp add: pq_elems_def heap_elems_def)
qed

end
