(* ===== verification/Deque.thy ===== *)
theory Deque
  imports Vec
begin

unbundle bit_operations_syntax

text \<open>
  \<^verbatim>\<open>src/deque.c\<close>: the double-ended queue on a circular block whose capacity is a power of
  two.  \<open>deque_list\<close> reads the live elements front to back; runs of requests are refined to
  the same requests on a list, so that wrapping around the end of the block, growing and
  reserving are invisible.
\<close>

section \<open>State and helpers\<close>

record 'a op_deque =
  dq_slots :: "'a ptr list"
  dq_head :: nat
  dq_size :: nat
  dq_cap :: nat

definition DEFAULT_CAP :: nat where
  "DEFAULT_CAP = 8"

text \<open>\<open>None\<close> is the abort on a capacity above \<^verbatim>\<open>SIZE_MAX / 2\<close>.\<close>

definition deque_next_pow2 :: "nat \<Rightarrow> nat option" where
  "deque_next_pow2 n =
     (if n < DEFAULT_CAP then Some DEFAULT_CAP
      else if n > SIZE_MAX div 2 then None
      else Some (wrap64 (smear64 (n - 1) + 1)))"

definition dq_slot :: "'a op_deque \<Rightarrow> nat \<Rightarrow> nat" where
  "dq_slot d i = wrap64 (dq_head d + i) AND sub64 (dq_cap d) 1"

text \<open>The loop that copies the live elements to the front of a new block.\<close>

function deque_copy :: "'a op_deque \<Rightarrow> 'a ptr list \<Rightarrow> nat \<Rightarrow> 'a ptr list option" where
  "deque_copy d new_slots i =
     (if i < dq_size d
      then do {
        x \<leftarrow> arr_get (dq_slots d) (dq_slot d i);
        new_slots \<leftarrow> arr_set new_slots i x;
        deque_copy d new_slots (i + 1)
      }
      else Some new_slots)"
  by pat_completeness auto
termination
  by (relation "measure (\<lambda>(d, new_slots, i). dq_size d - i)") auto

definition deque_grow :: "'a op_deque \<Rightarrow> 'a op_deque option" where
  "deque_grow d = (let new_cap = wrap64 (dq_cap d * 2) in
     if new_cap < dq_cap d \<or> new_cap > SIZE_MAX div 8 then None
     else do {
       new_slots \<leftarrow> deque_copy d (alloc_slots new_cap) 0;
       Some (d\<lparr>dq_slots := new_slots, dq_head := 0, dq_cap := new_cap\<rparr>)
     })"

section \<open>Operations\<close>

definition op_deque_init :: "nat \<Rightarrow> 'a op_deque option" where
  "op_deque_init hint = do {
     cap \<leftarrow> deque_next_pow2 hint;
     Some \<lparr>dq_slots = alloc_slots cap, dq_head = 0, dq_size = 0, dq_cap = cap\<rparr>
   }"

definition op_deque_fini :: "'a op_deque \<Rightarrow> 'a op_deque" where
  "op_deque_fini d = d\<lparr>dq_slots := [], dq_head := 0, dq_size := 0, dq_cap := 0\<rparr>"

definition op_deque_push_back :: "'a op_deque \<Rightarrow> 'a ptr \<Rightarrow> 'a op_deque option" where
  "op_deque_push_back d item = do {
     d \<leftarrow> (if dq_size d = dq_cap d then deque_grow d else Some d);
     slots \<leftarrow> arr_set (dq_slots d) (dq_slot d (dq_size d)) item;
     Some (d\<lparr>dq_slots := slots, dq_size := dq_size d + 1\<rparr>)
   }"

definition op_deque_push_front :: "'a op_deque \<Rightarrow> 'a ptr \<Rightarrow> 'a op_deque option" where
  "op_deque_push_front d item = do {
     d \<leftarrow> (if dq_size d = dq_cap d then deque_grow d else Some d);
     let d = d\<lparr>dq_head := sub64 (dq_head d) 1 AND sub64 (dq_cap d) 1\<rparr>;
     slots \<leftarrow> arr_set (dq_slots d) (dq_head d) item;
     Some (d\<lparr>dq_slots := slots, dq_size := dq_size d + 1\<rparr>)
   }"

definition op_deque_pop_back :: "'a op_deque \<Rightarrow> ('a ptr \<times> 'a op_deque) option" where
  "op_deque_pop_back d =
     (if dq_size d = 0 then Some (NULL, d)
      else let d = d\<lparr>dq_size := dq_size d - 1\<rparr> in do {
        item \<leftarrow> arr_get (dq_slots d) (dq_slot d (dq_size d));
        Some (item, d)
      })"

definition op_deque_pop_front :: "'a op_deque \<Rightarrow> ('a ptr \<times> 'a op_deque) option" where
  "op_deque_pop_front d =
     (if dq_size d = 0 then Some (NULL, d)
      else do {
        item \<leftarrow> arr_get (dq_slots d) (dq_head d);
        Some (item, d\<lparr>dq_head := wrap64 (dq_head d + 1) AND sub64 (dq_cap d) 1, dq_size := dq_size d - 1\<rparr>)
      })"

definition op_deque_front :: "'a op_deque \<Rightarrow> 'a ptr option" where
  "op_deque_front d = (if dq_size d \<noteq> 0 then arr_get (dq_slots d) (dq_head d) else Some NULL)"

definition op_deque_back :: "'a op_deque \<Rightarrow> 'a ptr option" where
  "op_deque_back d = (if dq_size d \<noteq> 0 then arr_get (dq_slots d) (dq_slot d (dq_size d - 1)) else Some NULL)"

definition op_deque_at :: "'a op_deque \<Rightarrow> nat \<Rightarrow> 'a ptr option" where
  "op_deque_at d i = (if i \<ge> dq_size d then Some NULL else arr_get (dq_slots d) (dq_slot d i))"

definition op_deque_set :: "'a op_deque \<Rightarrow> nat \<Rightarrow> 'a ptr \<Rightarrow> 'a op_deque option" where
  "op_deque_set d i item =
     (if i \<ge> dq_size d then Some d
      else do {
        slots \<leftarrow> arr_set (dq_slots d) (dq_slot d i) item;
        Some (d\<lparr>dq_slots := slots\<rparr>)
      })"

definition op_deque_clear :: "'a op_deque \<Rightarrow> 'a op_deque" where
  "op_deque_clear d = d\<lparr>dq_head := 0, dq_size := 0\<rparr>"

definition op_deque_reserve :: "'a op_deque \<Rightarrow> nat \<Rightarrow> 'a op_deque option" where
  "op_deque_reserve d n =
     (if n \<le> dq_cap d then Some d
      else do {
        new_cap \<leftarrow> deque_next_pow2 n;
        new_slots \<leftarrow> deque_copy d (alloc_slots new_cap) 0;
        Some (d\<lparr>dq_slots := new_slots, dq_head := 0, dq_cap := new_cap\<rparr>)
      })"

text \<open>The visitor updates a user state and continues while it returns true.\<close>

function deque_foreach_from :: "'a op_deque \<Rightarrow> ('a ptr \<Rightarrow> 's \<Rightarrow> bool \<times> 's) \<Rightarrow> nat \<Rightarrow> 's \<Rightarrow> 's option" where
  "deque_foreach_from d fn i ud =
     (if i < dq_size d
      then do {
        x \<leftarrow> arr_get (dq_slots d) (dq_slot d i);
        (case fn x ud of (go, ud') \<Rightarrow> if \<not> go then Some ud' else deque_foreach_from d fn (i + 1) ud')
      }
      else Some ud)"
  by pat_completeness auto
termination
  by (relation "measure (\<lambda>(d, fn, i, ud). dq_size d - i)") auto

definition op_deque_foreach :: "'a op_deque \<Rightarrow> ('a ptr \<Rightarrow> 's \<Rightarrow> bool \<times> 's) \<Rightarrow> 's \<Rightarrow> 's option" where
  "op_deque_foreach d fn ud = deque_foreach_from d fn 0 ud"

section \<open>Abstraction and invariant\<close>

definition deque_list :: "'a op_deque \<Rightarrow> 'a ptr list" where
  "deque_list d = map (\<lambda>i. dq_slots d ! ((dq_head d + i) mod dq_cap d)) [0..<dq_size d]"

definition deque_inv :: "'a op_deque \<Rightarrow> bool" where
  "deque_inv d \<longleftrightarrow> (\<exists>k. 3 \<le> k \<and> k \<le> 60 \<and> dq_cap d = 2 ^ k)
     \<and> length (dq_slots d) = dq_cap d \<and> dq_head d < dq_cap d \<and> dq_size d \<le> dq_cap d"

section \<open>Indices\<close>

lemma wrap64_and_mask: "k \<le> 64 \<Longrightarrow> wrap64 x AND (2 ^ k - 1) = x mod 2 ^ k"
  unfolding and_mask_nat wrap64_def by (rule mod_mod_cancel [OF pow2_dvd_W64])

lemma deque_invE:
  assumes "deque_inv d"
  obtains k where "3 \<le> k" "k \<le> 60" "dq_cap d = 2 ^ k" "sub64 (dq_cap d) 1 = 2 ^ k - 1"
    "(2::nat) ^ k \<le> 2 ^ 60" "8 \<le> (2::nat) ^ k"
proof -
  obtain k where k: "3 \<le> k" "k \<le> 60" "dq_cap d = 2 ^ k" using assms by (auto simp: deque_inv_def)
  have le: "(2::nat) ^ k \<le> 2 ^ 60" using k(2) by (intro power_increasing) auto
  have ge: "(2::nat) ^ 3 \<le> 2 ^ k" using k(1) by (intro power_increasing) auto
  have "sub64 (2 ^ k) 1 = 2 ^ k - 1" using le by (intro sub64_le) (auto simp: W64_def)
  then show thesis using that k le ge by simp
qed

lemma dq_slot_mod: "deque_inv d \<Longrightarrow> dq_slot d i = (dq_head d + i) mod dq_cap d"
  by (erule deque_invE) (simp only: dq_slot_def wrap64_and_mask)

lemma dq_slot_less: "deque_inv d \<Longrightarrow> dq_slot d i < length (dq_slots d)"
  using dq_slot_mod [of d i] by (auto simp: deque_inv_def)

lemma length_deque_list [simp]: "length (deque_list d) = dq_size d"
  by (simp add: deque_list_def)

lemma nth_deque_list: "deque_inv d \<Longrightarrow> i < dq_size d \<Longrightarrow> deque_list d ! i = dq_slots d ! dq_slot d i"
  by (simp add: deque_list_def dq_slot_mod)

lemma ring_inj:
  assumes "(h + i) mod c = (h + j) mod c" and "i < c" "j < (c::nat)"
  shows "i = j"
proof (rule ccontr)
  assume "i \<noteq> j"
  then consider "i < j" | "j < i" by linarith
  then show False
  proof cases
    case 1
    have "c dvd (h + j) - (h + i)" using assms(1) mod_eq_dvd_iff_nat [of "h + i" "h + j" c] 1 by simp
    then show False using 1 assms(3) by (auto dest: dvd_imp_le)
  next
    case 2
    have "c dvd (h + i) - (h + j)" using assms(1) mod_eq_dvd_iff_nat [of "h + j" "h + i" c] 2 by simp
    then show False using 2 assms(2) by (auto dest: dvd_imp_le)
  qed
qed


section \<open>Copying and growing\<close>

declare deque_copy.simps [simp del] deque_foreach_from.simps [simp del]

lemma deque_copy_spec:
  assumes inv: "deque_inv d"
  shows "dq_size d \<le> length new \<Longrightarrow> i \<le> dq_size d \<Longrightarrow> take i new = take i (deque_list d) \<Longrightarrow>
    \<exists>ys. deque_copy d new i = Some ys \<and> length ys = length new \<and> take (dq_size d) ys = deque_list d"
proof (induction "dq_size d - i" arbitrary: new i rule: less_induct)
  case less
  show ?case
  proof (cases "i < dq_size d")
    case False
    then have "i = dq_size d" using less.prems(2) by simp
    then show ?thesis using less.prems by (subst deque_copy.simps) simp
  next
    case True
    let ?new = "new[i := deque_list d ! i]"
    have "take (Suc i) ?new = take (Suc i) (deque_list d)"
      using less.prems True by (simp add: take_Suc_conv_app_nth)
    then have "\<exists>ys. deque_copy d ?new (Suc i) = Some ys \<and> length ys = length ?new \<and> take (dq_size d) ys = deque_list d"
      using less.prems True by (intro less.hyps) auto
    moreover have "deque_copy d new i = deque_copy d ?new (Suc i)"
      using True less.prems(1) dq_slot_less [OF inv, of i] nth_deque_list [OF inv True]
      by (subst deque_copy.simps) simp
    ultimately show ?thesis by simp
  qed
qed

lemma deque_list_linear:
  assumes "dq_head d = 0" and "dq_size d \<le> dq_cap d" and "length (dq_slots d) = dq_cap d"
  shows "deque_list d = take (dq_size d) (dq_slots d)"
  using assms by (intro nth_equalityI) (auto simp: deque_list_def)

text \<open>Moving to a new block of \<open>2 ^ k\<close> slots, as growing and reserving do.\<close>

lemma deque_move_spec:
  assumes inv: "deque_inv d" and k: "3 \<le> k" "k \<le> 60" and fit: "dq_size d \<le> 2 ^ k"
  shows "\<exists>ys. deque_copy d (alloc_slots (2 ^ k)) 0 = Some ys
     \<and> deque_inv (d\<lparr>dq_slots := ys, dq_head := 0, dq_cap := 2 ^ k\<rparr>)
     \<and> deque_list (d\<lparr>dq_slots := ys, dq_head := 0, dq_cap := 2 ^ k\<rparr>) = deque_list d"
proof -
  have "(2::nat) ^ k \<le> 2 ^ 60" using k(2) by (intro power_increasing) auto
  then have len: "length (alloc_slots (2 ^ k) :: 'a ptr list) = 2 ^ k"
    by (intro length_alloc_slots) (simp add: SIZE_MAX_div8)
  obtain ys where ys: "deque_copy d (alloc_slots (2 ^ k)) 0 = Some ys" "length ys = 2 ^ k"
      "take (dq_size d) ys = deque_list d"
    using deque_copy_spec [OF inv, of "alloc_slots (2 ^ k)" 0] fit len by auto
  let ?d = "d\<lparr>dq_slots := ys, dq_head := 0, dq_cap := 2 ^ k\<rparr>"
  have "deque_inv ?d" using k ys(2) fit by (auto simp: deque_inv_def)
  moreover have "deque_list ?d = deque_list d"
    using deque_list_linear [of ?d] ys(2,3) fit by simp
  ultimately show ?thesis using ys(1) by blast
qed

lemma deque_make_room:
  assumes inv: "deque_inv d" and room: "dq_size d < 2 ^ 60"
  shows "\<exists>d'. (if dq_size d = dq_cap d then deque_grow d else Some d) = Some d' \<and> deque_inv d'
     \<and> deque_list d' = deque_list d \<and> dq_size d' = dq_size d \<and> dq_size d' < dq_cap d'"
proof (cases "dq_size d = dq_cap d")
  case False
  then show ?thesis using inv by (auto simp: deque_inv_def)
next
  case True
  obtain k where k: "3 \<le> k" "k \<le> 60" "dq_cap d = 2 ^ k" using inv by (auto simp: deque_inv_def)
  have "(2::nat) ^ k < 2 ^ 60" using True room k(3) by simp
  then have k60: "k < 60" by (simp only: power_strict_increasing_iff one_less_numeral_iff semiring_norm)
  then have le: "(2::nat) ^ Suc k \<le> 2 ^ 60" by (intro power_increasing) auto
  have w: "wrap64 (dq_cap d * 2) = 2 ^ Suc k" using le k(3) by (simp add: wrap64_small W64_def)
  obtain ys where ys: "deque_copy d (alloc_slots (2 ^ Suc k)) 0 = Some ys"
     "deque_inv (d\<lparr>dq_slots := ys, dq_head := 0, dq_cap := 2 ^ Suc k\<rparr>)"
     "deque_list (d\<lparr>dq_slots := ys, dq_head := 0, dq_cap := 2 ^ Suc k\<rparr>) = deque_list d"
    using deque_move_spec [OF inv, of "Suc k"] k k60 True by auto
  have "deque_grow d = Some (d\<lparr>dq_slots := ys, dq_head := 0, dq_cap := 2 ^ Suc k\<rparr>)"
    using w ys(1) le k(3) unfolding deque_grow_def by (simp add: SIZE_MAX_div8)
  then show ?thesis using True ys k(3) by simp
qed


section \<open>Operations on the list\<close>

lemma deque_invD:
  assumes "deque_inv d"
  shows "length (dq_slots d) = dq_cap d" "dq_head d < dq_cap d" "dq_size d \<le> dq_cap d" "0 < dq_cap d"
  using assms by (auto simp: deque_inv_def)

lemma deque_list_set_slot:
  assumes inv: "deque_inv d" and i: "i < dq_cap d"
  shows "deque_list (d\<lparr>dq_slots := (dq_slots d)[dq_slot d i := x]\<rparr>)
     = (if i < dq_size d then (deque_list d)[i := x] else deque_list d)"
proof (rule nth_equalityI)
  fix j assume "j < length (deque_list (d\<lparr>dq_slots := (dq_slots d)[dq_slot d i := x]\<rparr>))"
  then have j: "j < dq_size d" by simp
  then have "j < dq_cap d" using deque_invD(3) [OF inv] by simp
  then have "dq_slot d i = (dq_head d + j) mod dq_cap d \<longleftrightarrow> i = j"
    using ring_inj [of "dq_head d" i "dq_cap d" j] i by (auto simp: dq_slot_mod [OF inv])
  then show "deque_list (d\<lparr>dq_slots := (dq_slots d)[dq_slot d i := x]\<rparr>) ! j
      = (if i < dq_size d then (deque_list d)[i := x] else deque_list d) ! j"
    using j dq_slot_less [OF inv, of i] by (auto simp: deque_list_def nth_list_update)
qed simp

lemma deque_push_back_spec:
  assumes "deque_inv d" and "dq_size d < 2 ^ 60"
  shows "\<exists>d'. op_deque_push_back d x = Some d' \<and> deque_inv d' \<and> deque_list d' = deque_list d @ [x]"
proof -
  obtain e where e: "(if dq_size d = dq_cap d then deque_grow d else Some d) = Some e" "deque_inv e"
      "deque_list e = deque_list d" "dq_size e < dq_cap e"
    using deque_make_room [OF assms] by blast
  let ?n = "dq_size e"
  let ?u = "e\<lparr>dq_slots := (dq_slots e)[dq_slot e ?n := x]\<rparr>"
  let ?e = "?u\<lparr>dq_size := ?n + 1\<rparr>"
  have "op_deque_push_back d x = Some ?e"
    using e(1) dq_slot_less [OF e(2)] unfolding op_deque_push_back_def by simp
  moreover have "deque_inv ?e" using e(2,4) by (simp add: deque_inv_def)
  moreover have "deque_list ?e = deque_list ?u @ [dq_slots ?u ! ((dq_head ?u + ?n) mod dq_cap ?u)]"
    by (simp add: deque_list_def)
  moreover have "deque_list ?u = deque_list e" using deque_list_set_slot [OF e(2,4)] by simp
  moreover have "dq_slots ?u ! ((dq_head ?u + ?n) mod dq_cap ?u) = x"
    using dq_slot_less [OF e(2), of ?n] by (simp add: dq_slot_mod [OF e(2)])
  ultimately show ?thesis using e(3) by simp
qed

lemma deque_push_front_spec:
  assumes "deque_inv d" and "dq_size d < 2 ^ 60"
  shows "\<exists>d'. op_deque_push_front d x = Some d' \<and> deque_inv d' \<and> deque_list d' = x # deque_list d"
proof -
  obtain e where e: "(if dq_size d = dq_cap d then deque_grow d else Some d) = Some e" "deque_inv e"
      "deque_list e = deque_list d" "dq_size e < dq_cap e"
    using deque_make_room [OF assms] by blast
  note v = deque_invD [OF e(2)]
  define h where "h = (dq_head e + (dq_cap e - 1)) mod dq_cap e"
  have head: "sub64 (dq_head e) 1 AND sub64 (dq_cap e) 1 = h"
  proof -
    obtain k where k: "3 \<le> k" "k \<le> 60" "dq_cap e = 2 ^ k" "sub64 (dq_cap e) 1 = 2 ^ k - 1" "8 \<le> (2::nat) ^ k"
      using e(2) by (rule deque_invE)
    have "sub64 (dq_head e) 1 AND (2 ^ k - 1) = (dq_head e + (2 ^ k - 1)) mod 2 ^ k"
      using k(2,5) by (intro sub64_mask) simp_all
    then show ?thesis unfolding k(4) unfolding h_def k(3) .
  qed
  have hl: "h < dq_cap e" using v(4) by (simp add: h_def)
  let ?e = "e\<lparr>dq_head := h, dq_slots := (dq_slots e)[h := x], dq_size := dq_size e + 1\<rparr>"
  have "op_deque_push_front d x = Some ?e"
    using e(1) hl v(1) head unfolding op_deque_push_front_def by (simp add: Let_def)
  moreover have "deque_inv ?e" using e(2,4) hl by (simp add: deque_inv_def)
  moreover have "deque_list ?e = x # deque_list e"
  proof (rule nth_equalityI)
    fix j assume "j < length (deque_list ?e)"
    then have j: "j < dq_size e + 1" by simp
    show "deque_list ?e ! j = (x # deque_list e) ! j"
    proof (cases j)
      case 0
      then show ?thesis using hl v(1) by (simp add: deque_list_def del: upt_Suc)
    next
      case (Suc i)
      have "(h + Suc i) mod dq_cap e = (dq_head e + (dq_cap e - 1) + Suc i) mod dq_cap e"
        unfolding h_def by (rule mod_add_left_eq)
      also have "dq_head e + (dq_cap e - 1) + Suc i = (dq_head e + i) + dq_cap e" using v(4) by simp
      also have "\<dots> mod dq_cap e = (dq_head e + i) mod dq_cap e" by simp
      finally have idx: "(h + Suc i) mod dq_cap e = (dq_head e + i) mod dq_cap e" .
      have "(h + Suc i) mod dq_cap e \<noteq> h"
        using ring_inj [of h "Suc i" "dq_cap e" 0] j Suc e(4) hl by auto
      then show ?thesis using idx Suc j v(1) hl
        by (simp add: deque_list_def del: upt_Suc add_Suc_right)
    qed
  qed simp
  ultimately show ?thesis using e(3) by simp
qed

lemma deque_pop_back_spec:
  assumes inv: "deque_inv d"
  shows "\<exists>d'. op_deque_pop_back d = Some (if deque_list d = [] then NULL else last (deque_list d), d')
     \<and> deque_inv d' \<and> deque_list d' = butlast (deque_list d)"
proof (cases "dq_size d")
  case 0
  then show ?thesis using inv by (simp add: op_deque_pop_back_def deque_list_def)
next
  case (Suc n)
  let ?d = "d\<lparr>dq_size := n\<rparr>"
  have i: "deque_inv ?d" using inv Suc by (simp add: deque_inv_def)
  have l: "deque_list d = deque_list ?d @ [dq_slots d ! dq_slot d n]"
    using Suc by (simp add: deque_list_def dq_slot_mod [OF inv])
  moreover have "op_deque_pop_back d = Some (dq_slots d ! dq_slot d n, ?d)"
    using Suc dq_slot_less [OF i, of n] dq_slot_mod [OF i, of n] dq_slot_mod [OF inv, of n]
    by (simp add: op_deque_pop_back_def)
  ultimately show ?thesis using i by simp
qed

lemma deque_pop_front_spec:
  assumes inv: "deque_inv d"
  shows "\<exists>d'. op_deque_pop_front d = Some (if deque_list d = [] then NULL else hd (deque_list d), d')
     \<and> deque_inv d' \<and> deque_list d' = tl (deque_list d)"
proof (cases "dq_size d")
  case 0
  then show ?thesis using inv by (simp add: op_deque_pop_front_def deque_list_def)
next
  case (Suc n)
  note v = deque_invD [OF inv]
  define h where "h = (dq_head d + 1) mod dq_cap d"
  have head: "wrap64 (dq_head d + 1) AND sub64 (dq_cap d) 1 = h"
    using dq_slot_mod [OF inv, of 1] unfolding dq_slot_def h_def .
  let ?d = "d\<lparr>dq_head := h, dq_size := n\<rparr>"
  have "deque_inv ?d" using inv v Suc by (simp add: deque_inv_def h_def)
  moreover have "(h + i) mod dq_cap d = (dq_head d + Suc i) mod dq_cap d" for i
    unfolding h_def by (simp add: mod_add_left_eq)
  then have "deque_list d = dq_slots d ! dq_head d # deque_list ?d"
    using Suc v(2) by (simp add: deque_list_def upt_conv_Cons map_Suc_upt [symmetric] del: upt_Suc)
  moreover have "op_deque_pop_front d = Some (dq_slots d ! dq_head d, ?d)"
    using Suc v head by (simp add: op_deque_pop_front_def)
  ultimately show ?thesis by simp
qed

lemma deque_at_spec:
  assumes inv: "deque_inv d"
  shows "op_deque_at d i = Some (nth_or_null (deque_list d) i)"
  using dq_slot_less [OF inv] nth_deque_list [OF inv] by (auto simp: op_deque_at_def nth_or_null_def)

lemma deque_ends_spec:
  assumes inv: "deque_inv d"
  shows "op_deque_front d = Some (nth_or_null (deque_list d) 0)"
    and "op_deque_back d = Some (if deque_list d = [] then NULL else last (deque_list d))"
proof -
  note v = deque_invD [OF inv]
  show "op_deque_front d = Some (nth_or_null (deque_list d) 0)"
    using v nth_deque_list [OF inv, of 0] dq_slot_mod [OF inv, of 0] by (auto simp: op_deque_front_def nth_or_null_def)
  have "deque_list d = [] \<longleftrightarrow> dq_size d = 0" by (simp add: deque_list_def)
  then show "op_deque_back d = Some (if deque_list d = [] then NULL else last (deque_list d))"
    using dq_slot_less [OF inv] nth_deque_list [OF inv, of "dq_size d - 1"]
    by (auto simp: op_deque_back_def last_conv_nth)
qed

lemma deque_set_spec:
  assumes inv: "deque_inv d"
  shows "\<exists>d'. op_deque_set d i x = Some d' \<and> deque_inv d' \<and> deque_list d' = (deque_list d)[i := x]"
proof (cases "i < dq_size d")
  case False
  then show ?thesis using inv by (simp add: op_deque_set_def list_update_beyond)
next
  case True
  then have "i < dq_cap d" using deque_invD(3) [OF inv] by simp
  then show ?thesis using True dq_slot_less [OF inv, of i] deque_list_set_slot [OF inv, of i x] inv
    by (simp add: op_deque_set_def deque_inv_def)
qed

lemma deque_reserve_spec:
  assumes inv: "deque_inv d" and n: "n \<le> 2 ^ 60"
  shows "\<exists>d'. op_deque_reserve d n = Some d' \<and> deque_inv d' \<and> deque_list d' = deque_list d \<and> n \<le> dq_cap d'"
proof (cases "n \<le> dq_cap d")
  case True
  then show ?thesis using inv by (simp add: op_deque_reserve_def)
next
  case False
  obtain c where c: "3 \<le> c" "dq_cap d = 2 ^ c" "8 \<le> (2::nat) ^ c" using inv by (rule deque_invE)
  have n9: "8 < n" using False c by simp
  obtain k where k: "0 < k" "smear64 (n - 1) + 1 = 2 ^ k" "n \<le> 2 ^ k" "2 ^ (k - 1) < n"
    using smear64_pow2 [of n] n n9 by auto
  have "(2::nat) ^ (k - 1) < 2 ^ 60" using k(4) n by linarith
  then have "k - 1 < 60" by (simp only: power_strict_increasing_iff one_less_numeral_iff semiring_norm)
  then have k60: "k \<le> 60" using k(1) by simp
  have "(2::nat) ^ 3 < 2 ^ k" using k(3) n9 by simp
  then have k3: "3 < k" by (simp only: power_strict_increasing_iff one_less_numeral_iff semiring_norm)
  have "(2::nat) ^ k \<le> 2 ^ 60" using k60 by (intro power_increasing) auto
  then have "wrap64 (2 ^ k) = 2 ^ k" by (intro wrap64_small) (simp add: W64_def)
  moreover have "\<not> SIZE_MAX div 2 < n" using n by (simp add: SIZE_MAX_def W64_def)
  ultimately have p: "deque_next_pow2 n = Some (2 ^ k)"
    using n9 k(2) by (simp add: deque_next_pow2_def DEFAULT_CAP_def)
  have "dq_size d \<le> 2 ^ k" using deque_invD(3) [OF inv] False k(3) by linarith
  then obtain ys where "deque_copy d (alloc_slots (2 ^ k)) 0 = Some ys"
     "deque_inv (d\<lparr>dq_slots := ys, dq_head := 0, dq_cap := 2 ^ k\<rparr>)"
     "deque_list (d\<lparr>dq_slots := ys, dq_head := 0, dq_cap := 2 ^ k\<rparr>) = deque_list d"
    using deque_move_spec [OF inv, of k] k3 k60 by auto
  then show ?thesis using False p k(3) by (simp add: op_deque_reserve_def)
qed


section \<open>Runs of requests\<close>

datatype 'a deque_req =
    DPushBack "'a ptr"
  | DPushFront "'a ptr"
  | DPopBack
  | DPopFront
  | DFront
  | DBack
  | DAt nat
  | DSet nat "'a ptr"
  | DReserve nat
  | DClear

fun deque_step :: "'a op_deque \<Rightarrow> 'a deque_req \<Rightarrow> ('a ptr \<times> 'a op_deque) option" where
  "deque_step d (DPushBack x) = map_option (Pair NULL) (op_deque_push_back d x)"
| "deque_step d (DPushFront x) = map_option (Pair NULL) (op_deque_push_front d x)"
| "deque_step d DPopBack = op_deque_pop_back d"
| "deque_step d DPopFront = op_deque_pop_front d"
| "deque_step d DFront = map_option (\<lambda>x. (x, d)) (op_deque_front d)"
| "deque_step d DBack = map_option (\<lambda>x. (x, d)) (op_deque_back d)"
| "deque_step d (DAt i) = map_option (\<lambda>x. (x, d)) (op_deque_at d i)"
| "deque_step d (DSet i x) = map_option (Pair NULL) (op_deque_set d i x)"
| "deque_step d (DReserve n) = map_option (Pair NULL) (op_deque_reserve d n)"
| "deque_step d DClear = Some (NULL, op_deque_clear d)"

fun deque_run :: "'a op_deque \<Rightarrow> 'a deque_req list \<Rightarrow> ('a ptr list \<times> 'a op_deque) option" where
  "deque_run d [] = Some ([], d)"
| "deque_run d (r # rs) = do { (a, d) \<leftarrow> deque_step d r; (as, d) \<leftarrow> deque_run d rs; Some (a # as, d) }"

definition last_or_null :: "'a ptr list \<Rightarrow> 'a ptr" where
  "last_or_null xs = (if xs = [] then NULL else last xs)"

fun dlist_step :: "'a ptr list \<Rightarrow> 'a deque_req \<Rightarrow> 'a ptr \<times> 'a ptr list" where
  "dlist_step xs (DPushBack x) = (NULL, xs @ [x])"
| "dlist_step xs (DPushFront x) = (NULL, x # xs)"
| "dlist_step xs DPopBack = (last_or_null xs, butlast xs)"
| "dlist_step xs DPopFront = (nth_or_null xs 0, tl xs)"
| "dlist_step xs DFront = (nth_or_null xs 0, xs)"
| "dlist_step xs DBack = (last_or_null xs, xs)"
| "dlist_step xs (DAt i) = (nth_or_null xs i, xs)"
| "dlist_step xs (DSet i x) = (NULL, xs[i := x])"
| "dlist_step xs (DReserve n) = (NULL, xs)"
| "dlist_step xs DClear = (NULL, [])"

fun dlist_run :: "'a ptr list \<Rightarrow> 'a deque_req list \<Rightarrow> 'a ptr list \<times> 'a ptr list" where
  "dlist_run xs [] = ([], xs)"
| "dlist_run xs (r # rs) = (let (a, xs') = dlist_step xs r; (as, ys) = dlist_run xs' rs in (a # as, ys))"

definition deque_reserves_fit :: "'a deque_req list \<Rightarrow> bool" where
  "deque_reserves_fit rs = list_all (\<lambda>r. case r of DReserve n \<Rightarrow> n \<le> 2 ^ 60 | _ \<Rightarrow> True) rs"

lemma length_dlist_step: "length (snd (dlist_step xs r)) \<le> Suc (length xs)"
  by (cases r) auto

lemma deque_step_refines:
  assumes inv: "deque_inv d" and room: "dq_size d < 2 ^ 60" and fit: "deque_reserves_fit [r]"
  shows "\<exists>d'. deque_step d r = Some (fst (dlist_step (deque_list d) r), d') \<and> deque_inv d'
     \<and> deque_list d' = snd (dlist_step (deque_list d) r)"
proof (cases r)
  case (DPushBack x)
  then show ?thesis using deque_push_back_spec [OF inv room, of x] by auto
next
  case (DPushFront x)
  then show ?thesis using deque_push_front_spec [OF inv room, of x] by auto
next
  case DPopFront
  have "(if deque_list d = [] then NULL else hd (deque_list d)) = nth_or_null (deque_list d) 0"
    by (cases "deque_list d") (auto simp: nth_or_null_def simp del: length_deque_list)
  then show ?thesis using deque_pop_front_spec [OF inv] DPopFront by simp
next
  case (DReserve n)
  then show ?thesis using deque_reserve_spec [OF inv, of n] fit by (auto simp: deque_reserves_fit_def)
next
  case DClear
  then show ?thesis using inv by (auto simp: op_deque_clear_def deque_inv_def deque_list_def)
next
  case (DSet i x)
  then show ?thesis using deque_set_spec [OF inv, of i x] by auto
qed (use deque_pop_back_spec [OF inv] deque_ends_spec [OF inv] deque_at_spec [OF inv] inv
      in \<open>simp_all add: last_or_null_def\<close>)

lemma deque_run_refines:
  assumes "deque_inv d" and "dq_size d + length rs \<le> 2 ^ 60" and "deque_reserves_fit rs"
  shows "\<exists>d'. deque_run d rs = Some (fst (dlist_run (deque_list d) rs), d') \<and> deque_inv d'
     \<and> deque_list d' = snd (dlist_run (deque_list d) rs)"
  using assms
proof (induction rs arbitrary: d)
  case (Cons r rs)
  have fit: "deque_reserves_fit [r]" "deque_reserves_fit rs" using Cons.prems(3) by (auto simp: deque_reserves_fit_def)
  obtain e where e: "deque_step d r = Some (fst (dlist_step (deque_list d) r), e)" "deque_inv e"
      "deque_list e = snd (dlist_step (deque_list d) r)"
    using deque_step_refines [OF Cons.prems(1) _ fit(1)] Cons.prems(2) by auto
  have "dq_size e \<le> Suc (dq_size d)"
    using length_dlist_step [of "deque_list d" r] length_deque_list [of e] e(3) by simp
  then show ?case using Cons.IH [OF e(2) _ fit(2)] Cons.prems(2) e(1,3) by (auto simp: case_prod_beta)
qed simp

section \<open>Properties\<close>

text \<open>
  C9. Any sequence of pushes and pops at both ends, peeks, indexed reads and writes,
  reservations and clears answers as on a plain list, whatever the position of the ring and
  however often the block is moved, and never leaves the block.
\<close>

theorem deque_refines_list:
  assumes "deque_inv d" and "dq_size d + length rs \<le> 2 ^ 60" and "deque_reserves_fit rs"
  shows "\<exists>d'. deque_run d rs = Some (fst (dlist_run (deque_list d) rs), d') \<and> deque_inv d'
     \<and> deque_list d' = snd (dlist_run (deque_list d) rs)"
  by (rule deque_run_refines [OF assms])

theorem deque_refines_list_witness:
  "\<exists>d'. deque_run \<lparr>dq_slots = replicate 7 NULL @ [Some 1], dq_head = 7, dq_size = 1, dq_cap = 8\<rparr>
       [DPushBack (Some 2), DPushFront (Some (0 :: nat)), DReserve 9, DPopBack, DAt 1, DSet 0 (Some 5), DFront]
     = Some ([NULL, NULL, NULL, Some 2, Some 1, NULL, Some 5], d') \<and> deque_list d' = [Some 5, Some 1]"
proof -
  let ?d = "\<lparr>dq_slots = replicate 7 NULL @ [Some 1], dq_head = 7, dq_size = 1, dq_cap = 8\<rparr> :: nat op_deque"
  let ?rs = "[DPushBack (Some 2), DPushFront (Some 0), DReserve 9, DPopBack, DAt 1, DSet 0 (Some 5), DFront] :: nat deque_req list"
  have "deque_inv ?d" by (auto simp: deque_inv_def intro: exI [of _ 3])
  moreover have "deque_list ?d = [Some 1]" by (simp add: deque_list_def nth_append)
  moreover have "dlist_run [Some 1] ?rs = ([NULL, NULL, NULL, Some 2, Some 1, NULL, Some 5], [Some 5, Some 1])"
    by (simp add: nth_or_null_def last_or_null_def)
  ultimately show ?thesis
    using deque_refines_list [of ?d ?rs] by (auto simp: deque_reserves_fit_def)
qed

end
