(* ===== verification/Utf8.thy ===== *)
theory Utf8
  imports Libop_Prelude
begin

unbundle bit_operations_syntax

text \<open>
  \<^verbatim>\<open>src/utf8.c\<close>: strict UTF-8.  A pointer range \<open>[p, end)\<close> is the list of its bytes, and a
  decoder hands back the bytes it has not consumed.  The reference is the encoding table of
  RFC 3629 for Unicode scalar values: the decoder accepts exactly the encodings, and the
  public functions are characterised through it.
\<close>

section \<open>Decoding\<close>

text \<open>The loop over the continuation bytes.\<close>

fun utf8_cont :: "nat \<Rightarrow> u32 \<Rightarrow> u8 list \<Rightarrow> (u32 \<times> u8 list) option" where
  "utf8_cont 0 codepoint p = Some (codepoint, p)"
| "utf8_cont (Suc n) codepoint [] = None"
| "utf8_cont (Suc n) codepoint (c # p) =
     (if c < 0x80 \<or> c > 0xBF then None
      else utf8_cont n (push_bit 6 codepoint OR (ucast c AND 0x3F)) p)"

definition utf8_decode_one :: "u8 list \<Rightarrow> (u32 \<times> u8 list) option" where
  "utf8_decode_one bs =
     (case bs of
        [] \<Rightarrow> None
      | b # p \<Rightarrow>
          if b < 0x80 then Some (ucast b, p)
          else if b < 0xC2 then None
          else
            (let lead = (if b < 0xE0 then Some (ucast b AND 0x1F, 1)
                 else if b < 0xF0 then Some (ucast b AND 0x0F, 2)
                 else if b \<le> 0xF4 then Some (ucast b AND 0x07, 3)
                 else None)
             in case lead of
                  None \<Rightarrow> None
                | Some (codepoint, extra) \<Rightarrow>
                    (case utf8_cont extra codepoint p of
                       None \<Rightarrow> None
                     | Some (codepoint, p) \<Rightarrow>
                         if extra = 2 \<and> codepoint < 0x0800 then None
                         else if extra = 3 \<and> codepoint < 0x10000 then None
                         else if codepoint \<ge> 0xD800 \<and> codepoint \<le> 0xDFFF then None
                         else if codepoint > 0x10FFFF then None
                         else Some (codepoint, p))))"

lemma utf8_cont_length: "utf8_cont n cp p = Some (cp', q) \<Longrightarrow> length p = length q + n"
  by (induction n cp p rule: utf8_cont.induct) (auto split: if_splits)

lemma utf8_decode_length: "utf8_decode_one bs = Some (cp, q) \<Longrightarrow> length q < length bs"
  by (auto simp: utf8_decode_one_def Let_def split: list.splits if_splits option.splits
      dest!: utf8_cont_length)

section \<open>Public functions\<close>

record op_utf8_error =
  byte_offset :: nat
  byte_value :: u8

text \<open>\<open>None\<close> is success; an error carries what is stored through \<^verbatim>\<open>err\<close>.\<close>

function utf8_validate_from :: "u8 list \<Rightarrow> nat \<Rightarrow> op_utf8_error option" where
  "utf8_validate_from p off =
     (if p = [] then None
      else case utf8_decode_one p of
        None \<Rightarrow> Some \<lparr>byte_offset = off, byte_value = hd p\<rparr>
      | Some (cp, q) \<Rightarrow> utf8_validate_from q (off + (length p - length q)))"
  by pat_completeness auto
termination
  by (relation "measure (\<lambda>(p, off). length p)") (auto dest: utf8_decode_length)

definition op_utf8_validate :: "u8 list \<Rightarrow> bool \<times> op_utf8_error option" where
  "op_utf8_validate buf = (case utf8_validate_from buf 0 of None \<Rightarrow> (True, None) | Some e \<Rightarrow> (False, Some e))"

definition op_utf8_valid :: "u8 list \<Rightarrow> bool" where
  "op_utf8_valid buf = fst (op_utf8_validate buf)"

definition op_utf8_next :: "u8 list \<Rightarrow> (u32 \<times> u8 list) option" where
  "op_utf8_next p = (if p = [] then None else utf8_decode_one p)"

text \<open>Walking back over continuation bytes; \<open>None\<close> would be a read past the buffer.\<close>

fun utf8_back :: "u8 list \<Rightarrow> nat \<Rightarrow> nat option" where
  "utf8_back buf 0 = Some 0"
| "utf8_back buf (Suc n) = do {
     b \<leftarrow> arr_get buf (Suc n);
     (if b AND 0xC0 = 0x80 then utf8_back buf n else Some (Suc n))
   }"

definition utf8_seq_len :: "u8 \<Rightarrow> nat" where
  "utf8_seq_len lead =
     (if lead < 0x80 then 1
      else if lead AND 0xE0 = 0xC0 then 2
      else if lead AND 0xF0 = 0xE0 then 3
      else if lead AND 0xF8 = 0xF0 then 4
      else 1)"

definition op_utf8_truncate :: "u8 list \<Rightarrow> nat \<Rightarrow> nat option" where
  "op_utf8_truncate buf max_bytes =
     (if length buf \<le> max_bytes then Some (length buf)
      else do {
        safe \<leftarrow> utf8_back buf max_bytes;
        (if safe = max_bytes then Some safe
         else do {
           lead \<leftarrow> arr_get buf safe;
           Some (if safe + utf8_seq_len lead \<le> max_bytes then safe + utf8_seq_len lead else safe)
         })
      })"

definition replacement :: "u8 list" where
  "replacement = [0xEF, 0xBF, 0xBD]"

text \<open>\<open>out\<close> is what has been written to \<^verbatim>\<open>dst\<close>; a piece that does not fit is dropped.\<close>

definition utf8_emit :: "nat \<Rightarrow> u8 list \<Rightarrow> u8 list \<Rightarrow> u8 list" where
  "utf8_emit dst_cap out piece = (if length out + length piece \<le> dst_cap then out @ piece else out)"

function utf8_sanitise_loop :: "nat \<Rightarrow> u8 list \<Rightarrow> u8 list \<Rightarrow> u8 list" where
  "utf8_sanitise_loop dst_cap p out =
     (if p = [] then out
      else case utf8_decode_one p of
        Some (cp, q) \<Rightarrow> utf8_sanitise_loop dst_cap q (utf8_emit dst_cap out (take (length p - length q) p))
      | None \<Rightarrow> utf8_sanitise_loop dst_cap (tl p) (utf8_emit dst_cap out replacement))"
  by pat_completeness auto
termination
  by (relation "measure (\<lambda>(dst_cap, p, out). length p)") (auto dest: utf8_decode_length)

definition op_utf8_sanitise :: "u8 list \<Rightarrow> nat \<Rightarrow> u8 list" where
  "op_utf8_sanitise src dst_cap = utf8_sanitise_loop dst_cap src []"

function utf8_strlen_loop :: "u8 list \<Rightarrow> nat \<Rightarrow> nat" where
  "utf8_strlen_loop p cnt =
     (if p = [] then cnt
      else case utf8_decode_one p of
        Some (cp, q) \<Rightarrow> utf8_strlen_loop q (cnt + 1)
      | None \<Rightarrow> utf8_strlen_loop (tl p) (cnt + 1))"
  by pat_completeness auto
termination
  by (relation "measure (\<lambda>(p, cnt). length p)") (auto dest: utf8_decode_length)

definition op_utf8_strlen :: "u8 list \<Rightarrow> nat" where
  "op_utf8_strlen buf = utf8_strlen_loop buf 0"

section \<open>The encoding of RFC 3629\<close>

definition is_scalar :: "nat \<Rightarrow> bool" where
  "is_scalar n \<longleftrightarrow> n \<le> 0x10FFFF \<and> \<not> (0xD800 \<le> n \<and> n \<le> 0xDFFF)"

definition utf8_encode :: "nat \<Rightarrow> u8 list" where
  "utf8_encode n =
     (if n < 0x80 then [of_nat n]
      else if n < 0x800 then [of_nat (0xC0 + n div 64), of_nat (0x80 + n mod 64)]
      else if n < 0x10000
        then [of_nat (0xE0 + n div 4096), of_nat (0x80 + n div 64 mod 64), of_nat (0x80 + n mod 64)]
      else [of_nat (0xF0 + n div 262144), of_nat (0x80 + n div 4096 mod 64),
            of_nat (0x80 + n div 64 mod 64), of_nat (0x80 + n mod 64)])"

definition utf8_text :: "u8 list \<Rightarrow> bool" where
  "utf8_text bs \<longleftrightarrow> (\<exists>cps. list_all is_scalar cps \<and> bs = concat (map utf8_encode cps))"

section \<open>Decoding is the inverse of encoding\<close>

lemma shift_or:
  assumes "b < 64"
  shows "a * 64 OR b = a * 64 + (b::nat)"
proof -
  have "a * 64 = push_bit 6 a" by (simp add: push_bit_nat_def)
  moreover have "\<not> bit (push_bit 6 a) n \<or> \<not> bit b n" for n
    using bit_below_pow2 [of b 6 n] assms by (auto simp: bit_push_bit_iff)
  ultimately show ?thesis using disjunctive_add [of "push_bit 6 a" b] by simp
qed

lemma cont_step:
  fixes cp :: u32 and c :: u8
  assumes "unat cp < 2 ^ 20" and "\<not> (c < 0x80 \<or> c > 0xBF)"
  shows "unat (push_bit 6 cp OR (ucast c AND 0x3F)) = unat cp * 64 + (unat c - 128)"
proof -
  have c: "128 \<le> unat c" "unat c \<le> 191" using assms(2) by (auto simp: word_less_nat_alt)
  have "unat (ucast c AND (0x3F :: u32)) = unat c AND 63"
    using c by (simp add: unsigned_and_eq unsigned_ucast_eq take_bit_nat_eq_self)
  also have "\<dots> = unat c - 128"
    using and_mask_nat [of "unat c" 6] c by (simp add: mod_if)
  finally have low: "unat (ucast c AND (0x3F :: u32)) = unat c - 128" .
  have "unat (push_bit 6 cp) = unat cp * 64"
    using assms(1) by (simp add: unsigned_push_bit_eq push_bit_nat_def take_bit_nat_eq_self)
  then show ?thesis using low shift_or [of "unat c - 128" "unat cp"] c by (simp add: unsigned_or_eq)
qed


definition is_cont :: "u8 \<Rightarrow> bool" where
  "is_cont c \<longleftrightarrow> \<not> (c < 0x80 \<or> c > 0xBF)"

lemma is_cont_unat: "is_cont c \<longleftrightarrow> 128 \<le> unat c \<and> unat c \<le> 191"
  by (auto simp: is_cont_def word_less_nat_alt)

lemma is_contE:
  assumes "is_cont c"
  obtains x where "unat c = 128 + x" "x \<le> 63"
proof -
  obtain x where "unat c = 128 + x" using assms le_Suc_ex unfolding is_cont_unat by blast
  then show thesis using that [of x] assms unfolding is_cont_unat by simp
qed

definition cont_value :: "nat \<Rightarrow> u8 list \<Rightarrow> nat" where
  "cont_value a cs = foldl (\<lambda>a c. a * 64 + (unat c - 128)) a cs"

lemma cont_value_simps [simp]:
  "cont_value a [] = a"
  "cont_value a (c # cs) = cont_value (a * 64 + (unat c - 128)) cs"
  by (simp_all add: cont_value_def)

lemma utf8_cont_Some:
  "utf8_cont n cp p = Some (cp', q) \<Longrightarrow> \<exists>cs. length cs = n \<and> p = cs @ q \<and> list_all is_cont cs"
proof (induction n cp p rule: utf8_cont.induct)
  case (3 n cp c p)
  then obtain cs where "length cs = n" "p = cs @ q" "list_all is_cont cs" by (auto split: if_splits)
  moreover have "is_cont c" using 3(2) by (auto simp: is_cont_def split: if_splits)
  ultimately show ?case by (intro exI [of _ "c # cs"]) simp
qed auto

lemma utf8_cont_value:
  "list_all is_cont cs \<Longrightarrow> (unat cp + 1) * 64 ^ length cs \<le> 2 ^ 26 \<Longrightarrow>
   \<exists>cp'. utf8_cont (length cs) cp (cs @ q) = Some (cp', q) \<and> unat cp' = cont_value (unat cp) cs"
proof (induction cs arbitrary: cp)
  case (Cons c cs)
  let ?cp = "push_bit 6 cp OR (ucast c AND 0x3F)"
  have c: "is_cont c" using Cons.prems(1) by simp
  have one: "(1::nat) \<le> 64 ^ length cs" by simp
  have "(unat cp + 1) * 64 \<le> (unat cp + 1) * 64 * 64 ^ length cs" using one by (metis mult.right_neutral mult_le_mono2)
  then have small: "unat cp < 2 ^ 20" using Cons.prems(2) by (simp add: algebra_simps)
  have v: "unat ?cp = unat cp * 64 + (unat c - 128)" using cont_step [OF small] c by (simp add: is_cont_def)
  obtain x where "unat c = 128 + x" "x \<le> 63" using c by (rule is_contE)
  then have "unat ?cp + 1 \<le> (unat cp + 1) * 64" using v by simp
  then have "(unat ?cp + 1) * 64 ^ length cs \<le> (unat cp + 1) * 64 * 64 ^ length cs" by (rule mult_le_mono1)
  moreover have "(unat cp + 1) * 64 * 64 ^ length cs \<le> 2 ^ 26" using Cons.prems(2) by (simp add: algebra_simps)
  ultimately have "(unat ?cp + 1) * 64 ^ length cs \<le> 2 ^ 26" by (rule order_trans)
  then obtain cp' where "utf8_cont (length cs) ?cp (cs @ q) = Some (cp', q)" "unat cp' = cont_value (unat ?cp) cs"
    using Cons.IH Cons.prems(1) by auto
  then show ?case using c v by (simp add: is_cont_def)
qed simp

lemma lead_bits:
  fixes b :: u8
  shows "unat (ucast b AND (0x1F :: u32)) = unat b mod 32" "unat (ucast b AND (0x0F :: u32)) = unat b mod 16"
    "unat (ucast b AND (0x07 :: u32)) = unat b mod 8"
proof -
  have "unat b < 2 ^ LENGTH(8)" by (rule unsigned_less)
  then have "unat b < 2 ^ 32" by simp
  then have "take_bit 32 (unat b) = unat b" by (simp add: take_bit_nat_eq_self)
  then show "unat (ucast b AND (0x1F :: u32)) = unat b mod 32" "unat (ucast b AND (0x0F :: u32)) = unat b mod 16"
    "unat (ucast b AND (0x07 :: u32)) = unat b mod 8"
    using and_mask_nat [of "unat b" 5] and_mask_nat [of "unat b" 4] and_mask_nat [of "unat b" 3]
    by (simp_all add: unsigned_and_eq unsigned_ucast_eq)
qed

text \<open>The shape of what the decoder accepts, read on byte values.\<close>

definition seq_value :: "u8 list \<Rightarrow> nat" where
  "seq_value s = (let b = unat (hd s) in
     if b < 0x80 then b
     else cont_value (if b < 0xE0 then b - 0xC0 else if b < 0xF0 then b - 0xE0 else b - 0xF0) (tl s))"

definition seq_ok :: "u8 list \<Rightarrow> bool" where
  "seq_ok s \<longleftrightarrow> s \<noteq> [] \<and> list_all is_cont (tl s) \<and>
     (let b = unat (hd s) in
      b < 0x80 \<and> length s = 1
      \<or> 0xC2 \<le> b \<and> b < 0xE0 \<and> length s = 2
      \<or> 0xE0 \<le> b \<and> b < 0xF0 \<and> length s = 3 \<and> 0x800 \<le> seq_value s \<and> is_scalar (seq_value s)
      \<or> 0xF0 \<le> b \<and> b \<le> 0xF4 \<and> length s = 4 \<and> 0x10000 \<le> seq_value s \<and> is_scalar (seq_value s))"

lemma list_shapes:
  "length s = Suc 0 \<longleftrightarrow> (\<exists>b. s = [b])"
  "length s = 2 \<longleftrightarrow> (\<exists>b c. s = [b, c])"
  "length s = 3 \<longleftrightarrow> (\<exists>b c d. s = [b, c, d])"
  "length s = 4 \<longleftrightarrow> (\<exists>b c d e. s = [b, c, d, e])"
  by (auto simp: eval_nat_numeral length_Suc_conv)

lemma digit64: "z \<le> 63 \<Longrightarrow> (a * 64 + z) div 64 = a" "z \<le> 63 \<Longrightarrow> (a * 64 + z) mod 64 = (z::nat)"
  by simp_all

lemma div64: "n div 4096 = n div 64 div 64" "n div 262144 = n div 64 div 64 div (64::nat)"
  by (simp_all add: div_mult2_eq [symmetric])

lemma seq_ok_encode:
  assumes "seq_ok s"
  shows "is_scalar (seq_value s)" and "utf8_encode (seq_value s) = s"
proof -
  obtain b cs where s: "s = b # cs" using assms by (cases s) (auto simp: seq_ok_def)
  have ub: "numeral m + of_nat k = b'" if "unat b' = numeral m + k" for k m and b' :: u8
  proof -
    have "of_nat (unat b') = b'" by simp
    then show ?thesis unfolding that by simp
  qed
  consider "unat b < 0x80" "cs = []"
    | c where "0xC2 \<le> unat b" "unat b < 0xE0" "cs = [c]" "is_cont c"
    | c d where "0xE0 \<le> unat b" "unat b < 0xF0" "cs = [c, d]" "is_cont c" "is_cont d"
        "0x800 \<le> seq_value s" "is_scalar (seq_value s)"
    | c d e where "0xF0 \<le> unat b" "unat b \<le> 0xF4" "cs = [c, d, e]" "is_cont c" "is_cont d" "is_cont e"
        "0x10000 \<le> seq_value s" "is_scalar (seq_value s)"
    using assms s by (auto simp: seq_ok_def Let_def list_shapes)
  then have "is_scalar (seq_value s) \<and> utf8_encode (seq_value s) = s"
  proof cases
    case 1
    then show ?thesis by (simp add: s seq_value_def utf8_encode_def is_scalar_def)
  next
    case (2 c)
    obtain x where x: "unat c = 128 + x" "x \<le> 63" using 2(4) by (rule is_contE)
    obtain y where y: "unat b = 192 + y" using le_Suc_ex [of 192 "unat b"] 2(1) by auto
    have v: "seq_value s = y * 64 + x" using x y 2 by (simp add: s seq_value_def)
    show ?thesis unfolding v using x y 2 by (simp add: s utf8_encode_def is_scalar_def ub)
  next
    case (3 c d)
    obtain x where x: "unat c = 128 + x" "x \<le> 63" using 3(4) by (rule is_contE)
    obtain w where w: "unat d = 128 + w" "w \<le> 63" using 3(5) by (rule is_contE)
    obtain y where y: "unat b = 224 + y" using le_Suc_ex [of 224 "unat b"] 3(1) by auto
    have v: "seq_value s = (y * 64 + x) * 64 + w" using x y w 3(1-3) by (simp add: s seq_value_def)
    have "seq_value s div 64 = y * 64 + x" "seq_value s mod 64 = w" "(y * 64 + x) div 64 = y" "(y * 64 + x) mod 64 = x"
      unfolding v by (simp_all only: digit64 [OF x(2)] digit64 [OF w(2)])
    moreover have "seq_value s < 65536" using x(2) w(2) y 3(2) unfolding v by simp
    ultimately show ?thesis using 3(3,6,7) x y w by (simp add: s utf8_encode_def ub div64)
  next
    case (4 c d e)
    obtain x where x: "unat c = 128 + x" "x \<le> 63" using 4(4) by (rule is_contE)
    obtain w where w: "unat d = 128 + w" "w \<le> 63" using 4(5) by (rule is_contE)
    obtain u where u: "unat e = 128 + u" "u \<le> 63" using 4(6) by (rule is_contE)
    obtain y where y: "unat b = 240 + y" using le_Suc_ex [of 240 "unat b"] 4(1) by auto
    have v: "seq_value s = ((y * 64 + x) * 64 + w) * 64 + u" using x y w u 4(1-3) by (simp add: s seq_value_def)
    define m where "m = (y * 64 + x) * 64 + w"
    have "seq_value s div 64 = m" "seq_value s mod 64 = u"
      unfolding v m_def by (simp_all only: digit64 [OF u(2)])
    moreover have "m div 64 = y * 64 + x" "m mod 64 = w" "(y * 64 + x) div 64 = y" "(y * 64 + x) mod 64 = x"
      unfolding m_def by (simp_all only: digit64 [OF x(2)] digit64 [OF w(2)])
    ultimately show ?thesis using 4(3,7,8) x y w u by (simp add: s utf8_encode_def ub div64)
  qed
  then show "is_scalar (seq_value s)" "utf8_encode (seq_value s) = s" by blast+
qed


lemma encode_seq_ok:
  assumes "is_scalar n"
  shows "seq_ok (utf8_encode n)" and "seq_value (utf8_encode n) = n"
proof -
  have u: "unat (of_nat k :: u8) = k" if "k < 256" for k using that by (simp add: unat_of_nat take_bit_nat_eq_self)
  have c: "is_cont (of_nat (128 + k))" if "k < 64" for k
    using that u [of "128 + k"] unfolding is_cont_unat by simp
  have n: "n = n div 64 * 64 + n mod 64" "n div 64 = n div 64 div 64 * 64 + n div 64 mod 64"
      "n div 64 div 64 = n div 64 div 64 div 64 * 64 + n div 64 div 64 mod 64" by simp_all
  have le: "n \<le> 1114111" using assms by (simp add: is_scalar_def)
  consider "n < 128" | "128 \<le> n" "n < 2048" | "2048 \<le> n" "n < 65536" | "65536 \<le> n" by linarith
  then have "seq_ok (utf8_encode n) \<and> seq_value (utf8_encode n) = n"
  proof cases
    case 1
    then show ?thesis by (simp add: utf8_encode_def seq_ok_def seq_value_def u)
  next
    case 2
    define a where "a = n div 64"
    have a: "2 \<le> a" "a < 32" using 2 by (auto simp: a_def)
    have e: "utf8_encode n = [of_nat (192 + a), of_nat (128 + n mod 64)]" using 2 by (simp add: utf8_encode_def a_def)
    have "unat (of_nat (192 + a) :: u8) = 192 + a" "unat (of_nat (128 + n mod 64) :: u8) = 128 + n mod 64"
      using a by (intro u; simp)+
    then show ?thesis using a n(1) c [of "n mod 64"] unfolding e by (simp add: seq_ok_def seq_value_def a_def [symmetric] del: of_nat_add)
  next
    case 3
    define a where "a = n div 64"
    define b where "b = a div 64"
    have a: "b < 16" "a = b * 64 + a mod 64" using 3 by (auto simp: a_def b_def)
    have e: "utf8_encode n = [of_nat (224 + b), of_nat (128 + a mod 64), of_nat (128 + n mod 64)]"
      using 3 by (simp add: utf8_encode_def a_def b_def div64)
    have v: "unat (of_nat (224 + b) :: u8) = 224 + b" "unat (of_nat (128 + a mod 64) :: u8) = 128 + a mod 64"
        "unat (of_nat (128 + n mod 64) :: u8) = 128 + n mod 64"
      using a by (intro u; simp)+
    have "(b * 64 + a mod 64) * 64 + n mod 64 = n" using a(2) n(1) unfolding a_def by simp
    then show ?thesis using a c [of "n mod 64"] c [of "a mod 64"] v assms 3 unfolding e
      by (simp add: seq_ok_def seq_value_def del: of_nat_add)
  next
    case 4
    define a where "a = n div 64"
    define b where "b = a div 64"
    define d where "d = b div 64"
    have a: "d \<le> 4" "b = d * 64 + b mod 64" "a = b * 64 + a mod 64" using le by (auto simp: a_def b_def d_def)
    have e: "utf8_encode n = [of_nat (240 + d), of_nat (128 + b mod 64), of_nat (128 + a mod 64), of_nat (128 + n mod 64)]"
      using 4 by (simp add: utf8_encode_def a_def b_def d_def div64)
    have v: "unat (of_nat (240 + d) :: u8) = 240 + d" "unat (of_nat (128 + b mod 64) :: u8) = 128 + b mod 64"
        "unat (of_nat (128 + a mod 64) :: u8) = 128 + a mod 64" "unat (of_nat (128 + n mod 64) :: u8) = 128 + n mod 64"
      using a by (intro u; simp)+
    have "((d * 64 + b mod 64) * 64 + a mod 64) * 64 + n mod 64 = n" using a(2,3) n(1) unfolding a_def by simp
    then show ?thesis using a c [of "n mod 64"] c [of "a mod 64"] c [of "b mod 64"] v assms 4 unfolding e
      by (simp add: seq_ok_def seq_value_def del: of_nat_add)
  qed
  then show "seq_ok (utf8_encode n)" "seq_value (utf8_encode n) = n" by blast+
qed


lemma mod_offset: "k \<le> a \<Longrightarrow> a < k + m \<Longrightarrow> k mod m = 0 \<Longrightarrow> a mod m = a - (k::nat)"
proof -
  assume a: "k \<le> a" "a < k + m" "k mod m = 0"
  have "a mod m = (k + (a - k)) mod m" using a(1) by simp
  also have "\<dots> = (a - k) mod m" using a(3) by (metis add.left_neutral mod_add_left_eq)
  also have "\<dots> = a - k" using a(1,2) by simp
  finally show ?thesis .
qed

text \<open>A lead byte followed by its continuation bytes.\<close>

lemma decode_lead:
  assumes "0xC2 \<le> unat b" and "unat b \<le> 0xF4" and cs: "list_all is_cont cs"
    and len: "length cs = (if unat b < 0xE0 then 1 else if unat b < 0xF0 then 2 else 3)"
  shows "\<exists>cp. unat cp = seq_value (b # cs) \<and> utf8_decode_one (b # cs @ q) =
     (if length cs = 2 \<and> cp < 0x0800 \<or> length cs = 3 \<and> cp < 0x10000 \<or> cp \<ge> 0xD800 \<and> cp \<le> 0xDFFF
         \<or> cp > 0x10FFFF then None else Some (cp, q))"
proof -
  define cp0 :: u32 where "cp0 = (if unat b < 0xE0 then ucast b AND 0x1F else if unat b < 0xF0 then ucast b AND 0x0F else ucast b AND 0x07)"
  have v0: "unat cp0 = (if unat b < 0xE0 then unat b - 0xC0 else if unat b < 0xF0 then unat b - 0xE0 else unat b - 0xF0)"
    using assms(1,2) mod_offset [of 192 "unat b" 32] mod_offset [of 224 "unat b" 16] mod_offset [of 240 "unat b" 8]
    by (simp add: cp0_def lead_bits)
  have "(unat cp0 + 1) * 64 ^ length cs \<le> 2 ^ 26"
    using assms(1,2) len unfolding v0 by (auto split: if_splits)
  then obtain cp where cp: "utf8_cont (length cs) cp0 (cs @ q) = Some (cp, q)" "unat cp = cont_value (unat cp0) cs"
    using utf8_cont_value [OF cs] by blast
  have "unat cp = seq_value (b # cs)" using cp(2) assms(1) v0 by (simp add: seq_value_def)
  moreover have b: "\<not> b < 0x80" "\<not> b < 0xC2" "b < 0xE0 \<longleftrightarrow> unat b < 0xE0" "b < 0xF0 \<longleftrightarrow> unat b < 0xF0" "b \<le> 0xF4"
    using assms(1,2) by (auto simp: word_less_nat_alt word_le_nat_alt)
  have "utf8_decode_one (b # cs @ q) =
     (if length cs = 2 \<and> cp < 0x0800 \<or> length cs = 3 \<and> cp < 0x10000 \<or> cp \<ge> 0xD800 \<and> cp \<le> 0xDFFF
         \<or> cp > 0x10FFFF then None else Some (cp, q))"
    using cp(1) b len by (auto simp: utf8_decode_one_def cp0_def)
  ultimately show ?thesis by blast
qed

lemma decode_seq:
  assumes "seq_ok s"
  shows "utf8_decode_one (s @ q) = Some (of_nat (seq_value s), q)"
proof -
  obtain b cs where s: "s = b # cs" using assms by (cases s) (auto simp: seq_ok_def)
  show ?thesis
  proof (cases "unat b < 0x80")
    case True
    then have "cs = []" "b < 0x80" using assms s by (auto simp: seq_ok_def word_less_nat_alt)
    moreover have "ucast b = (of_nat (unat b) :: u32)" by simp
    ultimately show ?thesis using True s by (simp add: utf8_decode_one_def seq_value_def)
  next
    case False
    have a: "0xC2 \<le> unat b" "unat b \<le> 0xF4" "list_all is_cont cs"
        "length cs = (if unat b < 0xE0 then 1 else if unat b < 0xF0 then 2 else 3)"
      using assms False s by (auto simp: seq_ok_def Let_def)
    obtain cp where cp: "unat cp = seq_value s" "utf8_decode_one (b # cs @ q) =
       (if length cs = 2 \<and> cp < 0x0800 \<or> length cs = 3 \<and> cp < 0x10000 \<or> cp \<ge> 0xD800 \<and> cp \<le> 0xDFFF
         \<or> cp > 0x10FFFF then None else Some (cp, q))"
      using decode_lead [OF a] unfolding s by blast
    have "is_scalar (unat cp)" using seq_ok_encode(1) [OF assms] cp(1) by simp
    moreover have "length cs = 2 \<longrightarrow> 0x800 \<le> unat cp" "length cs = 3 \<longrightarrow> 0x10000 \<le> unat cp"
      using assms False cp(1) s by (auto simp: seq_ok_def Let_def)
    ultimately have "utf8_decode_one (b # cs @ q) = Some (cp, q)"
      unfolding cp(2) by (auto simp: is_scalar_def word_less_nat_alt word_le_nat_alt)
    moreover have "cp = of_nat (seq_value s)" using cp(1) [symmetric] by simp
    ultimately show ?thesis by (simp add: s)
  qed
qed

lemma decode_SomeE:
  assumes "utf8_decode_one bs = Some (cp, q)"
  obtains s where "seq_ok s" "bs = s @ q" "unat cp = seq_value s"
proof -
  obtain b p where bs: "bs = b # p" using assms by (cases bs) (auto simp: utf8_decode_one_def)
  show thesis
  proof (cases "b < 0x80")
    case True
    then have "cp = ucast b" "q = p" using assms bs by (auto simp: utf8_decode_one_def)
    moreover have "unat b < 0x80" using True by (simp add: word_less_nat_alt)
    moreover have "unat (ucast b :: u32) = unat b"
      using \<open>unat b < 0x80\<close> by (simp add: unsigned_ucast_eq take_bit_nat_eq_self)
    ultimately show thesis using that [of "[b]"] bs by (simp add: seq_ok_def seq_value_def)
  next
    case False
    then have b: "0xC2 \<le> unat b" "unat b \<le> 0xF4"
      using assms bs by (auto simp: utf8_decode_one_def word_less_nat_alt word_le_nat_alt split: if_splits option.splits)
    define k where "k = (if unat b < 0xE0 then 1 else if unat b < 0xF0 then 2 else 3 :: nat)"
    have "\<exists>cp0 r. utf8_cont k cp0 p = Some r"
      using assms bs False b by (auto simp: utf8_decode_one_def k_def Let_def word_less_nat_alt word_le_nat_alt
          split: if_splits option.splits)
    then obtain cs r where cs: "length cs = k" "p = cs @ r" "list_all is_cont cs"
      using utf8_cont_Some by (metis surj_pair)
    obtain c where c: "unat c = seq_value (b # cs)" "utf8_decode_one (b # cs @ r) =
       (if length cs = 2 \<and> c < 0x0800 \<or> length cs = 3 \<and> c < 0x10000 \<or> c \<ge> 0xD800 \<and> c \<le> 0xDFFF
         \<or> c > 0x10FFFF then None else Some (c, r))"
      using decode_lead [OF b cs(3), of r] cs(1) unfolding k_def by blast
    have "cp = c" "q = r" and g: "\<not> (length cs = 2 \<and> c < 0x0800 \<or> length cs = 3 \<and> c < 0x10000 \<or> c \<ge> 0xD800 \<and> c \<le> 0xDFFF
         \<or> c > 0x10FFFF)"
      using c(2) assms unfolding bs cs(2) by (auto split: if_splits)
    moreover have "seq_ok (b # cs)"
      using g b cs(1,3) c(1) [symmetric]
      by (auto simp: seq_ok_def k_def is_scalar_def word_less_nat_alt word_le_nat_alt split: if_splits)
    ultimately show thesis using that [of "b # cs"] c(1) bs cs(2) by simp
  qed
qed


lemma decode_iff:
  "utf8_decode_one bs = Some (cp, q) \<longleftrightarrow> is_scalar (unat cp) \<and> bs = utf8_encode (unat cp) @ q"
proof
  assume "utf8_decode_one bs = Some (cp, q)"
  then obtain s where s: "seq_ok s" "bs = s @ q" "unat cp = seq_value s" by (rule decode_SomeE)
  then show "is_scalar (unat cp) \<and> bs = utf8_encode (unat cp) @ q"
    using seq_ok_encode [OF s(1)] by simp
next
  assume a: "is_scalar (unat cp) \<and> bs = utf8_encode (unat cp) @ q"
  then show "utf8_decode_one bs = Some (cp, q)"
    using decode_seq [of "utf8_encode (unat cp)" q] encode_seq_ok [of "unat cp"] by simp
qed

section \<open>Texts\<close>

lemma utf8_text_Nil [simp]: "utf8_text []"
  unfolding utf8_text_def by (intro exI [of _ "[]"]) simp

lemma utf8_text_append: "utf8_text a \<Longrightarrow> utf8_text b \<Longrightarrow> utf8_text (a @ b)"
proof -
  assume "utf8_text a" "utf8_text b"
  then obtain xs ys where "list_all is_scalar xs" "a = concat (map utf8_encode xs)"
      "list_all is_scalar ys" "b = concat (map utf8_encode ys)" by (auto simp: utf8_text_def)
  then show "utf8_text (a @ b)" unfolding utf8_text_def by (intro exI [of _ "xs @ ys"]) simp
qed

lemma seq_ok_text: "seq_ok s \<Longrightarrow> utf8_text s"
  using seq_ok_encode [of s] unfolding utf8_text_def by (intro exI [of _ "[seq_value s]"]) simp

lemma utf8_textE:
  assumes "utf8_text bs" and "bs \<noteq> []"
  obtains s q where "seq_ok s" "bs = s @ q" "utf8_text q"
proof -
  obtain cps where c: "list_all is_scalar cps" "bs = concat (map utf8_encode cps)"
    using assms(1) by (auto simp: utf8_text_def)
  obtain n ns where "cps = n # ns" using c(2) assms(2) by (cases cps) auto
  moreover have "utf8_text (concat (map utf8_encode ns))"
    using c(1) \<open>cps = n # ns\<close> unfolding utf8_text_def by auto
  ultimately show thesis
    using that [of "utf8_encode n" "concat (map utf8_encode ns)"] c encode_seq_ok(1) [of n] by simp
qed

lemma seq_ok_neq [simp]: "seq_ok s \<Longrightarrow> s \<noteq> []"
  by (auto simp: seq_ok_def)

lemma utf8_text_seq:
  assumes "seq_ok s"
  shows "utf8_text (s @ q) \<longleftrightarrow> utf8_text q"
proof
  assume sq: "utf8_text (s @ q)"
  have "s @ q \<noteq> []" using seq_ok_neq [OF assms] by simp
  with sq obtain s' q' where s': "seq_ok s'" "s @ q = s' @ q'" "utf8_text q'" by (rule utf8_textE)
  have "utf8_decode_one (s @ q) = Some (of_nat (seq_value s), q)" using assms by (rule decode_seq)
  moreover have "utf8_decode_one (s @ q) = Some (of_nat (seq_value s'), q')"
    unfolding s'(2) using s'(1) by (rule decode_seq)
  ultimately show "utf8_text q" using s'(3) by simp
next
  assume "utf8_text q"
  then show "utf8_text (s @ q)" using utf8_text_append seq_ok_text [OF assms] by blast
qed

lemma utf8_text_decode: "utf8_decode_one bs = None \<Longrightarrow> bs \<noteq> [] \<Longrightarrow> \<not> utf8_text bs"
  using utf8_textE [of bs] decode_seq by (metis option.distinct(1))

text \<open>Induction over the sequences of a text.\<close>

lemma utf8_text_induct [consumes 1, case_names Nil Seq]:
  assumes "utf8_text bs" and "P []"
    and "\<And>s q. seq_ok s \<Longrightarrow> utf8_text q \<Longrightarrow> P q \<Longrightarrow> P (s @ q)"
  shows "P bs"
  using assms(1)
proof (induction bs rule: measure_induct_rule [of length])
  case (less bs)
  show ?case
  proof (cases "bs = []")
    case False
    obtain s q where s: "seq_ok s" "bs = s @ q" "utf8_text q" using less.prems False by (rule utf8_textE)
    then have "length q < length bs" by simp
    then show ?thesis using less.IH s assms(3) by blast
  qed (use assms(2) in simp)
qed

declare utf8_validate_from.simps [simp del] utf8_sanitise_loop.simps [simp del] utf8_strlen_loop.simps [simp del]

lemma validate_text: "utf8_text bs \<Longrightarrow> utf8_validate_from bs off = None"
proof (induction bs arbitrary: off rule: utf8_text_induct)
  case Nil
  then show ?case by (simp add: utf8_validate_from.simps)
next
  case (Seq s q)
  then show ?case by (subst utf8_validate_from.simps) (simp add: decode_seq)
qed

lemma validate_error:
  "utf8_validate_from p off = Some e \<Longrightarrow> \<exists>pre rest. p = pre @ rest \<and> utf8_text pre \<and> rest \<noteq> []
     \<and> utf8_decode_one rest = None \<and> e = \<lparr>byte_offset = off + length pre, byte_value = hd rest\<rparr>"
proof (induction p off rule: utf8_validate_from.induct)
  case (1 p off)
  have ne: "p \<noteq> []" using 1(2) by (auto simp: utf8_validate_from.simps)
  show ?case
  proof (cases "utf8_decode_one p")
    case None
    then show ?thesis using 1(2) ne
      by (intro exI [of _ "[]"] exI [of _ p]) (simp add: utf8_validate_from.simps)
  next
    case (Some r)
    obtain cp q where r: "r = (cp, q)" by fastforce
    obtain s where s: "seq_ok s" "p = s @ q" using Some r by (auto elim: decode_SomeE)
    have "utf8_validate_from q (off + length s) = Some e"
      using 1(2) ne Some r s by (subst (asm) utf8_validate_from.simps) simp
    then obtain pre rest where "q = pre @ rest" "utf8_text pre" "rest \<noteq> []" "utf8_decode_one rest = None"
        "e = \<lparr>byte_offset = off + length s + length pre, byte_value = hd rest\<rparr>"
      using 1(1) [OF ne Some r [symmetric]] s by (auto simp: add.assoc)
    then show ?thesis using s utf8_text_seq [OF s(1)]
      by (intro exI [of _ "s @ pre"] exI [of _ rest]) simp
  qed
qed

lemma validate_None: "utf8_validate_from p off = None \<Longrightarrow> utf8_text p"
proof (induction p off rule: utf8_validate_from.induct)
  case (1 p off)
  show ?case
  proof (cases "p = []")
    case ne: False
    then obtain cp q where d: "utf8_decode_one p = Some (cp, q)"
      using 1(2) by (cases "utf8_decode_one p") (auto simp: utf8_validate_from.simps)
    then obtain s where s: "seq_ok s" "p = s @ q" by (rule decode_SomeE)
    have "utf8_validate_from q (off + (length p - length q)) = None"
      using 1(2) ne d by (subst (asm) utf8_validate_from.simps) simp
    then have "utf8_text q" using 1(1) [OF ne d refl] by simp
    then show ?thesis using s utf8_text_seq [OF s(1)] by simp
  qed simp
qed

lemma text_split:
  assumes "utf8_text pre" shows "utf8_text (pre @ rest) \<longleftrightarrow> utf8_text rest"
  using assms by (induction pre rule: utf8_text_induct) (simp_all add: utf8_text_seq)


section \<open>Boundaries and truncation\<close>

lemma and_high_bits:
  fixes b :: nat
  assumes "b < 2 ^ (n + k)"
  shows "b AND (2 ^ n * (2 ^ k - 1)) = 2 ^ n * (b div 2 ^ n)"
proof -
  have "b AND push_bit n (2 ^ k - 1) = push_bit n (drop_bit n b AND (2 ^ k - 1))"
    by (rule bit_eqI) (auto simp: bit_simps)
  also have "drop_bit n b AND (2 ^ k - 1) = b div 2 ^ n mod 2 ^ k"
    by (simp only: and_mask_nat drop_bit_nat_def)
  also have "\<dots> = b div 2 ^ n"
    using assms by (intro mod_less) (simp add: power_add less_mult_imp_div_less mult.commute)
  finally show ?thesis by (simp only: push_bit_nat_def mult.commute)
qed

lemma u8_and_eq:
  fixes b m r :: u8
  assumes "unat m = 2 ^ n * (2 ^ k - 1)" and "n + k = 8" and "unat r = 2 ^ n * c"
  shows "b AND m = r \<longleftrightarrow> unat b div 2 ^ n = c"
proof -
  have "unat b < 2 ^ LENGTH(8)" by (rule unsigned_less)
  then have "unat (b AND m) = 2 ^ n * (unat b div 2 ^ n)"
    using and_high_bits [of "unat b" n k] assms(1,2) by (simp only: unsigned_and_eq) simp
  then show ?thesis using assms(3) by (auto simp: unat_eq_nat_uint [symmetric] word_unat_eq_iff)
qed

lemma and_C0_cont: "b AND 0xC0 = 0x80 \<longleftrightarrow> is_cont b"
  using u8_and_eq [of "0xC0" 6 2 "0x80" 2 b] by (auto simp: is_cont_unat)

lemma div_range: "0 < d \<Longrightarrow> n div d = c \<longleftrightarrow> c * d \<le> n \<and> n < Suc c * (d::nat)"
proof -
  assume d: "0 < d"
  have "n div d = c \<longleftrightarrow> c \<le> n div d \<and> n div d < Suc c" by auto
  then show ?thesis using d by (simp only: less_eq_div_iff_mult_less_eq div_less_iff_less_mult)
qed

lemma seq_len_lead:
  "utf8_seq_len b = (if unat b < 0xC0 then 1 else if unat b < 0xE0 then 2
     else if unat b < 0xF0 then 3 else if unat b < 0xF8 then 4 else 1)"
proof -
  have r: "n div 32 = 6 \<longleftrightarrow> 192 \<le> n \<and> n < 224" "n div 16 = 14 \<longleftrightarrow> 224 \<le> n \<and> n < 240"
      "n div 8 = 30 \<longleftrightarrow> 240 \<le> n \<and> n < 248" for n :: nat
    using div_range [of 32 n 6] div_range [of 16 n 14] div_range [of 8 n 30] by simp_all
  have "b AND 0xE0 = 0xC0 \<longleftrightarrow> unat b div 32 = 6" "b AND 0xF0 = 0xE0 \<longleftrightarrow> unat b div 16 = 14"
      "b AND 0xF8 = 0xF0 \<longleftrightarrow> unat b div 8 = 30"
    using u8_and_eq [of "0xE0" 5 3 "0xC0" 6 b] u8_and_eq [of "0xF0" 4 4 "0xE0" 14 b]
      u8_and_eq [of "0xF8" 3 5 "0xF0" 30 b] by simp_all
  moreover have "b < 0x80 \<longleftrightarrow> unat b < 128" by (simp add: word_less_nat_alt)
  ultimately show ?thesis unfolding utf8_seq_len_def r by simp
qed

lemma seq_ok_head:
  assumes "seq_ok s"
  shows "\<not> is_cont (hd s)" and "length s = utf8_seq_len (hd s)" and "list_all is_cont (tl s)"
proof -
  let ?b = "unat (hd s)"
  have "?b < 0x80 \<and> length s = 1 \<or> 0xC2 \<le> ?b \<and> ?b < 0xE0 \<and> length s = 2
      \<or> 0xE0 \<le> ?b \<and> ?b < 0xF0 \<and> length s = 3 \<or> 0xF0 \<le> ?b \<and> ?b \<le> 0xF4 \<and> length s = 4"
    using assms unfolding seq_ok_def Let_def by blast
  then show "\<not> is_cont (hd s)" "length s = utf8_seq_len (hd s)"
    by (elim disjE conjE; simp add: is_cont_unat seq_len_lead)+
  show "list_all is_cont (tl s)" using assms unfolding seq_ok_def by blast
qed

lemma text_head: "utf8_text bs \<Longrightarrow> bs \<noteq> [] \<Longrightarrow> \<not> is_cont (hd bs)"
  using utf8_textE [of bs] seq_ok_head(1) seq_ok_neq by (metis hd_append2)

lemma seq_prefix_not_text:
  assumes "seq_ok s" and "0 < i" "i < length s"
  shows "\<not> utf8_text (take i s)"
proof
  assume "utf8_text (take i s)"
  moreover have "take i s \<noteq> []" using assms by auto
  ultimately obtain r q where r: "seq_ok r" "take i s = r @ q" by (metis utf8_textE)
  have "hd r = hd s" using r assms(2) seq_ok_neq [OF r(1)] by (metis hd_append2 hd_take)
  then have "length r = length s" using seq_ok_head(2) r(1) assms(1) by metis
  moreover have "length r \<le> i" using r(2) by (metis length_append length_take le_add1 min.bounded_iff)
  ultimately show False using assms(3) by simp
qed

lemma text_boundary:
  "utf8_text bs \<Longrightarrow> i \<le> length bs \<Longrightarrow> utf8_text (take i bs) \<longleftrightarrow> i = length bs \<or> \<not> is_cont (bs ! i)"
proof (induction bs arbitrary: i rule: utf8_text_induct)
  case (Seq s q)
  consider "i = 0" | "0 < i" "i < length s" | "length s \<le> i" by linarith
  then show ?case
  proof cases
    case 1
    then show ?thesis using seq_ok_head(1) [OF Seq(1)] seq_ok_neq [OF Seq(1)] by (simp add: nth_append hd_conv_nth)
  next
    case 2
    have "s ! i \<in> set (tl s)" using 2 by (cases s) (auto simp: nth_Cons')
    then have "is_cont (s ! i)" using seq_ok_head(3) [OF Seq(1)] by (auto simp: list_all_iff)
    then show ?thesis using 2 seq_prefix_not_text [OF Seq(1) 2] by (simp add: nth_append)
  next
    case 3
    then show ?thesis using Seq.IH [of "i - length s"] Seq.prems utf8_text_seq [OF Seq(1)]
      by (auto simp: nth_append)
  qed
qed simp

lemma utf8_back_spec:
  "m < length buf \<Longrightarrow> \<exists>r \<le> m. utf8_back buf m = Some r \<and> (r = 0 \<or> \<not> is_cont (buf ! r))
     \<and> (\<forall>j. r < j \<and> j \<le> m \<longrightarrow> is_cont (buf ! j))"
proof (induction m)
  case (Suc m)
  show ?case
  proof (cases "is_cont (buf ! Suc m)")
    case True
    obtain r where "r \<le> m" "utf8_back buf m = Some r" "r = 0 \<or> \<not> is_cont (buf ! r)"
        "\<forall>j. r < j \<and> j \<le> m \<longrightarrow> is_cont (buf ! j)"
      using Suc by auto
    then show ?thesis using True Suc.prems by (intro exI [of _ r]) (auto simp: and_C0_cont le_Suc_eq)
  next
    case False
    then show ?thesis using Suc.prems by (auto simp: and_C0_cont)
  qed
qed simp

lemma truncate_spec:
  assumes tx: "utf8_text buf"
  shows "\<exists>r. op_utf8_truncate buf m = Some r \<and> r \<le> m \<and> r \<le> length buf \<and> utf8_text (take r buf)
     \<and> (\<forall>k. k \<le> m \<and> k \<le> length buf \<and> utf8_text (take k buf) \<longrightarrow> k \<le> r)"
proof (cases "length buf \<le> m")
  case True
  then show ?thesis using tx by (simp add: op_utf8_truncate_def)
next
  case False
  then have m: "m < length buf" by simp
  obtain r where r: "r \<le> m" "utf8_back buf m = Some r" "r = 0 \<or> \<not> is_cont (buf ! r)"
      "\<forall>j. r < j \<and> j \<le> m \<longrightarrow> is_cont (buf ! j)"
    using utf8_back_spec [OF m] by auto
  have "buf \<noteq> []" using m by auto
  then have "\<not> is_cont (buf ! 0)" using text_head [OF tx] by (simp add: hd_conv_nth)
  then have nc: "\<not> is_cont (buf ! r)" using r(3) by auto
  then have tr: "utf8_text (take r buf)" using text_boundary [OF tx, of r] r(1) m by simp
  have best: "\<forall>k. k \<le> m \<and> k \<le> length buf \<and> utf8_text (take k buf) \<longrightarrow> k \<le> r"
    using text_boundary [OF tx] m r(4) by (metis le_less_trans less_irrefl not_le)
  have "op_utf8_truncate buf m = Some r"
  proof (cases "r = m")
    case True
    then show ?thesis using r(2) m by (simp add: op_utf8_truncate_def)
  next
    case rm: False
    have "utf8_text (drop r buf)" using text_split [OF tr, of "drop r buf"] tx by simp
    moreover have "drop r buf \<noteq> []" using r(1) m by simp
    ultimately obtain s q where s: "seq_ok s" "drop r buf = s @ q" "utf8_text q" by (rule utf8_textE)
    have hd: "hd s = buf ! r" using s(2) seq_ok_neq [OF s(1)] r(1) m by (metis hd_append2 hd_drop_conv_nth le_less_trans)
    have "\<not> r + utf8_seq_len (buf ! r) \<le> m"
    proof
      assume le: "r + utf8_seq_len (buf ! r) \<le> m"
      let ?j = "r + length s"
      have lt: "r < ?j" using seq_ok_neq [OF s(1)] by simp
      have "?j \<le> m" using le hd seq_ok_head(2) [OF s(1)] by simp
      note j = this lt
      then have "length (drop r buf) > length s" using m by simp
      then have "q \<noteq> []" using s(2) by auto
      moreover have "hd q = buf ! ?j"
        using \<open>q \<noteq> []\<close> s(2) j m by (metis hd_drop_conv_nth append_eq_conv_conj drop_drop add.commute le_less_trans)
      ultimately show False using text_head [OF s(3)] r(4) j by metis
    qed
    then show ?thesis using r(1,2) rm m by (simp add: op_utf8_truncate_def)
  qed
  then show ?thesis using r(1) m tr best by auto
qed

section \<open>Sanitising and counting\<close>

lemma replacement_seq: "seq_ok replacement"
  by (simp add: replacement_def seq_ok_def seq_value_def is_cont_unat is_scalar_def)

text \<open>The pieces sanitising emits: one valid sequence, or the replacement for one byte.\<close>

function utf8_pieces :: "u8 list \<Rightarrow> u8 list list" where
  "utf8_pieces p =
     (if p = [] then []
      else case utf8_decode_one p of
        Some (cp, q) \<Rightarrow> take (length p - length q) p # utf8_pieces q
      | None \<Rightarrow> replacement # utf8_pieces (tl p))"
  by pat_completeness auto
termination
  by (relation "measure length") (auto dest: utf8_decode_length)

declare utf8_pieces.simps [simp del]

lemma utf8_pieces_seq:
  assumes "seq_ok s"
  shows "utf8_pieces (s @ q) = s # utf8_pieces q"
  using seq_ok_neq [OF assms] decode_seq [OF assms, of q] by (subst utf8_pieces.simps) simp

lemma pieces_ok: "list_all seq_ok (utf8_pieces p) \<and> length (concat (utf8_pieces p)) \<le> 3 * length p"
proof (induction p rule: utf8_pieces.induct)
  case (1 p)
  show ?case
  proof (cases "p = []")
    case True
    then show ?thesis by (simp add: utf8_pieces.simps)
  next
    case ne: False
    show ?thesis
    proof (cases "utf8_decode_one p")
      case None
      then have "utf8_pieces p = replacement # utf8_pieces (tl p)" using ne by (subst utf8_pieces.simps) simp
      moreover have "length p = Suc (length (tl p))" using ne by simp
      ultimately show ?thesis using 1(1) [OF ne None] replacement_seq by (simp add: replacement_def)
    next
      case (Some r)
      obtain cp q where r: "r = (cp, q)" by fastforce
      obtain s where s: "seq_ok s" "p = s @ q" using Some r by (auto elim: decode_SomeE)
      then show ?thesis using 1(2) [OF ne Some r [symmetric]] utf8_pieces_seq [OF s(1), of q] by simp
    qed
  qed
qed

lemma sanitise_pieces:
  "utf8_sanitise_loop cap p out = fold (\<lambda>piece out. utf8_emit cap out piece) (utf8_pieces p) out"
proof (induction cap p out rule: utf8_sanitise_loop.induct)
  case (1 cap p out)
  show ?case
    by (subst utf8_sanitise_loop.simps, subst utf8_pieces.simps)
      (use 1 in \<open>auto split: option.splits\<close>)
qed

lemma emit_text:
  assumes "list_all seq_ok ps" and "utf8_text out" and "length out \<le> cap"
  shows "utf8_text (fold (\<lambda>piece out. utf8_emit cap out piece) ps out)
     \<and> length (fold (\<lambda>piece out. utf8_emit cap out piece) ps out) \<le> cap"
  using assms
proof (induction ps arbitrary: out)
  case (Cons s ps)
  then show ?case using utf8_text_append [OF Cons.prems(2) seq_ok_text, of s] by (auto simp: utf8_emit_def)
qed simp

lemma emit_all:
  "length out + length (concat ps) \<le> cap \<Longrightarrow> fold (\<lambda>piece out. utf8_emit cap out piece) ps out = out @ concat ps"
  by (induction ps arbitrary: out) (auto simp: utf8_emit_def)

lemma strlen_pieces: "utf8_strlen_loop p n = n + length (utf8_pieces p)"
proof (induction p n rule: utf8_strlen_loop.induct)
  case (1 p n)
  show ?case
    by (subst utf8_strlen_loop.simps, subst utf8_pieces.simps)
      (use 1 in \<open>auto split: option.splits\<close>)
qed

lemma pieces_text: "utf8_text p \<Longrightarrow> concat (utf8_pieces p) = p"
  by (induction p rule: utf8_text_induct) (simp_all add: utf8_pieces_seq utf8_pieces.simps [of "[]"])

text \<open>
  The reference for sanitising: the code points a buffer stands for.  Where an encoded scalar
  value begins it is read; any other byte, on its own, stands for U+FFFD.
\<close>

inductive repaired :: "u8 list \<Rightarrow> nat list \<Rightarrow> bool" where
  done_all: "repaired [] []"
| valid: "is_scalar n \<Longrightarrow> repaired rest cps \<Longrightarrow> repaired (utf8_encode n @ rest) (n # cps)"
| invalid: "\<nexists>n q. is_scalar n \<and> b # rest = utf8_encode n @ q \<Longrightarrow> repaired rest cps \<Longrightarrow> repaired (b # rest) (0xFFFD # cps)"

lemma decode_None_iff: "utf8_decode_one bs = None \<longleftrightarrow> (\<nexists>n q. is_scalar n \<and> bs = utf8_encode n @ q)"
proof
  assume d: "utf8_decode_one bs = None"
  show "\<nexists>n q. is_scalar n \<and> bs = utf8_encode n @ q"
  proof safe
    fix n q assume n: "is_scalar n" "bs = utf8_encode n @ q"
    have "unat (of_nat n :: u32) = n" using n(1) by (simp add: unat_of_nat is_scalar_def)
    then show False using d n decode_iff [of bs "of_nat n" q] by simp
  qed
next
  assume n: "\<nexists>n q. is_scalar n \<and> bs = utf8_encode n @ q"
  show "utf8_decode_one bs = None"
  proof (cases "utf8_decode_one bs")
    case (Some r)
    then show ?thesis using n decode_iff [of bs "fst r" "snd r"] by auto
  qed
qed

lemma replacement_encode: "replacement = utf8_encode 0xFFFD" "is_scalar 0xFFFD"
  by (simp_all add: replacement_def utf8_encode_def is_scalar_def)

lemma repaired_pieces: "repaired p cps \<Longrightarrow> utf8_pieces p = map utf8_encode cps \<and> list_all is_scalar cps"
proof (induction rule: repaired.induct)
  case done_all
  then show ?case by (simp add: utf8_pieces.simps)
next
  case (valid n rest cps)
  then show ?case using utf8_pieces_seq [OF encode_seq_ok(1), of n rest] by simp
next
  case (invalid b rest cps)
  then have "utf8_decode_one (b # rest) = None" by (simp add: decode_None_iff)
  then show ?case using invalid.IH replacement_encode by (subst utf8_pieces.simps) simp
qed

lemma repaired_ex: "\<exists>cps. repaired p cps"
proof (induction p rule: utf8_pieces.induct)
  case (1 p)
  show ?case
  proof (cases "p = []")
    case True
    then show ?thesis by (auto intro: repaired.intros)
  next
    case ne: False
    show ?thesis
    proof (cases "utf8_decode_one p")
      case None
      then show ?thesis using 1(1) [OF ne None] ne decode_None_iff [of p] repaired.invalid [of "hd p" "tl p"]
        by (metis list.collapse)
    next
      case (Some r)
      obtain cp q where r: "r = (cp, q)" by fastforce
      then show ?thesis using 1(2) [OF ne Some r [symmetric]] Some decode_iff [of p cp q] repaired.valid by metis
    qed
  qed
qed

lemma repaired_unique: "repaired p cps \<Longrightarrow> repaired p cps' \<Longrightarrow> cps = cps'"
proof -
  assume "repaired p cps" "repaired p cps'"
  then have e: "map utf8_encode cps = map utf8_encode cps'" "list_all is_scalar cps" "list_all is_scalar cps'"
    using repaired_pieces by metis+
  have v: "list_all is_scalar xs \<Longrightarrow> map seq_value (map utf8_encode xs) = xs" for xs
    using encode_seq_ok(2) by (induction xs) auto
  show ?thesis using v [OF e(2)] v [OF e(3)] e(1) by metis
qed


section \<open>Properties\<close>

text \<open>
  C12. The decoder accepts exactly the encodings of Unicode scalar values: it returns code
  point \<open>cp\<close> and rest \<open>q\<close> if and only if \<open>cp\<close> is a scalar value and the input is the RFC 3629
  encoding of \<open>cp\<close> followed by \<open>q\<close>.  In particular overlong forms, surrogates, values above
  U+10FFFF, truncated sequences and stray continuation bytes are all rejected.
\<close>

theorem utf8_decode_encode:
  "utf8_decode_one bs = Some (cp, q) \<longleftrightarrow> is_scalar (unat cp) \<and> bs = utf8_encode (unat cp) @ q"
  by (rule decode_iff)

text \<open>
  C28. Validation succeeds exactly on concatenations of encoded scalar values; on any other
  buffer it reports the offset and the value of the first byte at which decoding stops, and
  everything before that offset is valid.
\<close>

theorem utf8_validate_correct:
  "case op_utf8_validate buf of
     (True, None) \<Rightarrow> utf8_text buf
   | (False, Some e) \<Rightarrow> \<not> utf8_text buf \<and> byte_offset e < length buf \<and> byte_value e = buf ! byte_offset e
       \<and> utf8_text (take (byte_offset e) buf) \<and> utf8_decode_one (drop (byte_offset e) buf) = None
   | _ \<Rightarrow> False"
proof (cases "utf8_validate_from buf 0")
  case None
  then have "utf8_text buf" by (rule validate_None)
  then show ?thesis using None by (simp add: op_utf8_validate_def)
next
  case (Some e)
  obtain pre rest where e: "buf = pre @ rest" "utf8_text pre" "rest \<noteq> []" "utf8_decode_one rest = None"
      "e = \<lparr>byte_offset = length pre, byte_value = hd rest\<rparr>"
    using validate_error [OF Some] by auto
  moreover have "\<not> utf8_text buf" using validate_text [of buf 0] Some by auto
  ultimately show ?thesis using Some by (simp add: op_utf8_validate_def nth_append hd_conv_nth)
qed

text \<open>
  C29. On valid text, truncation returns the longest prefix of at most the requested number
  of bytes that is valid text again, reading only inside the buffer.
\<close>

theorem utf8_truncate_correct:
  assumes "utf8_text buf"
  shows "\<exists>r. op_utf8_truncate buf m = Some r \<and> r \<le> m \<and> r \<le> length buf \<and> utf8_text (take r buf)
     \<and> (\<forall>k. k \<le> m \<and> k \<le> length buf \<and> utf8_text (take k buf) \<longrightarrow> k \<le> r)"
  by (rule truncate_spec [OF assms])

theorem utf8_truncate_correct_witness:
  "\<exists>r. op_utf8_truncate [0x61, 0xE2, 0x82, 0xAC, 0x62] 3 = Some r \<and> r \<le> 3 \<and> 1 \<le> r
     \<and> utf8_text (take r [0x61, 0xE2, 0x82, 0xAC, 0x62])"
proof -
  let ?b = "[0x61, 0xE2, 0x82, 0xAC, 0x62] :: u8 list"
  have "utf8_text ?b" "utf8_text (take 1 ?b)"
    unfolding utf8_text_def
    by (intro exI [of _ "[0x61, 0x20AC, 0x62]"], simp add: is_scalar_def utf8_encode_def)
      (intro exI [of _ "[0x61]"], simp add: is_scalar_def utf8_encode_def)
  then show ?thesis using utf8_truncate_correct [of ?b 3] by auto
qed

text \<open>
  C30. Sanitising writes the encodings of the code points the buffer stands for: every encoded
  scalar value as it is, and U+FFFD for every byte at which none begins.  A piece that does not
  fit the rest of the destination is left out; with the documented capacity none is.  The output
  is always valid text within the capacity, and valid input that fits comes out unchanged.
  \<^verbatim>\<open>op_utf8_strlen\<close> counts the same code points.  The header announces one U+FFFD per maximal
  invalid sequence; the code writes one per byte.
\<close>

theorem utf8_sanitise_correct:
  "\<exists>cps. (\<forall>ps. repaired src ps \<longleftrightarrow> ps = cps)
   \<and> op_utf8_sanitise src dst_cap =
       fold (\<lambda>n out. if length out + length (utf8_encode n) \<le> dst_cap then out @ utf8_encode n else out) cps []
   \<and> (3 * length src \<le> dst_cap \<longrightarrow> op_utf8_sanitise src dst_cap = concat (map utf8_encode cps))
   \<and> op_utf8_strlen src = length cps
   \<and> utf8_text (op_utf8_sanitise src dst_cap) \<and> length (op_utf8_sanitise src dst_cap) \<le> dst_cap
   \<and> (utf8_text src \<and> length src \<le> dst_cap \<longrightarrow> op_utf8_sanitise src dst_cap = src)"
proof -
  obtain cps where c: "repaired src cps" using repaired_ex by blast
  have p: "utf8_pieces src = map utf8_encode cps" using repaired_pieces [OF c] by simp
  have s: "op_utf8_sanitise src dst_cap = fold (\<lambda>piece out. utf8_emit dst_cap out piece) (utf8_pieces src) []"
    by (simp add: op_utf8_sanitise_def sanitise_pieces)
  note ok = pieces_ok [of src]
  have "\<forall>ps. repaired src ps \<longleftrightarrow> ps = cps" using c repaired_unique by blast
  moreover have "op_utf8_sanitise src dst_cap =
      fold (\<lambda>n out. if length out + length (utf8_encode n) \<le> dst_cap then out @ utf8_encode n else out) cps []"
    unfolding s p fold_map by (simp add: utf8_emit_def comp_def)
  moreover have "3 * length src \<le> dst_cap \<longrightarrow> op_utf8_sanitise src dst_cap = concat (map utf8_encode cps)"
    using emit_all [of "[]" "utf8_pieces src" dst_cap] ok unfolding s p by simp
  moreover have "utf8_text src \<and> length src \<le> dst_cap \<longrightarrow> op_utf8_sanitise src dst_cap = src"
    using emit_all [of "[]" "utf8_pieces src" dst_cap] pieces_text [of src] unfolding s by simp
  moreover have "utf8_text (op_utf8_sanitise src dst_cap)" "length (op_utf8_sanitise src dst_cap) \<le> dst_cap"
    using emit_text [of "utf8_pieces src" "[]" dst_cap] ok unfolding s by simp_all
  moreover have "op_utf8_strlen src = length cps" by (simp add: op_utf8_strlen_def strlen_pieces p)
  ultimately show ?thesis by blast
qed

theorem utf8_sanitise_correct_witness:
  "op_utf8_sanitise [0x41, 0xFF] 6 = [0x41, 0xEF, 0xBF, 0xBD] \<and> op_utf8_sanitise [0x41] 1 = [0x41]"
proof -
  have "repaired ([] :: u8 list) []" by (rule repaired.done_all)
  moreover have "\<nexists>n q. is_scalar n \<and> [0xFF] = utf8_encode n @ q"
    unfolding decode_None_iff [symmetric] by code_simp
  ultimately have "repaired [0xFF] [0xFFFD]" by (intro repaired.invalid) simp_all
  moreover have e: "is_scalar 0x41" "utf8_encode 0x41 = [0x41]" by (simp_all add: is_scalar_def utf8_encode_def)
  ultimately have "repaired (utf8_encode 0x41 @ [0xFF]) [0x41, 0xFFFD]" by (intro repaired.valid)
  then have r: "repaired [0x41, 0xFF] [0x41, 0xFFFD]" unfolding e(2) by simp
  have "utf8_text [0x41]"
    unfolding utf8_text_def by (intro exI [of _ "[0x41]"]) (simp add: e)
  then have one: "op_utf8_sanitise [0x41] 1 = [0x41]" using utf8_sanitise_correct [of "[0x41]" 1] by (elim exE conjE) simp
  obtain cps where c: "\<forall>ps. repaired [0x41, 0xFF] ps \<longleftrightarrow> ps = cps"
      "3 * length ([0x41, 0xFF] :: u8 list) \<le> 6 \<longrightarrow> op_utf8_sanitise [0x41, 0xFF] 6 = concat (map utf8_encode cps)"
    using utf8_sanitise_correct [of "[0x41, 0xFF]" 6] by (elim exE conjE)
  have "cps = [0x41, 0xFFFD]" using c(1) r by metis
  then have "op_utf8_sanitise [0x41, 0xFF] 6 = utf8_encode 0x41 @ utf8_encode 0xFFFD" using c(2) by simp
  then show ?thesis using one e(2) replacement_encode(1) by (simp add: replacement_def)
qed

text \<open>
  Each byte of an invalid run is replaced on its own, although the header announces one
  replacement per maximal invalid sequence.
\<close>

lemma utf8_sanitise_truncated_sequence:
  "op_utf8_sanitise [0xE2, 0x82] 6 = replacement @ replacement"
  by code_simp

end
