(* ===== verification/Trie.thy ===== *)
theory Trie
  imports Cstring "HOL-Library.Monad_Syntax" "HOL-Library.Multiset"
begin

text \<open>
  The ternary search trie of \<^verbatim>\<open>src/trie.c\<close>.  A node owns its three children, so a
  trie is a tree; keys are C strings, folded byte by byte when the trie is
  case-insensitive.  The enumerations accumulate the current key in a growing byte buffer
  (\<open>each_ctx\<close>) whose writes are bounds-checked in the model.  The theorems show that any
  sequence of calls behaves as on a finite map from folded keys, that the enumerations visit
  exactly the matching entries in increasing lexicographic order until the callback stops
  them, and that the glob matcher decides the language of its pattern.
\<close>

section \<open>Nodes and the trie\<close>

datatype 'v tnode =
    TNull
  | TNode (tn_c: u8) (val_set: bool) (tn_val: "'v ptr") (tn_lo: "'v tnode") (tn_eq: "'v tnode") (tn_hi: "'v tnode")

record 'v op_trie =
  tr_root :: "'v tnode"
  tr_count :: nat
  tr_icase :: bool
  tr_name :: string

definition trie_fold :: "bool \<Rightarrow> u8 \<Rightarrow> u8" where
  "trie_fold icase c = (if icase then c_tolower c else c)"

definition node_new :: "u8 \<Rightarrow> 'v tnode" where
  "node_new c = TNode c False NULL TNull TNull TNull"

section \<open>Insertion, lookup, deletion\<close>

text \<open>
  The recursive helpers thread the out-parameters: \<open>trie_insert\<close> returns the new subtree with
  \<^verbatim>\<open>*old_val\<close> and \<^verbatim>\<open>*is_new\<close>, \<open>do_del\<close> the new subtree with \<^verbatim>\<open>*removed\<close> and \<^verbatim>\<open>*found\<close>.
\<close>

function trie_insert ::
  "'v tnode \<Rightarrow> cstr \<Rightarrow> bool \<Rightarrow> 'v ptr \<Rightarrow> 'v ptr \<Rightarrow> int \<Rightarrow> 'v tnode \<times> 'v ptr \<times> int" where
  "trie_insert n key icase val old_val is_new =
     (let c = trie_fold icase (cbyte key) in
      case (if n = TNull then node_new c else n) of
        TNull \<Rightarrow> (TNull, old_val, is_new)
      | TNode nc vs v lo eq hi \<Rightarrow>
          if c < nc then
            (case trie_insert lo key icase val old_val is_new of
               (lo', ov, nw) \<Rightarrow> (TNode nc vs v lo' eq hi, ov, nw))
          else if c > nc then
            (case trie_insert hi key icase val old_val is_new of
               (hi', ov, nw) \<Rightarrow> (TNode nc vs v lo eq hi', ov, nw))
          else if cbyte (tl key) = 0 then
            (TNode nc True val lo eq hi, (if vs then v else NULL), (if vs then 0 else 1))
          else
            (case trie_insert eq (tl key) icase val old_val is_new of
               (eq', ov, nw) \<Rightarrow> (TNode nc vs v lo eq' hi, ov, nw)))"
  by pat_completeness auto
termination
  by (relation "measures [\<lambda>(n, key, _). length key, \<lambda>(n, key, _). size n]")
    (auto simp: node_new_def cbyte_tl_length split: if_splits)

function find_node :: "'v tnode \<Rightarrow> cstr \<Rightarrow> bool \<Rightarrow> 'v tnode" where
  "find_node n key icase =
     (case n of
        TNull \<Rightarrow> TNull
      | TNode nc vs v lo eq hi \<Rightarrow>
          let c = trie_fold icase (cbyte key) in
          if c < nc then find_node lo key icase
          else if c > nc then find_node hi key icase
          else if cbyte (tl key) = 0 then n
          else find_node eq (tl key) icase)"
  by pat_completeness auto
termination
  by (relation "measure (\<lambda>(n, key, _). size n)") auto

definition tn_prune :: "'v tnode \<Rightarrow> 'v tnode" where
  "tn_prune n =
     (if \<not> val_set n \<and> tn_lo n = TNull \<and> tn_eq n = TNull \<and> tn_hi n = TNull then TNull else n)"

fun do_del :: "'v tnode \<Rightarrow> cstr \<Rightarrow> bool \<Rightarrow> 'v ptr \<Rightarrow> bool \<Rightarrow> 'v tnode \<times> 'v ptr \<times> bool" where
  "do_del TNull key icase removed found = (TNull, removed, found)"
| "do_del (TNode nc vs v lo eq hi) key icase removed found =
     (let c = trie_fold icase (cbyte key) in
      if c < nc then
        (case do_del lo key icase removed found of
           (lo', r, f) \<Rightarrow> (tn_prune (TNode nc vs v lo' eq hi), r, f))
      else if c > nc then
        (case do_del hi key icase removed found of
           (hi', r, f) \<Rightarrow> (tn_prune (TNode nc vs v lo eq hi'), r, f))
      else if cbyte (tl key) = 0 then
        (if vs then (tn_prune (TNode nc False NULL lo eq hi), v, True)
         else (tn_prune (TNode nc vs v lo eq hi), removed, found))
      else
        (case do_del eq (tl key) icase removed found of
           (eq', r, f) \<Rightarrow> (tn_prune (TNode nc vs v lo eq' hi), r, f)))"

section \<open>Enumeration\<close>

text \<open>
  The callback \<open>fn\<close> gets the key text, the value and the user state and returns whether to
  continue.  A write outside the buffer makes the walk undefined (\<open>None\<close>).  The bytes a
  reallocation adds are indeterminate in C; they are written before the buffer is read.
\<close>

type_synonym ('v, 's) trie_each = "u8 list \<Rightarrow> 'v ptr \<Rightarrow> 's \<Rightarrow> bool \<times> 's"

record 's each_ctx =
  ctx_ud :: 's
  ctx_buf :: "u8 list"
  ctx_bufcap :: nat
  ctx_buflen :: nat
  ctx_stop :: bool

definition ensure_buf :: "'s each_ctx \<Rightarrow> nat \<Rightarrow> 's each_ctx" where
  "ensure_buf ctx needed =
     (if wrap64 (needed + 1) > ctx_bufcap ctx then
        let cap = wrap64 ((needed + 1) * 2) in
        ctx\<lparr>ctx_bufcap := cap,
            ctx_buf := take cap (ctx_buf ctx) @ replicate (cap - length (ctx_buf ctx)) 0\<rparr>
      else ctx)"

definition ctx_push :: "u8 \<Rightarrow> 's each_ctx \<Rightarrow> 's each_ctx option" where
  "ctx_push c ctx =
     (let ctx = ensure_buf ctx (wrap64 (ctx_buflen ctx + 1)) in
      do { buf \<leftarrow> arr_set (ctx_buf ctx) (ctx_buflen ctx) c;
           Some (ctx\<lparr>ctx_buf := buf, ctx_buflen := wrap64 (ctx_buflen ctx + 1)\<rparr>) })"

definition ctx_pop :: "'s each_ctx \<Rightarrow> 's each_ctx" where
  "ctx_pop ctx = ctx\<lparr>ctx_buflen := sub64 (ctx_buflen ctx) 1\<rparr>"

definition ctx_call :: "('v, 's) trie_each \<Rightarrow> 'v ptr \<Rightarrow> 's each_ctx \<Rightarrow> bool \<times> 's each_ctx" where
  "ctx_call fn v ctx =
     (case fn (cstr_text (ctx_buf ctx)) v (ctx_ud ctx) of
        (cont, ud) \<Rightarrow> (cont, ctx\<lparr>ctx_ud := ud, ctx_stop := ctx_stop ctx \<or> \<not> cont\<rparr>))"

definition ctx_terminate :: "'s each_ctx \<Rightarrow> 's each_ctx option" where
  "ctx_terminate ctx =
     do { buf \<leftarrow> arr_set (ctx_buf ctx) (ctx_buflen ctx) 0; Some (ctx\<lparr>ctx_buf := buf\<rparr>) }"

definition ctx_report :: "('v, 's) trie_each \<Rightarrow> 'v ptr \<Rightarrow> 's each_ctx \<Rightarrow> (bool \<times> 's each_ctx) option" where
  "ctx_report fn v ctx = do { ctx \<leftarrow> ctx_terminate ctx; Some (ctx_call fn v ctx) }"

fun tst_each :: "('v, 's) trie_each \<Rightarrow> 'v tnode \<Rightarrow> 's each_ctx \<Rightarrow> 's each_ctx option" where
  "tst_each fn TNull ctx = Some ctx"
| "tst_each fn (TNode nc vs v lo eq hi) ctx =
     (if ctx_stop ctx then Some ctx else do {
        ctx \<leftarrow> tst_each fn lo ctx;
        if ctx_stop ctx then Some ctx else do {
          ctx \<leftarrow> ctx_push nc ctx;
          (cont, ctx) \<leftarrow> (if vs then ctx_report fn v ctx else Some (True, ctx));
          if \<not> cont then Some (ctx_pop ctx) else do {
            ctx \<leftarrow> tst_each fn eq ctx;
            let ctx = ctx_pop ctx in
            if ctx_stop ctx then Some ctx else tst_each fn hi ctx } } })"

function prefix_each ::
  "('v, 's) trie_each \<Rightarrow> 'v tnode \<Rightarrow> cstr \<Rightarrow> bool \<Rightarrow> 's each_ctx \<Rightarrow> 's each_ctx option" where
  "prefix_each fn n prefix icase ctx =
     (case n of
        TNull \<Rightarrow> Some ctx
      | TNode nc vs v lo eq hi \<Rightarrow>
          if ctx_stop ctx then Some ctx else
          let c = trie_fold icase (cbyte prefix) in
          if c < nc then prefix_each fn lo prefix icase ctx
          else if c > nc then prefix_each fn hi prefix icase ctx
          else do {
            ctx \<leftarrow> ctx_push nc ctx;
            if cbyte (tl prefix) = 0 then do {
              (cont, ctx) \<leftarrow> (if vs then ctx_report fn v ctx else Some (True, ctx));
              if \<not> cont then Some (ctx_pop ctx) else do {
                ctx \<leftarrow> tst_each fn eq ctx;
                Some (ctx_pop ctx) } }
            else do {
              ctx \<leftarrow> prefix_each fn eq (tl prefix) icase ctx;
              Some (ctx_pop ctx) } })"
  by pat_completeness auto
termination
  by (relation "measure (\<lambda>(fn, n, _). size n)") auto

section \<open>Glob matching\<close>

text \<open>The byte codes of the two wildcards.\<close>

abbreviation STAR :: u8 where "STAR \<equiv> 0x2A"
abbreviation QUERY :: u8 where "QUERY \<equiv> 0x3F"

fun skip_stars :: "cstr \<Rightarrow> cstr" where
  "skip_stars [] = []"
| "skip_stars (c # s) = (if c = STAR then skip_stars s else c # s)"

lemma skip_stars_length: "length (skip_stars s) \<le> length s"
  by (induction s) auto

lemma skip_stars_less: "cbyte s = STAR \<Longrightarrow> length (skip_stars s) < length s"
  using skip_stars_length [of "tl s"] by (cases s) simp_all

function (sequential) glob_match :: "cstr \<Rightarrow> cstr \<Rightarrow> bool \<Rightarrow> bool"
  and glob_star :: "cstr \<Rightarrow> cstr \<Rightarrow> bool \<Rightarrow> bool" where
  "glob_match pat str icase =
     (if cbyte pat = STAR then
        (let pat = skip_stars pat in if cbyte pat = 0 then True else glob_star pat str icase)
      else if cbyte pat = 0 then cbyte str = 0
      else if cbyte str = 0 then False
      else if cbyte pat \<noteq> QUERY \<and> trie_fold icase (cbyte pat) \<noteq> trie_fold icase (cbyte str) then False
      else glob_match (tl pat) (tl str) icase)"
| "glob_star pat str icase =
     (if cbyte str = 0 then False
      else if glob_match pat str icase then True
      else glob_star pat (tl str) icase)"
  by pat_completeness auto
termination
  by (relation "measures
        [\<lambda>x. case x of Inl (p, s, i) \<Rightarrow> length p | Inr (p, s, i) \<Rightarrow> length p,
         \<lambda>x. case x of Inl (p, s, i) \<Rightarrow> length s | Inr (p, s, i) \<Rightarrow> length s,
         \<lambda>x. case x of Inl (p, s, i) \<Rightarrow> 0 | Inr (p, s, i) \<Rightarrow> 1]")
    (auto simp: skip_stars_less cbyte_length)

fun wildcard_each ::
  "('v, 's) trie_each \<Rightarrow> 'v tnode \<Rightarrow> cstr \<Rightarrow> bool \<Rightarrow> 's each_ctx \<Rightarrow> 's each_ctx option" where
  "wildcard_each fn TNull pat icase ctx = Some ctx"
| "wildcard_each fn (TNode nc vs v lo eq hi) pat icase ctx =
     (if ctx_stop ctx then Some ctx else do {
        ctx \<leftarrow> wildcard_each fn lo pat icase ctx;
        if ctx_stop ctx then Some ctx else do {
          ctx \<leftarrow> ctx_push nc ctx;
          (cont, ctx) \<leftarrow>
            (if vs then do {
               ctx \<leftarrow> ctx_terminate ctx;
               if glob_match pat (ctx_buf ctx) icase then Some (ctx_call fn v ctx)
               else Some (True, ctx) }
             else Some (True, ctx));
          if \<not> cont then Some (ctx_pop ctx) else do {
            ctx \<leftarrow> wildcard_each fn eq pat icase ctx;
            let ctx = ctx_pop ctx in
            if ctx_stop ctx then Some ctx else wildcard_each fn hi pat icase ctx } } })"

section \<open>The public operations\<close>

text \<open>\<open>walk_free\<close> returns the values handed to the free callback, in the order of the calls.\<close>

fun walk_free :: "'v tnode \<Rightarrow> bool \<Rightarrow> 'v ptr list" where
  "walk_free TNull fn = []"
| "walk_free (TNode nc vs v lo eq hi) fn =
     walk_free lo fn @ walk_free eq fn @ walk_free hi fn @ (if vs \<and> fn then [v] else [])"

definition op_trie_create :: "string \<Rightarrow> bool \<Rightarrow> 'v op_trie" where
  "op_trie_create name icase = \<lparr>tr_root = TNull, tr_count = 0, tr_icase = icase, tr_name = name\<rparr>"

definition op_trie_destroy :: "'v op_trie \<Rightarrow> bool \<Rightarrow> 'v ptr list" where
  "op_trie_destroy t free_fn = walk_free (tr_root t) free_fn"

definition op_trie_set ::
  "'v op_trie \<Rightarrow> cstr ptr \<Rightarrow> 'v ptr \<Rightarrow> 'v ptr \<Rightarrow> int \<times> 'v ptr \<times> 'v op_trie" where
  "op_trie_set t key val old_val =
     (case key of
        None \<Rightarrow> (-1, old_val, t)
      | Some k \<Rightarrow>
          if cbyte k = 0 then (-1, old_val, t)
          else case trie_insert (tr_root t) k (tr_icase t) val old_val 0 of
            (root, ov, is_new) \<Rightarrow>
              (is_new, ov, t\<lparr>tr_root := root,
                 tr_count := (if is_new \<noteq> 0 then wrap64 (tr_count t + 1) else tr_count t)\<rparr>))"

definition op_trie_del :: "'v op_trie \<Rightarrow> cstr ptr \<Rightarrow> 'v ptr \<times> 'v op_trie" where
  "op_trie_del t key =
     (case key of
        None \<Rightarrow> (NULL, t)
      | Some k \<Rightarrow>
          if cbyte k = 0 then (NULL, t)
          else case do_del (tr_root t) k (tr_icase t) NULL False of
            (root, removed, found) \<Rightarrow>
              (removed, t\<lparr>tr_root := root,
                 tr_count := (if found then sub64 (tr_count t) 1 else tr_count t)\<rparr>))"

definition op_trie_get :: "'v op_trie \<Rightarrow> cstr ptr \<Rightarrow> 'v ptr" where
  "op_trie_get t key =
     (case key of
        None \<Rightarrow> NULL
      | Some k \<Rightarrow>
          if cbyte k = 0 then NULL
          else let n = find_node (tr_root t) k (tr_icase t) in
               if n \<noteq> TNull \<and> val_set n then tn_val n else NULL)"

definition op_trie_has :: "'v op_trie \<Rightarrow> cstr ptr \<Rightarrow> bool" where
  "op_trie_has t key =
     (case key of
        None \<Rightarrow> False
      | Some k \<Rightarrow>
          if cbyte k = 0 then False
          else let n = find_node (tr_root t) k (tr_icase t) in n \<noteq> TNull \<and> val_set n)"

definition each_start :: "'s \<Rightarrow> 's each_ctx" where
  "each_start ud = \<lparr>ctx_ud = ud, ctx_buf = [], ctx_bufcap = 0, ctx_buflen = 0, ctx_stop = False\<rparr>"

definition op_trie_foreach :: "'v op_trie \<Rightarrow> ('v, 's) trie_each \<Rightarrow> 's \<Rightarrow> 's option" where
  "op_trie_foreach t fn ud = map_option ctx_ud (tst_each fn (tr_root t) (each_start ud))"

definition op_trie_prefix :: "'v op_trie \<Rightarrow> cstr ptr \<Rightarrow> ('v, 's) trie_each \<Rightarrow> 's \<Rightarrow> 's option" where
  "op_trie_prefix t prefix fn ud =
     (case prefix of
        None \<Rightarrow> op_trie_foreach t fn ud
      | Some p \<Rightarrow>
          if cbyte p = 0 then op_trie_foreach t fn ud
          else map_option ctx_ud (prefix_each fn (tr_root t) p (tr_icase t) (each_start ud)))"

definition op_trie_wildcard :: "'v op_trie \<Rightarrow> cstr ptr \<Rightarrow> ('v, 's) trie_each \<Rightarrow> 's \<Rightarrow> 's option" where
  "op_trie_wildcard t pattern fn ud =
     (case pattern of
        None \<Rightarrow> Some ud
      | Some p \<Rightarrow> map_option ctx_ud (wildcard_each fn (tr_root t) p (tr_icase t) (each_start ud)))"

definition op_trie_count :: "'v op_trie \<Rightarrow> nat" where
  "op_trie_count t = tr_count t"

definition op_trie_name :: "'v op_trie \<Rightarrow> string" where
  "op_trie_name t = tr_name t"

declare trie_insert.simps [simp del] find_node.simps [simp del] prefix_each.simps [simp del]
  glob_match.simps [simp del] glob_star.simps [simp del]

section \<open>Abstraction: a map from folded keys, and its ordered entries\<close>

definition fkey :: "bool \<Rightarrow> cstr \<Rightarrow> u8 list" where
  "fkey icase s = map (trie_fold icase) (cstr_text s)"

fun tst_map :: "'v tnode \<Rightarrow> u8 list \<Rightarrow> 'v ptr option" where
  "tst_map TNull k = None"
| "tst_map (TNode c s v lo eq hi) [] = None"
| "tst_map (TNode c s v lo eq hi) (x # k) =
     (if x < c then tst_map lo (x # k) else if x > c then tst_map hi (x # k)
      else if k = [] then (if s then Some v else None) else tst_map eq k)"

fun tst_list :: "'v tnode \<Rightarrow> (u8 list \<times> 'v ptr) list" where
  "tst_list TNull = []"
| "tst_list (TNode c s v lo eq hi) =
     tst_list lo @ (if s then [([c], v)] else []) @ map (\<lambda>(k, v). (c # k, v)) (tst_list eq) @ tst_list hi"

fun tst_heads :: "'v tnode \<Rightarrow> u8 set" where
  "tst_heads TNull = {}"
| "tst_heads (TNode c s v lo eq hi) = {c} \<union> tst_heads lo \<union> tst_heads hi"

fun tst_wf :: "'v tnode \<Rightarrow> bool" where
  "tst_wf TNull \<longleftrightarrow> True"
| "tst_wf (TNode c s v lo eq hi) \<longleftrightarrow>
     c \<noteq> 0 \<and> (s \<or> lo \<noteq> TNull \<or> eq \<noteq> TNull \<or> hi \<noteq> TNull)
     \<and> (\<forall>x\<in>tst_heads lo. x < c) \<and> (\<forall>x\<in>tst_heads hi. c < x) \<and> tst_wf lo \<and> tst_wf eq \<and> tst_wf hi"

fun tst_depth :: "'v tnode \<Rightarrow> nat" where
  "tst_depth TNull = 0"
| "tst_depth (TNode c s v lo eq hi) = max (tst_depth lo) (max (Suc (tst_depth eq)) (tst_depth hi))"

definition trie_map :: "'v op_trie \<Rightarrow> u8 list \<Rightarrow> 'v ptr option" where
  "trie_map t = tst_map (tr_root t)"

definition trie_inv :: "'v op_trie \<Rightarrow> bool" where
  "trie_inv t \<longleftrightarrow> tst_wf (tr_root t) \<and> tr_count t = wrap64 (card (dom (trie_map t)))"

fun glob_lang :: "bool \<Rightarrow> u8 list \<Rightarrow> u8 list set" where
  "glob_lang icase [] = {[]}"
| "glob_lang icase (a # p) =
     (if a = STAR then {u @ t | u t. t \<in> glob_lang icase p}
      else if a = QUERY then {c # t | c t. t \<in> glob_lang icase p}
      else {c # t | c t. trie_fold icase c = trie_fold icase a \<and> t \<in> glob_lang icase p})"

definition key_less :: "u8 list \<times> 'a \<Rightarrow> u8 list \<times> 'b \<Rightarrow> bool" where
  "key_less p q \<longleftrightarrow> (fst p, fst q) \<in> lexord {(a, b). a < b}"

section \<open>Keys and their folding\<close>

lemma trie_fold_0 [simp]: "trie_fold icase 0 = 0"
  by (simp add: trie_fold_def c_tolower_def)

lemma trie_fold_eq_0 [simp]: "trie_fold icase c = 0 \<longleftrightarrow> c = 0"
  by (simp add: trie_fold_def c_tolower_0)

lemma fkey_unroll: "cbyte s \<noteq> 0 \<Longrightarrow> fkey icase s = trie_fold icase (cbyte s) # fkey icase (tl s)"
  by (subst (1) fkey_def, subst cstr_text_unroll) (simp add: fkey_def)

lemma fkey_Nil_iff: "fkey icase s = [] \<longleftrightarrow> cbyte s = 0"
  by (simp add: fkey_def cstr_text_Nil_iff)

lemma fkey_last: "cbyte (tl s) = 0 \<Longrightarrow> cbyte s \<noteq> 0 \<Longrightarrow> fkey icase s = [trie_fold icase (cbyte s)]"
  using fkey_Nil_iff [of icase "tl s"] by (simp add: fkey_unroll)

section \<open>Lookup, insertion and deletion on the map\<close>

lemma tst_map_Nil [simp]: "tst_map n [] = None"
  by (cases n) simp_all

lemma tst_map_node_new: "tst_map (node_new c) k = None"
  by (cases k) (simp_all add: node_new_def)

lemma find_node_map:
  assumes "cbyte key \<noteq> 0"
  shows "tst_map n (fkey icase key) =
    (let m = find_node n key icase in if m \<noteq> TNull \<and> val_set m then Some (tn_val m) else None)"
  using assms
proof (induction n key icase rule: find_node.induct)
  case (1 n key icase)
  show ?case
  proof (cases n)
    case TNull
    then show ?thesis by (simp add: find_node.simps)
  next
    case (TNode nc vs v lo eq hi)
    let ?c = "trie_fold icase (cbyte key)"
    consider "?c < nc" | "?c > nc" | "?c = nc" "cbyte (tl key) = 0" | "?c = nc" "cbyte (tl key) \<noteq> 0"
      by (meson antisym_conv3)
    then show ?thesis
    proof cases
      case 1
      then show ?thesis using "1.IH"(1) [OF TNode refl _ "1.prems"]
        by (simp add: TNode fkey_unroll [OF "1.prems"] find_node.simps [of "TNode nc vs v lo eq hi"])
    next
      case 2
      then have n: "\<not> ?c < nc" by simp
      then show ?thesis using 2 "1.IH"(2) [OF TNode refl n _ "1.prems"]
        by (simp add: TNode fkey_unroll [OF "1.prems"] find_node.simps [of "TNode nc vs v lo eq hi"])
    next
      case 3
      then show ?thesis
        by (simp add: TNode fkey_last [OF _ "1.prems"] find_node.simps [of "TNode nc vs v lo eq hi"])
    next
      case 4
      then show ?thesis using "1.IH"(3) [OF TNode refl _ _ 4(2)]
        by (simp add: TNode fkey_unroll [OF "1.prems"] fkey_Nil_iff
            find_node.simps [of "TNode nc vs v lo eq hi"])
    qed
  qed
qed

text \<open>The outcome of an insertion or deletion, in terms of the map.\<close>

definition old_of :: "'v ptr option \<Rightarrow> 'v ptr" where
  "old_of x = (case x of None \<Rightarrow> NULL | Some v \<Rightarrow> v)"

lemma old_of_simps [simp]: "old_of None = NULL" "old_of (Some v) = v"
  by (simp_all add: old_of_def)

lemma tst_map_upd_lo:
  "x < c \<Longrightarrow> tst_map lo' = (tst_map lo)(x # k := w) \<Longrightarrow>
   tst_map (TNode c s v lo' eq hi) = (tst_map (TNode c s v lo eq hi))(x # k := w)"
  by (rule ext, rename_tac q, case_tac q) auto

lemma tst_map_upd_hi:
  "c < x \<Longrightarrow> tst_map hi' = (tst_map hi)(x # k := w) \<Longrightarrow>
   tst_map (TNode c s v lo eq hi') = (tst_map (TNode c s v lo eq hi))(x # k := w)"
  by (rule ext, rename_tac q, case_tac q) auto

lemma tst_map_upd_eq:
  "k \<noteq> [] \<Longrightarrow> tst_map eq' = (tst_map eq)(k := w) \<Longrightarrow>
   tst_map (TNode c s v lo eq' hi) = (tst_map (TNode c s v lo eq hi))(c # k := w)"
  by (rule ext, rename_tac q, case_tac q) auto

lemma tst_map_upd_here:
  "tst_map (TNode c s' v' lo eq hi) = (tst_map (TNode c s v lo eq hi))([c] := (if s' then Some v' else None))"
  by (rule ext, rename_tac q, case_tac q) auto

definition insert_spec ::
  "'v tnode \<Rightarrow> u8 list \<Rightarrow> 'v ptr \<Rightarrow> 'v tnode \<times> 'v ptr \<times> int \<Rightarrow> bool" where
  "insert_spec n k val r \<longleftrightarrow>
     (case r of (n', ov, nw) \<Rightarrow>
        tst_map n' = (tst_map n)(k \<mapsto> val) \<and> ov = old_of (tst_map n k)
        \<and> nw = (if tst_map n k = None then 1 else 0)
        \<and> (tst_wf n \<longrightarrow> 0 \<notin> set k \<longrightarrow> tst_wf n' \<and> n' \<noteq> TNull \<and> tst_heads n' = insert (hd k) (tst_heads n)))"

lemma trie_insert_TNode:
  "trie_insert (TNode nc vs v lo eq hi) key icase val old_val is_new =
     (let c = trie_fold icase (cbyte key) in
          if c < nc then
            (case trie_insert lo key icase val old_val is_new of
               (lo', ov, nw) \<Rightarrow> (TNode nc vs v lo' eq hi, ov, nw))
          else if c > nc then
            (case trie_insert hi key icase val old_val is_new of
               (hi', ov, nw) \<Rightarrow> (TNode nc vs v lo eq hi', ov, nw))
          else if cbyte (tl key) = 0 then
            (TNode nc True val lo eq hi, (if vs then v else NULL), (if vs then 0 else 1))
          else
            (case trie_insert eq (tl key) icase val old_val is_new of
               (eq', ov, nw) \<Rightarrow> (TNode nc vs v lo eq' hi, ov, nw)))"
  by (simp add: trie_insert.simps [of "TNode nc vs v lo eq hi"] Let_def)

lemma trie_insert_TNull:
  "trie_insert TNull key icase val old_val is_new =
     (let c = trie_fold icase (cbyte key) in
      if cbyte (tl key) = 0 then (TNode c True val TNull TNull TNull, NULL, 1)
      else (case trie_insert TNull (tl key) icase val old_val is_new of
               (eq', ov, nw) \<Rightarrow> (TNode c False NULL TNull eq' TNull, ov, nw)))"
  by (simp add: trie_insert.simps [of TNull] Let_def node_new_def)

lemma trie_insert_empty:
  "cbyte key \<noteq> 0 \<Longrightarrow> insert_spec TNull (fkey icase key) val (trie_insert TNull key icase val ov nw)"
proof (induction key)
  case (Cons a s)
  let ?c = "trie_fold icase a"
  show ?case
  proof (cases "cbyte s = 0")
    case True
    then have k: "fkey icase (a # s) = [?c]" using Cons.prems fkey_last [of "a # s" icase] by simp
    have "trie_insert TNull (a # s) icase val ov nw = (TNode ?c True val TNull TNull TNull, NULL, 1)"
      using True by (simp add: trie_insert_TNull)
    moreover have "tst_map (TNode ?c True val TNull TNull TNull) = (tst_map TNull)([?c] \<mapsto> val)"
      by (rule ext, rename_tac q, case_tac q) auto
    ultimately show ?thesis using Cons.prems unfolding k insert_spec_def by simp
  next
    case False
    then have k: "fkey icase (a # s) = ?c # fkey icase s" using Cons.prems fkey_unroll [of "a # s" icase] by simp
    have ne: "fkey icase s \<noteq> []" using False by (simp add: fkey_Nil_iff)
    obtain n' o' w' where r: "trie_insert TNull s icase val ov nw = (n', o', w')" by (metis prod_cases3)
    have ih: "tst_map n' = (tst_map TNull)(fkey icase s \<mapsto> val)" "o' = NULL" "w' = 1"
        "0 \<notin> set (fkey icase s) \<Longrightarrow> tst_wf n' \<and> n' \<noteq> TNull"
      using Cons.IH [OF False] r by (auto simp: insert_spec_def)
    have r': "trie_insert TNull (a # s) icase val ov nw = (TNode ?c False NULL TNull n' TNull, NULL, 1)"
      using False r ih by (simp add: trie_insert_TNull)
    have "tst_map (TNode ?c False NULL TNull n' TNull) = (tst_map TNull)(?c # fkey icase s \<mapsto> val)"
      by (rule ext, rename_tac q, case_tac q) (use ih(1) ne in auto)
    then show ?thesis using ih(4) Cons.prems unfolding r' k insert_spec_def by auto
  qed
qed simp

lemma trie_insert_spec:
  "cbyte key \<noteq> 0 \<Longrightarrow> insert_spec n (fkey icase key) val (trie_insert n key icase val ov nw)"
proof (induction n arbitrary: key)
  case TNull
  then show ?case by (rule trie_insert_empty)
next
  case (TNode nc vs v lo eq hi)
  let ?c = "trie_fold icase (cbyte key)"
  note k = fkey_unroll [OF TNode.prems, of icase]
  consider "?c < nc" | "?c > nc" | "?c = nc" "cbyte (tl key) = 0" | "?c = nc" "cbyte (tl key) \<noteq> 0"
    by (meson antisym_conv3)
  then show ?case
  proof cases
    case 1
    obtain n' o' w' where r: "trie_insert lo key icase val ov nw = (n', o', w')" by (metis prod_cases3)
    then show ?thesis using TNode.IH(1) [OF TNode.prems] 1 tst_map_upd_lo [OF 1, of n' lo]
      by (auto simp: insert_spec_def trie_insert_TNode k)
  next
    case 2
    then have n: "\<not> ?c < nc" by simp
    obtain n' o' w' where r: "trie_insert hi key icase val ov nw = (n', o', w')" by (metis prod_cases3)
    then show ?thesis using TNode.IH(3) [OF TNode.prems] 2 n tst_map_upd_hi [OF 2, of n' hi]
      by (auto simp: insert_spec_def trie_insert_TNode k)
  next
    case 3
    then show ?thesis
      using tst_map_upd_here [of nc True val lo eq hi vs v] fkey_last [OF 3(2) TNode.prems, of icase]
      by (auto simp: insert_spec_def trie_insert_TNode)
  next
    case 4
    obtain n' o' w' where r: "trie_insert eq (tl key) icase val ov nw = (n', o', w')" by (metis prod_cases3)
    then show ?thesis using TNode.IH(2) [OF 4(2)] 4 tst_map_upd_eq [of "fkey icase (tl key)" n' eq]
      by (auto simp: insert_spec_def trie_insert_TNode k fkey_Nil_iff)
  qed
qed

definition del_spec ::
  "'v tnode \<Rightarrow> u8 list \<Rightarrow> 'v ptr \<Rightarrow> bool \<Rightarrow> 'v tnode \<times> 'v ptr \<times> bool \<Rightarrow> bool" where
  "del_spec n k removed found r \<longleftrightarrow>
     (case r of (n', rm, fd) \<Rightarrow>
        tst_map n' = (tst_map n)(k := None) \<and> fd = (found \<or> tst_map n k \<noteq> None)
        \<and> rm = (case tst_map n k of None \<Rightarrow> removed | Some v \<Rightarrow> v)
        \<and> (tst_wf n \<longrightarrow> tst_wf n' \<and> tst_heads n' \<subseteq> tst_heads n))"

lemma tst_map_prune [simp]: "tst_map (tn_prune (TNode c s v lo eq hi)) = tst_map (TNode c s v lo eq hi)"
  by (rule ext, rename_tac q, case_tac q) (auto simp: tn_prune_def)

lemma tst_heads_prune: "tst_heads (tn_prune n) \<subseteq> tst_heads n"
  by (simp add: tn_prune_def)

lemma tst_wf_prune:
  "c \<noteq> 0 \<Longrightarrow> \<forall>x\<in>tst_heads lo. x < c \<Longrightarrow> \<forall>x\<in>tst_heads hi. c < x \<Longrightarrow> tst_wf lo \<Longrightarrow> tst_wf eq \<Longrightarrow> tst_wf hi \<Longrightarrow>
   tst_wf (tn_prune (TNode c s v lo eq hi))"
  by (simp add: tn_prune_def)

lemma do_del_spec:
  "cbyte key \<noteq> 0 \<Longrightarrow> del_spec n (fkey icase key) rm fd (do_del n key icase rm fd)"
proof (induction n arbitrary: key)
  case TNull
  then show ?case by (auto simp: del_spec_def fun_eq_iff)
next
  case (TNode nc vs v lo eq hi)
  let ?c = "trie_fold icase (cbyte key)"
  note k = fkey_unroll [OF TNode.prems, of icase]
  have heads: "tst_heads (tn_prune (TNode c s v lo eq hi)) \<subseteq> {c} \<union> tst_heads lo \<union> tst_heads hi" for c s v and lo eq hi :: "'a tnode"
    using tst_heads_prune by fastforce
  consider "?c < nc" | "?c > nc" | "?c = nc" "cbyte (tl key) = 0" | "?c = nc" "cbyte (tl key) \<noteq> 0"
    by (meson antisym_conv3)
  then show ?case
  proof cases
    case 1
    obtain n' r' f' where r: "do_del lo key icase rm fd = (n', r', f')" by (metis prod_cases3)
    have ih: "del_spec lo (?c # fkey icase (tl key)) rm fd (n', r', f')"
      using TNode.IH(1) [OF TNode.prems] r k by simp
    then have m: "tst_map (TNode nc vs v n' eq hi) = (tst_map (TNode nc vs v lo eq hi))(?c # fkey icase (tl key) := None)"
      by (intro tst_map_upd_lo [OF 1]) (simp add: del_spec_def)
    show ?thesis using 1 r ih m heads [of nc vs v n' eq hi]
      by (auto simp: del_spec_def k intro!: tst_wf_prune split: option.splits)
  next
    case 2
    then have n: "\<not> ?c < nc" by simp
    obtain n' r' f' where r: "do_del hi key icase rm fd = (n', r', f')" by (metis prod_cases3)
    have ih: "del_spec hi (?c # fkey icase (tl key)) rm fd (n', r', f')"
      using TNode.IH(3) [OF TNode.prems] r k by simp
    then have m: "tst_map (TNode nc vs v lo eq n') = (tst_map (TNode nc vs v lo eq hi))(?c # fkey icase (tl key) := None)"
      by (intro tst_map_upd_hi [OF 2]) (simp add: del_spec_def)
    show ?thesis using 2 n r ih m heads [of nc vs v lo eq n']
      by (auto simp: del_spec_def k intro!: tst_wf_prune split: option.splits)
  next
    case 3
    have m: "tst_map (TNode nc False NULL lo eq hi) = (tst_map (TNode nc vs v lo eq hi))([nc] := None)"
      using tst_map_upd_here [of nc False NULL lo eq hi vs v] by simp
    have m': "\<not> vs \<Longrightarrow> tst_map (TNode nc vs v lo eq hi) = (tst_map (TNode nc vs v lo eq hi))([nc] := None)"
      by (simp add: fun_upd_idem)
    show ?thesis using 3 m m' heads [of nc _ _ lo eq hi] fkey_last [OF 3(2) TNode.prems, of icase]
      by (auto simp: del_spec_def intro!: tst_wf_prune)
  next
    case 4
    obtain n' r' f' where r: "do_del eq (tl key) icase rm fd = (n', r', f')" by (metis prod_cases3)
    have ne: "fkey icase (tl key) \<noteq> []" using 4 by (simp add: fkey_Nil_iff)
    have ih: "del_spec eq (fkey icase (tl key)) rm fd (n', r', f')"
      using TNode.IH(2) [OF 4(2)] r by simp
    then have m: "tst_map (TNode nc vs v lo n' hi) = (tst_map (TNode nc vs v lo eq hi))(nc # fkey icase (tl key) := None)"
      by (intro tst_map_upd_eq [OF ne]) (simp add: del_spec_def)
    show ?thesis using 4 r ih ne m heads [of nc vs v lo n' hi]
      by (auto simp: del_spec_def k intro!: tst_wf_prune split: option.splits)
  qed
qed

section \<open>The ordered list of entries\<close>

lemma tst_list_heads: "(k, v) \<in> set (tst_list n) \<Longrightarrow> k \<noteq> [] \<and> hd k \<in> tst_heads n"
  by (induction n) (auto split: if_splits)

lemma tst_list_nonzero: "tst_wf n \<Longrightarrow> (k, v) \<in> set (tst_list n) \<Longrightarrow> 0 \<notin> set k"
  by (induction n arbitrary: k) (auto split: if_splits)

lemma tst_list_depth: "(k, v) \<in> set (tst_list n) \<Longrightarrow> length k \<le> tst_depth n"
  by (induction n arbitrary: k) (fastforce split: if_splits)+

lemma key_less_hd: "fst p \<noteq> [] \<Longrightarrow> fst q \<noteq> [] \<Longrightarrow> hd (fst p) < hd (fst q) \<Longrightarrow> key_less p q"
  by (cases "fst p"; cases "fst q") (simp_all add: key_less_def)

lemma tst_list_sorted: "tst_wf n \<Longrightarrow> sorted_wrt key_less (tst_list n)"
proof (induction n)
  case (TNode c s v lo eq hi)
  have eqs: "sorted_wrt key_less (map (\<lambda>(k, v). (c # k, v)) (tst_list eq))"
  proof -
    have "key_less (case p of (k, v) \<Rightarrow> (c # k, v)) (case q of (k, v) \<Rightarrow> (c # k, v))"
      if "key_less p q" for p q :: "u8 list \<times> 'a ptr"
      using that by (simp add: key_less_def case_prod_beta)
    moreover have "sorted_wrt key_less (tst_list eq)" using TNode.IH(2) TNode.prems by simp
    ultimately show ?thesis unfolding sorted_wrt_map by (metis (no_types, lifting) sorted_wrt_mono_rel)
  qed
  have lo: "key_less p q" if "p \<in> set (tst_list lo)" "fst q \<noteq> []" "c \<le> hd (fst q)" for p and q :: "u8 list \<times> 'a ptr"
    using tst_list_heads [of "fst p" "snd p" lo] that TNode.prems
    by (intro key_less_hd) (auto intro: order_less_le_trans)
  have hi: "key_less p q" if "q \<in> set (tst_list hi)" "fst p \<noteq> []" "hd (fst p) \<le> c" for q and p :: "u8 list \<times> 'a ptr"
    using tst_list_heads [of "fst q" "snd q" hi] that TNode.prems
    by (intro key_less_hd) (auto intro: order_le_less_trans)
  have ge: "fst q \<noteq> [] \<and> c \<le> hd (fst q)" if "q \<in> set (tst_list hi)" for q
    using tst_list_heads [of "fst q" "snd q" hi] that TNode.prems by auto
  have here: "key_less ([c], v) q" if q: "q \<in> set (map (\<lambda>(k, v). (c # k, v)) (tst_list eq))" for q
  proof -
    obtain k w where "(k, w) \<in> set (tst_list eq)" "q = (c # k, w)"
      using q by auto
    then show ?thesis using tst_list_heads [of k w eq] by (cases k) (auto simp: key_less_def)
  qed
  define mid where "mid = (if s then [([c], v)] else []) @ map (\<lambda>(k, v). (c # k, v)) (tst_list eq)"
  have mid: "fst q \<noteq> [] \<and> hd (fst q) = c" if "q \<in> set mid" for q
    using that by (auto simp: mid_def split: if_splits)
  have smid: "sorted_wrt key_less mid"
    unfolding mid_def using eqs here by (simp add: sorted_wrt_append)
  have split: "tst_list (TNode c s v lo eq hi) = tst_list lo @ mid @ tst_list hi"
    by (simp add: mid_def)
  have "key_less p q" if "p \<in> set (tst_list lo)" "q \<in> set mid \<union> set (tst_list hi)" for p q
    using lo [OF that(1), of q] that(2) mid [of q] ge [of q] by auto
  moreover have "key_less p q" if "p \<in> set mid" "q \<in> set (tst_list hi)" for p q
    using hi [OF that(2), of p] mid [OF that(1)] by simp
  moreover have "sorted_wrt key_less (tst_list lo)" "sorted_wrt key_less (tst_list hi)"
    using TNode by simp_all
  ultimately show ?case unfolding split sorted_wrt_append set_append using smid by blast
qed simp

lemma tst_map_heads: "tst_map n (x # k) \<noteq> None \<Longrightarrow> x \<in> tst_heads n"
  by (induction n) (auto split: if_splits)

lemma tst_list_mem: "tst_wf n \<Longrightarrow> (k, v) \<in> set (tst_list n) \<longleftrightarrow> tst_map n k = Some v"
proof (induction n arbitrary: k v)
  case (TNode c s u lo eq hi)
  have lo: "tst_map lo k = Some v \<Longrightarrow> hd k < c" for k v
    using tst_map_heads [of lo "hd k" "tl k"] TNode.prems by (cases k) auto
  have hi: "tst_map hi k = Some v \<Longrightarrow> c < hd k" for k v
    using tst_map_heads [of hi "hd k" "tl k"] TNode.prems by (cases k) auto
  have IH: "(k, v) \<in> set (tst_list lo) \<longleftrightarrow> tst_map lo k = Some v"
      "(k, v) \<in> set (tst_list eq) \<longleftrightarrow> tst_map eq k = Some v"
      "(k, v) \<in> set (tst_list hi) \<longleftrightarrow> tst_map hi k = Some v" for k v
    using TNode by auto
  have mem: "(k, v) \<in> set (tst_list (TNode c s u lo eq hi)) \<longleftrightarrow>
      tst_map lo k = Some v \<or> (s \<and> k = [c] \<and> v = u) \<or> (\<exists>k'. k = c # k' \<and> tst_map eq k' = Some v)
      \<or> tst_map hi k = Some v"
    unfolding IH [symmetric] by (force split: if_splits)
  show ?case
  proof (cases k)
    case (Cons x k')
    consider "x < c" | "x = c" | "c < x" by (meson antisym_conv3)
    then show ?thesis unfolding mem unfolding Cons
      by cases (use lo [of "x # k'" v] hi [of "x # k'" v] in \<open>auto split: if_splits\<close>)
  qed (unfold mem, simp)
qed simp

lemma key_less_irrefl: "\<not> key_less p p"
  unfolding key_less_def by (metis (mono_tags, lifting) case_prodD lexord_irreflexive mem_Collect_eq order_less_irrefl)

lemma sorted_wrt_neq_distinct: "sorted_wrt (\<lambda>a b. a \<noteq> b) xs \<Longrightarrow> distinct xs"
  by (induction xs) auto

lemma tst_list_distinct:
  assumes "tst_wf n"
  shows "distinct (map fst (tst_list n))"
proof (rule sorted_wrt_neq_distinct)
  have "fst p \<noteq> fst q" if "key_less p q" for p q :: "u8 list \<times> 'a ptr"
    using that key_less_irrefl [of p] by (auto simp: key_less_def)
  then show "sorted_wrt (\<lambda>a b. a \<noteq> b) (map fst (tst_list n))"
    unfolding sorted_wrt_map by (intro sorted_wrt_mono_rel [OF _ tst_list_sorted [OF assms]]) blast
qed

lemma tst_map_of: "tst_wf n \<Longrightarrow> tst_map n = map_of (tst_list n)"
  by (rule ext) (metis map_of_eq_None_iff map_of_is_SomeI not_None_eq tst_list_mem tst_list_distinct map_of_SomeD)

lemma dom_tst_map: "tst_wf n \<Longrightarrow> dom (tst_map n) = fst ` set (tst_list n)"
  by (simp add: tst_map_of dom_map_of_conv_image_fst)

lemma finite_dom_tst_map: "tst_wf n \<Longrightarrow> finite (dom (tst_map n))"
  by (simp add: dom_tst_map)

lemma card_dom_tst_map: "tst_wf n \<Longrightarrow> card (dom (tst_map n)) = length (tst_list n)"
  using distinct_card [OF tst_list_distinct] by (simp add: dom_tst_map)

text \<open>Destruction hands every stored value to the free callback exactly once.\<close>

lemma trie_destroy_frees_once: "mset (op_trie_destroy t True) = mset (map snd (tst_list (tr_root t)))"
proof -
  have "mset (walk_free n True) = mset (map snd (tst_list n))" for n :: "'a tnode"
    by (induction n) (simp_all add: case_prod_unfold comp_def)
  then show ?thesis by (simp add: op_trie_destroy_def)
qed

section \<open>Glob matching decides the language of the pattern\<close>

lemma cstr_text_skip_stars: "cstr_text (skip_stars s) = dropWhile (\<lambda>c. c = STAR) (cstr_text s)"
  by (induction s) (auto simp: cstr_text_def)

lemma prepend_twice: "{u @ t | u t. t \<in> {u @ t | u t. t \<in> L}} = {u @ t | u t. t \<in> L}"
proof (intro equalityI subsetI)
  fix x assume "x \<in> {u @ t | u t. t \<in> {u @ t | u t. t \<in> L}}"
  then obtain u u' t where "x = (u @ u') @ t" "t \<in> L" by auto
  then show "x \<in> {u @ t | u t. t \<in> L}" by blast
next
  fix x assume "x \<in> {u @ t | u t. t \<in> L}"
  then show "x \<in> {u @ t | u t. t \<in> {u @ t | u t. t \<in> L}}" using append_Nil by blast
qed

lemma glob_lang_stars:
  "glob_lang icase (STAR # p) = {u @ t | u t. t \<in> glob_lang icase (dropWhile (\<lambda>c. c = STAR) p)}"
proof (induction p)
  case (Cons a p)
  show ?case
  proof (cases "a = STAR")
    case True
    have "glob_lang icase (STAR # STAR # p) = {u @ t | u t. t \<in> glob_lang icase (STAR # p)}"
      by (rule glob_lang.simps(2) [THEN trans]) simp
    also have "\<dots> = {u @ t | u t. t \<in> glob_lang icase (dropWhile (\<lambda>c. c = STAR) p)}"
      unfolding Cons.IH by (rule prepend_twice)
    finally show ?thesis using True by simp
  qed simp
qed simp

lemma glob_lang_suffix_nonempty: "cbyte s \<noteq> 0 \<Longrightarrow> cbyte s \<noteq> STAR \<Longrightarrow> [] \<notin> glob_lang icase (cstr_text s)"
  by (subst cstr_text_unroll) auto

lemma suffix_split_Cons:
  "(\<exists>u t. x # s = u @ t \<and> t \<in> L) \<longleftrightarrow> x # s \<in> L \<or> (\<exists>u t. s = u @ t \<and> t \<in> L)"
  by (auto simp: Cons_eq_append_conv)

lemma glob_match_lang_aux:
  "glob_match pat str icase \<longleftrightarrow> cstr_text str \<in> glob_lang icase (cstr_text pat)"
  "cbyte pat \<noteq> 0 \<Longrightarrow> cbyte pat \<noteq> STAR \<Longrightarrow>
   glob_star pat str icase \<longleftrightarrow> (\<exists>u t. cstr_text str = u @ t \<and> t \<in> glob_lang icase (cstr_text pat))"
proof (induction pat str icase and pat str icase rule: glob_match_glob_star.induct)
  case (1 pat str icase)
  show ?case
  proof (cases "cbyte pat = STAR")
    case True
    let ?q = "skip_stars pat"
    have pat: "cstr_text pat = STAR # cstr_text (tl pat)" using True cstr_text_unroll [of pat] by simp
    have q: "cstr_text ?q = dropWhile (\<lambda>c. c = STAR) (cstr_text (tl pat))"
      unfolding cstr_text_skip_stars pat by simp
    have lang: "glob_lang icase (cstr_text pat) = {u @ t | u t. t \<in> glob_lang icase (cstr_text ?q)}"
      unfolding q unfolding pat by (rule glob_lang_stars)
    have ns: "cbyte ?q \<noteq> STAR" by (induction pat) auto
    show ?thesis
    proof (cases "cbyte ?q = 0")
      case True
      then have "cstr_text ?q = []" by (simp add: cstr_text_Nil_iff)
      then show ?thesis using \<open>cbyte pat = STAR\<close> True unfolding lang by (simp add: glob_match.simps [of pat])
    next
      case False
      have "glob_match pat str icase = glob_star ?q str icase"
        using True False by (simp add: glob_match.simps [of pat] Let_def)
      then show ?thesis using "1.IH"(1) [OF True refl False False ns] unfolding lang by simp
    qed
  next
    case ns: False
    show ?thesis
    proof (cases "cbyte pat = 0 \<or> cbyte str = 0")
      case True
      then show ?thesis using ns cstr_text_Nil_iff [of pat] cstr_text_Nil_iff [of str]
          glob_lang_suffix_nonempty [OF _ ns, of icase]
        by (auto simp: glob_match.simps [of pat])
    next
      case False
      then have t: "cstr_text pat = cbyte pat # cstr_text (tl pat)" "cstr_text str = cbyte str # cstr_text (tl str)"
        by (simp_all add: cstr_text_unroll [of pat] cstr_text_unroll [of str])
      show ?thesis
      proof (cases "cbyte pat \<noteq> QUERY \<and> trie_fold icase (cbyte pat) \<noteq> trie_fold icase (cbyte str)")
        case True
        then show ?thesis using False ns unfolding t by (auto simp: glob_match.simps [of pat])
      next
        case eq: False
        have "glob_match pat str icase = glob_match (tl pat) (tl str) icase"
          using False ns eq by (auto simp: glob_match.simps [of pat])
        then show ?thesis using "1.IH"(2) [OF ns _ _ eq] False eq ns unfolding t by auto
      qed
    qed
  qed
next
  case (2 pat str icase)
  show ?case
  proof (cases "cbyte str = 0")
    case True
    then show ?thesis using glob_lang_suffix_nonempty [OF "2.prems", of icase] cstr_text_Nil_iff [of str]
      by (simp add: glob_star.simps [of pat])
  next
    case False
    then have t: "cstr_text str = cbyte str # cstr_text (tl str)" by (simp add: cstr_text_unroll [of str])
    have "glob_star pat str icase \<longleftrightarrow> glob_match pat str icase \<or> glob_star pat (tl str) icase"
      using False by (simp add: glob_star.simps [of pat])
    also have "\<dots> \<longleftrightarrow> cstr_text str \<in> glob_lang icase (cstr_text pat)
        \<or> (\<exists>u t. cstr_text (tl str) = u @ t \<and> t \<in> glob_lang icase (cstr_text pat))"
      using "2.IH"(1) [OF False] "2.IH"(2) [OF False _ "2.prems"] by blast
    finally show ?thesis unfolding t suffix_split_Cons .
  qed
qed

lemmas glob_match_lang = glob_match_lang_aux(1)

section \<open>The enumerations visit the matching entries\<close>

abbreviation visit :: "('v, 's) trie_each \<Rightarrow> (u8 list \<times> 'v ptr) list \<Rightarrow> bool \<times> 's \<Rightarrow> bool \<times> 's" where
  "visit fn \<equiv> visit_list (\<lambda>e. fn (fst e) (snd e))"

definition ctx_ok :: "u8 list \<Rightarrow> 's each_ctx \<Rightarrow> bool" where
  "ctx_ok p ctx \<longleftrightarrow> 0 \<notin> set p \<and> length (ctx_buf ctx) = ctx_bufcap ctx \<and> ctx_buflen ctx = length p
     \<and> length p \<le> ctx_bufcap ctx \<and> take (length p) (ctx_buf ctx) = p \<and> length p < W64"

abbreviation ctx_st :: "'s each_ctx \<Rightarrow> bool \<times> 's" where
  "ctx_st ctx \<equiv> (ctx_stop ctx, ctx_ud ctx)"

lemma ctx_push_ok:
  assumes ok: "ctx_ok p ctx" and c: "c \<noteq> 0" and room: "2 * (length p + 2) < W64"
  shows "\<exists>ctx'. ctx_push c ctx = Some ctx' \<and> ctx_ok (p @ [c]) ctx' \<and> length p + 1 < ctx_bufcap ctx'
    \<and> ctx_st ctx' = ctx_st ctx"
proof -
  define cx where "cx = ensure_buf ctx (wrap64 (ctx_buflen ctx + 1))"
  have w: "wrap64 (Suc (length p)) = Suc (length p)" "wrap64 (Suc (Suc (length p))) = Suc (Suc (length p))"
      "wrap64 (Suc (Suc (Suc (Suc (length p * 2))))) = Suc (Suc (Suc (Suc (length p * 2))))"
    using room by (simp_all add: wrap64_small)
  have cx: "length (ctx_buf cx) = ctx_bufcap cx" "ctx_buflen cx = length p" "length p + 1 < ctx_bufcap cx"
      "take (length p) (ctx_buf cx) = p" "ctx_stop cx = ctx_stop ctx" "ctx_ud cx = ctx_ud ctx"
    using ok unfolding cx_def ensure_buf_def ctx_ok_def by (simp_all add: w Let_def min_def)
  have "take (length p + 1) ((ctx_buf cx)[length p := c]) = p @ [c]"
    using cx by (simp add: take_Suc_conv_app_nth)
  then show ?thesis using ok c cx room
    unfolding ctx_push_def Let_def cx_def [symmetric] by (simp add: w ctx_ok_def)
qed

lemma ctx_terminate_ok:
  assumes "ctx_ok p ctx" "length p < ctx_bufcap ctx"
  shows "\<exists>ctx'. ctx_terminate ctx = Some ctx' \<and> ctx_ok p ctx' \<and> cstr_text (ctx_buf ctx') = p
    \<and> ctx_st ctx' = ctx_st ctx"
proof -
  let ?b = "(ctx_buf ctx)[length p := 0]"
  have b: "?b = p @ 0 # drop (Suc (length p)) (ctx_buf ctx)"
    using assms upd_conv_take_nth_drop [of "length p" "ctx_buf ctx" 0] by (simp add: ctx_ok_def)
  have "cstr_text ?b = p" unfolding b using assms by (intro cstr_text_term) (simp add: ctx_ok_def)
  then show ?thesis using assms by (simp add: ctx_terminate_def ctx_ok_def)
qed

lemma ctx_pop_ok: "ctx_ok (p @ [c]) ctx \<Longrightarrow> ctx_ok p (ctx_pop ctx) \<and> ctx_st (ctx_pop ctx) = ctx_st ctx"
proof -
  assume ok: "ctx_ok (p @ [c]) ctx"
  have "take (length p) (take (Suc (length p)) (ctx_buf ctx)) = take (length p) (p @ [c])"
    using ok by (simp add: ctx_ok_def)
  then show ?thesis using ok by (simp add: ctx_ok_def ctx_pop_def sub64_le)
qed

lemma ctx_call_ok:
  assumes ok: "ctx_ok p ctx" and key: "cstr_text (ctx_buf ctx) = p" and go: "\<not> ctx_stop ctx"
  shows "ctx_ok p (snd (ctx_call fn v ctx)) \<and> fst (ctx_call fn v ctx) = (\<not> ctx_stop (snd (ctx_call fn v ctx)))
    \<and> ctx_st (snd (ctx_call fn v ctx)) = visit fn [(p, v)] (ctx_st ctx)"
  using assms by (auto simp: ctx_call_def ctx_ok_def visit_Cons visit_step_def split: prod.splits)

definition hits :: "u8 list set \<Rightarrow> u8 list \<Rightarrow> 'v tnode \<Rightarrow> (u8 list \<times> 'v ptr) list" where
  "hits L p n = filter (\<lambda>e. fst e \<in> L) (map (\<lambda>(k, v). (p @ k, v)) (tst_list n))"

lemma hits_TNull [simp]: "hits L p TNull = []"
  by (simp add: hits_def)

lemma hits_TNode:
  "hits L p (TNode c s v lo eq hi) =
     hits L p lo @ (if s \<and> p @ [c] \<in> L then [(p @ [c], v)] else []) @ hits L (p @ [c]) eq @ hits L p hi"
  by (simp add: hits_def comp_def case_prod_unfold)

lemma wildcard_report:
  assumes ok: "ctx_ok p ctx" and room: "length p < ctx_bufcap ctx" and go: "\<not> ctx_stop ctx"
  shows "\<exists>cont ctx'. (if vs then do {
               ctx \<leftarrow> ctx_terminate ctx;
               if glob_match pat (ctx_buf ctx) icase then Some (ctx_call fn v ctx)
               else Some (True, ctx) }
             else Some (True, ctx)) = Some (cont, ctx') \<and> ctx_ok p ctx' \<and> cont = (\<not> ctx_stop ctx')
      \<and> ctx_st ctx' = visit fn (if vs \<and> p \<in> glob_lang icase (cstr_text pat) then [(p, v)] else []) (ctx_st ctx)"
proof (cases vs)
  case True
  obtain c1 where c1: "ctx_terminate ctx = Some c1" "ctx_ok p c1" "cstr_text (ctx_buf c1) = p" "ctx_st c1 = ctx_st ctx"
    using ctx_terminate_ok [OF ok room] by blast
  have gm: "glob_match pat (ctx_buf c1) icase \<longleftrightarrow> p \<in> glob_lang icase (cstr_text pat)"
    unfolding glob_match_lang c1(3) ..
  obtain cont c2 where c2: "ctx_call fn v c1 = (cont, c2)" by (metis surj_pair)
  have "\<not> ctx_stop c1" using c1(4) go by simp
  then show ?thesis using True c1 gm c2 go ctx_call_ok [OF c1(2,3), of fn v]
    by (cases "p \<in> glob_lang icase (cstr_text pat)") auto
qed (use assms in auto)

lemma wildcard_each_visit:
  assumes "tst_wf n" "ctx_ok p ctx" "2 * (length p + tst_depth n + 1) < W64"
  shows "\<exists>ctx'. wildcard_each fn n pat icase ctx = Some ctx' \<and> ctx_ok p ctx'
    \<and> ctx_st ctx' = visit fn (hits (glob_lang icase (cstr_text pat)) p n) (ctx_st ctx)"
  using assms
proof (induction n arbitrary: p ctx)
  case (TNode c s v lo eq hi)
  let ?L = "glob_lang icase (cstr_text pat)"
  have wf: "c \<noteq> 0" "tst_wf lo" "tst_wf eq" "tst_wf hi" using TNode.prems(1) by simp_all
  have d: "2 * (length p + tst_depth lo + 1) < W64" "2 * (length (p @ [c]) + tst_depth eq + 1) < W64"
      "2 * (length p + tst_depth hi + 1) < W64" "2 * (length p + 2) < W64"
    using TNode.prems(3) by (simp_all add: max_def split: if_splits)
  show ?case
  proof (cases "ctx_stop ctx")
    case True
    then show ?thesis using TNode.prems by simp
  next
    case go: False
    obtain c1 where c1: "wildcard_each fn lo pat icase ctx = Some c1" "ctx_ok p c1"
        "ctx_st c1 = visit fn (hits ?L p lo) (ctx_st ctx)"
      using TNode.IH(1) [OF wf(2) TNode.prems(2) d(1)] by blast
    let ?here = "if s \<and> p @ [c] \<in> ?L then [(p @ [c], v)] else []"
    have v1: "visit fn (hits ?L p (TNode c s v lo eq hi)) (ctx_st ctx) =
        visit fn (hits ?L p hi) (visit fn (hits ?L (p @ [c]) eq) (visit fn ?here (ctx_st c1)))"
      by (simp only: hits_TNode visit_append c1(3))
    show ?thesis
    proof (cases "ctx_stop c1")
      case True
      then show ?thesis unfolding v1 using go c1(1,2) by simp
    next
      case go1: False
      obtain c2 where c2: "ctx_push c c1 = Some c2" "ctx_ok (p @ [c]) c2" "length p + 1 < ctx_bufcap c2" "ctx_st c2 = ctx_st c1"
        using ctx_push_ok [OF c1(2) wf(1) d(4)] by blast
      have r2: "length (p @ [c]) < ctx_bufcap c2" "\<not> ctx_stop c2" using c2 go1 by simp_all
      obtain cont c3 where c3: "(if s then do {
               ctx \<leftarrow> ctx_terminate c2;
               if glob_match pat (ctx_buf ctx) icase then Some (ctx_call fn v ctx)
               else Some (True, ctx) }
             else Some (True, c2)) = Some (cont, c3)" "ctx_ok (p @ [c]) c3" "cont = (\<not> ctx_stop c3)"
          "ctx_st c3 = visit fn (if s \<and> p @ [c] \<in> ?L then [(p @ [c], v)] else []) (ctx_st c2)"
        using wildcard_report [OF c2(2) r2, of s pat icase fn v] by blast
      note v3 = v1 [folded c2(4), folded c3(4)]
      show ?thesis
      proof (cases "ctx_stop c3")
        case True
        then show ?thesis unfolding v3 using go go1 c1(1) c2(1) c3(1,3) ctx_pop_ok [OF c3(2)] by simp
      next
        case go3: False
        obtain c4 where c4: "wildcard_each fn eq pat icase c3 = Some c4" "ctx_ok (p @ [c]) c4"
            "ctx_st c4 = visit fn (hits ?L (p @ [c]) eq) (ctx_st c3)"
          using TNode.IH(2) [OF wf(3) c3(2) d(2)] by blast
        have c5: "ctx_ok p (ctx_pop c4)" "ctx_st (ctx_pop c4) = ctx_st c4" using ctx_pop_ok [OF c4(2)] by auto
        show ?thesis
        proof (cases "ctx_stop c4")
          case True
          then show ?thesis unfolding v3 c4(3) [symmetric]
            using go go1 go3 c1(1) c2(1) c3(1,3) c4(1) c5 by (simp add: Let_def)
        next
          case go4: False
          obtain c6 where "wildcard_each fn hi pat icase (ctx_pop c4) = Some c6" "ctx_ok p c6"
              "ctx_st c6 = visit fn (hits ?L p hi) (ctx_st (ctx_pop c4))"
            using TNode.IH(3) [OF wf(4) c5(1) d(3)] by blast
          then show ?thesis unfolding v3 c4(3) [symmetric]
            using go go1 go3 go4 c1(1) c2(1) c3(1,3) c4(1) c5 by (simp add: Let_def)
        qed
      qed
    qed
  qed
qed simp

lemma tst_each_wildcard: "tst_each fn n ctx = wildcard_each fn n [STAR] icase ctx"
proof -
  have [simp]: "glob_match [STAR] s icase" for s by (simp add: glob_match.simps [of "[STAR]"])
  show ?thesis by (induction n arbitrary: ctx) (simp_all add: ctx_report_def Let_def cong: if_cong)
qed

lemma glob_lang_star: "glob_lang icase (cstr_text [STAR]) = UNIV"
  by (auto simp: cstr_text_def)

lemma tst_each_visit:
  assumes "tst_wf n" "ctx_ok p ctx" "2 * (length p + tst_depth n + 1) < W64"
  shows "\<exists>ctx'. tst_each fn n ctx = Some ctx' \<and> ctx_ok p ctx'
    \<and> ctx_st ctx' = visit fn (hits UNIV p n) (ctx_st ctx)"
  using wildcard_each_visit [OF assms, of fn "[STAR]" False]
  unfolding glob_lang_star tst_each_wildcard [of fn n ctx False] .

definition under :: "u8 list \<Rightarrow> u8 list set" where
  "under k = {q. take (length k) q = k}"

lemma under_append: "p @ q \<in> under (p @ k) \<longleftrightarrow> q \<in> under k"
  by (simp add: under_def)

lemma hits_none: "(\<And>k v. (k, v) \<in> set (tst_list n) \<Longrightarrow> p @ k \<notin> L) \<Longrightarrow> hits L p n = []"
  by (auto simp: hits_def filter_empty_conv)

lemma hits_all: "(\<And>k v. (k, v) \<in> set (tst_list n) \<Longrightarrow> p @ k \<in> L) \<Longrightarrow> hits L p n = hits UNIV p n"
  unfolding hits_def by (rule filter_cong) auto

lemma hits_other_head: "x \<notin> tst_heads n \<Longrightarrow> hits (under (p @ x # k)) p n = []"
proof (rule hits_none)
  fix q v assume x: "x \<notin> tst_heads n" and q: "(q, v) \<in> set (tst_list n)"
  then have "q \<noteq> []" "hd q \<noteq> x" using tst_list_heads [OF q] by auto
  then show "p @ q \<notin> under (p @ x # k)" unfolding under_append by (cases q) (auto simp: under_def)
qed

lemma hits_under_TNode:
  assumes wf: "tst_wf (TNode c s v lo eq hi)"
  shows "x < c \<Longrightarrow> hits (under (p @ x # k)) p (TNode c s v lo eq hi) = hits (under (p @ x # k)) p lo"
    and "c < x \<Longrightarrow> hits (under (p @ x # k)) p (TNode c s v lo eq hi) = hits (under (p @ x # k)) p hi"
    and "hits (under (p @ [c])) p (TNode c s v lo eq hi) = (if s then [(p @ [c], v)] else []) @ hits UNIV (p @ [c]) eq"
    and "k \<noteq> [] \<Longrightarrow> hits (under (p @ c # k)) p (TNode c s v lo eq hi) = hits (under ((p @ [c]) @ k)) (p @ [c]) eq"
proof -
  have eq: "hits (under (p @ x # k)) (p @ [c]) eq = []" if "x \<noteq> c" for x k
  proof (rule hits_none)
    fix q v show "(p @ [c]) @ q \<notin> under (p @ x # k)"
      using that unfolding append_assoc under_append by (simp add: under_def)
  qed
  have here: "p @ [c] \<in> under (p @ x # k) \<longleftrightarrow> x = c \<and> k = []" for x k
    unfolding under_append by (auto simp: under_def)
  have lo: "hits (under (p @ x # k)) p lo = []" if "c \<le> x" for x k
    using that wf by (intro hits_other_head) auto
  have hi: "hits (under (p @ x # k)) p hi = []" if "x \<le> c" for x k
    using that wf by (intro hits_other_head) auto
  show "x < c \<Longrightarrow> hits (under (p @ x # k)) p (TNode c s v lo eq hi) = hits (under (p @ x # k)) p lo"
    by (auto simp: hits_TNode here hi eq)
  show "c < x \<Longrightarrow> hits (under (p @ x # k)) p (TNode c s v lo eq hi) = hits (under (p @ x # k)) p hi"
    by (auto simp: hits_TNode here lo eq)
  have "hits (under (p @ [c])) (p @ [c]) eq = hits UNIV (p @ [c]) eq"
    by (rule hits_all) (simp add: under_def)
  then show "hits (under (p @ [c])) p (TNode c s v lo eq hi) = (if s then [(p @ [c], v)] else []) @ hits UNIV (p @ [c]) eq"
    by (simp add: hits_TNode here lo hi)
  show "k \<noteq> [] \<Longrightarrow> hits (under (p @ c # k)) p (TNode c s v lo eq hi) = hits (under ((p @ [c]) @ k)) (p @ [c]) eq"
    by (simp add: hits_TNode here lo hi)
qed

lemma report_visit:
  assumes ok: "ctx_ok p ctx" and room: "length p < ctx_bufcap ctx" and go: "\<not> ctx_stop ctx"
  shows "\<exists>cont ctx'. (if vs then ctx_report fn v ctx else Some (True, ctx)) = Some (cont, ctx') \<and> ctx_ok p ctx'
      \<and> cont = (\<not> ctx_stop ctx') \<and> ctx_st ctx' = visit fn (if vs then [(p, v)] else []) (ctx_st ctx)"
proof -
  have [simp]: "glob_match [STAR] s icase" for s icase by (simp add: glob_match.simps [of "[STAR]"])
  show ?thesis using wildcard_report [OF assms, of vs "[STAR]" False fn v]
    unfolding glob_lang_star by (simp add: ctx_report_def cong: if_cong)
qed

lemma prefix_each_visit:
  assumes "cbyte pre \<noteq> 0" "tst_wf n" "ctx_ok p ctx" "2 * (length p + tst_depth n + 1) < W64"
  shows "\<exists>ctx'. prefix_each fn n pre icase ctx = Some ctx' \<and> ctx_ok p ctx'
    \<and> ctx_st ctx' = visit fn (hits (under (p @ fkey icase pre)) p n) (ctx_st ctx)"
  using assms
proof (induction n arbitrary: p pre ctx)
  case TNull
  then show ?case by (simp add: prefix_each.simps)
next
  case (TNode c s v lo eq hi)
  let ?n = "TNode c s v lo eq hi" and ?x = "trie_fold icase (cbyte pre)"
  note step = prefix_each.simps [of fn ?n pre icase ctx]
  note k = fkey_unroll [OF TNode.prems(1), of icase]
  note hit = hits_under_TNode [OF TNode.prems(2)]
  have wf: "c \<noteq> 0" "tst_wf lo" "tst_wf eq" "tst_wf hi" using TNode.prems(2) by simp_all
  have d: "2 * (length p + tst_depth lo + 1) < W64" "2 * (length (p @ [c]) + tst_depth eq + 1) < W64"
      "2 * (length p + tst_depth hi + 1) < W64" "2 * (length p + 2) < W64"
    using TNode.prems(4) by (simp_all add: max_def split: if_splits)
  show ?case
  proof (cases "ctx_stop ctx")
    case True
    then show ?thesis using TNode.prems by (simp add: step)
  next
    case go: False
    consider "?x < c" | "c < ?x" | "?x = c" by (meson antisym_conv3)
    then show ?thesis
    proof cases
      case 1
      then show ?thesis using go TNode.IH(1) [OF TNode.prems(1) wf(2) TNode.prems(3) d(1)]
        by (simp add: step k hit(1))
    next
      case 2
      then have "\<not> ?x < c" by simp
      then show ?thesis using 2 go TNode.IH(3) [OF TNode.prems(1) wf(4) TNode.prems(3) d(3)]
        by (simp add: step k hit(2))
    next
      case 3
      obtain c2 where c2: "ctx_push c ctx = Some c2" "ctx_ok (p @ [c]) c2" "length p + 1 < ctx_bufcap c2" "ctx_st c2 = ctx_st ctx"
        using ctx_push_ok [OF TNode.prems(3) wf(1) d(4)] by blast
      have r2: "length (p @ [c]) < ctx_bufcap c2" "\<not> ctx_stop c2" using c2 go by simp_all
      show ?thesis
      proof (cases "cbyte (tl pre) = 0")
        case True
        obtain cont c3 where c3: "(if s then ctx_report fn v c2 else Some (True, c2)) = Some (cont, c3)"
            "ctx_ok (p @ [c]) c3" "cont = (\<not> ctx_stop c3)"
            "ctx_st c3 = visit fn (if s then [(p @ [c], v)] else []) (ctx_st c2)"
          using report_visit [OF c2(2) r2, of s fn v] by blast
        obtain c4 where c4: "tst_each fn eq c3 = Some c4" "ctx_ok (p @ [c]) c4"
            "ctx_st c4 = visit fn (hits UNIV (p @ [c]) eq) (ctx_st c3)"
          using tst_each_visit [OF wf(3) c3(2) d(2)] by blast
        have v: "visit fn (hits (under (p @ fkey icase pre)) p ?n) (ctx_st ctx) = ctx_st c4"
          using c2(4) c3(4) c4(3) fkey_last [OF True TNode.prems(1), of icase] 3 by (simp add: hit(3))
        show ?thesis
        proof (cases "ctx_stop c3")
          case True
          then have "ctx_st c4 = ctx_st c3" using c4(3) by simp
          then show ?thesis unfolding v
            using True go 3 \<open>cbyte (tl pre) = 0\<close> c2(1) c3(1,3) ctx_pop_ok [OF c3(2)] by (simp add: step)
        next
          case False
          then show ?thesis unfolding v
            using go 3 True c2(1) c3(1,3) c4(1) ctx_pop_ok [OF c4(2)] by (simp add: step)
        qed
      next
        case False
        obtain c4 where c4: "prefix_each fn eq (tl pre) icase c2 = Some c4" "ctx_ok (p @ [c]) c4"
            "ctx_st c4 = visit fn (hits (under ((p @ [c]) @ fkey icase (tl pre))) (p @ [c]) eq) (ctx_st c2)"
          using TNode.IH(2) [OF False wf(3) c2(2) d(2)] by blast
        have "fkey icase (tl pre) \<noteq> []" using False by (simp add: fkey_Nil_iff)
        then have "visit fn (hits (under (p @ fkey icase pre)) p ?n) (ctx_st ctx) = ctx_st c4"
          using c4(3) c2(4) by (simp add: k 3 hit(4))
        then show ?thesis using go 3 False c2(1) c4(1) ctx_pop_ok [OF c4(2)] by (simp add: step)
      qed
    qed
  qed
qed

section \<open>Client-level behaviour\<close>

datatype 'v trie_req =
    TSet "cstr ptr" "'v ptr" | TDel "cstr ptr" | TGet "cstr ptr" | THas "cstr ptr" | TCount

datatype 'v trie_resp = TRSet int "'v ptr" | TRVal "'v ptr" | TRBool bool | TRCount nat

fun trie_step :: "'v op_trie \<Rightarrow> 'v trie_req \<Rightarrow> 'v trie_resp \<times> 'v op_trie" where
  "trie_step t (TSet k v) = (case op_trie_set t k v NULL of (r, ov, t') \<Rightarrow> (TRSet r ov, t'))"
| "trie_step t (TDel k) = (case op_trie_del t k of (v, t') \<Rightarrow> (TRVal v, t'))"
| "trie_step t (TGet k) = (TRVal (op_trie_get t k), t)"
| "trie_step t (THas k) = (TRBool (op_trie_has t k), t)"
| "trie_step t TCount = (TRCount (op_trie_count t), t)"

fun trie_run :: "'v op_trie \<Rightarrow> 'v trie_req list \<Rightarrow> 'v trie_resp list \<times> 'v op_trie" where
  "trie_run t [] = ([], t)"
| "trie_run t (r # rs) =
     (case trie_step t r of (out, t') \<Rightarrow> case trie_run t' rs of (outs, t'') \<Rightarrow> (out # outs, t''))"

definition trie_key_of :: "bool \<Rightarrow> cstr ptr \<Rightarrow> u8 list" where
  "trie_key_of icase k = (case k of None \<Rightarrow> [] | Some s \<Rightarrow> fkey icase s)"

fun tmap_step :: "bool \<Rightarrow> (u8 list \<rightharpoonup> 'v ptr) \<Rightarrow> 'v trie_req \<Rightarrow> 'v trie_resp \<times> (u8 list \<rightharpoonup> 'v ptr)" where
  "tmap_step icase m (TSet k v) =
     (let q = trie_key_of icase k in
      if q = [] then (TRSet (-1) NULL, m)
      else (TRSet (if m q = None then 1 else 0) (old_of (m q)), m(q \<mapsto> v)))"
| "tmap_step icase m (TDel k) = (let q = trie_key_of icase k in (TRVal (old_of (m q)), m(q := None)))"
| "tmap_step icase m (TGet k) = (TRVal (old_of (m (trie_key_of icase k))), m)"
| "tmap_step icase m (THas k) = (TRBool (m (trie_key_of icase k) \<noteq> None), m)"
| "tmap_step icase m TCount = (TRCount (wrap64 (card (dom m))), m)"

fun tmap_run :: "bool \<Rightarrow> (u8 list \<rightharpoonup> 'v ptr) \<Rightarrow> 'v trie_req list \<Rightarrow> 'v trie_resp list \<times> (u8 list \<rightharpoonup> 'v ptr)" where
  "tmap_run icase m [] = ([], m)"
| "tmap_run icase m (r # rs) =
     (case tmap_step icase m r of (out, m') \<Rightarrow> case tmap_run icase m' rs of (outs, m'') \<Rightarrow> (out # outs, m''))"

lemma trie_key_of_simps [simp]: "trie_key_of icase None = []" "trie_key_of icase (Some s) = fkey icase s"
  by (simp_all add: trie_key_of_def)

lemma fkey_nonzero: "0 \<notin> set (fkey icase s)"
  using cstr_text_nonzero [of s] by (auto simp: fkey_def)

lemma trie_map_Nil [simp]: "trie_map t [] = None"
  by (simp add: trie_map_def)

lemma finite_dom_trie_map: "trie_inv t \<Longrightarrow> finite (dom (trie_map t))"
  by (simp add: trie_inv_def trie_map_def finite_dom_tst_map)

lemma trie_get_map: "op_trie_get t k = old_of (trie_map t (trie_key_of (tr_icase t) k))"
  by (cases k) (auto simp: op_trie_get_def trie_map_def find_node_map Let_def fkey_Nil_iff [THEN iffD2])

lemma trie_has_map: "op_trie_has t k \<longleftrightarrow> trie_map t (trie_key_of (tr_icase t) k) \<noteq> None"
  by (cases k) (auto simp: op_trie_has_def trie_map_def find_node_map Let_def fkey_Nil_iff [THEN iffD2])

lemma trie_set_map:
  assumes inv: "trie_inv t" and q: "trie_key_of (tr_icase t) k = q" "q \<noteq> []"
  shows "\<exists>t'. op_trie_set t k v ov = ((if trie_map t q = None then 1 else 0), old_of (trie_map t q), t')
    \<and> trie_inv t' \<and> trie_map t' = (trie_map t)(q \<mapsto> v) \<and> tr_icase t' = tr_icase t"
proof -
  obtain s where s: "k = Some s" "fkey (tr_icase t) s = q" using q by (cases k) auto
  have nz: "cbyte s \<noteq> 0" using q(2) s(2) fkey_Nil_iff by metis
  obtain n o' w where r: "trie_insert (tr_root t) s (tr_icase t) v ov 0 = (n, o', w)" by (metis prod_cases3)
  have spec: "tst_map n = (trie_map t)(q \<mapsto> v)" "o' = old_of (trie_map t q)" "w = (if trie_map t q = None then 1 else 0)"
      "tst_wf n"
    using trie_insert_spec [OF nz, of "tr_root t" "tr_icase t" v ov 0] inv fkey_nonzero [of "tr_icase t" s] s(2)
    by (auto simp: insert_spec_def r trie_map_def trie_inv_def)
  show ?thesis using inv finite_dom_trie_map [OF inv] s nz r spec
    by (auto simp: op_trie_set_def trie_inv_def trie_map_def card_insert_if wrap64_Suc [simplified] insert_absorb domI)
qed

lemma trie_del_map:
  assumes inv: "trie_inv t" and q: "trie_key_of (tr_icase t) k = q"
  shows "\<exists>t'. op_trie_del t k = (old_of (trie_map t q), t')
    \<and> trie_inv t' \<and> trie_map t' = (trie_map t)(q := None) \<and> tr_icase t' = tr_icase t"
proof (cases "q = []")
  case True
  then have "op_trie_del t k = (NULL, t)"
    using q by (cases k) (auto simp: op_trie_del_def fkey_Nil_iff)
  then show ?thesis using inv True by (simp add: fun_upd_idem)
next
  case False
  obtain s where s: "k = Some s" "fkey (tr_icase t) s = q" using q False by (cases k) auto
  have nz: "cbyte s \<noteq> 0" using False s(2) fkey_Nil_iff by metis
  obtain n r' f where r: "do_del (tr_root t) s (tr_icase t) NULL False = (n, r', f)" by (metis prod_cases3)
  have spec: "tst_map n = (trie_map t)(q := None)" "r' = old_of (trie_map t q)" "f = (trie_map t q \<noteq> None)" "tst_wf n"
    using do_del_spec [OF nz, of "tr_root t" "tr_icase t" NULL False] inv s(2)
    by (auto simp: del_spec_def r trie_map_def trie_inv_def old_of_def)
  have dom_same: "trie_map t q = None \<Longrightarrow> dom (trie_map t) - {q} = dom (trie_map t)" by auto
  have "0 < card (dom (trie_map t))" if "q \<in> dom (trie_map t)"
    using that finite_dom_trie_map [OF inv] card_gt_0_iff by blast
  then have "trie_inv (t\<lparr>tr_root := n, tr_count := (if f then sub64 (tr_count t) 1 else tr_count t)\<rparr>)"
    using inv spec finite_dom_trie_map [OF inv] dom_same
    by (auto simp: trie_inv_def trie_map_def sub64_wrap64 [simplified] domI)
  then show ?thesis using s nz r spec by (auto simp: op_trie_del_def trie_map_def)
qed

lemma trie_step_map:
  assumes inv: "trie_inv t"
  shows "\<exists>t'. trie_step t r = (fst (tmap_step (tr_icase t) (trie_map t) r), t') \<and> trie_inv t'
    \<and> trie_map t' = snd (tmap_step (tr_icase t) (trie_map t) r) \<and> tr_icase t' = tr_icase t"
proof (cases r)
  case (TSet k v)
  show ?thesis
  proof (cases "trie_key_of (tr_icase t) k = []")
    case True
    then have "op_trie_set t k v NULL = (-1, NULL, t)"
      by (cases k) (auto simp: op_trie_set_def fkey_Nil_iff)
    then show ?thesis using inv True TSet by simp
  next
    case False
    then show ?thesis using trie_set_map [OF inv refl False, of v NULL] TSet by (auto simp: Let_def)
  qed
next
  case (TDel k)
  then show ?thesis using trie_del_map [OF inv refl, of k] by (auto simp: Let_def)
next
  case TCount
  then show ?thesis using inv by (simp add: op_trie_count_def trie_inv_def)
qed (use inv in \<open>simp_all add: trie_get_map trie_has_map\<close>)

lemma trie_run_map:
  "trie_inv t \<Longrightarrow> \<exists>t'. trie_run t rs = (fst (tmap_run (tr_icase t) (trie_map t) rs), t') \<and> trie_inv t'
    \<and> trie_map t' = snd (tmap_run (tr_icase t) (trie_map t) rs) \<and> tr_icase t' = tr_icase t"
proof (induction rs arbitrary: t)
  case (Cons r rs)
  obtain t1 where t1: "trie_step t r = (fst (tmap_step (tr_icase t) (trie_map t) r), t1)" "trie_inv t1"
      "trie_map t1 = snd (tmap_step (tr_icase t) (trie_map t) r)" "tr_icase t1 = tr_icase t"
    using trie_step_map [OF Cons.prems] by blast
  show ?case using Cons.IH [OF t1(2)] t1 by (auto split: prod.splits)
qed simp

lemma trie_create_inv: "trie_inv (op_trie_create name icase)" "trie_map (op_trie_create name icase) = Map.empty"
  by (simp_all add: trie_inv_def trie_map_def op_trie_create_def fun_eq_iff dom_def wrap64_def)

lemma tst_list_nonempty: "tst_wf n \<Longrightarrow> n \<noteq> TNull \<Longrightarrow> tst_list n \<noteq> []"
  by (induction n) auto

lemma tst_depth_le:
  assumes "tst_wf n" "\<forall>(k, v)\<in>set (tst_list n). length k \<le> d"
  shows "tst_depth n \<le> d"
  using assms
proof (induction n arbitrary: d)
  case (TNode c s v lo eq hi)
  obtain k w where "(k, w) \<in> set (tst_list (TNode c s v lo eq hi))"
    using tst_list_nonempty [OF TNode.prems(1)] by (metis list.set_intros(1) neq_Nil_conv surj_pair tnode.distinct(2))
  then have "k \<noteq> []" "length k \<le> d" using tst_list_heads TNode.prems(2) by fast+
  then have d: "0 < d" by (cases k) simp_all
  have wf: "tst_wf lo" "tst_wf eq" "tst_wf hi" using TNode.prems(1) by simp_all
  have le: "\<forall>(k, v)\<in>set (tst_list lo). length k \<le> d" "\<forall>(k, v)\<in>set (tst_list hi). length k \<le> d"
    using TNode.prems(2) by auto
  have "length k \<le> d - 1" if "(k, w) \<in> set (tst_list eq)" for k w
  proof -
    have "(c # k, w) \<in> set (tst_list (TNode c s v lo eq hi))" using that by force
    then show ?thesis using TNode.prems(2) by fastforce
  qed
  then have le3: "\<forall>(k, v)\<in>set (tst_list eq). length k \<le> d - 1" by blast
  show ?case
    using TNode.IH(1) [OF wf(1) le(1)] TNode.IH(2) [OF wf(2) le3] TNode.IH(3) [OF wf(3) le(2)] d by simp
qed simp

definition trie_keys_fit :: "'v op_trie \<Rightarrow> bool" where
  "trie_keys_fit t \<longleftrightarrow> (\<forall>k\<in>dom (trie_map t). 2 * (length k + 1) < W64)"

lemma trie_depth_fits:
  assumes inv: "trie_inv t" and fit: "trie_keys_fit t"
  shows "2 * (length [] + tst_depth (tr_root t) + 1) < W64"
proof -
  have wf: "tst_wf (tr_root t)" using inv by (simp add: trie_inv_def)
  have "length k \<le> (W64 - 3) div 2" if "(k, v) \<in> set (tst_list (tr_root t))" for k v
  proof -
    have "k \<in> dom (trie_map t)" using that tst_list_mem [OF wf, of k v] by (auto simp: trie_map_def)
    then have "2 * (length k + 1) < W64" using fit by (auto simp: trie_keys_fit_def)
    then have "length k * 2 \<le> W64 - 3" by simp
    then show ?thesis by (simp add: less_eq_div_iff_mult_less_eq)
  qed
  then have "tst_depth (tr_root t) \<le> (W64 - 3) div 2" using tst_depth_le [OF wf] by blast
  moreover have "3 < W64" by (simp add: W64_def)
  ultimately show ?thesis by simp
qed

lemma ctx_ok_start: "ctx_ok [] (each_start ud)"
  by (simp add: ctx_ok_def each_start_def)

lemma visit_result:
  assumes "\<exists>ctx'. w = Some ctx' \<and> ctx_ok p ctx' \<and> ctx_st ctx' = visit fn xs (ctx_st (each_start ud))"
  shows "map_option ctx_ud w = Some (snd (visit fn xs (False, ud)))"
proof -
  obtain ctx' where "w = Some ctx'" "ctx_st ctx' = visit fn xs (False, ud)"
    using assms by (auto simp: each_start_def)
  then show ?thesis by (metis option.simps(9) snd_conv)
qed

lemma hits_entries:
  assumes wf: "tst_wf n"
  shows "sorted_wrt key_less (hits L [] n)" "set (hits L [] n) = {(k, v). tst_map n k = Some v \<and> k \<in> L}"
proof -
  have h: "hits L [] n = filter (\<lambda>e. fst e \<in> L) (tst_list n)" by (simp add: hits_def)
  show "sorted_wrt key_less (hits L [] n)"
    unfolding h by (rule sorted_wrt_filter [OF tst_list_sorted [OF wf]])
  show "set (hits L [] n) = {(k, v). tst_map n k = Some v \<and> k \<in> L}"
    unfolding h by (auto simp: tst_list_mem [OF wf])
qed

lemma under_Nil [simp]: "under [] = UNIV"
  by (simp add: under_def)

lemma trie_prefix_hits:
  assumes inv: "trie_inv t" and fit: "trie_keys_fit t"
  shows "op_trie_prefix t p fn ud =
    Some (snd (visit fn (hits (under (trie_key_of (tr_icase t) p)) [] (tr_root t)) (False, ud)))"
proof -
  have wf: "tst_wf (tr_root t)" using inv by (simp add: trie_inv_def)
  note st = wf ctx_ok_start [of ud] trie_depth_fits [OF assms]
  have all: "op_trie_foreach t fn ud = Some (snd (visit fn (hits UNIV [] (tr_root t)) (False, ud)))"
    unfolding op_trie_foreach_def by (rule visit_result [OF tst_each_visit [OF st]])
  show ?thesis
  proof (cases "trie_key_of (tr_icase t) p = []")
    case True
    then have "op_trie_prefix t p fn ud = op_trie_foreach t fn ud"
      by (cases p) (simp_all add: op_trie_prefix_def fkey_Nil_iff)
    then show ?thesis using all True by simp
  next
    case False
    then obtain s where s: "p = Some s" "cbyte s \<noteq> 0" by (cases p) (auto simp: fkey_Nil_iff)
    show ?thesis using visit_result [OF prefix_each_visit [OF s(2) st, of fn "tr_icase t"]] s
      by (simp add: op_trie_prefix_def)
  qed
qed

section \<open>Properties\<close>

text \<open>
  C7. Any sequence of set, delete, get, has and count calls on a new trie answers exactly as
  a finite map over folded keys: an empty or null key is refused with -1, a set reports
  whether the key was new and the value it replaced, the count is the number of keys modulo
  \<^verbatim>\<open>2^64\<close>.  The trie stays well formed, and pruning leaves no dead node: the root is null
  exactly when no key is stored.
\<close>

theorem trie_refines_map:
  "\<exists>t. trie_run (op_trie_create name icase) rs = (fst (tmap_run icase Map.empty rs), t)
     \<and> trie_map t = snd (tmap_run icase Map.empty rs) \<and> trie_inv t
     \<and> (tr_root t = TNull \<longleftrightarrow> trie_map t = Map.empty)"
proof -
  let ?t0 = "op_trie_create name icase :: 'a op_trie"
  have ic: "tr_icase ?t0 = icase" by (simp add: op_trie_create_def)
  obtain t where t: "trie_run ?t0 rs = (fst (tmap_run icase Map.empty rs), t)" "trie_inv t"
      "trie_map t = snd (tmap_run icase Map.empty rs)"
    using trie_run_map [OF trie_create_inv(1), of name icase rs] unfolding trie_create_inv(2) ic by blast
  have wf: "tst_wf (tr_root t)" using t(2) by (simp add: trie_inv_def)
  have "tr_root t = TNull \<longleftrightarrow> trie_map t = Map.empty"
    using tst_list_nonempty [OF wf] dom_tst_map [OF wf] unfolding trie_map_def by (cases "tr_root t") auto
  then show ?thesis using t by blast
qed

text \<open>
  C31. Prefix enumeration calls the callback on exactly the entries whose key starts with the
  folded prefix, in strictly increasing lexicographic order, until the callback asks to
  stop; a null or empty prefix enumerates the whole trie.  The key buffer grows in time, so
  no byte is written outside it.
\<close>

theorem trie_prefix_correct:
  assumes "trie_inv t" "trie_keys_fit t"
  shows "\<exists>xs. op_trie_prefix t p fn ud = Some (snd (visit fn xs (False, ud)))
    \<and> sorted_wrt key_less xs
    \<and> set xs = {(k, v). trie_map t k = Some v \<and> take (length (trie_key_of (tr_icase t) p)) k = trie_key_of (tr_icase t) p}"
proof -
  have wf: "tst_wf (tr_root t)" using assms(1) by (simp add: trie_inv_def)
  show ?thesis using hits_entries [OF wf, of "under (trie_key_of (tr_icase t) p)"]
    unfolding trie_prefix_hits [OF assms] trie_map_def under_def by auto
qed

text \<open>
  C32. Wildcard enumeration calls the callback on exactly the entries whose key belongs to the
  language of the glob pattern (\<^verbatim>\<open>*\<close> any sequence, \<^verbatim>\<open>?\<close> one byte, other bytes up to case folding),
  in strictly increasing lexicographic order, until the callback asks to stop.
\<close>

theorem trie_wildcard_correct:
  assumes "trie_inv t" "trie_keys_fit t"
  shows "\<exists>xs. op_trie_wildcard t (Some pat) fn ud = Some (snd (visit fn xs (False, ud)))
    \<and> sorted_wrt key_less xs
    \<and> set xs = {(k, v). trie_map t k = Some v \<and> k \<in> glob_lang (tr_icase t) (cstr_text pat)}"
proof -
  have wf: "tst_wf (tr_root t)" using assms(1) by (simp add: trie_inv_def)
  show ?thesis
    using visit_result [OF wildcard_each_visit [OF wf ctx_ok_start trie_depth_fits [OF assms], of fn pat "tr_icase t" ud]]
      hits_entries [OF wf, of "glob_lang (tr_icase t) (cstr_text pat)"]
    unfolding op_trie_wildcard_def trie_map_def option.case by blast
qed

definition sample_trie :: "nat op_trie" where
  "sample_trie = snd (trie_run (op_trie_create [] True)
     [TSet (Some [0x41, 0x62]) (Some 1), TSet (Some [0x61]) (Some 2), TSet (Some [0x63]) (Some 3)])"

lemma sample_trie_ok: "trie_inv sample_trie \<and> trie_keys_fit sample_trie"
proof -
  let ?rs = "[TSet (Some [0x41, 0x62]) (Some 1), TSet (Some [0x61]) (Some 2), TSet (Some [0x63]) (Some 3)] :: nat trie_req list"
  obtain t where t: "trie_run (op_trie_create [] True) ?rs = (fst (tmap_run True Map.empty ?rs), t)" "trie_inv t"
      "trie_map t = snd (tmap_run True Map.empty ?rs)"
    using trie_run_map [OF trie_create_inv(1), of "[]" True ?rs] unfolding trie_create_inv(2)
    by (auto simp: op_trie_create_def)
  have m: "trie_map t = [[0x61, 0x62] \<mapsto> Some 1, [0x61] \<mapsto> Some 2, [0x63] \<mapsto> Some 3]"
    unfolding t(3) by (simp add: fkey_def cstr_text_def trie_fold_def c_tolower_def)
  show ?thesis using t(1,2) m by (auto simp: sample_trie_def trie_keys_fit_def W64_def)
qed

theorem trie_prefix_correct_witness:
  "\<exists>xs. op_trie_prefix sample_trie (Some [0x41]) (\<lambda>k v n. (True, n + 1)) (0::nat)
       = Some (snd (visit (\<lambda>k v n. (True, n + 1)) xs (False, 0)))
    \<and> sorted_wrt key_less xs
    \<and> set xs = {(k, v). trie_map sample_trie k = Some v
         \<and> take (length (trie_key_of (tr_icase sample_trie) (Some [0x41]))) k = trie_key_of (tr_icase sample_trie) (Some [0x41])}"
  using trie_prefix_correct [of sample_trie "Some [0x41]" "\<lambda>k v n. (True, n + 1)" "0::nat"] sample_trie_ok by blast

theorem trie_wildcard_correct_witness:
  "\<exists>xs. op_trie_wildcard sample_trie (Some [STAR, 0x62]) (\<lambda>k v n. (True, n + 1)) (0::nat)
       = Some (snd (visit (\<lambda>k v n. (True, n + 1)) xs (False, 0)))
    \<and> sorted_wrt key_less xs
    \<and> set xs = {(k, v). trie_map sample_trie k = Some v
         \<and> k \<in> glob_lang (tr_icase sample_trie) (cstr_text [STAR, 0x62])}"
  using trie_wildcard_correct [of sample_trie "[STAR, 0x62]" "\<lambda>k v n. (True, n + 1)" "0::nat"] sample_trie_ok by blast

end
