(* ===== verification/Cidr.thy ===== *)
theory Cidr
  imports Libop_Prelude "HOL-Library.Monad_Syntax"
begin

unbundle bit_operations_syntax

text \<open>
  The IPv4/IPv6 prefix table of \<^verbatim>\<open>src/cidr_tbl.c\<close>: two binary tries indexed by the address
  bits, most significant first.  A shift by a negative amount or a read past an IPv6 address
  makes the model undefined (\<open>None\<close>).  The theorems relate the tries to tables keyed by prefix
  length and network number: insertion, deletion, match-any and longest-prefix match answer as
  those tables do, and the enumerations visit every stored prefix once.
\<close>

section \<open>Addresses and their bits\<close>

text \<open>
  An IPv4 address is the 32-bit word \<^verbatim>\<open>s_addr\<close> in network byte order, on a little-endian
  host the byte-swapped value; an IPv6 address is an array of sixteen bytes.  The constructor
  plays the part of the \<^verbatim>\<open>af\<close> argument.
\<close>

datatype ip_addr = InAddr u32 | In6Addr "u8 list"

datatype af = AF_INET | AF_INET6

definition ntohl :: "u32 \<Rightarrow> u32" where
  "ntohl x = push_bit 24 (take_bit 8 x) OR push_bit 16 (take_bit 8 (drop_bit 8 x))
     OR push_bit 8 (take_bit 8 (drop_bit 16 x)) OR take_bit 8 (drop_bit 24 x)"

abbreviation htonl :: "u32 \<Rightarrow> u32" where
  "htonl \<equiv> ntohl"

definition bit4 :: "u32 \<Rightarrow> nat \<Rightarrow> bool option" where
  "bit4 s_addr depth =
     (if depth \<le> 31 then Some (drop_bit (31 - depth) (ntohl s_addr) AND 1 \<noteq> 0) else None)"

definition bit6 :: "u8 list \<Rightarrow> nat \<Rightarrow> bool option" where
  "bit6 b depth = do { x \<leftarrow> arr_get b (depth div 8); Some (drop_bit (7 - depth mod 8) x AND 1 \<noteq> 0) }"

fun addr_bit :: "ip_addr \<Rightarrow> nat \<Rightarrow> bool option" where
  "addr_bit (InAddr s) depth = bit4 s depth"
| "addr_bit (In6Addr b) depth = bit6 b depth"

section \<open>The tries\<close>

datatype 'v cidr_node = CNull | CNode (c_data: "'v ptr") (ch0: "'v cidr_node") (ch1: "'v cidr_node")

record 'v op_cidr_tbl =
  root4 :: "'v cidr_node"
  root6 :: "'v cidr_node"
  count4 :: nat
  count6 :: nat
  cidr_name :: string

definition node_alloc :: "'v cidr_node" where
  "node_alloc = CNode NULL CNull CNull"

text \<open>
  \<open>trie_set_from n addr i k\<close> is the loop of \<^verbatim>\<open>trie_set\<close> at bit \<open>i\<close> with \<open>k\<close> bits to go, entered
  with the pointer to the current node; a missing node is allocated on entry.
\<close>

fun trie_set_from ::
  "'v cidr_node \<Rightarrow> ip_addr \<Rightarrow> nat \<Rightarrow> nat \<Rightarrow> 'v ptr \<Rightarrow> ('v cidr_node \<times> bool \<times> 'v ptr) option" where
  "trie_set_from n addr i k val =
     (case (if n = CNull then node_alloc else n) of
        CNull \<Rightarrow> None
      | CNode d l r \<Rightarrow>
          (case k of
             0 \<Rightarrow> Some (CNode val l r, d = NULL, d)
           | Suc k' \<Rightarrow> do {
               b \<leftarrow> addr_bit addr i;
               if b then do { (r', w, od) \<leftarrow> trie_set_from r addr (Suc i) k' val; Some (CNode d l r', w, od) }
               else do { (l', w, od) \<leftarrow> trie_set_from l addr (Suc i) k' val; Some (CNode d l' r, w, od) } }))"

definition trie_set :: "'v cidr_node \<Rightarrow> ip_addr \<Rightarrow> int \<Rightarrow> 'v ptr \<Rightarrow> ('v cidr_node \<times> bool \<times> 'v ptr) option" where
  "trie_set root addr plen val = trie_set_from root addr 0 (nat plen) val"

text \<open>\<open>trie_del_from\<close> returns the node and the old data; a missing child ends the walk.\<close>

fun trie_del_from :: "'v cidr_node \<Rightarrow> ip_addr \<Rightarrow> nat \<Rightarrow> nat \<Rightarrow> ('v cidr_node \<times> 'v ptr) option" where
  "trie_del_from CNull addr i k = Some (CNull, NULL)"
| "trie_del_from (CNode d l r) addr i 0 = Some (CNode NULL l r, d)"
| "trie_del_from (CNode d l r) addr i (Suc k) = do {
     b \<leftarrow> addr_bit addr i;
     if b then do { (r', od) \<leftarrow> trie_del_from r addr (Suc i) k; Some (CNode d l r', od) }
     else do { (l', od) \<leftarrow> trie_del_from l addr (Suc i) k; Some (CNode d l' r, od) } }"

definition trie_del :: "'v cidr_node \<Rightarrow> ip_addr \<Rightarrow> int \<Rightarrow> ('v cidr_node \<times> 'v ptr) option" where
  "trie_del root addr plen = trie_del_from root addr 0 (nat plen)"

fun trie_match_from :: "'v cidr_node \<Rightarrow> ip_addr \<Rightarrow> nat \<Rightarrow> nat \<Rightarrow> 'v ptr option" where
  "trie_match_from CNull addr i k = Some NULL"
| "trie_match_from (CNode d l r) addr i k =
     (if d \<noteq> NULL then Some d
      else case k of
        0 \<Rightarrow> Some NULL
      | Suc k' \<Rightarrow> do { b \<leftarrow> addr_bit addr i; trie_match_from (if b then r else l) addr (Suc i) k' })"

definition trie_match_any :: "'v cidr_node \<Rightarrow> ip_addr \<Rightarrow> nat \<Rightarrow> 'v ptr option" where
  "trie_match_any root addr maxdepth = trie_match_from root addr 0 maxdepth"

fun trie_lpm_from :: "'v cidr_node \<Rightarrow> ip_addr \<Rightarrow> nat \<Rightarrow> nat \<Rightarrow> 'v ptr \<Rightarrow> 'v ptr option" where
  "trie_lpm_from CNull addr i k best = Some best"
| "trie_lpm_from (CNode d l r) addr i k best =
     (let best = (if d \<noteq> NULL then d else best) in
      case k of
        0 \<Rightarrow> Some best
      | Suc k' \<Rightarrow> do { b \<leftarrow> addr_bit addr i; trie_lpm_from (if b then r else l) addr (Suc i) k' best })"

definition trie_lpm :: "'v cidr_node \<Rightarrow> ip_addr \<Rightarrow> nat \<Rightarrow> 'v ptr option" where
  "trie_lpm root addr maxdepth = trie_lpm_from root addr 0 maxdepth NULL"

section \<open>Enumeration\<close>

type_synonym ('v, 's) cidr_each = "ip_addr \<Rightarrow> nat \<Rightarrow> 'v ptr \<Rightarrow> 's \<Rightarrow> bool \<times> 's"

record 's cidr_ctx =
  cc_ud :: 's
  cc_ss :: ip_addr
  cc_stop :: bool

fun set_addr_bit :: "'s cidr_ctx \<Rightarrow> nat \<Rightarrow> bool \<Rightarrow> 's cidr_ctx option" where
  "set_addr_bit ctx depth b =
     (case cc_ss ctx of
        InAddr s \<Rightarrow>
          if depth \<le> 31 then
            let host = ntohl s;
                host = (if b then host OR push_bit (31 - depth) 1 else host AND NOT (push_bit (31 - depth) 1))
            in Some (ctx\<lparr>cc_ss := InAddr (htonl host)\<rparr>)
          else None
      | In6Addr bs \<Rightarrow> do {
          x \<leftarrow> arr_get bs (depth div 8);
          let sh = 7 - depth mod 8;
              y = (if b then x OR push_bit sh 1 else x AND NOT (push_bit sh 1)) in do {
            bs' \<leftarrow> arr_set bs (depth div 8) y;
            Some (ctx\<lparr>cc_ss := In6Addr bs'\<rparr>) } })"

fun clr_addr_bit :: "'s cidr_ctx \<Rightarrow> nat \<Rightarrow> 's cidr_ctx option" where
  "clr_addr_bit ctx depth =
     (case cc_ss ctx of
        InAddr s \<Rightarrow>
          if depth \<le> 31 then
            let host = ntohl s; host = host AND NOT (push_bit (31 - depth) 1)
            in Some (ctx\<lparr>cc_ss := InAddr (htonl host)\<rparr>)
          else None
      | In6Addr bs \<Rightarrow> do {
          x \<leftarrow> arr_get bs (depth div 8);
          let y = x AND NOT (push_bit (7 - depth mod 8) 1) in do {
            bs' \<leftarrow> arr_set bs (depth div 8) y;
            Some (ctx\<lparr>cc_ss := In6Addr bs'\<rparr>) } })"

text \<open>The loop over the two children is written out; a stop set by the first skips the second.\<close>

fun trie_foreach :: "('v, 's) cidr_each \<Rightarrow> 'v cidr_node \<Rightarrow> 's cidr_ctx \<Rightarrow> nat \<Rightarrow> 's cidr_ctx option" where
  "trie_foreach fn CNull ctx depth = Some ctx"
| "trie_foreach fn (CNode d l r) ctx depth =
     (if cc_stop ctx then Some ctx else
      let (cont, ctx) =
        (if d \<noteq> NULL then
           (case fn (cc_ss ctx) depth d (cc_ud ctx) of (c, ud) \<Rightarrow> (c, ctx\<lparr>cc_ud := ud, cc_stop := \<not> c\<rparr>))
         else (True, ctx)) in
      if \<not> cont then Some ctx else do {
        ctx \<leftarrow> (if l = CNull then Some ctx else do {
          ctx \<leftarrow> set_addr_bit ctx depth False;
          ctx \<leftarrow> trie_foreach fn l ctx (Suc depth);
          clr_addr_bit ctx depth });
        if cc_stop ctx then Some ctx
        else if r = CNull then Some ctx
        else do {
          ctx \<leftarrow> set_addr_bit ctx depth True;
          ctx \<leftarrow> trie_foreach fn r ctx (Suc depth);
          clr_addr_bit ctx depth } })"

fun walk_vals :: "'v cidr_node \<Rightarrow> bool \<Rightarrow> 'v list" where
  "walk_vals CNull fn = []"
| "walk_vals (CNode d l r) fn =
     (case d of Some v \<Rightarrow> if fn then [v] else [] | None \<Rightarrow> []) @ walk_vals l fn @ walk_vals r fn"

section \<open>The public operations\<close>

definition op_cidr_create :: "string \<Rightarrow> 'v op_cidr_tbl" where
  "op_cidr_create name =
     \<lparr>root4 = CNull, root6 = CNull, count4 = 0, count6 = 0, cidr_name = name\<rparr>"

definition op_cidr_destroy :: "'v op_cidr_tbl \<Rightarrow> bool \<Rightarrow> 'v list" where
  "op_cidr_destroy t free_fn = (if free_fn then walk_vals (root4 t) free_fn @ walk_vals (root6 t) free_fn else [])"

definition op_cidr_set4 ::
  "'v op_cidr_tbl \<Rightarrow> u32 \<Rightarrow> int \<Rightarrow> 'v ptr \<Rightarrow> 'v ptr \<Rightarrow> (int \<times> 'v ptr \<times> 'v op_cidr_tbl) option" where
  "op_cidr_set4 t addr plen val old_val =
     (if plen < 0 \<or> plen > 32 then Some (-1, old_val, t)
      else do { (root, r, od) \<leftarrow> trie_set (root4 t) (InAddr addr) plen val;
                Some (of_bool r, od,
                  t\<lparr>root4 := root, count4 := (if r then wrap64 (count4 t + 1) else count4 t)\<rparr>) })"

definition op_cidr_set6 ::
  "'v op_cidr_tbl \<Rightarrow> u8 list \<Rightarrow> int \<Rightarrow> 'v ptr \<Rightarrow> 'v ptr \<Rightarrow> (int \<times> 'v ptr \<times> 'v op_cidr_tbl) option" where
  "op_cidr_set6 t addr plen val old_val =
     (if plen < 0 \<or> plen > 128 then Some (-1, old_val, t)
      else do { (root, r, od) \<leftarrow> trie_set (root6 t) (In6Addr addr) plen val;
                Some (of_bool r, od,
                  t\<lparr>root6 := root, count6 := (if r then wrap64 (count6 t + 1) else count6 t)\<rparr>) })"

definition op_cidr_del4 :: "'v op_cidr_tbl \<Rightarrow> u32 \<Rightarrow> int \<Rightarrow> ('v ptr \<times> 'v op_cidr_tbl) option" where
  "op_cidr_del4 t addr plen =
     do { (root, od) \<leftarrow> trie_del (root4 t) (InAddr addr) plen;
          Some (od, t\<lparr>root4 := root, count4 := (if od \<noteq> NULL then sub64 (count4 t) 1 else count4 t)\<rparr>) }"

definition op_cidr_del6 :: "'v op_cidr_tbl \<Rightarrow> u8 list \<Rightarrow> int \<Rightarrow> ('v ptr \<times> 'v op_cidr_tbl) option" where
  "op_cidr_del6 t addr plen =
     do { (root, od) \<leftarrow> trie_del (root6 t) (In6Addr addr) plen;
          Some (od, t\<lparr>root6 := root, count6 := (if od \<noteq> NULL then sub64 (count6 t) 1 else count6 t)\<rparr>) }"

definition op_cidr_match_any4 :: "'v op_cidr_tbl \<Rightarrow> u32 \<Rightarrow> 'v ptr option" where
  "op_cidr_match_any4 t addr = trie_match_any (root4 t) (InAddr addr) 32"

definition op_cidr_match_any6 :: "'v op_cidr_tbl \<Rightarrow> u8 list \<Rightarrow> 'v ptr option" where
  "op_cidr_match_any6 t addr = trie_match_any (root6 t) (In6Addr addr) 128"

definition op_cidr_lpm4 :: "'v op_cidr_tbl \<Rightarrow> u32 \<Rightarrow> 'v ptr option" where
  "op_cidr_lpm4 t addr = trie_lpm (root4 t) (InAddr addr) 32"

definition op_cidr_lpm6 :: "'v op_cidr_tbl \<Rightarrow> u8 list \<Rightarrow> 'v ptr option" where
  "op_cidr_lpm6 t addr = trie_lpm (root6 t) (In6Addr addr) 128"

text \<open>The family of a socket address selects the trie; another family (\<open>None\<close>) matches nothing.\<close>

fun op_cidr_match_any_ss :: "'v op_cidr_tbl \<Rightarrow> ip_addr option \<Rightarrow> 'v ptr option" where
  "op_cidr_match_any_ss t (Some (InAddr a)) = op_cidr_match_any4 t a"
| "op_cidr_match_any_ss t (Some (In6Addr a)) = op_cidr_match_any6 t a"
| "op_cidr_match_any_ss t None = Some NULL"

fun op_cidr_lpm_ss :: "'v op_cidr_tbl \<Rightarrow> ip_addr option \<Rightarrow> 'v ptr option" where
  "op_cidr_lpm_ss t (Some (InAddr a)) = op_cidr_lpm4 t a"
| "op_cidr_lpm_ss t (Some (In6Addr a)) = op_cidr_lpm6 t a"
| "op_cidr_lpm_ss t None = Some NULL"

definition op_cidr_count4 :: "'v op_cidr_tbl \<Rightarrow> nat" where
  "op_cidr_count4 t = count4 t"

definition op_cidr_count6 :: "'v op_cidr_tbl \<Rightarrow> nat" where
  "op_cidr_count6 t = count6 t"

definition op_cidr_name :: "'v op_cidr_tbl \<Rightarrow> string" where
  "op_cidr_name t = cidr_name t"

definition op_cidr_foreach4 :: "'v op_cidr_tbl \<Rightarrow> ('v, 's) cidr_each \<Rightarrow> 's \<Rightarrow> 's option" where
  "op_cidr_foreach4 t fn ud =
     map_option cc_ud (trie_foreach fn (root4 t) \<lparr>cc_ud = ud, cc_ss = InAddr 0, cc_stop = False\<rparr> 0)"

definition op_cidr_foreach6 :: "'v op_cidr_tbl \<Rightarrow> ('v, 's) cidr_each \<Rightarrow> 's \<Rightarrow> 's option" where
  "op_cidr_foreach6 t fn ud =
     map_option cc_ud
       (trie_foreach fn (root6 t) \<lparr>cc_ud = ud, cc_ss = In6Addr (replicate 16 0), cc_stop = False\<rparr> 0)"

declare trie_set_from.simps [simp del] trie_foreach.simps(2) [simp del] set_addr_bit.simps [simp del]
  clr_addr_bit.simps [simp del]

section \<open>Abstraction\<close>

text \<open>
  A trie is a map from bit strings; a stored prefix is named by its length and its network
  number, the address shifted right by the host bits.
\<close>

fun addr_width :: "ip_addr \<Rightarrow> nat" where
  "addr_width (InAddr s) = 32"
| "addr_width (In6Addr b) = 128"

fun addr_wf :: "ip_addr \<Rightarrow> bool" where
  "addr_wf (InAddr s) \<longleftrightarrow> True"
| "addr_wf (In6Addr b) \<longleftrightarrow> length b = 16"

definition bytes_val :: "u8 list \<Rightarrow> nat" where
  "bytes_val b = foldl (\<lambda>a c. a * 256 + unat c) 0 b"

fun addr_val :: "ip_addr \<Rightarrow> nat" where
  "addr_val (InAddr s) = unat (ntohl s)"
| "addr_val (In6Addr b) = bytes_val b"

definition network :: "ip_addr \<Rightarrow> nat \<Rightarrow> nat" where
  "network a k = addr_val a div 2 ^ (addr_width a - k)"

definition to_bits :: "nat \<Rightarrow> nat \<Rightarrow> bool list" where
  "to_bits k m = map (\<lambda>i. bit m (k - 1 - i)) [0..<k]"

definition addr_bits :: "ip_addr \<Rightarrow> bool list" where
  "addr_bits a = to_bits (addr_width a) (addr_val a)"

fun cmap :: "'v cidr_node \<Rightarrow> bool list \<Rightarrow> 'v option" where
  "cmap CNull p = None"
| "cmap (CNode d l r) [] = d"
| "cmap (CNode d l r) (b # p) = cmap (if b then r else l) p"

definition ctab :: "'v cidr_node \<Rightarrow> nat \<times> nat \<Rightarrow> 'v option" where
  "ctab n = (\<lambda>(k, m). if m < 2 ^ k then cmap n (to_bits k m) else None)"

definition first_set :: "'v ptr list \<Rightarrow> 'v ptr" where
  "first_set xs = (case find (\<lambda>x. x \<noteq> NULL) xs of None \<Rightarrow> NULL | Some x \<Rightarrow> x)"

section \<open>Bits of an address\<close>

lemma length_to_bits [simp]: "length (to_bits k m) = k"
  by (simp add: to_bits_def)

lemma nth_to_bits [simp]: "i < k \<Longrightarrow> to_bits k m ! i = bit m (k - 1 - i)"
  by (simp add: to_bits_def)

lemma and_1_bit: "drop_bit n (x :: 'a :: len word) AND 1 \<noteq> 0 \<longleftrightarrow> bit x n"
  by (simp add: and_one_eq bit_iff_odd_drop_bit odd_iff_mod_2_eq_one)

lemma bytes_val_snoc: "bytes_val (b @ [c]) = bytes_val b * 256 + unat c"
  by (simp add: bytes_val_def)

lemma unat_u8: "unat (c :: u8) < 256"
proof -
  have "unat c < 2 ^ LENGTH(8)" by (rule unsigned_less)
  then show ?thesis by simp
qed

lemma bytes_val_less: "bytes_val b < 256 ^ length b"
proof (induction b rule: rev_induct)
  case (snoc c b)
  have "unat c < 256" by (rule unat_u8)
  then show ?case using snoc by (simp add: bytes_val_snoc)
qed (simp add: bytes_val_def)

lemma bit_bytes_val:
  "i < 8 * length b \<Longrightarrow> bit (bytes_val b) (8 * length b - 1 - i) \<longleftrightarrow> bit (b ! (i div 8)) (7 - i mod 8)"
proof (induction b rule: rev_induct)
  case (snoc c b)
  have c: "unat c < 256" by (rule unat_u8)
  show ?case
  proof (cases "i < 8 * length b")
    case True
    have e: "8 * length (b @ [c]) - 1 - i = 8 + (8 * length b - 1 - i)" using True by simp
    have "bit (bytes_val (b @ [c])) (8 * length (b @ [c]) - 1 - i) \<longleftrightarrow> bit (bytes_val b) (8 * length b - 1 - i)"
      unfolding e bytes_val_snoc using c
      by (simp add: bit_iff_odd power_add div_mult2_eq)
    moreover have "i div 8 < length b" using True by auto
    ultimately show ?thesis using snoc True by (simp add: nth_append)
  next
    case False
    then have d: "i div 8 = length b" using snoc.prems by auto
    then have i: "i = 8 * length b + i mod 8" using div_mult_mod_eq [of i 8] by simp
    have e: "8 * length (b @ [c]) - 1 - i = 7 - i mod 8" using i snoc.prems by simp
    have "bit (bytes_val b * 256 + unat c) (7 - i mod 8) \<longleftrightarrow> bit (unat c) (7 - i mod 8)"
    proof -
      have "(bytes_val b * 256 + unat c) mod 2 ^ 8 = unat c mod 2 ^ 8" by simp
      then have "take_bit 8 (bytes_val b * 256 + unat c) = take_bit 8 (unat c)" by (simp only: take_bit_eq_mod)
      moreover have "7 - i mod 8 < 8" by simp
      ultimately show ?thesis by (metis bit_take_bit_iff)
    qed
    then show ?thesis unfolding e bytes_val_snoc d by (simp add: bit_unsigned_iff)
  qed
qed simp

lemma addr_bit_bits:
  assumes "addr_wf a" "i < addr_width a"
  shows "addr_bit a i = Some (addr_bits a ! i)"
proof (cases a)
  case (InAddr s)
  then show ?thesis using assms
    by (simp add: bit4_def addr_bits_def and_1_bit bit_unsigned_iff)
next
  case (In6Addr b)
  have "bit (bytes_val b) (127 - i) \<longleftrightarrow> bit (b ! (i div 8)) (7 - i mod 8)"
    using bit_bytes_val [of i b] assms In6Addr by simp
  moreover have "i div 8 < 16" using assms In6Addr by auto
  ultimately show ?thesis using assms In6Addr
    by (simp add: bit6_def addr_bits_def and_1_bit)
qed

lemma addr_val_less: "addr_wf a \<Longrightarrow> addr_val a < 2 ^ addr_width a"
proof (cases a)
  case (InAddr s)
  have "unat (ntohl s) < 2 ^ LENGTH(32)" by (rule unsigned_less)
  then show ?thesis using InAddr by simp
next
  case (In6Addr b)
  assume "addr_wf a"
  then show ?thesis using bytes_val_less [of b] In6Addr by simp
qed

lemma network_less: "addr_wf a \<Longrightarrow> k \<le> addr_width a \<Longrightarrow> network a k < 2 ^ k"
  using addr_val_less [of a]
  by (simp add: network_def less_mult_imp_div_less flip: power_add)

lemma take_addr_bits: "k \<le> addr_width a \<Longrightarrow> take k (addr_bits a) = to_bits k (network a k)"
  by (rule nth_equalityI) (auto simp: addr_bits_def network_def bit_drop_bit_eq simp flip: drop_bit_eq_div)

lemma length_addr_bits [simp]: "length (addr_bits a) = addr_width a"
  by (simp add: addr_bits_def)

lemma to_bits_inj:
  assumes "m < 2 ^ k" "m' < 2 ^ k" "to_bits k m = to_bits k m'"
  shows "m = m'"
proof (rule bit_eqI)
  fix j
  show "bit m j \<longleftrightarrow> bit m' j"
  proof (cases "j < k")
    case True
    then have "to_bits k m ! (k - 1 - j) = bit m j" "to_bits k m' ! (k - 1 - j) = bit m' j" by simp_all
    then show ?thesis using assms(3) by simp
  next
    case False
    then show ?thesis using assms bit_below_pow2 by auto
  qed
qed

lemma to_bits_surj: "\<exists>m < 2 ^ length p. to_bits (length p) m = p"
proof (intro exI conjI)
  let ?m = "horner_sum of_bool 2 (rev p) :: nat"
  show "to_bits (length p) ?m = p"
    by (rule nth_equalityI) (auto simp: bit_horner_sum_bit_iff rev_nth)
  have "take_bit (length p) ?m = ?m"
    by (rule bit_eqI) (auto simp: bit_take_bit_iff bit_horner_sum_bit_iff)
  then show "?m < 2 ^ length p" by (metis take_bit_nat_less_exp)
qed

section \<open>The trie operations on the map\<close>

lemma cmap_upd_Nil: "cmap (CNode v l r) = (cmap (CNode d l r))([] := v)"
  by (rule ext, rename_tac q, case_tac q) auto

lemma cmap_upd_Cons:
  assumes "cmap c' = (cmap (if b then r else l))(p := v)"
  shows "cmap (if b then CNode d l c' else CNode d c' r) = (cmap (CNode d l r))(b # p := v)"
proof
  fix q show "cmap (if b then CNode d l c' else CNode d c' r) q = ((cmap (CNode d l r))(b # p := v)) q"
    using assms by (cases q; cases b) auto
qed

lemma cmap_node_alloc: "cmap node_alloc = cmap CNull"
  by (rule ext, rename_tac q, case_tac q) (auto simp: node_alloc_def)

definition entered :: "'v cidr_node \<Rightarrow> 'v cidr_node" where
  "entered n = (if n = CNull then node_alloc else n)"

lemma cmap_entered [simp]: "cmap (entered n) = cmap n"
  by (simp add: entered_def cmap_node_alloc)

lemma drop_addr_bits: "i < addr_width a \<Longrightarrow> drop i (addr_bits a) = addr_bits a ! i # drop (Suc i) (addr_bits a)"
  by (simp add: Cons_nth_drop_Suc)

lemma trie_set_from_spec:
  assumes "addr_wf a" "i + k \<le> addr_width a"
  shows "\<exists>n'. trie_set_from n a i k val =
      Some (n', cmap n (take k (drop i (addr_bits a))) = NULL, cmap n (take k (drop i (addr_bits a))))
    \<and> cmap n' = (cmap n)(take k (drop i (addr_bits a)) := val)"
  using assms
proof (induction k arbitrary: n i)
  case 0
  obtain d l r where e: "entered n = CNode d l r" by (cases n) (auto simp: entered_def node_alloc_def)
  have m: "cmap n = cmap (CNode d l r)" using cmap_entered [of n] e by simp
  show ?case
  proof (intro exI conjI)
    show "trie_set_from n a i 0 val = Some (CNode val l r,
        cmap n (take 0 (drop i (addr_bits a))) = NULL, cmap n (take 0 (drop i (addr_bits a))))"
      using e by (simp add: m trie_set_from.simps [of n] flip: entered_def)
    show "cmap (CNode val l r) = (cmap n)(take 0 (drop i (addr_bits a)) := val)"
      unfolding m take_0 by (rule cmap_upd_Nil)
  qed
next
  case (Suc k)
  obtain d l r where e: "entered n = CNode d l r" by (cases n) (auto simp: entered_def node_alloc_def)
  have m: "cmap n = cmap (CNode d l r)" using cmap_entered [of n] e by simp
  let ?b = "addr_bits a ! i" and ?p = "take k (drop (Suc i) (addr_bits a))"
  have b: "addr_bit a i = Some ?b" using Suc.prems by (simp add: addr_bit_bits)
  have p: "take (Suc k) (drop i (addr_bits a)) = ?b # ?p" using Suc.prems by (simp add: drop_addr_bits)
  obtain c' where c': "trie_set_from (if ?b then r else l) a (Suc i) k val =
      Some (c', cmap (if ?b then r else l) ?p = NULL, cmap (if ?b then r else l) ?p)"
      "cmap c' = (cmap (if ?b then r else l))(?p := val)"
    using Suc.IH [OF Suc.prems(1), of "Suc i" "if ?b then r else l"] Suc.prems(2) unfolding add_Suc_shift by blast
  have u: "cmap (if ?b then CNode d l c' else CNode d c' r) = (cmap n)(?b # ?p := val)"
    unfolding m by (rule cmap_upd_Cons [OF c'(2)])
  have "trie_set_from n a i (Suc k) val =
      Some (if ?b then CNode d l c' else CNode d c' r, cmap n (?b # ?p) = NULL, cmap n (?b # ?p))"
    using e b c'(1) by (cases ?b) (simp_all add: m trie_set_from.simps [of n] flip: entered_def)
  then show ?case unfolding p using u by blast
qed

lemma trie_del_from_spec:
  assumes "addr_wf a" "i + k \<le> addr_width a"
  shows "\<exists>n'. trie_del_from n a i k = Some (n', cmap n (take k (drop i (addr_bits a))))
    \<and> cmap n' = (cmap n)(take k (drop i (addr_bits a)) := None)"
  using assms
proof (induction k arbitrary: n i)
  case 0
  show ?case
  proof (cases n)
    case (CNode d l r)
    have "trie_del_from n a i 0 = Some (CNode NULL l r, cmap n [])" using CNode by simp
    then show ?thesis using cmap_upd_Nil [of NULL l r d] unfolding take_0 CNode by blast
  qed (simp add: fun_eq_iff)
next
  case (Suc k)
  let ?b = "addr_bits a ! i" and ?p = "take k (drop (Suc i) (addr_bits a))"
  have b: "addr_bit a i = Some ?b" using Suc.prems by (simp add: addr_bit_bits)
  have p: "take (Suc k) (drop i (addr_bits a)) = ?b # ?p" using Suc.prems by (simp add: drop_addr_bits)
  show ?case
  proof (cases n)
    case CNull
    then show ?thesis by (auto simp: fun_eq_iff)
  next
    case (CNode d l r)
    obtain c' where c': "trie_del_from (if ?b then r else l) a (Suc i) k = Some (c', cmap (if ?b then r else l) ?p)"
        "cmap c' = (cmap (if ?b then r else l))(?p := None)"
      using Suc.IH [OF Suc.prems(1), of "Suc i" "if ?b then r else l"] Suc.prems(2) unfolding add_Suc_shift by blast
    have u: "cmap (if ?b then CNode d l c' else CNode d c' r) = (cmap n)(?b # ?p := None)"
      unfolding CNode by (rule cmap_upd_Cons [OF c'(2)])
    have "trie_del_from n a i (Suc k) = Some (if ?b then CNode d l c' else CNode d c' r, cmap n (?b # ?p))"
      using b c'(1) by (cases ?b) (simp_all add: CNode)
    then show ?thesis unfolding p using u by blast
  qed
qed

lemma first_set_simps [simp]:
  "first_set [] = NULL" "first_set (x # xs) = (if x = NULL then first_set xs else x)"
  by (simp_all add: first_set_def)

lemma first_set_snoc: "first_set (xs @ [x]) = (if first_set xs = NULL then x else first_set xs)"
  by (induction xs) auto

lemma first_set_NULL [simp]: "first_set (map (\<lambda>j. NULL) xs) = NULL"
  by (induction xs) auto

lemma map_upt_Suc_Cons: "map f [0..<Suc n] = f 0 # map (\<lambda>j. f (Suc j)) [0..<n]"
  by (simp add: upt_conv_Cons del: upt_Suc flip: map_Suc_upt)

lemma cmap_prefixes:
  "map (\<lambda>j. cmap (CNode d l r) (take j (b # p))) [0..<Suc (Suc k)]
     = d # map (\<lambda>j. cmap (if b then r else l) (take j p)) [0..<Suc k]"
  by (subst map_upt_Suc_Cons) simp

lemma trie_match_from_spec:
  assumes "addr_wf a" "i + k \<le> addr_width a"
  shows "trie_match_from n a i k =
    Some (first_set (map (\<lambda>j. cmap n (take j (drop i (addr_bits a)))) [0..<Suc k]))"
  using assms
proof (induction k arbitrary: n i)
  case 0
  then show ?case by (cases n) auto
next
  case (Suc k)
  have b: "addr_bit a i = Some (addr_bits a ! i)" using Suc.prems by (simp add: addr_bit_bits)
  have p: "drop i (addr_bits a) = addr_bits a ! i # drop (Suc i) (addr_bits a)"
    using Suc.prems by (simp add: drop_addr_bits)
  show ?case
  proof (cases n)
    case (CNode d l r)
    show ?thesis using b Suc.IH [of "Suc i" "if addr_bits a ! i then r else l"] Suc.prems
      unfolding p CNode cmap_prefixes by (simp del: upt_Suc)
  qed (simp del: upt_Suc)
qed

lemma trie_lpm_from_spec:
  assumes "addr_wf a" "i + k \<le> addr_width a"
  shows "trie_lpm_from n a i k best =
    (let r = first_set (rev (map (\<lambda>j. cmap n (take j (drop i (addr_bits a)))) [0..<Suc k]))
     in Some (if r = NULL then best else r))"
  using assms
proof (induction k arbitrary: n i best)
  case 0
  then show ?case by (cases n) auto
next
  case (Suc k)
  have b: "addr_bit a i = Some (addr_bits a ! i)" using Suc.prems by (simp add: addr_bit_bits)
  have p: "drop i (addr_bits a) = addr_bits a ! i # drop (Suc i) (addr_bits a)"
    using Suc.prems by (simp add: drop_addr_bits)
  show ?case
  proof (cases n)
    case CNull
    then show ?thesis by (simp add: rev_map del: upt_Suc)
  next
    case (CNode d l r)
    let ?c = "if addr_bits a ! i then r else l"
    have ih: "trie_lpm_from ?c a (Suc i) k best' =
        (let r = first_set (rev (map (\<lambda>j. cmap ?c (take j (drop (Suc i) (addr_bits a)))) [0..<Suc k]))
         in Some (if r = NULL then best' else r))" for best'
      using Suc.IH [of "Suc i" ?c best'] Suc.prems by simp
    have "trie_lpm_from n a i (Suc k) best = trie_lpm_from ?c a (Suc i) k (if d \<noteq> NULL then d else best)"
      using b CNode by (simp add: Let_def)
    then show ?thesis unfolding p CNode cmap_prefixes rev.simps first_set_snoc ih by (auto simp: Let_def simp del: upt_Suc)
  qed
qed

section \<open>Tables keyed by prefix length and network\<close>

lemma ctab_network:
  assumes "addr_wf a" "k \<le> addr_width a"
  shows "ctab n (k, network a k) = cmap n (take k (addr_bits a))"
  using assms network_less [OF assms] by (simp add: ctab_def take_addr_bits)

lemma ctab_upd:
  assumes "addr_wf a" "k \<le> addr_width a" "cmap n' = (cmap n)(take k (addr_bits a) := v)"
  shows "ctab n' = (ctab n)((k, network a k) := v)"
proof
  fix q :: "nat \<times> nat"
  obtain j m where q: "q = (j, m)" by (cases q)
  show "ctab n' q = ((ctab n)((k, network a k) := v)) q"
  proof (cases "m < 2 ^ j \<and> to_bits j m = to_bits k (network a k)")
    case True
    then have "j = k" by (metis length_to_bits)
    then have "m = network a k" using True network_less [OF assms(1,2)] to_bits_inj by blast
    then show ?thesis using assms True \<open>j = k\<close> network_less [OF assms(1,2)]
      by (simp add: q ctab_def take_addr_bits)
  next
    case False
    then have "q \<noteq> (k, network a k)" using network_less [OF assms(1,2)] q by auto
    then show ?thesis using assms False by (auto simp: q ctab_def take_addr_bits)
  qed
qed

lemma card_dom_ctab: "card (dom (ctab n)) = card (dom (cmap n))"
proof (rule bij_betw_same_card)
  show "bij_betw (\<lambda>(k, m). to_bits k m) (dom (ctab n)) (dom (cmap n))"
  proof (rule bij_betwI')
    fix x y :: "nat \<times> nat" assume "x \<in> dom (ctab n)" "y \<in> dom (ctab n)"
    then have "snd x < 2 ^ fst x" "snd y < 2 ^ fst y" by (auto simp: ctab_def split: if_splits prod.splits)
    then show "((case x of (k, m) \<Rightarrow> to_bits k m) = (case y of (k, m) \<Rightarrow> to_bits k m)) \<longleftrightarrow> x = y"
      by (cases x; cases y) (metis case_prod_conv length_to_bits snd_conv fst_conv to_bits_inj)
  next
    fix x assume "x \<in> dom (ctab n)"
    then show "(case x of (k, m) \<Rightarrow> to_bits k m) \<in> dom (cmap n)"
      by (cases x) (auto simp: ctab_def split: if_splits)
  next
    fix p assume p: "p \<in> dom (cmap n)"
    obtain m where "m < 2 ^ length p" "to_bits (length p) m = p" using to_bits_surj by blast
    then have "(length p, m) \<in> dom (ctab n)" using p by (simp add: ctab_def domIff)
    then show "\<exists>x\<in>dom (ctab n). p = (case x of (k, m) \<Rightarrow> to_bits k m)"
      using \<open>to_bits (length p) m = p\<close> by force
  qed
qed

lemma finite_dom_cmap: "finite (dom (cmap n))"
proof (induction n)
  case (CNode d l r)
  have "dom (cmap (CNode d l r)) \<subseteq> {[]} \<union> (Cons False ` dom (cmap l)) \<union> (Cons True ` dom (cmap r))"
  proof
    fix p assume "p \<in> dom (cmap (CNode d l r))"
    then show "p \<in> {[]} \<union> (Cons False ` dom (cmap l)) \<union> (Cons True ` dom (cmap r))"
      by (cases p) (auto simp: dom_def image_iff split: if_splits)
  qed
  then show ?case using CNode by (meson finite.emptyI finite.insertI finite_UnI finite_imageI finite_subset)
qed simp

lemma finite_dom_ctab: "finite (dom (ctab n))"
proof (cases "dom (ctab n) = {}")
  case False
  have "dom (ctab n) \<subseteq> (\<lambda>p. (length p, SOME m. m < 2 ^ length p \<and> to_bits (length p) m = p)) ` dom (cmap n)"
  proof
    fix q assume q: "q \<in> dom (ctab n)"
    obtain k m where km: "q = (k, m)" by (cases q)
    have m: "m < 2 ^ k" "to_bits k m \<in> dom (cmap n)" using q km by (auto simp: ctab_def split: if_splits)
    let ?P = "\<lambda>m'. m' < 2 ^ length (to_bits k m) \<and> to_bits (length (to_bits k m)) m' = to_bits k m"
    have "?P (SOME m'. ?P m')" by (rule someI [of ?P m]) (use m in simp)
    then have "(SOME m'. ?P m') = m" using m(1) to_bits_inj by auto
    then show "q \<in> (\<lambda>p. (length p, SOME m. m < 2 ^ length p \<and> to_bits (length p) m = p)) ` dom (cmap n)"
      using m(2) km by (intro image_eqI [of _ _ "to_bits k m"]) auto
  qed
  then show ?thesis using finite_dom_cmap finite_surj by blast
qed simp

section \<open>Runs of calls\<close>

fun fam :: "ip_addr \<Rightarrow> af" where
  "fam (InAddr s) = AF_INET"
| "fam (In6Addr b) = AF_INET6"

fun fam_width :: "af \<Rightarrow> nat" where
  "fam_width AF_INET = 32"
| "fam_width AF_INET6 = 128"

lemma addr_width_fam: "addr_width a = fam_width (fam a)"
  by (cases a) simp_all

datatype 'v cidr_req =
    CSet ip_addr int 'v | CDel ip_addr int | CMatchAny ip_addr | CLpm ip_addr | CCount af

datatype 'v cidr_resp = CRSet int "'v ptr" | CRVal "'v ptr" | CRCount nat

fun cidr_step :: "'v op_cidr_tbl \<Rightarrow> 'v cidr_req \<Rightarrow> ('v cidr_resp \<times> 'v op_cidr_tbl) option" where
  "cidr_step t (CSet a plen v) = do {
     (r, od, t') \<leftarrow> (case a of InAddr s \<Rightarrow> op_cidr_set4 t s plen (Some v) NULL | In6Addr b \<Rightarrow> op_cidr_set6 t b plen (Some v) NULL);
     Some (CRSet r od, t') }"
| "cidr_step t (CDel a plen) = do {
     (od, t') \<leftarrow> (case a of InAddr s \<Rightarrow> op_cidr_del4 t s plen | In6Addr b \<Rightarrow> op_cidr_del6 t b plen);
     Some (CRVal od, t') }"
| "cidr_step t (CMatchAny a) = do { v \<leftarrow> op_cidr_match_any_ss t (Some a); Some (CRVal v, t) }"
| "cidr_step t (CLpm a) = do { v \<leftarrow> op_cidr_lpm_ss t (Some a); Some (CRVal v, t) }"
| "cidr_step t (CCount f) =
     Some (CRCount (case f of AF_INET \<Rightarrow> op_cidr_count4 t | AF_INET6 \<Rightarrow> op_cidr_count6 t), t)"

fun cidr_run :: "'v op_cidr_tbl \<Rightarrow> 'v cidr_req list \<Rightarrow> ('v cidr_resp list \<times> 'v op_cidr_tbl) option" where
  "cidr_run t [] = Some ([], t)"
| "cidr_run t (r # rs) = do { (out, t') \<leftarrow> cidr_step t r; (outs, t'') \<leftarrow> cidr_run t' rs; Some (out # outs, t'') }"

text \<open>
  The reference: one table per family from (prefix length, network number) to values.  The
  shortest match looks the lengths up in increasing order, the longest match in decreasing
  order.
\<close>

type_synonym 'v cidr_spec = "af \<Rightarrow> nat \<times> nat \<Rightarrow> 'v option"

fun spec_step :: "'v cidr_spec \<Rightarrow> 'v cidr_req \<Rightarrow> 'v cidr_resp \<times> 'v cidr_spec" where
  "spec_step m (CSet a plen v) =
     (if plen < 0 \<or> plen > int (addr_width a) then (CRSet (-1) NULL, m)
      else let k = nat plen; key = (k, network a k); old = m (fam a) key in
        (CRSet (of_bool (old = None)) old, m(fam a := (m (fam a))(key \<mapsto> v))))"
| "spec_step m (CDel a plen) =
     (let k = nat plen; key = (k, network a k) in (CRVal (m (fam a) key), m(fam a := (m (fam a))(key := None))))"
| "spec_step m (CMatchAny a) = (CRVal (first_set (map (\<lambda>k. m (fam a) (k, network a k)) [0..<addr_width a + 1])), m)"
| "spec_step m (CLpm a) = (CRVal (first_set (map (\<lambda>k. m (fam a) (k, network a k)) (rev [0..<addr_width a + 1]))), m)"
| "spec_step m (CCount f) = (CRCount (wrap64 (card (dom (m f)))), m)"

fun spec_run :: "'v cidr_spec \<Rightarrow> 'v cidr_req list \<Rightarrow> 'v cidr_resp list \<times> 'v cidr_spec" where
  "spec_run m [] = ([], m)"
| "spec_run m (r # rs) = (case spec_step m r of (out, m') \<Rightarrow> case spec_run m' rs of (outs, m'') \<Rightarrow> (out # outs, m''))"

fun cidr_req_ok :: "'v cidr_req \<Rightarrow> bool" where
  "cidr_req_ok (CSet a plen v) \<longleftrightarrow> addr_wf a"
| "cidr_req_ok (CDel a plen) \<longleftrightarrow> addr_wf a \<and> 0 \<le> plen \<and> plen \<le> int (addr_width a)"
| "cidr_req_ok (CMatchAny a) \<longleftrightarrow> addr_wf a"
| "cidr_req_ok (CLpm a) \<longleftrightarrow> addr_wf a"
| "cidr_req_ok (CCount f) \<longleftrightarrow> True"

fun cidr_root :: "'v op_cidr_tbl \<Rightarrow> af \<Rightarrow> 'v cidr_node" where
  "cidr_root t AF_INET = root4 t"
| "cidr_root t AF_INET6 = root6 t"

fun cidr_count :: "'v op_cidr_tbl \<Rightarrow> af \<Rightarrow> nat" where
  "cidr_count t AF_INET = count4 t"
| "cidr_count t AF_INET6 = count6 t"

definition cidr_tab :: "'v op_cidr_tbl \<Rightarrow> 'v cidr_spec" where
  "cidr_tab t f = ctab (cidr_root t f)"

fun chgt :: "'v cidr_node \<Rightarrow> nat" where
  "chgt CNull = 0"
| "chgt (CNode d l r) = Suc (max (chgt l) (chgt r))"

definition cidr_inv :: "'v op_cidr_tbl \<Rightarrow> bool" where
  "cidr_inv t \<longleftrightarrow> (\<forall>f. chgt (cidr_root t f) \<le> fam_width f + 1
     \<and> cidr_count t f = wrap64 (card (dom (cidr_tab t f))))"

lemma trie_set_from_hgt: "trie_set_from n a i k val = Some (n', w, od) \<Longrightarrow> chgt n' \<le> max (chgt n) (Suc k)"
proof (induction k arbitrary: n i n')
  case 0
  then show ?case by (cases n) (auto simp: trie_set_from.simps node_alloc_def)
next
  case (Suc k)
  obtain d l r where e: "entered n = CNode d l r" "max (Suc (chgt l)) (Suc (chgt r)) \<le> max (chgt n) 1"
    by (cases n) (auto simp: entered_def node_alloc_def)
  then show ?case using Suc.prems e
    by (auto simp: trie_set_from.simps [of n] split: bind_splits if_splits dest!: Suc.IH simp flip: entered_def)
qed

lemma trie_del_from_hgt: "trie_del_from n a i k = Some (n', od) \<Longrightarrow> chgt n' = chgt n"
proof (induction n a i k arbitrary: n' rule: trie_del_from.induct)
  case (3 d l r addr i k)
  then show ?case by (auto split: bind_splits if_splits)
qed auto

lemma card_dom_upd:
  assumes "finite (dom m)"
  shows "card (dom (m(k \<mapsto> v))) = (if m k = None then Suc (card (dom m)) else card (dom m))"
    and "card (dom (m(k := None))) = (if m k = None then card (dom m) else card (dom m) - 1)"
  using assms by (auto simp: insert_absorb domI dom_def [symmetric] domIff)

lemma trie_set_tab:
  assumes "addr_wf a" "0 \<le> plen" "plen \<le> int (addr_width a)" "chgt n \<le> addr_width a + 1"
  shows "\<exists>n'. trie_set n a plen (Some v) =
      Some (n', ctab n (nat plen, network a (nat plen)) = NULL, ctab n (nat plen, network a (nat plen)))
    \<and> ctab n' = (ctab n)((nat plen, network a (nat plen)) \<mapsto> v) \<and> chgt n' \<le> addr_width a + 1"
proof -
  have k: "0 + nat plen \<le> addr_width a" using assms by simp
  obtain n' where n': "trie_set n a plen (Some v) = Some (n', cmap n (take (nat plen) (addr_bits a)) = NULL, cmap n (take (nat plen) (addr_bits a)))"
      "cmap n' = (cmap n)(take (nat plen) (addr_bits a) := Some v)"
    using trie_set_from_spec [OF assms(1) k, of n "Some v"] unfolding trie_set_def drop_0 by blast
  have "chgt n' \<le> addr_width a + 1"
    using trie_set_from_hgt [OF n'(1) [unfolded trie_set_def]] assms(4) k by simp
  then show ?thesis using n' ctab_upd [OF assms(1) _ n'(2)] ctab_network [OF assms(1), of "nat plen" n] k by simp
qed

lemma trie_del_tab:
  assumes "addr_wf a" "0 \<le> plen" "plen \<le> int (addr_width a)" "chgt n \<le> addr_width a + 1"
  shows "\<exists>n'. trie_del n a plen = Some (n', ctab n (nat plen, network a (nat plen)))
    \<and> ctab n' = (ctab n)((nat plen, network a (nat plen)) := None) \<and> chgt n' \<le> addr_width a + 1"
proof -
  have k: "0 + nat plen \<le> addr_width a" using assms by simp
  obtain n' where n': "trie_del n a plen = Some (n', cmap n (take (nat plen) (addr_bits a)))"
      "cmap n' = (cmap n)(take (nat plen) (addr_bits a) := None)"
    using trie_del_from_spec [OF assms(1) k, of n] unfolding trie_del_def drop_0 by blast
  have "chgt n' \<le> addr_width a + 1"
    using trie_del_from_hgt [OF n'(1) [unfolded trie_del_def]] assms(4) by simp
  then show ?thesis using n' ctab_upd [OF assms(1) _ n'(2)] ctab_network [OF assms(1), of "nat plen" n] k by simp
qed

lemma ctab_prefixes:
  "addr_wf a \<Longrightarrow> map (\<lambda>j. cmap n (take j (addr_bits a))) [0..<Suc (addr_width a)]
    = map (\<lambda>k. ctab n (k, network a k)) [0..<addr_width a + 1]"
  by (simp add: ctab_network del: upt_Suc)

lemma trie_match_tab:
  "addr_wf a \<Longrightarrow> trie_match_any n a (addr_width a)
    = Some (first_set (map (\<lambda>k. ctab n (k, network a k)) [0..<addr_width a + 1]))"
  using trie_match_from_spec [of a 0 "addr_width a" n]
  by (simp add: trie_match_any_def ctab_prefixes del: upt_Suc)

lemma trie_lpm_tab:
  "addr_wf a \<Longrightarrow> trie_lpm n a (addr_width a)
    = Some (first_set (map (\<lambda>k. ctab n (k, network a k)) (rev [0..<addr_width a + 1])))"
  using trie_lpm_from_spec [of a 0 "addr_width a" n NULL]
  by (simp add: trie_lpm_def ctab_prefixes Let_def rev_map del: upt_Suc)

lemma cidr_inv_at: "cidr_inv t \<Longrightarrow> chgt (cidr_root t f) \<le> fam_width f + 1"
  "cidr_inv t \<Longrightarrow> cidr_count t f = wrap64 (card (dom (cidr_tab t f)))"
  by (simp_all add: cidr_inv_def)

lemma all_af: "(\<forall>f. P f) \<longleftrightarrow> P AF_INET \<and> P AF_INET6"
  by (metis af.exhaust)

lemma finite_dom_cidr_tab: "finite (dom (cidr_tab t f))"
  by (simp add: cidr_tab_def finite_dom_ctab)

fun cidr_put :: "'v op_cidr_tbl \<Rightarrow> af \<Rightarrow> 'v cidr_node \<Rightarrow> nat \<Rightarrow> 'v op_cidr_tbl" where
  "cidr_put t AF_INET n c = t\<lparr>root4 := n, count4 := c\<rparr>"
| "cidr_put t AF_INET6 n c = t\<lparr>root6 := n, count6 := c\<rparr>"

lemma cidr_tab_put: "cidr_tab (cidr_put t f n c) = (cidr_tab t)(f := ctab n)"
proof
  fix g show "cidr_tab (cidr_put t f n c) g = ((cidr_tab t)(f := ctab n)) g"
    by (cases f; cases g) (simp_all add: cidr_tab_def)
qed

lemma cidr_inv_put:
  assumes "cidr_inv t" "chgt n \<le> fam_width f + 1" "c = wrap64 (card (dom (ctab n)))"
  shows "cidr_inv (cidr_put t f n c)"
  using assms by (cases f) (simp_all add: cidr_inv_def all_af cidr_tab_def)

lemma cidr_set_step:
  assumes inv: "cidr_inv t" and a: "addr_wf a" and r: "0 \<le> plen" "plen \<le> int (addr_width a)"
  defines "key \<equiv> (nat plen, network a (nat plen))"
  shows "\<exists>t'. cidr_step t (CSet a plen v) =
      Some (CRSet (of_bool (cidr_tab t (fam a) key = None)) (cidr_tab t (fam a) key), t')
    \<and> cidr_inv t' \<and> cidr_tab t' = (cidr_tab t)(fam a := (cidr_tab t (fam a))(key \<mapsto> v))"
proof -
  let ?m = "cidr_tab t (fam a)"
  obtain n' where n': "trie_set (cidr_root t (fam a)) a plen (Some v) = Some (n', ?m key = NULL, ?m key)"
      "ctab n' = ?m(key \<mapsto> v)" "chgt n' \<le> addr_width a + 1"
    using trie_set_tab [OF a r, of "cidr_root t (fam a)" v] cidr_inv_at(1) [OF inv, of "fam a"]
    unfolding cidr_tab_def key_def addr_width_fam by blast
  have c: "wrap64 (card (dom (?m(key \<mapsto> v)))) = (if ?m key = NULL then wrap64 (cidr_count t (fam a) + 1) else cidr_count t (fam a))"
    unfolding card_dom_upd(1) [OF finite_dom_cidr_tab] cidr_inv_at(2) [OF inv]
    by (simp add: wrap64_Suc [simplified])
  let ?t = "cidr_put t (fam a) n' (if ?m key = NULL then wrap64 (cidr_count t (fam a) + 1) else cidr_count t (fam a))"
  have "cidr_step t (CSet a plen v) = Some (CRSet (of_bool (?m key = None)) (?m key), ?t)"
    using n'(1) r by (cases a) (simp_all add: op_cidr_set4_def op_cidr_set6_def)
  moreover have "cidr_inv ?t"
    using n'(3) c by (intro cidr_inv_put [OF inv]) (simp_all add: n'(2) flip: addr_width_fam)
  ultimately show ?thesis using cidr_tab_put [of t "fam a" n'] n'(2) by metis
qed

lemma cidr_del_step:
  assumes inv: "cidr_inv t" and a: "addr_wf a" and r: "0 \<le> plen" "plen \<le> int (addr_width a)"
  defines "key \<equiv> (nat plen, network a (nat plen))"
  shows "\<exists>t'. cidr_step t (CDel a plen) = Some (CRVal (cidr_tab t (fam a) key), t')
    \<and> cidr_inv t' \<and> cidr_tab t' = (cidr_tab t)(fam a := (cidr_tab t (fam a))(key := None))"
proof -
  let ?m = "cidr_tab t (fam a)"
  obtain n' where n': "trie_del (cidr_root t (fam a)) a plen = Some (n', ?m key)"
      "ctab n' = ?m(key := None)" "chgt n' \<le> addr_width a + 1"
    using trie_del_tab [OF a r, of "cidr_root t (fam a)"] cidr_inv_at(1) [OF inv, of "fam a"]
    unfolding cidr_tab_def key_def addr_width_fam by blast
  have pos: "0 < card (dom ?m)" if "?m key \<noteq> None"
    using that finite_dom_cidr_tab [of t "fam a"] by (auto simp: card_gt_0_iff)
  have c: "wrap64 (card (dom (?m(key := None)))) = (if ?m key \<noteq> NULL then sub64 (cidr_count t (fam a)) 1 else cidr_count t (fam a))"
    unfolding card_dom_upd(2) [OF finite_dom_cidr_tab] cidr_inv_at(2) [OF inv]
    using pos by (simp add: sub64_wrap64 [simplified])
  let ?t = "cidr_put t (fam a) n' (if ?m key \<noteq> NULL then sub64 (cidr_count t (fam a)) 1 else cidr_count t (fam a))"
  have "cidr_step t (CDel a plen) = Some (CRVal (?m key), ?t)"
    using n'(1) by (cases a) (simp_all add: op_cidr_del4_def op_cidr_del6_def)
  moreover have "cidr_inv ?t"
    using n'(3) c by (intro cidr_inv_put [OF inv]) (simp_all add: n'(2) flip: addr_width_fam)
  ultimately show ?thesis using cidr_tab_put [of t "fam a" n'] n'(2) by metis
qed

lemma cidr_step_refines:
  assumes inv: "cidr_inv t" and ok: "cidr_req_ok r"
  shows "\<exists>t'. cidr_step t r = Some (fst (spec_step (cidr_tab t) r), t') \<and> cidr_inv t'
    \<and> cidr_tab t' = snd (spec_step (cidr_tab t) r)"
proof (cases r)
  case (CSet a plen v)
  show ?thesis
  proof (cases "plen < 0 \<or> plen > int (addr_width a)")
    case True
    then show ?thesis using inv CSet by (cases a) (auto simp: op_cidr_set4_def op_cidr_set6_def)
  next
    case False
    then show ?thesis using cidr_set_step [OF inv, of a plen v] ok CSet by (auto simp: Let_def)
  qed
next
  case (CDel a plen)
  then show ?thesis using cidr_del_step [OF inv, of a plen] ok by (auto simp: Let_def)
next
  case (CMatchAny a)
  then show ?thesis using trie_match_tab [of a "cidr_root t (fam a)"] ok inv
    by (cases a) (simp_all add: op_cidr_match_any4_def op_cidr_match_any6_def cidr_tab_def del: upt_Suc)
next
  case (CLpm a)
  then show ?thesis using trie_lpm_tab [of a "cidr_root t (fam a)"] ok inv
    by (cases a) (simp_all add: op_cidr_lpm4_def op_cidr_lpm6_def cidr_tab_def del: upt_Suc)
next
  case (CCount f)
  then show ?thesis using inv cidr_inv_at(2) [OF inv, of f]
    by (cases f) (simp_all add: op_cidr_count4_def op_cidr_count6_def)
qed

lemma cidr_run_refines:
  "cidr_inv t \<Longrightarrow> list_all cidr_req_ok rs \<Longrightarrow>
   \<exists>t'. cidr_run t rs = Some (fst (spec_run (cidr_tab t) rs), t') \<and> cidr_inv t'
     \<and> cidr_tab t' = snd (spec_run (cidr_tab t) rs)"
proof (induction rs arbitrary: t)
  case (Cons r rs)
  obtain t1 where t1: "cidr_step t r = Some (fst (spec_step (cidr_tab t) r), t1)" "cidr_inv t1"
      "cidr_tab t1 = snd (spec_step (cidr_tab t) r)"
    using cidr_step_refines [OF Cons.prems(1), of r] Cons.prems(2) by auto
  show ?case using Cons.IH [OF t1(2)] Cons.prems(2) t1 by (auto split: prod.splits)
qed simp

lemma cidr_create_inv: "cidr_inv (op_cidr_create name)" "cidr_tab (op_cidr_create name) = (\<lambda>f. Map.empty)"
proof -
  have e: "ctab CNull = Map.empty" by (auto simp: ctab_def fun_eq_iff)
  show "cidr_tab (op_cidr_create name) = (\<lambda>f. Map.empty)"
    by (rule ext, rename_tac f, case_tac f) (simp_all add: cidr_tab_def op_cidr_create_def e)
  show "cidr_inv (op_cidr_create name)"
    by (simp add: cidr_inv_def all_af cidr_tab_def op_cidr_create_def e wrap64_def)
qed

section \<open>Enumeration\<close>

lemma ntohl_bit: "bit (ntohl x) j \<longleftrightarrow> j < 32 \<and> bit x (8 * (3 - j div 8) + j mod 8)"
proof -
  consider "j < 8" | "8 \<le> j" "j < 16" | "16 \<le> j" "j < 24" | "24 \<le> j" "j < 32" | "32 \<le> j" by linarith
  then show ?thesis
  proof cases
    case 1
    then have "j div 8 = 0" "j mod 8 = j" by simp_all
    then show ?thesis using 1 by (auto simp: ntohl_def bit_simps)
  next
    case 2
    then have "j div 8 = 1" by (simp add: div_nat_eqI)
    moreover from this have "j mod 8 = j - 8" using div_mult_mod_eq [of j 8] by simp
    ultimately show ?thesis using 2 by (auto simp: ntohl_def bit_simps)
  next
    case 3
    then have "j div 8 = 2" by (simp add: div_nat_eqI)
    moreover from this have "j mod 8 = j - 16" using div_mult_mod_eq [of j 8] by simp
    ultimately show ?thesis using 3 by (auto simp: ntohl_def bit_simps)
  next
    case 4
    then have "j div 8 = 3" by (simp add: div_nat_eqI)
    moreover from this have "j mod 8 = j - 24" using div_mult_mod_eq [of j 8] by simp
    ultimately show ?thesis using 4 by (auto simp: ntohl_def bit_simps)
  next
    case 5
    then show ?thesis by (auto simp: ntohl_def bit_simps)
  qed
qed

lemma ntohl_ntohl: "ntohl (ntohl x) = x"
proof (rule bit_word_eqI)
  fix j assume "j < LENGTH(32)"
  then have j: "j < 32" by simp
  let ?i = "8 * (3 - j div 8) + j mod 8"
  have "j div 8 < 4" using j by auto
  then have "?i < 32" "?i div 8 = 3 - j div 8" "?i mod 8 = j mod 8" by auto
  moreover have "8 * (3 - (3 - j div 8)) + j mod 8 = j" using \<open>j div 8 < 4\<close> by auto
  ultimately show "bit (ntohl (ntohl x)) j = bit x j" using j by (simp add: ntohl_bit)
qed

lemma addr_bits_nth:
  "i < 32 \<Longrightarrow> addr_bits (InAddr s) ! i = bit (ntohl s) (31 - i)"
  "length b = 16 \<Longrightarrow> i < 128 \<Longrightarrow> addr_bits (In6Addr b) ! i = bit (b ! (i div 8)) (7 - i mod 8)"
  using bit_bytes_val [of i b] by (simp_all add: addr_bits_def bit_unsigned_iff)

lemma addr_bits_inj:
  assumes "addr_wf a" "addr_wf a'" "fam a = fam a'" "addr_bits a = addr_bits a'"
  shows "a = a'"
proof (cases a)
  case (InAddr s)
  then obtain s' where a': "a' = InAddr s'" using assms(3) by (cases a') auto
  have "ntohl s = ntohl s'"
  proof (rule bit_word_eqI)
    fix j assume "j < LENGTH(32)"
    then have "31 - j < 32" "31 - (31 - j) = j" by simp_all
    then show "bit (ntohl s) j = bit (ntohl s') j"
      using assms(4) addr_bits_nth(1) [of "31 - j"] by (metis InAddr a')
  qed
  then show ?thesis using ntohl_ntohl InAddr a' by metis
next
  case (In6Addr b)
  then obtain b' where a': "a' = In6Addr b'" using assms(3) by (cases a') auto
  have len: "length b = 16" "length b' = 16" using assms(1,2) In6Addr a' by auto
  have "b = b'"
  proof (rule nth_equalityI)
    fix i assume i: "i < length b"
    show "b ! i = b' ! i"
    proof (rule bit_word_eqI)
      fix j assume "j < LENGTH(8)"
      then have j: "j < 8" by simp
      define k where "k = 8 * i + (7 - j)"
      have "k mod 8 = 7 - j" unfolding k_def by (simp only: mod_mult_self4) (simp add: j)
      then have k: "k < 128" "k div 8 = i" "7 - k mod 8 = j" using i j len by (auto simp: k_def)
      show "bit (b ! i) j = bit (b' ! i) j"
        using addr_bits_nth(2) [OF len(1) k(1)] addr_bits_nth(2) [OF len(2) k(1)] assms(4) In6Addr a' k by simp
    qed
  qed (use len in simp)
  then show ?thesis using In6Addr a' by simp
qed

lemma bit_put:
  fixes x :: "'a :: len word"
  assumes "n < LENGTH('a)"
  shows "bit (if b then x OR push_bit m 1 else x AND NOT (push_bit m 1)) n = (if n = m then b else bit x n)"
  using assms by (auto simp: bit_simps)

lemma set_addr_bit_spec:
  assumes "addr_wf (cc_ss ctx)" "i < addr_width (cc_ss ctx)"
  shows "\<exists>ss'. set_addr_bit ctx i b = Some (ctx\<lparr>cc_ss := ss'\<rparr>) \<and> addr_wf ss' \<and> fam ss' = fam (cc_ss ctx)
    \<and> addr_bits ss' = (addr_bits (cc_ss ctx))[i := b]"
proof (cases "cc_ss ctx")
  case (InAddr s)
  let ?h = "if b then ntohl s OR push_bit (31 - i) 1 else ntohl s AND NOT (push_bit (31 - i) 1)"
  have i: "i < 32" using assms InAddr by simp
  have "addr_bits (InAddr (ntohl ?h)) = (addr_bits (InAddr s))[i := b]"
  proof (rule nth_equalityI)
    fix j assume "j < length (addr_bits (InAddr (ntohl ?h)))"
    then have j: "j < 32" by simp
    have "31 - j = 31 - i \<longleftrightarrow> j = i" using i j by auto
    then show "addr_bits (InAddr (ntohl ?h)) ! j = (addr_bits (InAddr s))[i := b] ! j"
      using i j by (auto simp: addr_bits_nth(1) ntohl_ntohl nth_list_update bit_simps)
  qed simp
  then show ?thesis using InAddr i by (auto simp: set_addr_bit.simps Let_def)
next
  case (In6Addr bs)
  have len: "length bs = 16" and i: "i < 128" using assms In6Addr by simp_all
  have q: "i div 8 < 16" using i by auto
  let ?y = "if b then bs ! (i div 8) OR push_bit (7 - i mod 8) 1 else bs ! (i div 8) AND NOT (push_bit (7 - i mod 8) 1)"
  let ?bs = "bs[i div 8 := ?y]"
  have "addr_bits (In6Addr ?bs) = (addr_bits (In6Addr bs))[i := b]"
  proof (rule nth_equalityI)
    fix j assume "j < length (addr_bits (In6Addr ?bs))"
    then have j: "j < 128" by simp
    have e: "7 - j mod 8 = 7 - i mod 8 \<longleftrightarrow> j = i" if "i div 8 = j div 8"
    proof
      assume "7 - j mod 8 = 7 - i mod 8"
      moreover have "i mod 8 < 8" "j mod 8 < 8" by simp_all
      ultimately have "j mod 8 = i mod 8" by linarith
      then show "j = i" using that by (metis div_mult_mod_eq)
    qed simp
    show "addr_bits (In6Addr ?bs) ! j = (addr_bits (In6Addr bs))[i := b] ! j"
    proof (cases "i div 8 = j div 8")
      case True
      then have y: "?bs ! (j div 8) = ?y" using len q by simp
      have "addr_bits (In6Addr ?bs) ! j = bit ?y (7 - j mod 8)"
        using addr_bits_nth(2) [of ?bs j] len j y by simp
      also have "\<dots> = (if j = i then b else bit (bs ! (i div 8)) (7 - j mod 8))"
        using bit_put [of "7 - j mod 8" b "bs ! (i div 8)" "7 - i mod 8"] e [OF True] by simp
      also have "\<dots> = (addr_bits (In6Addr bs))[i := b] ! j"
        using i j len True addr_bits_nth(2) [of bs j] by (simp add: nth_list_update)
      finally show ?thesis .
    next
      case False
      then have "i \<noteq> j" by auto
      then show ?thesis using False i j len addr_bits_nth(2) [of ?bs j] addr_bits_nth(2) [of bs j] by simp
    qed
  qed simp
  moreover have "set_addr_bit ctx i b = Some (ctx\<lparr>cc_ss := In6Addr ?bs\<rparr>)"
    using In6Addr len q by (simp add: set_addr_bit.simps Let_def)
  ultimately show ?thesis using In6Addr len by (intro exI [of _ "In6Addr ?bs"]) simp
qed

lemma clr_addr_bit_set: "clr_addr_bit ctx i = set_addr_bit ctx i False"
  by (cases "cc_ss ctx") (simp_all add: clr_addr_bit.simps set_addr_bit.simps Let_def)

definition zeros :: "af \<Rightarrow> bool list \<Rightarrow> bool list" where
  "zeros f p = p @ replicate (fam_width f - length p) False"

definition prefix_addr :: "af \<Rightarrow> bool list \<Rightarrow> ip_addr \<Rightarrow> bool" where
  "prefix_addr f p a \<longleftrightarrow> addr_wf a \<and> fam a = f \<and> addr_bits a = zeros f p"

definition zaddr :: "af \<Rightarrow> bool list \<Rightarrow> ip_addr" where
  "zaddr f p = (THE a. prefix_addr f p a)"

lemma zaddr_eq: "prefix_addr f p a \<Longrightarrow> zaddr f p = a"
  unfolding zaddr_def by (rule the_equality) (auto simp: prefix_addr_def intro: addr_bits_inj)

lemma zeros_update:
  assumes "length p < fam_width f"
  shows "(zeros f p)[length p := b] = zeros f (p @ [b])" "(zeros f (p @ [b]))[length p := False] = zeros f p"
proof -
  obtain m where m: "fam_width f - length p = Suc m" using assms by (metis Suc_diff_Suc)
  then have "fam_width f - Suc (length p) = m" by simp
  then show "(zeros f p)[length p := b] = zeros f (p @ [b])" "(zeros f (p @ [b]))[length p := False] = zeros f p"
    using m by (simp_all add: zeros_def)
qed

lemma set_prefix_addr:
  assumes "prefix_addr f p (cc_ss ctx)" "length p < fam_width f"
  shows "\<exists>a. set_addr_bit ctx (length p) b = Some (ctx\<lparr>cc_ss := a\<rparr>) \<and> prefix_addr f (p @ [b]) a"
  using set_addr_bit_spec [of ctx "length p" b] assms
  by (auto simp: prefix_addr_def addr_width_fam zeros_update)

lemma clr_prefix_addr:
  assumes "prefix_addr f (p @ [b]) (cc_ss ctx)" "length p < fam_width f" "prefix_addr f p a"
  shows "clr_addr_bit ctx (length p) = Some (ctx\<lparr>cc_ss := a\<rparr>)"
proof -
  obtain a' where a': "clr_addr_bit ctx (length p) = Some (ctx\<lparr>cc_ss := a'\<rparr>)" "prefix_addr f p a'"
    using set_addr_bit_spec [of ctx "length p" False] assms(1,2)
    by (auto simp: clr_addr_bit_set prefix_addr_def addr_width_fam zeros_update)
  then show ?thesis using zaddr_eq assms(3) by metis
qed

lemma prefix_addr_exists: "length p \<le> fam_width f \<Longrightarrow> \<exists>a. prefix_addr f p a"
proof (induction p rule: rev_induct)
  case Nil
  have "prefix_addr AF_INET [] (InAddr 0)"
    by (auto simp: prefix_addr_def zeros_def addr_bits_nth(1) ntohl_bit intro!: nth_equalityI)
  moreover have "prefix_addr AF_INET6 [] (In6Addr (replicate 16 0))"
    by (auto simp: prefix_addr_def zeros_def addr_bits_nth(2) intro!: nth_equalityI)
  ultimately show ?case by (cases f) blast+
next
  case (snoc b p)
  then obtain a where "prefix_addr f p a" by auto
  then show ?case using set_prefix_addr [of f p "\<lparr>cc_ud = (), cc_ss = a, cc_stop = False\<rparr>" b] snoc.prems by auto
qed

fun centries :: "'v cidr_node \<Rightarrow> bool list \<Rightarrow> (bool list \<times> 'v ptr) list" where
  "centries CNull p = []"
| "centries (CNode d l r) p =
     (if d = NULL then [] else [(p, d)]) @ centries l (p @ [False]) @ centries r (p @ [True])"

definition addressed :: "af \<Rightarrow> bool list \<times> 'v ptr \<Rightarrow> ip_addr \<times> nat \<times> 'v ptr" where
  "addressed f e = (zaddr f (fst e), length (fst e), snd e)"

abbreviation cvisit :: "('v, 's) cidr_each \<Rightarrow> (ip_addr \<times> nat \<times> 'v ptr) list \<Rightarrow> bool \<times> 's \<Rightarrow> bool \<times> 's" where
  "cvisit fn \<equiv> visit_list (\<lambda>(a, k, v). fn a k v)"

abbreviation cc_st :: "'s cidr_ctx \<Rightarrow> bool \<times> 's" where
  "cc_st ctx \<equiv> (cc_stop ctx, cc_ud ctx)"

definition child_walk :: "('v, 's) cidr_each \<Rightarrow> 'v cidr_node \<Rightarrow> bool \<Rightarrow> 's cidr_ctx \<Rightarrow> nat \<Rightarrow> 's cidr_ctx option" where
  "child_walk fn c b ctx depth =
     (if c = CNull then Some ctx else do {
        ctx \<leftarrow> set_addr_bit ctx depth b;
        ctx \<leftarrow> trie_foreach fn c ctx (Suc depth);
        clr_addr_bit ctx depth })"

lemma trie_foreach_CNode:
  "trie_foreach fn (CNode d l r) ctx depth =
     (if cc_stop ctx then Some ctx else
      let (cont, ctx) =
        (if d \<noteq> NULL then
           (case fn (cc_ss ctx) depth d (cc_ud ctx) of (c, ud) \<Rightarrow> (c, ctx\<lparr>cc_ud := ud, cc_stop := \<not> c\<rparr>))
         else (True, ctx)) in
      if \<not> cont then Some ctx else do {
        ctx \<leftarrow> child_walk fn l False ctx depth;
        if cc_stop ctx then Some ctx else child_walk fn r True ctx depth })"
  unfolding trie_foreach.simps(2) child_walk_def ..

lemma trie_foreach_visit:
  assumes "prefix_addr f p (cc_ss ctx)" "length p + chgt n \<le> fam_width f + 1"
  shows "\<exists>ctx'. trie_foreach fn n ctx (length p) = Some ctx' \<and> cc_ss ctx' = cc_ss ctx
    \<and> cc_st ctx' = cvisit fn (map (addressed f) (centries n p)) (cc_st ctx)"
  using assms
proof (induction n arbitrary: p ctx)
  case (CNode d l r)
  have child: "\<exists>ctx'. child_walk fn c b cx (length p) = Some ctx' \<and> cc_ss ctx' = cc_ss cx
      \<and> cc_st ctx' = cvisit fn (map (addressed f) (centries c (p @ [b]))) (cc_st cx)"
    if c: "c = l \<or> c = r" and cx: "cc_ss cx = cc_ss ctx" for c b cx
  proof (cases "c = CNull")
    case False
    then have "0 < chgt c" by (cases c) auto
    then have len: "length p < fam_width f" "length (p @ [b]) + chgt c \<le> fam_width f + 1"
      using c CNode.prems(2) by auto
    obtain a where a: "set_addr_bit cx (length p) b = Some (cx\<lparr>cc_ss := a\<rparr>)" "prefix_addr f (p @ [b]) a"
      using set_prefix_addr [of f p cx b] CNode.prems(1) cx len(1) by auto
    have pa: "prefix_addr f (p @ [b]) (cc_ss (cx\<lparr>cc_ss := a\<rparr>))" using a(2) by simp
    obtain c' where c': "trie_foreach fn c (cx\<lparr>cc_ss := a\<rparr>) (length (p @ [b])) = Some c'" "cc_ss c' = a"
        "cc_st c' = cvisit fn (map (addressed f) (centries c (p @ [b]))) (cc_st (cx\<lparr>cc_ss := a\<rparr>))"
      using c CNode.IH(1) [OF pa] CNode.IH(2) [OF pa] len(2) by auto
    have "clr_addr_bit c' (length p) = Some (c'\<lparr>cc_ss := cc_ss ctx\<rparr>)"
      using clr_prefix_addr [of f p b c' "cc_ss ctx"] a(2) c'(2) len(1) CNode.prems(1) by simp
    then show ?thesis using False a c' cx by (simp add: child_walk_def)
  qed (simp add: child_walk_def)
  show ?case
  proof (cases "cc_stop ctx")
    case True
    then show ?thesis by (simp add: trie_foreach_CNode)
  next
    case go: False
    define cc where "cc = (if d \<noteq> NULL then
           (case fn (cc_ss ctx) (length p) d (cc_ud ctx) of (c, ud) \<Rightarrow> (c, ctx\<lparr>cc_ud := ud, cc_stop := \<not> c\<rparr>))
         else (True, ctx))"
    obtain cont c1 where cc: "cc = (cont, c1)" by (metis surj_pair)
    let ?here = "if d = NULL then [] else [(p, d)]"
    have c1: "cc_ss c1 = cc_ss ctx" "cont = (\<not> cc_stop c1)" "cc_st c1 = cvisit fn (map (addressed f) ?here) (cc_st ctx)"
      using cc go zaddr_eq [OF CNode.prems(1)] unfolding cc_def
      by (auto simp: visit_Cons visit_step_def addressed_def split: prod.splits if_splits)
    have step: "trie_foreach fn (CNode d l r) ctx (length p) =
        (if cc_stop c1 then Some c1 else do {
          ctx \<leftarrow> child_walk fn l False c1 (length p);
          if cc_stop ctx then Some ctx else child_walk fn r True ctx (length p) })"
      unfolding trie_foreach_CNode cc_def [symmetric] cc using go c1(2) by simp
    have v1: "cvisit fn (map (addressed f) (centries (CNode d l r) p)) (cc_st ctx) =
        cvisit fn (map (addressed f) (centries r (p @ [True]))) (cvisit fn (map (addressed f) (centries l (p @ [False]))) (cc_st c1))"
      unfolding c1(3) by simp
    obtain c2 where c2: "child_walk fn l False c1 (length p) = Some c2" "cc_ss c2 = cc_ss ctx"
        "cc_st c2 = cvisit fn (map (addressed f) (centries l (p @ [False]))) (cc_st c1)"
      using child [of l c1 False] c1(1) by auto
    obtain c3 where c3: "child_walk fn r True c2 (length p) = Some c3" "cc_ss c3 = cc_ss ctx"
        "cc_st c3 = cvisit fn (map (addressed f) (centries r (p @ [True]))) (cc_st c2)"
      using child [of r c2 True] c2(2) by auto
    show ?thesis
    proof (cases "cc_stop c1")
      case True
      then show ?thesis unfolding step v1 using c1(1) by simp
    next
      case False
      then show ?thesis unfolding step v1 c2(3) [symmetric] using c2(1,2) c3 by (cases "cc_stop c2") simp_all
    qed
  qed
qed simp

lemma centries_mem: "(q, d) \<in> set (centries n p) \<longleftrightarrow> d \<noteq> NULL \<and> (\<exists>r. q = p @ r \<and> cmap n r = d)"
proof (induction n arbitrary: p)
  case (CNode e l r)
  have "(\<exists>s. q = p @ s \<and> cmap (CNode e l r) s = d) \<longleftrightarrow>
      (q = p \<and> d = e) \<or> (\<exists>s. q = (p @ [False]) @ s \<and> cmap l s = d) \<or> (\<exists>s. q = (p @ [True]) @ s \<and> cmap r s = d)"
    (is "(\<exists>s. ?P s) \<longleftrightarrow> ?R")
  proof
    assume "\<exists>s. ?P s"
    then obtain s where "q = p @ s" "cmap (CNode e l r) s = d" by blast
    then show ?R by (cases s) (auto split: if_splits)
  next
    assume ?R
    then show "\<exists>s. ?P s"
    proof (elim disjE exE conjE)
      fix s assume "q = (p @ [False]) @ s" "cmap l s = d"
      then show ?thesis by (intro exI [of _ "False # s"]) simp
    next
      fix s assume "q = (p @ [True]) @ s" "cmap r s = d"
      then show ?thesis by (intro exI [of _ "True # s"]) simp
    qed (auto intro: exI [of _ "[]"])
  qed
  then show ?case unfolding centries.simps set_append Un_iff CNode.IH by (auto split: if_splits)
qed auto

lemma centries_distinct: "distinct (map fst (centries n p))"
proof (induction n arbitrary: p)
  case (CNode d l r)
  have under: "take (Suc (length p)) q = p @ [b]" if "q \<in> fst ` set (centries c (p @ [b]))" for q b and c :: "'a cidr_node"
  proof -
    obtain e s where "q = (p @ [b]) @ s" using \<open>q \<in> _\<close> centries_mem [of q _ c "p @ [b]"] by force
    then show ?thesis by simp
  qed
  have "p \<notin> fst ` set (centries c (p @ [b]))" for b and c :: "'a cidr_node"
    using under [of p c b] by fastforce
  moreover have "fst ` set (centries l (p @ [False])) \<inter> fst ` set (centries r (p @ [True])) = {}"
    using under [of _ l False] under [of _ r True] by fastforce
  ultimately show ?case using CNode by simp
qed simp

lemma centries_length: "(q, d) \<in> set (centries n p) \<Longrightarrow> length q < length p + chgt n"
proof (induction n arbitrary: p)
  case (CNode e l r)
  then consider "q = p" | "(q, d) \<in> set (centries l (p @ [False]))" | "(q, d) \<in> set (centries r (p @ [True]))"
    by (auto split: if_splits)
  then show ?case using CNode.IH(1) [of "p @ [False]"] CNode.IH(2) [of "p @ [True]"]
    by cases (auto simp: max_def)
qed simp

lemma zeros_take: "length q \<le> fam_width f \<Longrightarrow> zeros f q = zeros f q' \<Longrightarrow> length q = length q' \<Longrightarrow> q = q'"
  by (simp add: zeros_def)

lemma prefix_addr_iff:
  assumes "length p \<le> fam_width f"
  shows "prefix_addr f p a \<longleftrightarrow> addr_wf a \<and> fam a = f \<and> take (length p) (addr_bits a) = p
    \<and> addr_val a mod 2 ^ (fam_width f - length p) = 0"
proof (cases "fam a = f")
  case True
  let ?W = "fam_width f" and ?k = "length p" and ?v = "addr_val a"
  have len: "length (addr_bits a) = ?W" using True by (simp add: addr_width_fam)
  have bits: "addr_bits a ! i = bit ?v (?W - 1 - i)" if "i < ?W" for i
    using that True by (simp add: addr_bits_def addr_width_fam)
  have "drop ?k (addr_bits a) = replicate (?W - ?k) False \<longleftrightarrow> (\<forall>i < ?W - ?k. \<not> bit ?v (?W - 1 - (?k + i)))"
    using len bits assms by (auto simp: list_eq_iff_nth_eq)
  also have "\<dots> \<longleftrightarrow> (\<forall>j < ?W - ?k. \<not> bit ?v j)"
  proof (intro iffI allI impI)
    fix j assume A: "\<forall>i < ?W - ?k. \<not> bit ?v (?W - 1 - (?k + i))" and j: "j < ?W - ?k"
    have "?W - 1 - (?k + (?W - ?k - 1 - j)) = j" using j by simp
    moreover have "?W - ?k - 1 - j < ?W - ?k" using j by simp
    ultimately show "\<not> bit ?v j" using A by metis
  next
    fix i assume A: "\<forall>j < ?W - ?k. \<not> bit ?v j" and i: "i < ?W - ?k"
    then show "\<not> bit ?v (?W - 1 - (?k + i))" by simp
  qed
  also have "\<dots> \<longleftrightarrow> take_bit (?W - ?k) ?v = 0"
    by (auto simp: bit_eq_iff bit_take_bit_iff)
  finally have tail: "drop ?k (addr_bits a) = replicate (?W - ?k) False \<longleftrightarrow> ?v mod 2 ^ (?W - ?k) = 0"
    by (simp add: take_bit_eq_mod)
  have "addr_bits a = zeros f p \<longleftrightarrow> take ?k (addr_bits a) = p \<and> drop ?k (addr_bits a) = replicate (?W - ?k) False"
    unfolding zeros_def by (metis append_eq_conv_conj append_take_drop_id)
  then show ?thesis using True tail by (auto simp: prefix_addr_def)
qed (auto simp: prefix_addr_def)

lemma entries_addressed:
  assumes h: "chgt n \<le> fam_width f + 1"
  shows "set (map (addressed f) (centries n [])) = {(a, k, d). addr_wf a \<and> fam a = f \<and> k \<le> fam_width f
    \<and> addr_val a mod 2 ^ (fam_width f - k) = 0 \<and> d \<noteq> NULL \<and> ctab n (k, network a k) = d}"
    (is "?L = ?R")
proof (intro set_eqI iffI)
  fix x assume "x \<in> ?L"
  then obtain q d where q: "(q, d) \<in> set (centries n [])" "x = addressed f (q, d)" by auto
  have len: "length q \<le> fam_width f" using centries_length [OF q(1)] h by simp
  obtain a where a: "prefix_addr f q a" using prefix_addr_exists [OF len] by blast
  have x: "x = (a, length q, d)" using q(2) zaddr_eq [OF a] by (simp add: addressed_def)
  have "addr_wf a" "fam a = f" "take (length q) (addr_bits a) = q" "addr_val a mod 2 ^ (fam_width f - length q) = 0"
    using a len by (auto simp: prefix_addr_iff)
  moreover have "d \<noteq> NULL" "cmap n q = d" using q(1) centries_mem [of q d n "[]"] by auto
  ultimately show "x \<in> ?R" using x len ctab_network [of a "length q" n] by (simp add: addr_width_fam)
next
  fix x assume "x \<in> ?R"
  then obtain a k d where x: "x = (a, k, d)" "addr_wf a" "fam a = f" "k \<le> fam_width f"
      "addr_val a mod 2 ^ (fam_width f - k) = 0" "d \<noteq> NULL" "ctab n (k, network a k) = d" by auto
  let ?q = "take k (addr_bits a)"
  have len: "length ?q = k" using x by (simp add: addr_width_fam)
  have "prefix_addr f ?q a" using x len by (simp add: prefix_addr_iff)
  then have "addressed f (?q, d) = x" using x(1) len zaddr_eq by (simp add: addressed_def)
  moreover have "(?q, d) \<in> set (centries n [])"
    using x ctab_network [of a k n] centries_mem [of ?q d n "[]"] by (simp add: addr_width_fam)
  ultimately show "x \<in> ?L" by force
qed

lemma distinct_addressed:
  assumes h: "chgt n \<le> fam_width f + 1"
  shows "distinct (map (addressed f) (centries n []))"
proof -
  have "inj_on (addressed f) (set (centries n []))"
  proof (rule inj_onI)
    fix x y assume x: "x \<in> set (centries n [])" and y: "y \<in> set (centries n [])" and e: "addressed f x = addressed f y"
    have len: "length (fst x) \<le> fam_width f" "length (fst y) \<le> fam_width f"
      using centries_length [of "fst x" "snd x" n "[]"] centries_length [of "fst y" "snd y" n "[]"] x y h by auto
    obtain a where a: "prefix_addr f (fst x) a" using prefix_addr_exists [OF len(1)] by blast
    obtain b where b: "prefix_addr f (fst y) b" using prefix_addr_exists [OF len(2)] by blast
    have "a = b" "length (fst x) = length (fst y)" "snd x = snd y"
      using e zaddr_eq [OF a] zaddr_eq [OF b] by (auto simp: addressed_def)
    then show "x = y" using a b len by (metis prefix_addr_iff prod_eqI)
  qed
  then show ?thesis using centries_distinct [of n "[]"] by (simp add: distinct_map)
qed

lemma trie_del_beyond:
  assumes "addr_wf a" "i + k = addr_width a" "cmap n (drop i (addr_bits a)) \<noteq> None"
  shows "trie_del_from n a i (Suc k) = None"
  using assms
proof (induction k arbitrary: n i)
  case 0
  have "addr_bit a (addr_width a) = None"
    using 0(1) by (cases a) (auto simp: bit4_def bit6_def arr_get_def)
  then show ?case using 0 by (cases n) auto
next
  case (Suc k)
  have b: "addr_bit a i = Some (addr_bits a ! i)" using Suc.prems by (simp add: addr_bit_bits)
  have p: "drop i (addr_bits a) = addr_bits a ! i # drop (Suc i) (addr_bits a)"
    using Suc.prems by (simp add: drop_addr_bits)
  show ?case
  proof (cases n)
    case (CNode d l r)
    then show ?thesis using b Suc.IH [of "Suc i" "if addr_bits a ! i then r else l"] Suc.prems p
      by (cases "addr_bits a ! i") simp_all
  qed (use Suc.prems in simp)
qed

text \<open>
  \<^verbatim>\<open>op_cidr_del4\<close> and \<^verbatim>\<open>op_cidr_del6\<close> do not check the prefix length: deleting one bit past a
  stored host prefix shifts by a negative amount (IPv4) or reads past the address (IPv6).
\<close>

lemma cidr_del_beyond_width:
  assumes "cidr_tab t (fam a) (addr_width a, network a (addr_width a)) \<noteq> None" "addr_wf a"
  shows "cidr_step t (CDel a (int (addr_width a) + 1)) = None"
proof -
  have "cmap (cidr_root t (fam a)) (drop 0 (addr_bits a)) \<noteq> None"
    using assms ctab_network [OF assms(2), of "addr_width a" "cidr_root t (fam a)"] by (simp add: cidr_tab_def)
  then have "trie_del (cidr_root t (fam a)) a (int (addr_width a) + 1) = None"
    using trie_del_beyond [OF assms(2), of 0 "addr_width a"] by (simp add: trie_del_def nat_add_distrib)
  then show ?thesis by (cases a) (simp_all add: op_cidr_del4_def op_cidr_del6_def)
qed

section \<open>Properties\<close>

text \<open>
  C8. Any sequence of insertions, deletions, match-any and longest-prefix queries and counts
  on a new table (well-formed addresses, deletion lengths within the address) stays defined
  and answers as two tables keyed by prefix length and network number: an out-of-range
  length is refused with -1, match-any returns the value of the shortest stored prefix that
  contains the address, longest-prefix match that of the longest, null when none does, and
  the counters hold the number of stored prefixes.
\<close>

theorem cidr_refines_tables:
  assumes "list_all cidr_req_ok rs"
  shows "\<exists>t. cidr_run (op_cidr_create name) rs = Some (fst (spec_run (\<lambda>f. Map.empty) rs), t)
    \<and> cidr_tab t = snd (spec_run (\<lambda>f. Map.empty) rs) \<and> cidr_inv t"
  using cidr_run_refines [OF cidr_create_inv(1) assms] unfolding cidr_create_inv(2) by blast

text \<open>
  C33. Enumeration calls the callback on every stored prefix of the family exactly once, with
  the network address (host bits zero), the prefix length and the value, until the callback
  asks to stop.
\<close>

theorem cidr_foreach_correct:
  assumes "cidr_inv t"
  shows "\<exists>xs. (case f of AF_INET \<Rightarrow> op_cidr_foreach4 t fn ud | AF_INET6 \<Rightarrow> op_cidr_foreach6 t fn ud)
      = Some (snd (cvisit fn xs (False, ud)))
    \<and> distinct xs
    \<and> set xs = {(a, k, d). addr_wf a \<and> fam a = f \<and> k \<le> fam_width f
        \<and> addr_val a mod 2 ^ (fam_width f - k) = 0 \<and> d \<noteq> NULL \<and> cidr_tab t f (k, network a k) = d}"
proof -
  have h: "chgt (cidr_root t f) \<le> fam_width f + 1" using assms by (rule cidr_inv_at)
  define a0 where "a0 = (case f of AF_INET \<Rightarrow> InAddr 0 | AF_INET6 \<Rightarrow> In6Addr (replicate 16 0))"
  have "prefix_addr f [] a0"
    by (cases f) (auto simp: a0_def prefix_addr_def zeros_def addr_bits_nth ntohl_bit intro!: nth_equalityI)
  then obtain c where c: "trie_foreach fn (cidr_root t f) \<lparr>cc_ud = ud, cc_ss = a0, cc_stop = False\<rparr> (length ([] :: bool list)) = Some c"
      "cc_st c = cvisit fn (map (addressed f) (centries (cidr_root t f) [])) (False, ud)"
    using trie_foreach_visit [of f "[]" "\<lparr>cc_ud = ud, cc_ss = a0, cc_stop = False\<rparr>" "cidr_root t f" fn] h by auto
  have "cc_ud c = snd (cvisit fn (map (addressed f) (centries (cidr_root t f) [])) (False, ud))"
    using c(2) by (metis snd_conv)
  then have "(case f of AF_INET \<Rightarrow> op_cidr_foreach4 t fn ud | AF_INET6 \<Rightarrow> op_cidr_foreach6 t fn ud)
      = Some (snd (cvisit fn (map (addressed f) (centries (cidr_root t f) [])) (False, ud)))"
    using c(1) by (cases f) (simp_all add: op_cidr_foreach4_def op_cidr_foreach6_def a0_def)
  then show ?thesis using entries_addressed [OF h] distinct_addressed [OF h] unfolding cidr_tab_def by blast
qed

definition sample_reqs :: "nat cidr_req list" where
  "sample_reqs = [CSet (InAddr 0x0A) 8 1, CSet (InAddr 0x0100000A) 32 2, CSet (InAddr 0) 40 3,
     CLpm (InAddr 0x0100000A), CMatchAny (InAddr 0x0100000A), CDel (InAddr 0x0100000A) 32,
     CSet (In6Addr (replicate 16 0xFF)) 64 4, CCount AF_INET6]"

lemma sample_reqs_ok: "list_all cidr_req_ok sample_reqs"
  by (simp add: sample_reqs_def)

theorem cidr_refines_tables_witness:
  "\<exists>t. cidr_run (op_cidr_create ''acl'') sample_reqs = Some (fst (spec_run (\<lambda>f. Map.empty) sample_reqs), t)
    \<and> cidr_tab t = snd (spec_run (\<lambda>f. Map.empty) sample_reqs) \<and> cidr_inv t"
  using cidr_refines_tables [OF sample_reqs_ok, of "''acl''"] .

theorem cidr_foreach_correct_witness:
  "\<exists>t. cidr_inv t \<and> (\<exists>v. cidr_tab t AF_INET (8, 10) = Some (v :: nat))
    \<and> (\<exists>xs. op_cidr_foreach4 t (\<lambda>a k (d :: nat ptr) n. (True, n + 1)) (0 :: nat) = Some (snd (cvisit (\<lambda>a k (d :: nat ptr) n. (True, n + 1)) xs (False, 0)))
      \<and> distinct xs)"
proof -
  obtain t :: "nat op_cidr_tbl" where t: "cidr_inv t" "cidr_tab t AF_INET (8, 10) = Some 1"
    using cidr_set_step [OF cidr_create_inv(1) [of "[]"], where a = "InAddr 0x0A" and plen = 8 and v = "1::nat"] unfolding cidr_create_inv(2)
    by (auto simp: network_def ntohl_def)
  let ?fn = "\<lambda>(a :: ip_addr) (k :: nat) (d :: nat ptr) (n :: nat). (True, n + 1)"
  from cidr_foreach_correct [OF t(1), where f = AF_INET and fn = ?fn and ud = 0, unfolded af.case]
  obtain xs where xs: "op_cidr_foreach4 t ?fn 0 = Some (snd (cvisit ?fn xs (False, 0)))" "distinct xs"
    by (elim exE conjE)
  then have "\<exists>xs. op_cidr_foreach4 t ?fn 0 = Some (snd (cvisit ?fn xs (False, 0))) \<and> distinct xs" by blast
  then show ?thesis using t by auto
qed

end
