(* ===== verification/Clocks.thy ===== *)
theory Clocks
  imports Libop_Prelude
begin

unbundle bit_operations_syntax

text \<open>
  The clocks of the mesh protocol: the hybrid logical clock of \<^verbatim>\<open>include/op_hlc.h\<close> and the
  vector clock of \<^verbatim>\<open>include/op_vclock.h\<close>, with the bounded table of (replica key, counter)
  pairs that the vector clock shares with the replicated data types of \<^verbatim>\<open>op_crdt.h\<close>.
\<close>

section \<open>The hybrid logical clock\<close>

record op_hlc = hlc_ts :: u64

definition op_hlc_wall_ms :: "op_hlc \<Rightarrow> u64" where
  "op_hlc_wall_ms h = drop_bit 16 (hlc_ts h)"

definition op_hlc_logical :: "op_hlc \<Rightarrow> u16" where
  "op_hlc_logical h = ucast (hlc_ts h AND 0xFFFF)"

definition op_hlc_pack :: "u64 \<Rightarrow> u16 \<Rightarrow> op_hlc" where
  "op_hlc_pack wall_ms logical = \<lparr>hlc_ts = push_bit 16 wall_ms OR ucast logical\<rparr>"

definition op_hlc_cmp :: "op_hlc \<Rightarrow> op_hlc \<Rightarrow> int" where
  "op_hlc_cmp a b = (if hlc_ts a < hlc_ts b then -1 else if hlc_ts a > hlc_ts b then 1 else 0)"

definition op_hlc_max :: "op_hlc \<Rightarrow> op_hlc \<Rightarrow> op_hlc" where
  "op_hlc_max a b = (if hlc_ts a \<ge> hlc_ts b then a else b)"

definition op_hlc_tick :: "op_hlc \<Rightarrow> u64 \<Rightarrow> op_hlc" where
  "op_hlc_tick hlc now_ms =
     (let l_wall = op_hlc_wall_ms hlc in
      if now_ms > l_wall then op_hlc_pack now_ms 0
      else op_hlc_pack l_wall (op_hlc_logical hlc + 1))"

definition op_hlc_recv :: "op_hlc \<Rightarrow> u64 \<Rightarrow> op_hlc \<Rightarrow> op_hlc" where
  "op_hlc_recv hlc now_ms hlc_remote =
     (let l_wall = op_hlc_wall_ms hlc; r_wall = op_hlc_wall_ms hlc_remote;
          l_log = op_hlc_logical hlc; r_log = op_hlc_logical hlc_remote;
          max_wall = now_ms;
          max_wall = (if l_wall > max_wall then l_wall else max_wall);
          max_wall = (if r_wall > max_wall then r_wall else max_wall);
          new_log = (if max_wall = l_wall \<and> max_wall = r_wall then (if l_log > r_log then l_log else r_log) + 1
                     else if max_wall = l_wall then l_log + 1
                     else if max_wall = r_wall then r_log + 1
                     else 0)
      in op_hlc_pack max_wall new_log)"

section \<open>Tables of counters keyed by replica\<close>

text \<open>
  \<^verbatim>\<open>op_vclock_t\<close>, \<^verbatim>\<open>op_crdt_gctr_t\<close> and the contiguous part of \<^verbatim>\<open>op_crdt_cc_t\<close> are arrays of
  (8-byte key, 64-bit counter) entries of which the first \<^verbatim>\<open>count\<close> are in use.  A table is the
  list of its used entries, so \<^verbatim>\<open>count\<close> is the length of the list.  The linear search, the
  increment and the component-wise maximum merge are the same code in the three headers.
\<close>

type_synonym replica = "u8 list"
type_synonym ctr_entry = "replica \<times> u64"

fun ctr_find :: "ctr_entry list \<Rightarrow> replica \<Rightarrow> nat option" where
  "ctr_find [] key = None"
| "ctr_find (e # es) key = (if fst e = key then Some 0 else map_option Suc (ctr_find es key))"

definition ctr_inc :: "nat \<Rightarrow> ctr_entry list \<Rightarrow> replica \<Rightarrow> u64 \<times> ctr_entry list" where
  "ctr_inc max_entries es key =
     (case ctr_find es key of
        Some i \<Rightarrow> let c = snd (es ! i) + 1 in (c, es[i := (fst (es ! i), c)])
      | None \<Rightarrow> if length es \<ge> max_entries then (0, es) else (1, es @ [(key, 1)]))"

definition ctr_merge_entry :: "nat \<Rightarrow> ctr_entry list \<Rightarrow> ctr_entry \<Rightarrow> ctr_entry list" where
  "ctr_merge_entry max_entries dst e =
     (case ctr_find dst (fst e) of
        Some i \<Rightarrow> if snd e > snd (dst ! i) then dst[i := (fst (dst ! i), snd e)] else dst
      | None \<Rightarrow> if length dst < max_entries then dst @ [e] else dst)"

definition ctr_merge :: "nat \<Rightarrow> ctr_entry list \<Rightarrow> ctr_entry list \<Rightarrow> ctr_entry list" where
  "ctr_merge max_entries dst src = foldl (ctr_merge_entry max_entries) dst src"

section \<open>The vector clock\<close>

definition OP_VCLOCK_MAX_ENTRIES :: nat where
  "OP_VCLOCK_MAX_ENTRIES = 32"

record op_vclock = vc_entries :: "ctr_entry list"

definition op_vclock_find :: "op_vclock \<Rightarrow> replica \<Rightarrow> nat option" where
  "op_vclock_find vc server_key = ctr_find (vc_entries vc) server_key"

definition op_vclock_get :: "op_vclock \<Rightarrow> replica \<Rightarrow> u64" where
  "op_vclock_get vc server_key =
     (case op_vclock_find vc server_key of Some i \<Rightarrow> snd (vc_entries vc ! i) | None \<Rightarrow> 0)"

definition op_vclock_tick :: "op_vclock \<Rightarrow> replica \<Rightarrow> u64 \<times> op_vclock" where
  "op_vclock_tick vc server_key =
     (case ctr_inc OP_VCLOCK_MAX_ENTRIES (vc_entries vc) server_key of (c, es) \<Rightarrow> (c, vc\<lparr>vc_entries := es\<rparr>))"

definition op_vclock_merge :: "op_vclock \<Rightarrow> op_vclock \<Rightarrow> op_vclock" where
  "op_vclock_merge dst src = dst\<lparr>vc_entries := ctr_merge OP_VCLOCK_MAX_ENTRIES (vc_entries dst) (vc_entries src)\<rparr>"

fun vclock_cmp_loop :: "ctr_entry list \<Rightarrow> op_vclock \<Rightarrow> bool \<times> bool \<Rightarrow> bool \<times> bool" where
  "vclock_cmp_loop [] other flags = flags"
| "vclock_cmp_loop ((k, c) # es) other (le, ge) =
     (let v = op_vclock_get other k in
      vclock_cmp_loop es other (if c > v then False else le, if c < v then False else ge))"

definition op_vclock_cmp :: "op_vclock \<Rightarrow> op_vclock \<Rightarrow> int" where
  "op_vclock_cmp a b =
     (let (a_le_b, b_le_a) = vclock_cmp_loop (vc_entries a) b (True, True);
          (b_le_a, a_le_b) = vclock_cmp_loop (vc_entries b) a (b_le_a, a_le_b)
      in if a_le_b \<and> b_le_a then 0 else if a_le_b then -1 else if b_le_a then 1 else 2)"

definition op_vclock_wire_size :: "op_vclock \<Rightarrow> nat" where
  "op_vclock_wire_size vc = 1 + length (vc_entries vc) * 16"

definition be64 :: "u64 \<Rightarrow> u8 list" where
  "be64 c = [ucast (drop_bit 56 c), ucast (drop_bit 48 c), ucast (drop_bit 40 c), ucast (drop_bit 32 c),
     ucast (drop_bit 24 c), ucast (drop_bit 16 c), ucast (drop_bit 8 c), ucast c]"

definition from_be64 :: "u8 list \<Rightarrow> u64" where
  "from_be64 b =
     push_bit 56 (ucast (b ! 0)) OR push_bit 48 (ucast (b ! 1)) OR push_bit 40 (ucast (b ! 2))
     OR push_bit 32 (ucast (b ! 3)) OR push_bit 24 (ucast (b ! 4)) OR push_bit 16 (ucast (b ! 5))
     OR push_bit 8 (ucast (b ! 6)) OR ucast (b ! 7)"

text \<open>The bytes written; none (return value 0) when the buffer is too small.\<close>

definition op_vclock_encode :: "op_vclock \<Rightarrow> nat \<Rightarrow> u8 list" where
  "op_vclock_encode vc cap =
     (if cap < op_vclock_wire_size vc then []
      else of_nat (length (vc_entries vc)) # concat (map (\<lambda>(k, c). k @ be64 c) (vc_entries vc)))"

fun vclock_decode_entries :: "nat \<Rightarrow> u8 list \<Rightarrow> ctr_entry list" where
  "vclock_decode_entries 0 buf = []"
| "vclock_decode_entries (Suc n) buf =
     (take 8 buf, from_be64 (take 8 (drop 8 buf))) # vclock_decode_entries n (drop 16 buf)"

text \<open>The bytes consumed and the clock, or \<open>None\<close> for the error return 0.\<close>

definition op_vclock_decode :: "u8 list \<Rightarrow> (nat \<times> op_vclock) option" where
  "op_vclock_decode buf =
     (if length buf < 1 then None
      else let cnt = unat (buf ! 0) in
        if cnt > OP_VCLOCK_MAX_ENTRIES then None
        else if length buf < 1 + cnt * 16 then None
        else Some (1 + cnt * 16, \<lparr>vc_entries = vclock_decode_entries cnt (drop 1 buf)\<rparr>))"

section \<open>The hybrid clock advances\<close>

abbreviation ts :: "op_hlc \<Rightarrow> nat" where
  "ts h \<equiv> unat (hlc_ts h)"

lemma unat_u16: "unat (l :: u16) < 65536"
proof -
  have "unat l < 2 ^ LENGTH(16)" by (rule unsigned_less)
  then show ?thesis by simp
qed

lemma ts_pack:
  assumes "unat w < 2 ^ 48"
  shows "ts (op_hlc_pack w l) = unat w * 65536 + unat l"
proof -
  have p: "push_bit 16 (unat w) < 2 ^ 64" using assms by (simp add: push_bit_eq_mult)
  have l: "unat l < 2 ^ 16" using unat_u16 [of l] by simp
  have "ts (op_hlc_pack w l) = take_bit 64 (push_bit 16 (unat w)) OR take_bit 64 (unat l)"
    by (simp add: op_hlc_pack_def unsigned_or_eq unsigned_push_bit_eq unsigned_ucast_eq)
  also have "\<dots> = push_bit 16 (unat w) OR unat l"
    using p l by (simp add: take_bit_nat_eq_self)
  also have "\<dots> = push_bit 16 (unat w) + unat l"
  proof (rule disjunctive_add [symmetric])
    fix n show "\<not> bit (push_bit 16 (unat w)) n \<or> \<not> bit (unat l) n"
      using bit_below_pow2 [OF l, of n] by (auto simp: bit_push_bit_iff)
  qed
  finally show ?thesis by (simp add: push_bit_eq_mult)
qed

lemma wall_ts: "unat (op_hlc_wall_ms h) = ts h div 65536"
proof -
  have "unat (op_hlc_wall_ms h) = drop_bit 16 (ts h)" unfolding op_hlc_wall_ms_def by (rule unat_drop_bit_eq)
  then show ?thesis by (simp add: drop_bit_eq_div)
qed

lemma logical_ts: "unat (op_hlc_logical h) = ts h mod 65536"
proof -
  have m: "(0xFFFF :: u64) = mask 16" by (simp add: mask_eq_exp_minus_1)
  have "unat (op_hlc_logical h) = take_bit 16 (take_bit 16 (ts h))"
    unfolding op_hlc_logical_def m take_bit_eq_mask [symmetric] by (simp add: unsigned_ucast_eq unsigned_take_bit_eq)
  then show ?thesis by (simp add: take_bit_eq_mod)
qed

lemma wall_less: "unat (op_hlc_wall_ms h) < 2 ^ 48"
proof -
  have "ts h < 2 ^ LENGTH(64)" by (rule unsigned_less)
  then show ?thesis by (simp add: wall_ts less_mult_imp_div_less)
qed

lemma ts_split: "ts h = unat (op_hlc_wall_ms h) * 65536 + unat (op_hlc_logical h)"
  by (simp add: wall_ts logical_ts)

lemma unat_inc16: "unat l < 65535 \<Longrightarrow> unat (l + 1 :: u16) = unat l + 1"
  by (simp add: unat_word_ariths(1))

lemma unat_word_max: "unat (max a b) = max (unat a) (unat (b :: 'a :: len word))"
  by (simp add: max_def word_le_nat_alt)

lemma logical_bound:
  assumes "op_hlc_logical h \<noteq> 0xFFFF"
  shows "unat (op_hlc_logical h) < 65535"
proof -
  have "unat (op_hlc_logical h) \<noteq> unat (0xFFFF :: u16)" using assms by (simp only: word_unat_eq_iff) simp
  then show ?thesis using unat_u16 [of "op_hlc_logical h"] by simp
qed

lemma hlc_tick_ts:
  assumes "unat now < 2 ^ 48" "op_hlc_logical h \<noteq> 0xFFFF"
  shows "ts (op_hlc_tick h now) = (if unat now > unat (op_hlc_wall_ms h) then unat now * 65536 else ts h + 1)"
proof -
  have l: "unat (op_hlc_logical h) < 65535" using assms(2) by (rule logical_bound)
  show ?thesis
    using assms(1) wall_less [of h] unat_inc16 [OF l] ts_split [of h]
    by (simp add: op_hlc_tick_def Let_def ts_pack word_less_nat_alt)
qed

lemma hlc_recv_ts:
  assumes now: "unat now < 2 ^ 48" and l: "op_hlc_logical h \<noteq> 0xFFFF" and r: "op_hlc_logical g \<noteq> 0xFFFF"
  defines "w \<equiv> max (unat now) (max (unat (op_hlc_wall_ms h)) (unat (op_hlc_wall_ms g)))"
  shows "ts h < ts (op_hlc_recv h now g)" "ts g < ts (op_hlc_recv h now g)"
    "unat (op_hlc_wall_ms (op_hlc_recv h now g)) = w"
proof -
  let ?lw = "op_hlc_wall_ms h" and ?rw = "op_hlc_wall_ms g" and ?ll = "op_hlc_logical h" and ?rl = "op_hlc_logical g"
  have ll: "unat ?ll < 65535" "unat ?rl < 65535" by (rule logical_bound [OF l], rule logical_bound [OF r])
  define mw where "mw = (if ?rw > (if ?lw > now then ?lw else now) then ?rw else (if ?lw > now then ?lw else now))"
  define nl where "nl = (if mw = ?lw \<and> mw = ?rw then (if ?ll > ?rl then ?ll else ?rl) + 1
                     else if mw = ?lw then ?ll + 1 else if mw = ?rw then ?rl + 1 else 0)"
  have res: "op_hlc_recv h now g = op_hlc_pack mw nl"
    by (simp only: op_hlc_recv_def Let_def mw_def nl_def)
  have mw: "unat mw = w" by (auto simp: mw_def w_def word_less_nat_alt)
  have w48: "w < 2 ^ 48" using now wall_less [of h] wall_less [of g] by (simp add: w_def)
  have ts: "ts (op_hlc_recv h now g) = w * 65536 + unat nl"
    unfolding res using w48 mw by (simp add: ts_pack)
  have hl: "unat ?lw = w \<Longrightarrow> unat ?ll < unat nl" and hg: "unat ?rw = w \<Longrightarrow> unat ?rl < unat nl"
    using ll unat_inc16 [OF ll(1)] unat_inc16 [OF ll(2)] mw
    by (auto simp: nl_def word_unat_eq_iff word_less_nat_alt)
  have lw: "unat ?lw \<le> w" "unat ?rw \<le> w" by (simp_all add: w_def)
  show "ts h < ts (op_hlc_recv h now g)"
    unfolding ts ts_split [of h] using lw(1) hl unat_u16 [of ?ll] by (cases "unat ?lw = w") auto
  show "ts g < ts (op_hlc_recv h now g)"
    unfolding ts ts_split [of g] using lw(2) hg unat_u16 [of ?rl] by (cases "unat ?rw = w") auto
  show "unat (op_hlc_wall_ms (op_hlc_recv h now g)) = w"
    using unat_u16 [of nl] unfolding wall_ts ts by simp
qed

text \<open>
  The logical counter wraps: at \<^verbatim>\<open>0xFFFF\<close>, with no progress of the wall clock, a tick packs
  logical 0 and the timestamp goes backwards.
\<close>

lemma hlc_tick_wraps:
  assumes "op_hlc_logical h = 0xFFFF" "now \<le> op_hlc_wall_ms h"
  shows "op_hlc_cmp (op_hlc_tick h now) h = -1"
proof -
  have wrap16: "(0xFFFF :: u16) + 1 = 0" by (simp add: word_unat_eq_iff)
  have "\<not> now > op_hlc_wall_ms h" using assms(2) by simp
  then have "op_hlc_tick h now = op_hlc_pack (op_hlc_wall_ms h) 0"
    unfolding op_hlc_tick_def Let_def assms(1) wrap16 by (rule if_not_P)
  then have "ts (op_hlc_tick h now) = unat (op_hlc_wall_ms h) * 65536"
    using wall_less [of h] by (simp add: ts_pack)
  moreover have "ts h = unat (op_hlc_wall_ms h) * 65536 + 65535"
    using ts_split [of h] assms(1) by simp
  ultimately show ?thesis by (simp add: op_hlc_cmp_def word_less_nat_alt)
qed

section \<open>Counter tables as functions\<close>

definition ctr_val :: "ctr_entry list \<Rightarrow> replica \<Rightarrow> u64" where
  "ctr_val es k = (case map_of es k of None \<Rightarrow> 0 | Some c \<Rightarrow> c)"

definition ctr_ok :: "nat \<Rightarrow> ctr_entry list \<Rightarrow> bool" where
  "ctr_ok max_entries es \<longleftrightarrow> distinct (map fst es) \<and> length es \<le> max_entries"

lemma ctr_find_None: "ctr_find es k = None \<longleftrightarrow> k \<notin> fst ` set es"
  by (induction es) auto

lemma ctr_find_Some: "ctr_find es k = Some i \<Longrightarrow> i < length es \<and> fst (es ! i) = k \<and> map_of es k = Some (snd (es ! i))"
  by (induction es arbitrary: i) (auto split: if_splits)

lemma ctr_find_val: "(case ctr_find es k of Some i \<Rightarrow> snd (es ! i) | None \<Rightarrow> 0) = ctr_val es k"
proof (cases "ctr_find es k")
  case None
  then have "map_of es k = None" by (simp add: ctr_find_None map_of_eq_None_iff)
  then show ?thesis using None by (simp add: ctr_val_def)
next
  case (Some i)
  then show ?thesis using ctr_find_Some by (simp add: ctr_val_def)
qed

lemma ctr_update:
  assumes "distinct (map fst es)" "i < length es" "fst (es ! i) = k"
  shows "ctr_val (es[i := (k, c)]) = (ctr_val es)(k := c)" "map fst (es[i := (k, c)]) = map fst es"
proof -
  show keys: "map fst (es[i := (k, c)]) = map fst es"
    using assms by (simp add: map_update list_update_same_conv)
  have d: "distinct (map fst (es[i := (k, c)]))" using assms(1) keys by simp
  have "map_of (es[i := (k, c)]) = (map_of es)(k \<mapsto> c)"
  proof
    fix x
    show "map_of (es[i := (k, c)]) x = ((map_of es)(k \<mapsto> c)) x"
    proof (cases "x = k")
      case True
      have "(k, c) \<in> set (es[i := (k, c)])" using assms(2) by (rule set_update_memI)
      then show ?thesis using True d by simp
    next
      case False
      have "map_of es x = Some v \<longleftrightarrow> map_of (es[i := (k, c)]) x = Some v" for v
        using assms d False by (simp add: map_of_eq_Some_iff in_set_conv_nth) (metis fst_conv nth_list_update)
      then show ?thesis using False by (metis fun_upd_apply not_None_eq)
    qed
  qed
  then show "ctr_val (es[i := (k, c)]) = (ctr_val es)(k := c)"
    by (auto simp: ctr_val_def fun_eq_iff)
qed

lemma ctr_append:
  assumes "k \<notin> fst ` set es"
  shows "ctr_val (es @ [(k, c)]) = (ctr_val es)(k := c)"
proof -
  have "map_of es k = None" using assms by (simp add: map_of_eq_None_iff)
  then show ?thesis by (auto simp: ctr_val_def fun_eq_iff map_add_def split: option.splits)
qed

lemma ctr_inc_spec:
  assumes ok: "ctr_ok m es"
  shows "k \<in> fst ` set es \<or> length es < m \<Longrightarrow>
      fst (ctr_inc m es k) = ctr_val es k + 1 \<and> ctr_val (snd (ctr_inc m es k)) = (ctr_val es)(k := ctr_val es k + 1)"
    and "k \<notin> fst ` set es \<Longrightarrow> length es = m \<Longrightarrow> ctr_inc m es k = (0, es)"
    and "ctr_ok m (snd (ctr_inc m es k))"
proof -
  have upd: "ctr_val (es[i := (k, ctr_val es k + 1)]) = (ctr_val es)(k := ctr_val es k + 1)"
      "map fst (es[i := (k, ctr_val es k + 1)]) = map fst es" "snd (es ! i) = ctr_val es k" "fst (es ! i) = k"
    if i: "ctr_find es k = Some i" for i
  proof -
    note f = ctr_find_Some [OF i]
    show "snd (es ! i) = ctr_val es k" "fst (es ! i) = k" using f by (simp_all add: ctr_val_def)
    show "ctr_val (es[i := (k, ctr_val es k + 1)]) = (ctr_val es)(k := ctr_val es k + 1)"
        "map fst (es[i := (k, ctr_val es k + 1)]) = map fst es"
      using ctr_update [of es i k] f ok by (simp_all add: ctr_ok_def)
  qed
  have none: "ctr_val es k = 0" if "k \<notin> fst ` set es"
    using that map_of_eq_None_iff [of es k] by (simp add: ctr_val_def)
  show "k \<in> fst ` set es \<or> length es < m \<Longrightarrow>
      fst (ctr_inc m es k) = ctr_val es k + 1 \<and> ctr_val (snd (ctr_inc m es k)) = (ctr_val es)(k := ctr_val es k + 1)"
    using upd ctr_append [of k es 1] none ctr_find_None [of es k]
    by (auto simp: ctr_inc_def Let_def split: option.splits)
  show "k \<notin> fst ` set es \<Longrightarrow> length es = m \<Longrightarrow> ctr_inc m es k = (0, es)"
    using ctr_find_None [of es k] by (simp add: ctr_inc_def)
  show "ctr_ok m (snd (ctr_inc m es k))"
    using ok upd(2,3,4) ctr_find_None [of es k]
    by (auto simp: ctr_inc_def Let_def ctr_ok_def split: option.splits)
qed

lemma ctr_merge_entry_spec:
  assumes ok: "ctr_ok m dst" and room: "fst e \<in> fst ` set dst \<or> length dst < m"
  shows "ctr_ok m (ctr_merge_entry m dst e)"
    and "ctr_val (ctr_merge_entry m dst e) = (ctr_val dst)(fst e := max (ctr_val dst (fst e)) (snd e))"
    and "fst ` set (ctr_merge_entry m dst e) = insert (fst e) (fst ` set dst)"
proof -
  have "ctr_ok m (ctr_merge_entry m dst e)
    \<and> ctr_val (ctr_merge_entry m dst e) = (ctr_val dst)(fst e := max (ctr_val dst (fst e)) (snd e))
    \<and> fst ` set (ctr_merge_entry m dst e) = insert (fst e) (fst ` set dst)"
  proof (cases "ctr_find dst (fst e)")
    case None
    then have k: "fst e \<notin> fst ` set dst" by (simp add: ctr_find_None)
    then have "ctr_val dst (fst e) = 0" using map_of_eq_None_iff [of dst "fst e"] by (simp add: ctr_val_def)
    then show ?thesis using None k ok room ctr_append [OF k, of "snd e"]
      by (auto simp: ctr_merge_entry_def ctr_ok_def max_def)
  next
    case (Some i)
    note f = ctr_find_Some [OF Some]
    have v: "ctr_val dst (fst e) = snd (dst ! i)" using f by (simp add: ctr_val_def)
    have u: "ctr_val (dst[i := (fst (dst ! i), snd e)]) = (ctr_val dst)(fst e := snd e)"
        "map fst (dst[i := (fst (dst ! i), snd e)]) = map fst dst"
      using ctr_update [of dst i "fst e" "snd e"] f ok by (simp_all add: ctr_ok_def)
    have s: "fst ` set (dst[i := (fst (dst ! i), snd e)]) = fst ` set dst"
      using u(2) by (metis list.set_map)
    have "fst e \<in> fst ` set dst" using Some ctr_find_None by (metis option.distinct(1))
    then show ?thesis using Some v u s ok
      by (auto simp: ctr_merge_entry_def ctr_ok_def max_def fun_upd_idem insert_absorb)
  qed
  then show "ctr_ok m (ctr_merge_entry m dst e)"
    and "ctr_val (ctr_merge_entry m dst e) = (ctr_val dst)(fst e := max (ctr_val dst (fst e)) (snd e))"
    and "fst ` set (ctr_merge_entry m dst e) = insert (fst e) (fst ` set dst)"
    by auto
qed

lemma ctr_merge_spec:
  assumes "ctr_ok m dst" "card (fst ` set dst \<union> fst ` set src) \<le> m"
  shows "ctr_ok m (ctr_merge m dst src)"
    and "distinct (map fst src) \<Longrightarrow> ctr_val (ctr_merge m dst src) = (\<lambda>k. max (ctr_val dst k) (ctr_val src k))"
    and "fst ` set (ctr_merge m dst src) = fst ` set dst \<union> fst ` set src"
proof -
  have "ctr_ok m (ctr_merge m dst src)
    \<and> (distinct (map fst src) \<longrightarrow> ctr_val (ctr_merge m dst src) = (\<lambda>k. max (ctr_val dst k) (ctr_val src k)))
    \<and> fst ` set (ctr_merge m dst src) = fst ` set dst \<union> fst ` set src"
    using assms
  proof (induction src arbitrary: dst)
    case Nil
    then show ?case by (auto simp: ctr_merge_def ctr_val_def)
  next
    case (Cons e src)
    have room: "fst e \<in> fst ` set dst \<or> length dst < m"
    proof (rule ccontr)
      assume A: "\<not> (fst e \<in> fst ` set dst \<or> length dst < m)"
      have "card (insert (fst e) (fst ` set dst)) \<le> card (fst ` set dst \<union> fst ` set (e # src))"
        by (intro card_mono) auto
      moreover have "card (fst ` set dst) = length dst"
        using Cons.prems(1) distinct_card [of "map fst dst"] by (simp add: ctr_ok_def)
      ultimately show False using A Cons.prems(2) by simp
    qed
    let ?d = "ctr_merge_entry m dst e"
    note s = ctr_merge_entry_spec [OF Cons.prems(1) room]
    have u: "fst ` set ?d \<union> fst ` set src = fst ` set dst \<union> fst ` set (e # src)" using s(3) by auto
    have ih: "ctr_ok m (ctr_merge m ?d src)"
        "distinct (map fst src) \<longrightarrow> ctr_val (ctr_merge m ?d src) = (\<lambda>k. max (ctr_val ?d k) (ctr_val src k))"
        "fst ` set (ctr_merge m ?d src) = fst ` set ?d \<union> fst ` set src"
      using Cons.IH [OF s(1)] u Cons.prems(2) by auto
    have v: "max (ctr_val ?d k) (ctr_val src k) = max (ctr_val dst k) (ctr_val (e # src) k)"
      if "distinct (map fst (e # src))" for k
    proof (cases "k = fst e")
      case True
      then have "map_of src k = None" using that by (simp add: map_of_eq_None_iff)
      then have "ctr_val src k = 0" "ctr_val (e # src) k = snd e" using True by (cases e, simp add: ctr_val_def)+
      then show ?thesis using True by (simp add: s(2))
    next
      case False
      then have "ctr_val (e # src) k = ctr_val src k" by (cases e) (simp add: ctr_val_def)
      then show ?thesis using False by (simp add: s(2))
    qed
    have m: "ctr_merge m dst (e # src) = ctr_merge m ?d src" by (simp add: ctr_merge_def)
    show ?case unfolding m using ih u v by auto
  qed
  then show "ctr_ok m (ctr_merge m dst src)"
    and "distinct (map fst src) \<Longrightarrow> ctr_val (ctr_merge m dst src) = (\<lambda>k. max (ctr_val dst k) (ctr_val src k))"
    and "fst ` set (ctr_merge m dst src) = fst ` set dst \<union> fst ` set src" by auto
qed

section \<open>The vector clock as a function, its order and its wire format\<close>

abbreviation vc_val :: "op_vclock \<Rightarrow> replica \<Rightarrow> u64" where
  "vc_val vc \<equiv> ctr_val (vc_entries vc)"

definition vc_ok :: "op_vclock \<Rightarrow> bool" where
  "vc_ok vc \<longleftrightarrow> ctr_ok OP_VCLOCK_MAX_ENTRIES (vc_entries vc) \<and> (\<forall>k\<in>fst ` set (vc_entries vc). length k = 8)"

lemma vclock_get_val: "op_vclock_get vc k = vc_val vc k"
  using ctr_find_val [of "vc_entries vc" k] by (simp add: op_vclock_get_def op_vclock_find_def)

lemma vclock_cmp_loop_flags:
  "vclock_cmp_loop es vc (le, ge) =
    (le \<and> (\<forall>(k, c)\<in>set es. c \<le> vc_val vc k), ge \<and> (\<forall>(k, c)\<in>set es. vc_val vc k \<le> c))"
  by (induction es arbitrary: le ge) (auto simp: vclock_get_val Let_def not_less)

lemma vc_le_entries:
  assumes "distinct (map fst (vc_entries a))"
  shows "vc_val a \<le> vc_val b \<longleftrightarrow> (\<forall>(k, c)\<in>set (vc_entries a). c \<le> vc_val b k)"
proof
  assume le: "vc_val a \<le> vc_val b"
  show "\<forall>(k, c)\<in>set (vc_entries a). c \<le> vc_val b k"
  proof safe
    fix k c assume "(k, c) \<in> set (vc_entries a)"
    then have "map_of (vc_entries a) k = Some c" using assms by simp
    then have "vc_val a k = c" by (simp add: ctr_val_def)
    then show "c \<le> vc_val b k" using le_funD [OF le, of k] by simp
  qed
next
  assume A: "\<forall>(k, c)\<in>set (vc_entries a). c \<le> vc_val b k"
  show "vc_val a \<le> vc_val b"
  proof (rule le_funI)
    fix k show "vc_val a k \<le> vc_val b k"
    proof (cases "map_of (vc_entries a) k")
      case (Some c)
      then have "(k, c) \<in> set (vc_entries a)" by (rule map_of_SomeD)
      then show ?thesis using A Some by (auto simp: ctr_val_def [of "vc_entries a"])
    qed (simp add: ctr_val_def [of "vc_entries a"])
  qed
qed

lemma vc_ge_entries:
  assumes "distinct (map fst (vc_entries a))" "vc_val b \<le> vc_val a"
  shows "\<forall>(k, c)\<in>set (vc_entries a). vc_val b k \<le> c"
proof safe
  fix k c assume "(k, c) \<in> set (vc_entries a)"
  then have "vc_val a k = c" using assms(1) by (simp add: ctr_val_def)
  then show "vc_val b k \<le> c" using le_funD [OF assms(2), of k] by simp
qed

lemma vclock_cmp_val:
  assumes "vc_ok a" "vc_ok b"
  shows "op_vclock_cmp a b =
    (if vc_val a = vc_val b then 0 else if vc_val a \<le> vc_val b then -1
     else if vc_val b \<le> vc_val a then 1 else 2)"
proof -
  have d: "distinct (map fst (vc_entries a))" "distinct (map fst (vc_entries b))"
    using assms by (auto simp: vc_ok_def ctr_ok_def)
  have ab: "vc_val a \<le> vc_val b \<longleftrightarrow>
      (\<forall>(k, c)\<in>set (vc_entries a). c \<le> vc_val b k) \<and> (\<forall>(k, c)\<in>set (vc_entries b). vc_val a k \<le> c)"
    using vc_le_entries [OF d(1), of b] vc_ge_entries [OF d(2), of a] by blast
  have ba: "vc_val b \<le> vc_val a \<longleftrightarrow>
      (\<forall>(k, c)\<in>set (vc_entries a). vc_val b k \<le> c) \<and> (\<forall>(k, c)\<in>set (vc_entries b). c \<le> vc_val a k)"
    using vc_le_entries [OF d(2), of a] vc_ge_entries [OF d(1), of b] by blast
  have "op_vclock_cmp a b = (if vc_val a \<le> vc_val b \<and> vc_val b \<le> vc_val a then 0
      else if vc_val a \<le> vc_val b then -1 else if vc_val b \<le> vc_val a then 1 else 2)"
    unfolding ab ba by (simp add: op_vclock_cmp_def vclock_cmp_loop_flags Let_def conj_commute)
  moreover have "vc_val a \<le> vc_val b \<and> vc_val b \<le> vc_val a \<longleftrightarrow> vc_val a = vc_val b" by (rule order_class.order_eq_iff [symmetric])
  ultimately show ?thesis by simp
qed

lemma length_be64 [simp]: "length (be64 c) = 8"
  by (simp add: be64_def)

lemma from_be64_be64: "from_be64 (be64 c) = c"
proof (rule bit_word_eqI)
  fix n assume "n < LENGTH(64)"
  then have "n < 64" by simp
  then consider "n < 8" | "8 \<le> n" "n < 16" | "16 \<le> n" "n < 24" | "24 \<le> n" "n < 32"
    | "32 \<le> n" "n < 40" | "40 \<le> n" "n < 48" | "48 \<le> n" "n < 56" | "56 \<le> n" "n < 64" by linarith
  then show "bit (from_be64 (be64 c)) n = bit c n"
    by cases (simp_all add: from_be64_def be64_def bit_simps less_diff_conv2)
qed

lemma be64_from_be64:
  assumes "length b = 8"
  shows "be64 (from_be64 b) = b"
proof -
  have ub: "bit (ucast (drop_bit s (from_be64 b)) :: u8) n = bit (from_be64 b) (s + n)" if "n < 8" "s \<le> 56" for s n
    using that by (simp add: bit_simps)
  have "be64 (from_be64 b) ! i = b ! i" if "i < 8" for i
  proof -
    have e: "be64 (from_be64 b) ! i = ucast (drop_bit (56 - 8 * i) (from_be64 b))"
      using that by (auto simp: be64_def less_Suc_eq numeral_eq_Suc)
    show ?thesis unfolding e
    proof (rule bit_word_eqI)
      fix n assume "n < LENGTH(8)"
      then have n: "n < 8" by simp
      have hi: "\<not> bit (x :: u8) (m + n)" if "8 \<le> m" for x m
        using that bit_imp_le_length [of x "m + n"] by auto
      have "i \<in> {0, 1, 2, 3, 4, 5, 6, 7}" using that by auto
      then have "bit (from_be64 b) (56 - 8 * i + n) = bit (b ! i) n"
        using n by (elim insertE) (simp_all add: from_be64_def bit_simps hi)
      then show "bit (ucast (drop_bit (56 - 8 * i) (from_be64 b)) :: u8) n = bit (b ! i) n"
        using ub [OF n, of "56 - 8 * i"] by simp
    qed
  qed
  then show ?thesis using assms by (intro nth_equalityI) simp_all
qed

lemma vclock_decode_encode_entries:
  assumes "\<forall>k\<in>fst ` set es. length k = 8"
  shows "vclock_decode_entries (length es) (concat (map (\<lambda>(k, c). k @ be64 c) es) @ rest) = es"
    and "length (concat (map (\<lambda>(k, c). k @ be64 c) es)) = 16 * length es"
  using assms by (induction es) (auto simp: from_be64_be64)

lemma vclock_encode_decode_entries:
  assumes "16 * n \<le> length buf"
  shows "concat (map (\<lambda>(k, c). k @ be64 c) (vclock_decode_entries n buf)) = take (16 * n) buf
    \<and> length (vclock_decode_entries n buf) = n
    \<and> (\<forall>k\<in>fst ` set (vclock_decode_entries n buf). length k = 8)"
  using assms
proof (induction n arbitrary: buf)
  case (Suc n)
  have len: "16 * n \<le> length (drop 16 buf)" "length (take 8 (drop 8 buf)) = 8" "length (take 8 buf) = 8"
    using Suc.prems by auto
  have t1: "take (16 * Suc n) buf = take 16 buf @ take (16 * n) (drop 16 buf)"
    using take_add [of 16 "16 * n" buf] by simp
  have t2: "take 16 buf = take 8 buf @ take 8 (drop 8 buf)" using take_add [of 8 8 buf] by simp
  have t3: "be64 (from_be64 (take 8 (drop 8 buf))) = take 8 (drop 8 buf)" using len(2) by (rule be64_from_be64)
  have ih: "concat (map (\<lambda>(k, c). k @ be64 c) (vclock_decode_entries n (drop 16 buf))) = take (16 * n) (drop 16 buf)"
      "length (vclock_decode_entries n (drop 16 buf)) = n"
      "\<forall>k\<in>fst ` set (vclock_decode_entries n (drop 16 buf)). length k = 8"
    using Suc.IH [OF len(1)] by blast+
  have "concat (map (\<lambda>(k, c). k @ be64 c) (vclock_decode_entries (Suc n) buf)) =
      (take 8 buf @ be64 (from_be64 (take 8 (drop 8 buf)))) @ concat (map (\<lambda>(k, c). k @ be64 c) (vclock_decode_entries n (drop 16 buf)))"
    by simp
  also have "\<dots> = take (16 * Suc n) buf" unfolding t3 t1 t2 ih(1) ..
  finally have c: "concat (map (\<lambda>(k, c). k @ be64 c) (vclock_decode_entries (Suc n) buf)) = take (16 * Suc n) buf" .
  show ?case
  proof (intro conjI)
    show "length (vclock_decode_entries (Suc n) buf) = Suc n" using ih(2) by simp
    show "\<forall>k\<in>fst ` set (vclock_decode_entries (Suc n) buf). length k = 8" using ih(3) len(3) by simp
  qed (rule c)
qed simp

section \<open>Properties\<close>

text \<open>
  C35. While the logical counters have not reached their maximum and the wall clock fits its
  48 bits, a local tick yields a timestamp strictly later than the previous one, and a
  receive one strictly later than both the local and the remote timestamps; the wall part of
  the result is the largest of the wall clocks involved.
\<close>

theorem hlc_advances:
  assumes "unat now < 2 ^ 48" "op_hlc_logical h \<noteq> 0xFFFF" "op_hlc_logical g \<noteq> 0xFFFF"
  shows "op_hlc_cmp h (op_hlc_tick h now) = -1
    \<and> op_hlc_cmp h (op_hlc_recv h now g) = -1 \<and> op_hlc_cmp g (op_hlc_recv h now g) = -1
    \<and> op_hlc_wall_ms (op_hlc_tick h now) = max now (op_hlc_wall_ms h)
    \<and> op_hlc_wall_ms (op_hlc_recv h now g) = max now (max (op_hlc_wall_ms h) (op_hlc_wall_ms g))"
proof (intro conjI)
  have tick: "ts (op_hlc_tick h now) = (if unat now > unat (op_hlc_wall_ms h) then unat now * 65536 else ts h + 1)"
    using assms(1,2) by (rule hlc_tick_ts)
  have lt: "ts h < ts (op_hlc_tick h now)"
    unfolding tick ts_split [of h] using unat_u16 [of "op_hlc_logical h"] by auto
  then show "op_hlc_cmp h (op_hlc_tick h now) = -1" by (simp add: op_hlc_cmp_def word_less_nat_alt)
  show "op_hlc_cmp h (op_hlc_recv h now g) = -1" "op_hlc_cmp g (op_hlc_recv h now g) = -1"
    using hlc_recv_ts(1,2) [OF assms] by (simp_all add: op_hlc_cmp_def word_less_nat_alt)
  have l: "unat (op_hlc_logical h) < 65535" using assms(2) by (rule logical_bound)
  have "unat (op_hlc_wall_ms (op_hlc_tick h now)) = max (unat now) (unat (op_hlc_wall_ms h))"
  proof (cases "unat now > unat (op_hlc_wall_ms h)")
    case True
    then show ?thesis unfolding wall_ts [of "op_hlc_tick h now"] tick by simp
  next
    case False
    have "(unat (op_hlc_wall_ms h) * 65536 + unat (op_hlc_logical h) + 1) div 65536 = unat (op_hlc_wall_ms h)"
      using l by (intro div_nat_eqI) simp_all
    then show ?thesis using False unfolding wall_ts [of "op_hlc_tick h now"] tick ts_split [of h] by simp
  qed
  then show "op_hlc_wall_ms (op_hlc_tick h now) = max now (op_hlc_wall_ms h)"
    unfolding unat_word_max [symmetric] by (rule word_unat_eq_iff [THEN iffD2])
  show "op_hlc_wall_ms (op_hlc_recv h now g) = max now (max (op_hlc_wall_ms h) (op_hlc_wall_ms g))"
    using hlc_recv_ts(3) [OF assms] unfolding unat_word_max [symmetric] by (rule word_unat_eq_iff [THEN iffD2])
qed

theorem hlc_advances_witness:
  "op_hlc_cmp \<lparr>hlc_ts = 0x50003\<rparr> (op_hlc_tick \<lparr>hlc_ts = 0x50003\<rparr> 4) = -1
   \<and> op_hlc_cmp \<lparr>hlc_ts = 0x50003\<rparr> (op_hlc_recv \<lparr>hlc_ts = 0x50003\<rparr> 4 \<lparr>hlc_ts = 0x50007\<rparr>) = -1"
  using hlc_advances [of 4 "\<lparr>hlc_ts = 0x50003\<rparr>" "\<lparr>hlc_ts = 0x50007\<rparr>"]
  by (simp add: op_hlc_logical_def)

text \<open>
  C23. Comparing two vector clocks decides the causal order of their counters: it returns 0
  exactly when they agree for every replica, -1 exactly when the first happens before the
  second, 1 exactly when it happens after it and 2 exactly when they are concurrent.  Merging
  two clocks whose replicas fit the table takes the greater counter of every replica, which is
  their least upper bound in that order.
\<close>

theorem vclock_merge_join:
  assumes "vc_ok a" "vc_ok b" "card (fst ` set (vc_entries a) \<union> fst ` set (vc_entries b)) \<le> 32"
  shows "vc_ok (op_vclock_merge a b)
    \<and> vc_val (op_vclock_merge a b) = (\<lambda>k. max (vc_val a k) (vc_val b k))
    \<and> op_vclock_cmp a (op_vclock_merge a b) \<in> {-1, 0} \<and> op_vclock_cmp b (op_vclock_merge a b) \<in> {-1, 0}
    \<and> (\<forall>c. vc_ok c \<longrightarrow> op_vclock_cmp a c \<in> {-1, 0} \<longrightarrow> op_vclock_cmp b c \<in> {-1, 0}
        \<longrightarrow> op_vclock_cmp (op_vclock_merge a b) c \<in> {-1, 0})
    \<and> (op_vclock_cmp a b = 0 \<longleftrightarrow> (\<forall>k. vc_val a k = vc_val b k))
    \<and> (op_vclock_cmp a b = -1 \<longleftrightarrow> (\<forall>k. vc_val a k \<le> vc_val b k) \<and> (\<exists>k. vc_val a k < vc_val b k))
    \<and> (op_vclock_cmp a b = 1 \<longleftrightarrow> (\<forall>k. vc_val b k \<le> vc_val a k) \<and> (\<exists>k. vc_val b k < vc_val a k))
    \<and> (op_vclock_cmp a b = 2 \<longleftrightarrow> (\<exists>k. vc_val a k < vc_val b k) \<and> (\<exists>k. vc_val b k < vc_val a k))"
proof (intro conjI)
  have m: "ctr_ok OP_VCLOCK_MAX_ENTRIES (vc_entries a)" "distinct (map fst (vc_entries b))"
      "card (fst ` set (vc_entries a) \<union> fst ` set (vc_entries b)) \<le> OP_VCLOCK_MAX_ENTRIES"
    using assms by (auto simp: vc_ok_def ctr_ok_def OP_VCLOCK_MAX_ENTRIES_def)
  note s = ctr_merge_spec [OF m(1,3)]
  show ok: "vc_ok (op_vclock_merge a b)"
    using s(1,3) assms(1,2) by (auto simp: vc_ok_def op_vclock_merge_def)
  show val: "vc_val (op_vclock_merge a b) = (\<lambda>k. max (vc_val a k) (vc_val b k))"
    using s(2) [OF m(2)] by (simp add: op_vclock_merge_def)
  have le: "op_vclock_cmp x y \<in> {-1, 0} \<longleftrightarrow> vc_val x \<le> vc_val y" if "vc_ok x" "vc_ok y" for x y
    using vclock_cmp_val [OF that] by auto
  show "op_vclock_cmp a (op_vclock_merge a b) \<in> {-1, 0}" "op_vclock_cmp b (op_vclock_merge a b) \<in> {-1, 0}"
    using le [OF assms(1) ok] le [OF assms(2) ok] val by (auto simp: le_fun_def)
  show "\<forall>c. vc_ok c \<longrightarrow> op_vclock_cmp a c \<in> {-1, 0} \<longrightarrow> op_vclock_cmp b c \<in> {-1, 0}
      \<longrightarrow> op_vclock_cmp (op_vclock_merge a b) c \<in> {-1, 0}"
    using le [OF assms(1)] le [OF assms(2)] le [OF ok] val by (simp add: le_fun_def)
  have lt: "vc_val x \<le> vc_val y \<and> vc_val x \<noteq> vc_val y \<longleftrightarrow> (\<forall>k. vc_val x k \<le> vc_val y k) \<and> (\<exists>k. vc_val x k < vc_val y k)" for x y
    unfolding le_fun_def fun_eq_iff by (auto simp: less_le)
  show "op_vclock_cmp a b = 0 \<longleftrightarrow> (\<forall>k. vc_val a k = vc_val b k)"
    unfolding vclock_cmp_val [OF assms(1,2)] fun_eq_iff [symmetric] by auto
  show "op_vclock_cmp a b = -1 \<longleftrightarrow> (\<forall>k. vc_val a k \<le> vc_val b k) \<and> (\<exists>k. vc_val a k < vc_val b k)"
    unfolding lt [symmetric] vclock_cmp_val [OF assms(1,2)] by auto
  show "op_vclock_cmp a b = 1 \<longleftrightarrow> (\<forall>k. vc_val b k \<le> vc_val a k) \<and> (\<exists>k. vc_val b k < vc_val a k)"
    unfolding lt [symmetric] vclock_cmp_val [OF assms(1,2)] by (auto dest: order_antisym)
  show "op_vclock_cmp a b = 2 \<longleftrightarrow> (\<exists>k. vc_val a k < vc_val b k) \<and> (\<exists>k. vc_val b k < vc_val a k)"
  proof -
    have "op_vclock_cmp a b = 2 \<longleftrightarrow> \<not> vc_val a \<le> vc_val b \<and> \<not> vc_val b \<le> vc_val a"
      unfolding vclock_cmp_val [OF assms(1,2)] by auto
    also have "\<dots> \<longleftrightarrow> (\<exists>k. vc_val b k < vc_val a k) \<and> (\<exists>k. vc_val a k < vc_val b k)"
      unfolding le_fun_def not_all not_le ..
    finally show ?thesis by blast
  qed
qed

definition sample_vc :: "u64 \<Rightarrow> op_vclock" where
  "sample_vc n = \<lparr>vc_entries = [([1, 2, 3, 4, 5, 6, 7, 8], n), ([2, 2, 3, 4, 5, 6, 7, 8], 5)]\<rparr>"

theorem vclock_merge_join_witness:
  "vc_ok (op_vclock_merge (sample_vc 3) (sample_vc 4)) \<and> op_vclock_cmp (sample_vc 3) (sample_vc 4) = -1
   \<and> op_vclock_cmp (sample_vc 3) (op_vclock_merge (sample_vc 3) (sample_vc 4)) \<in> {-1, 0}"
proof -
  have "vc_ok (sample_vc 3)" "vc_ok (sample_vc 4)" "card (fst ` set (vc_entries (sample_vc 3)) \<union> fst ` set (vc_entries (sample_vc 4))) \<le> 32"
    by (simp_all add: sample_vc_def vc_ok_def ctr_ok_def OP_VCLOCK_MAX_ENTRIES_def)
  note j = vclock_merge_join [OF this]
  have "vc_val (sample_vc 3) k \<le> vc_val (sample_vc 4) k" for k by (simp add: ctr_val_def sample_vc_def)
  moreover have "vc_val (sample_vc 3) [1, 2, 3, 4, 5, 6, 7, 8] < vc_val (sample_vc 4) [1, 2, 3, 4, 5, 6, 7, 8]"
    by (simp add: ctr_val_def sample_vc_def)
  ultimately have "op_vclock_cmp (sample_vc 3) (sample_vc 4) = -1" using j by blast
  then show ?thesis using j by blast
qed

text \<open>
  C34. The wire format round-trips: encoding a well-formed clock into a large enough buffer
  writes exactly its wire size and decoding that gives the clock back; conversely any buffer
  that decodes holds the encoding of the clock it decodes to.  A buffer that is empty, has a
  count above the maximum or is shorter than the count demands is rejected.
\<close>

theorem vclock_wire_roundtrip:
  "(vc_ok vc \<and> op_vclock_wire_size vc \<le> cap \<longrightarrow>
     length (op_vclock_encode vc cap) = op_vclock_wire_size vc
     \<and> op_vclock_decode (op_vclock_encode vc cap @ rest) = Some (op_vclock_wire_size vc, vc))
   \<and> (op_vclock_decode buf = Some (n, vc') \<and> n \<le> cap \<longrightarrow>
        n = op_vclock_wire_size vc' \<and> op_vclock_encode vc' cap = take n buf)
   \<and> (op_vclock_decode buf = None \<longleftrightarrow> buf = [] \<or> unat (buf ! 0) > 32 \<or> length buf < 1 + unat (buf ! 0) * 16)"
proof (intro conjI impI)
  assume A: "vc_ok vc \<and> op_vclock_wire_size vc \<le> cap"
  then have ok: "vc_ok vc" and cap: "op_vclock_wire_size vc \<le> cap" by auto
  let ?es = "vc_entries vc"
  have len: "length ?es \<le> 32" "\<forall>k\<in>fst ` set ?es. length k = 8"
    using ok by (auto simp: vc_ok_def ctr_ok_def OP_VCLOCK_MAX_ENTRIES_def)
  have cnt: "unat (of_nat (length ?es) :: u8) = length ?es"
    using len(1) by (simp add: unat_of_nat)
  note d = vclock_decode_encode_entries [OF len(2)]
  show "length (op_vclock_encode vc cap) = op_vclock_wire_size vc"
     "op_vclock_decode (op_vclock_encode vc cap @ rest) = Some (op_vclock_wire_size vc, vc)"
    using cap d cnt len(1)
    by (simp_all add: op_vclock_encode_def op_vclock_decode_def op_vclock_wire_size_def OP_VCLOCK_MAX_ENTRIES_def Let_def)
next
  assume A: "op_vclock_decode buf = Some (n, vc') \<and> n \<le> cap"
  then have dec: "op_vclock_decode buf = Some (n, vc')" and cap: "n \<le> cap" by auto
  let ?c = "unat (buf ! 0)"
  have b: "buf \<noteq> []" "n = 1 + ?c * 16" "length buf \<ge> 1 + ?c * 16" "vc_entries vc' = vclock_decode_entries ?c (drop 1 buf)"
    using dec by (auto simp: op_vclock_decode_def Let_def split: if_splits)
  have e: "concat (map (\<lambda>(k, c). k @ be64 c) (vc_entries vc')) = take (16 * ?c) (drop 1 buf)" "length (vc_entries vc') = ?c"
    unfolding b(4) using vclock_encode_decode_entries [of ?c "drop 1 buf"] b(3) by simp_all
  have "take n buf = buf ! 0 # take (16 * ?c) (drop 1 buf)"
    using b(1,2) by (cases buf) (simp_all add: mult.commute)
  then show "n = op_vclock_wire_size vc'" "op_vclock_encode vc' cap = take n buf"
    using b(2) cap e by (simp_all add: op_vclock_encode_def op_vclock_wire_size_def)
next
  show "op_vclock_decode buf = None \<longleftrightarrow> buf = [] \<or> unat (buf ! 0) > 32 \<or> length buf < 1 + unat (buf ! 0) * 16"
    by (auto simp: op_vclock_decode_def Let_def OP_VCLOCK_MAX_ENTRIES_def Suc_le_eq)
qed

theorem vclock_wire_roundtrip_witness:
  "op_vclock_decode (op_vclock_encode (sample_vc 7) 64 @ [0]) = Some (33, sample_vc 7)"
  using vclock_wire_roundtrip [where vc = "sample_vc 7" and cap = 64 and rest = "[0]"]
  by (simp add: sample_vc_def vc_ok_def ctr_ok_def OP_VCLOCK_MAX_ENTRIES_def op_vclock_wire_size_def)

end
