(* ===== verification/Crdt.thy ===== *)
theory Crdt
  imports Clocks Vec "HOL-Library.List_Lexorder" "HOL-Library.Product_Lexorder"
begin

unbundle bit_operations_syntax

text \<open>
  The replicated data types of \<^verbatim>\<open>include/op_crdt.h\<close> and \<^verbatim>\<open>src/crdt.c\<close>: causal contexts, the
  delta-state observed-remove set, the last-writer-wins register and the grow-only counter.
  A fixed array with a count is the list of its used entries.  The theorems state what merging
  computes: the union of the observed dots, the live dots of every element, the register with
  the greatest stamp whatever the order of delivery, the component-wise maximum.
\<close>

section \<open>Dots and causal contexts\<close>

text \<open>A dot is a (replica key, counter) pair, as are the entries of the contiguous part.\<close>

type_synonym op_crdt_dot = ctr_entry

definition op_crdt_dot_eq :: "op_crdt_dot \<Rightarrow> op_crdt_dot \<Rightarrow> bool" where
  "op_crdt_dot_eq a b \<longleftrightarrow> fst a = fst b \<and> snd a = snd b"

definition OP_CRDT_CC_MAX_REPLICAS :: nat where "OP_CRDT_CC_MAX_REPLICAS = 32"
definition OP_CRDT_CC_MAX_OVERFLOW :: nat where "OP_CRDT_CC_MAX_OVERFLOW = 64"

record op_crdt_cc =
  cc_entries :: "ctr_entry list"
  cc_overflow :: "op_crdt_dot list"

fun dot_index :: "op_crdt_dot list \<Rightarrow> op_crdt_dot \<Rightarrow> nat option" where
  "dot_index [] d = None"
| "dot_index (x # xs) d = (if op_crdt_dot_eq x d then Some 0 else map_option Suc (dot_index xs d))"

definition op_crdt_cc_contains :: "op_crdt_cc \<Rightarrow> op_crdt_dot \<Rightarrow> bool" where
  "op_crdt_cc_contains cc dot \<longleftrightarrow>
     (case ctr_find (cc_entries cc) (fst dot) of
        Some i \<Rightarrow> snd dot \<le> snd (cc_entries cc ! i) | None \<Rightarrow> False)
     \<or> dot_index (cc_overflow cc) dot \<noteq> None"

text \<open>Removal from an array by moving its last element into the hole.\<close>

definition swap_remove :: "'a list \<Rightarrow> nat \<Rightarrow> 'a list" where
  "swap_remove xs i = butlast (xs[i := last xs])"

lemma length_swap_remove [simp]: "length (swap_remove xs i) = length xs - 1"
  by (simp add: swap_remove_def)

lemma dot_index_less: "dot_index xs d = Some i \<Longrightarrow> i < length xs"
  by (induction xs arbitrary: i) (auto split: if_splits)

text \<open>
  The compaction loop: while the overflow holds the dot after the frontier of the replica, the
  frontier advances over it.
\<close>

function cc_compact :: "replica \<Rightarrow> u64 \<Rightarrow> op_crdt_dot list \<Rightarrow> u64 \<times> op_crdt_dot list" where
  "cc_compact r m ov =
     (case dot_index ov (r, m + 1) of
        None \<Rightarrow> (m, ov)
      | Some i \<Rightarrow> cc_compact r (m + 1) (swap_remove ov i))"
  by pat_completeness auto
termination
  by (relation "measure (\<lambda>(r, m, ov). length ov)") (auto dest: dot_index_less)

declare cc_compact.simps [simp del]

definition op_crdt_cc_add :: "op_crdt_cc \<Rightarrow> op_crdt_dot \<Rightarrow> op_crdt_cc" where
  "op_crdt_cc_add cc dot =
     (let es = cc_entries cc;
          slot = (case ctr_find es (fst dot) of
             Some i \<Rightarrow> Some (es, i)
           | None \<Rightarrow> if length es \<ge> OP_CRDT_CC_MAX_REPLICAS then None
                     else Some (es @ [(fst dot, 0)], length es))
      in case slot of
           None \<Rightarrow> cc
         | Some (es, i) \<Rightarrow>
             let m = snd (es ! i) in
             if snd dot = m + 1 then
               (case cc_compact (fst dot) (snd dot) (cc_overflow cc) of
                  (m', ov) \<Rightarrow> cc\<lparr>cc_entries := es[i := (fst dot, m')], cc_overflow := ov\<rparr>)
             else if snd dot > m + 1 then
               (if length (cc_overflow cc) < OP_CRDT_CC_MAX_OVERFLOW
                then cc\<lparr>cc_entries := es, cc_overflow := cc_overflow cc @ [dot]\<rparr>
                else cc\<lparr>cc_entries := es\<rparr>)
             else cc\<lparr>cc_entries := es\<rparr>)"

definition op_crdt_cc_merge :: "op_crdt_cc \<Rightarrow> op_crdt_cc \<Rightarrow> op_crdt_cc" where
  "op_crdt_cc_merge dst src =
     (let dst = dst\<lparr>cc_entries := ctr_merge OP_CRDT_CC_MAX_REPLICAS (cc_entries dst) (cc_entries src)\<rparr>
      in foldl (\<lambda>cc d. if op_crdt_cc_contains cc d then cc else op_crdt_cc_add cc d) dst (cc_overflow src))"

section \<open>The observed-remove set\<close>

definition OP_CRDT_ORSET_KEY_MAX :: nat where "OP_CRDT_ORSET_KEY_MAX = 256"
definition OP_CRDT_ORSET_MAX_DOTS :: nat where "OP_CRDT_ORSET_MAX_DOTS = 4"

record op_crdt_orset_entry =
  oe_key :: "u8 list"
  oe_dots :: "op_crdt_dot list"

record op_crdt_orset =
  os_entries :: "op_crdt_orset_entry list"
  os_capacity :: nat
  os_cc :: op_crdt_cc

record op_crdt_orset_delta =
  od_entry :: op_crdt_orset_entry
  od_has_entry :: bool
  od_cc :: op_crdt_cc

definition empty_cc :: op_crdt_cc where
  "empty_cc = \<lparr>cc_entries = [], cc_overflow = []\<rparr>"

definition empty_delta :: op_crdt_orset_delta where
  "empty_delta = \<lparr>od_entry = \<lparr>oe_key = [], oe_dots = []\<rparr>, od_has_entry = False, od_cc = empty_cc\<rparr>"

fun entry_find :: "op_crdt_orset_entry list \<Rightarrow> u8 list \<Rightarrow> nat option" where
  "entry_find [] key = None"
| "entry_find (e # es) key = (if oe_key e = key then Some 0 else map_option Suc (entry_find es key))"

definition orset_find :: "op_crdt_orset \<Rightarrow> u8 list \<Rightarrow> nat option" where
  "orset_find os key = entry_find (os_entries os) key"

text \<open>
  Growing doubles a 32-bit capacity; a store at an index outside the block is undefined
  (\<open>None\<close>).  The allocator aborts rather than return null.
\<close>

definition orset_grow :: "op_crdt_orset \<Rightarrow> op_crdt_orset" where
  "orset_grow os =
     (if length (os_entries os) < os_capacity os then os
      else os\<lparr>os_capacity := (if os_capacity os \<noteq> 0 then os_capacity os * 2 mod 2 ^ 32 else 16)\<rparr>)"

definition orset_append :: "op_crdt_orset \<Rightarrow> op_crdt_orset_entry \<Rightarrow> op_crdt_orset option" where
  "orset_append os e =
     (let os = orset_grow os in
      if length (os_entries os) < os_capacity os then Some (os\<lparr>os_entries := os_entries os @ [e]\<rparr>) else None)"

definition op_crdt_orset_init :: "nat \<Rightarrow> op_crdt_orset" where
  "op_crdt_orset_init initial_cap = \<lparr>os_entries = [], os_capacity = initial_cap, os_cc = empty_cc\<rparr>"

definition op_crdt_orset_free :: "op_crdt_orset \<Rightarrow> op_crdt_orset" where
  "op_crdt_orset_free os = \<lparr>os_entries = [], os_capacity = 0, os_cc = empty_cc\<rparr>"

text \<open>\<open>ctr\<close> is the process-wide dot counter, returned incremented.\<close>

definition op_crdt_orset_add ::
  "u64 \<Rightarrow> op_crdt_orset \<Rightarrow> u8 list \<Rightarrow> replica \<Rightarrow> (op_crdt_orset_delta \<times> u64 \<times> op_crdt_orset) option" where
  "op_crdt_orset_add ctr os key replica =
     (if length key > OP_CRDT_ORSET_KEY_MAX then Some (empty_delta, ctr, os)
      else
        let dot = (replica, ctr + 1);
            delta = \<lparr>od_entry = \<lparr>oe_key = key, oe_dots = [dot]\<rparr>, od_has_entry = True,
                     od_cc = op_crdt_cc_add empty_cc dot\<rparr> in do {
          os \<leftarrow> (case orset_find os key of
             Some i \<Rightarrow>
               let e = os_entries os ! i;
                   dots = (if length (oe_dots e) < OP_CRDT_ORSET_MAX_DOTS then oe_dots e @ [dot]
                           else tl (oe_dots e) @ [dot])
               in Some (os\<lparr>os_entries := (os_entries os)[i := e\<lparr>oe_dots := dots\<rparr>]\<rparr>)
           | None \<Rightarrow> orset_append os \<lparr>oe_key = key, oe_dots = [dot]\<rparr>);
          Some (delta, ctr + 1, os\<lparr>os_cc := op_crdt_cc_add (os_cc os) dot\<rparr>) })"

definition op_crdt_orset_remove :: "op_crdt_orset \<Rightarrow> u8 list \<Rightarrow> op_crdt_orset_delta \<times> op_crdt_orset" where
  "op_crdt_orset_remove os key =
     (case orset_find os key of
        None \<Rightarrow> (empty_delta, os)
      | Some i \<Rightarrow>
          (empty_delta\<lparr>od_cc := foldl op_crdt_cc_add empty_cc (oe_dots (os_entries os ! i))\<rparr>,
           os\<lparr>os_entries := swap_remove (os_entries os) i\<rparr>))"

fun merge_dots :: "op_crdt_cc \<Rightarrow> op_crdt_dot list \<Rightarrow> op_crdt_dot list \<Rightarrow> op_crdt_dot list" where
  "merge_dots cc merged [] = merged"
| "merge_dots cc merged (d # ds) =
     (if length merged \<ge> OP_CRDT_ORSET_MAX_DOTS then merged
      else if \<not> op_crdt_cc_contains cc d \<and> dot_index merged d = None then merge_dots cc (merged @ [d]) ds
      else merge_dots cc merged ds)"

definition apply_add_entry :: "op_crdt_orset \<Rightarrow> op_crdt_orset_delta \<Rightarrow> op_crdt_orset option" where
  "apply_add_entry os delta =
     (let de = od_entry delta in
      case orset_find os (oe_key de) of
        Some i \<Rightarrow>
          let e = os_entries os ! i;
              kept = take OP_CRDT_ORSET_MAX_DOTS (filter (\<lambda>d. \<not> op_crdt_cc_contains (od_cc delta) d) (oe_dots e));
              merged = merge_dots (os_cc os) kept (oe_dots de)
          in if merged \<noteq> [] then
               Some (os\<lparr>os_entries := (os_entries os)[i := e\<lparr>oe_dots := take OP_CRDT_ORSET_MAX_DOTS merged\<rparr>]\<rparr>)
             else Some (os\<lparr>os_entries := swap_remove (os_entries os) i\<rparr>)
      | None \<Rightarrow>
          let live = take OP_CRDT_ORSET_MAX_DOTS (filter (\<lambda>d. \<not> op_crdt_cc_contains (os_cc os) d) (oe_dots de))
          in if live \<noteq> [] then orset_append os \<lparr>oe_key = oe_key de, oe_dots = live\<rparr>
             else Some os)"

function purge_from :: "op_crdt_cc \<Rightarrow> nat \<Rightarrow> op_crdt_orset_entry list \<Rightarrow> op_crdt_orset_entry list" where
  "purge_from cc i es =
     (if i < length es then
        let e = es ! i; surviving = filter (\<lambda>d. \<not> op_crdt_cc_contains cc d) (oe_dots e) in
        if surviving = [] then purge_from cc i (swap_remove es i)
        else purge_from cc (Suc i) (es[i := e\<lparr>oe_dots := surviving\<rparr>])
      else es)"
  by pat_completeness auto
termination
  by (relation "measure (\<lambda>(cc, i, es). length es - i)") auto

declare purge_from.simps [simp del]

definition op_crdt_orset_apply_delta :: "op_crdt_orset \<Rightarrow> op_crdt_orset_delta \<Rightarrow> op_crdt_orset option" where
  "op_crdt_orset_apply_delta os delta =
     do { os \<leftarrow> (if od_has_entry delta then apply_add_entry os delta
                  else Some (os\<lparr>os_entries := purge_from (od_cc delta) 0 (os_entries os)\<rparr>));
          Some (os\<lparr>os_cc := op_crdt_cc_merge (os_cc os) (od_cc delta)\<rparr>) }"

definition op_crdt_orset_contains :: "op_crdt_orset \<Rightarrow> u8 list \<Rightarrow> bool" where
  "op_crdt_orset_contains os key \<longleftrightarrow> orset_find os key \<noteq> None"

definition op_crdt_orset_size :: "op_crdt_orset \<Rightarrow> nat" where
  "op_crdt_orset_size os = length (os_entries os)"

section \<open>The last-writer-wins register\<close>

definition OP_CRDT_LWW_VALUE_MAX :: nat where "OP_CRDT_LWW_VALUE_MAX = 512"

record op_crdt_lww =
  lww_value :: "u8 list"
  lww_hlc :: op_hlc
  lww_writer :: "u8 list"

text \<open>\<^verbatim>\<open>memcmp\<close> on byte arrays of equal length.\<close>

fun c_memcmp :: "u8 list \<Rightarrow> u8 list \<Rightarrow> int" where
  "c_memcmp (a # as) (b # bs) = (if a < b then -1 else if a > b then 1 else c_memcmp as bs)"
| "c_memcmp _ _ = 0"

definition op_crdt_lww_set ::
  "op_crdt_lww \<Rightarrow> u8 list \<Rightarrow> op_hlc \<Rightarrow> u8 list \<Rightarrow> bool \<times> op_crdt_lww" where
  "op_crdt_lww_set reg value hlc writer =
     (if length value > OP_CRDT_LWW_VALUE_MAX then (False, reg)
      else let cmp = op_hlc_cmp hlc (lww_hlc reg) in
        if cmp < 0 then (False, reg)
        else if cmp = 0 \<and> c_memcmp writer (lww_writer reg) \<le> 0 then (False, reg)
        else (True, \<lparr>lww_value = value, lww_hlc = hlc, lww_writer = writer\<rparr>))"

definition op_crdt_lww_merge :: "op_crdt_lww \<Rightarrow> op_crdt_lww \<Rightarrow> bool \<times> op_crdt_lww" where
  "op_crdt_lww_merge lww_local lww_remote =
     op_crdt_lww_set lww_local (lww_value lww_remote) (lww_hlc lww_remote) (lww_writer lww_remote)"

section \<open>The grow-only counter\<close>

definition OP_CRDT_GCTR_MAX_REPLICAS :: nat where "OP_CRDT_GCTR_MAX_REPLICAS = 32"

record op_crdt_gctr = gctr_entries :: "ctr_entry list"

definition op_crdt_gctr_inc :: "op_crdt_gctr \<Rightarrow> replica \<Rightarrow> u64 \<times> op_crdt_gctr" where
  "op_crdt_gctr_inc ctr replica =
     (case ctr_inc OP_CRDT_GCTR_MAX_REPLICAS (gctr_entries ctr) replica of (c, es) \<Rightarrow> (c, ctr\<lparr>gctr_entries := es\<rparr>))"

definition op_crdt_gctr_value :: "op_crdt_gctr \<Rightarrow> u64" where
  "op_crdt_gctr_value ctr = foldl (\<lambda>total e. total + snd e) 0 (gctr_entries ctr)"

definition op_crdt_gctr_merge :: "op_crdt_gctr \<Rightarrow> op_crdt_gctr \<Rightarrow> op_crdt_gctr" where
  "op_crdt_gctr_merge dst src =
     dst\<lparr>gctr_entries := ctr_merge OP_CRDT_GCTR_MAX_REPLICAS (gctr_entries dst) (gctr_entries src)\<rparr>"

section \<open>Causal contexts as sets of dots\<close>

definition cc_dots :: "op_crdt_cc \<Rightarrow> op_crdt_dot set" where
  "cc_dots cc = {d. snd d \<noteq> 0 \<and> op_crdt_cc_contains cc d}"

definition cc_ok :: "op_crdt_cc \<Rightarrow> bool" where
  "cc_ok cc \<longleftrightarrow> ctr_ok OP_CRDT_CC_MAX_REPLICAS (cc_entries cc) \<and> (\<forall>d\<in>set (cc_overflow cc). snd d \<noteq> 0)
     \<and> length (cc_overflow cc) \<le> OP_CRDT_CC_MAX_OVERFLOW"

abbreviation cc_keys :: "op_crdt_cc \<Rightarrow> replica set" where
  "cc_keys cc \<equiv> fst ` set (cc_entries cc)"

lemma dot_eq_iff [simp]: "op_crdt_dot_eq a b \<longleftrightarrow> a = b"
  by (simp add: op_crdt_dot_eq_def prod_eq_iff)

lemma dot_index_None: "dot_index xs d = None \<longleftrightarrow> d \<notin> set xs"
  by (induction xs) auto

lemma dot_index_Some: "dot_index xs d = Some i \<Longrightarrow> i < length xs \<and> xs ! i = d"
  by (induction xs arbitrary: i) (auto split: if_splits)

lemma contains_val:
  assumes "snd d \<noteq> 0"
  shows "op_crdt_cc_contains cc d \<longleftrightarrow> snd d \<le> ctr_val (cc_entries cc) (fst d) \<or> d \<in> set (cc_overflow cc)"
proof -
  have "(case ctr_find (cc_entries cc) (fst d) of Some i \<Rightarrow> snd d \<le> snd (cc_entries cc ! i) | None \<Rightarrow> False)
      \<longleftrightarrow> snd d \<le> ctr_val (cc_entries cc) (fst d)"
    using ctr_find_val [of "cc_entries cc" "fst d"] assms by (cases "ctr_find (cc_entries cc) (fst d)") auto
  then show ?thesis by (simp add: op_crdt_cc_contains_def dot_index_None flip: not_None_eq)
qed

lemma mem_cc_dots: "d \<in> cc_dots cc \<longleftrightarrow>
    snd d \<noteq> 0 \<and> (snd d \<le> ctr_val (cc_entries cc) (fst d) \<or> d \<in> set (cc_overflow cc))"
  using contains_val [of d cc] by (auto simp: cc_dots_def)

lemma set_swap_remove: "i < length xs \<Longrightarrow> insert (xs ! i) (set (swap_remove xs i)) = set xs"
proof -
  assume i: "i < length xs"
  then have "mset xs = add_mset (xs ! i) (mset (swap_remove xs i))"
    by (simp add: swap_remove_def mset_butlast_swap)
  then have "set_mset (mset xs) = insert (xs ! i) (set_mset (mset (swap_remove xs i)))" by simp
  then show ?thesis by simp
qed

lemma u64_le_Suc: "(m :: u64) + 1 \<noteq> 0 \<Longrightarrow> x \<le> m + 1 \<longleftrightarrow> x \<le> m \<or> x = m + 1"
proof -
  assume "m + 1 \<noteq> 0"
  then have "unat (m + 1) = Suc (unat m)" using unatSuc [of m] by (simp add: add.commute)
  then have "unat x \<le> unat (m + 1) \<longleftrightarrow> unat x \<le> unat m \<or> unat x = unat (m + 1)" by (simp only: le_Suc_eq)
  then show ?thesis unfolding word_le_nat_alt word_unat_eq_iff .
qed

definition frontier :: "replica \<Rightarrow> u64 \<Rightarrow> op_crdt_dot set" where
  "frontier r m = {d. fst d = r \<and> snd d \<noteq> 0 \<and> snd d \<le> m}"

lemma frontier_Suc: "m + 1 \<noteq> 0 \<Longrightarrow> frontier r (m + 1) = insert (r, m + 1) (frontier r m)"
  by (auto simp: frontier_def u64_le_Suc prod_eq_iff)

lemma cc_compact_dots:
  assumes "\<forall>d\<in>set ov. snd d \<noteq> 0" "cc_compact r m ov = (m', ov')"
  shows "frontier r m' \<union> set ov' = frontier r m \<union> set ov \<and> set ov' \<subseteq> set ov \<and> length ov' \<le> length ov"
  using assms
proof (induction r m ov rule: cc_compact.induct)
  case (1 r m ov)
  show ?case
  proof (cases "dot_index ov (r, m + 1)")
    case None
    then show ?thesis using "1.prems" by (simp add: cc_compact.simps [of r m])
  next
    case (Some i)
    note i = dot_index_Some [OF Some]
    have s: "insert (r, m + 1) (set (swap_remove ov i)) = set ov" using set_swap_remove [of i ov] i by simp
    have nz: "m + 1 \<noteq> 0" using "1.prems"(1) i by (metis nth_mem snd_conv)
    have "frontier r m' \<union> set ov' = frontier r (m + 1) \<union> set (swap_remove ov i) \<and> set ov' \<subseteq> set (swap_remove ov i)
        \<and> length ov' \<le> length (swap_remove ov i)"
      using "1.IH" [OF Some] "1.prems" s Some by (simp add: cc_compact.simps [of r m]) blast
    then show ?thesis using s unfolding frontier_Suc [OF nz] by auto
  qed
qed

lemma cc_add_spec:
  assumes ok: "cc_ok cc" and nz: "snd d \<noteq> 0"
    and room: "fst d \<in> cc_keys cc \<or> length (cc_entries cc) < OP_CRDT_CC_MAX_REPLICAS"
      "length (cc_overflow cc) < OP_CRDT_CC_MAX_OVERFLOW"
  shows "cc_ok (op_crdt_cc_add cc d) \<and> cc_dots (op_crdt_cc_add cc d) = insert d (cc_dots cc)
    \<and> cc_keys (op_crdt_cc_add cc d) = insert (fst d) (cc_keys cc)
    \<and> length (cc_overflow (op_crdt_cc_add cc d)) \<le> Suc (length (cc_overflow cc))"
proof -
  let ?es = "cc_entries cc" and ?ov = "cc_overflow cc" and ?r = "fst d"
  define es where "es = (case ctr_find ?es ?r of Some i \<Rightarrow> ?es | None \<Rightarrow> ?es @ [(?r, 0)])"
  define i where "i = (case ctr_find ?es ?r of Some i \<Rightarrow> i | None \<Rightarrow> length ?es)"
  have slot: "(case ctr_find ?es ?r of Some i \<Rightarrow> Some (?es, i)
      | None \<Rightarrow> if length ?es \<ge> OP_CRDT_CC_MAX_REPLICAS then None else Some (?es @ [(?r, 0)], length ?es)) = Some (es, i)"
    using room(1) ctr_find_None [of ?es ?r] by (auto simp: es_def i_def split: option.splits)
  have es: "distinct (map fst es)" "length es \<le> OP_CRDT_CC_MAX_REPLICAS" "i < length es" "fst (es ! i) = ?r"
      "ctr_val es = ctr_val ?es" "fst ` set es = insert ?r (cc_keys cc)" "snd (es ! i) = ctr_val ?es ?r"
  proof -
    have "distinct (map fst es) \<and> length es \<le> OP_CRDT_CC_MAX_REPLICAS \<and> i < length es \<and> fst (es ! i) = ?r
      \<and> ctr_val es = ctr_val ?es \<and> fst ` set es = insert ?r (cc_keys cc) \<and> snd (es ! i) = ctr_val ?es ?r"
    proof (cases "ctr_find ?es ?r")
      case None
      then have k: "?r \<notin> cc_keys cc" by (simp add: ctr_find_None)
      then have v: "ctr_val ?es ?r = 0" using map_of_eq_None_iff [of ?es ?r] by (simp add: ctr_val_def)
      then have "ctr_val (?es @ [(?r, 0)]) = ctr_val ?es" using ctr_append [OF k, of 0] by (simp add: fun_upd_idem)
      then show ?thesis using None k ok room(1) v
        by (simp add: es_def i_def cc_ok_def ctr_ok_def)
    next
      case (Some j)
      note f = ctr_find_Some [OF Some]
      have "?r \<in> cc_keys cc" using Some ctr_find_None by (metis option.distinct(1))
      moreover have "ctr_val ?es ?r = snd (?es ! j)" using f by (simp add: ctr_val_def)
      ultimately show ?thesis using Some f ok
        by (simp add: es_def i_def cc_ok_def ctr_ok_def insert_absorb)
    qed
    then show "distinct (map fst es)" "length es \<le> OP_CRDT_CC_MAX_REPLICAS" "i < length es" "fst (es ! i) = ?r"
      "ctr_val es = ctr_val ?es" "fst ` set es = insert ?r (cc_keys cc)" "snd (es ! i) = ctr_val ?es ?r" by auto
  qed
  define m where "m = ctr_val ?es ?r"
  have ovnz: "\<forall>x\<in>set ?ov. snd x \<noteq> 0" using ok by (simp add: cc_ok_def)
  have add: "op_crdt_cc_add cc d =
     (if snd d = m + 1 then
        (case cc_compact ?r (snd d) ?ov of (m', ov) \<Rightarrow> cc\<lparr>cc_entries := es[i := (?r, m')], cc_overflow := ov\<rparr>)
      else if snd d > m + 1 then cc\<lparr>cc_entries := es, cc_overflow := ?ov @ [d]\<rparr>
      else cc\<lparr>cc_entries := es\<rparr>)"
    unfolding op_crdt_cc_add_def Let_def slot using es(7) room(2) by (simp add: m_def)
  consider "snd d = m + 1" | "snd d \<noteq> m + 1" "snd d > m + 1" | "snd d \<noteq> m + 1" "\<not> snd d > m + 1" by blast
  then show ?thesis
  proof cases
    case 1
    obtain m' ov where c: "cc_compact ?r (m + 1) ?ov = (m', ov)" by (metis surj_pair)
    note cd = cc_compact_dots [OF ovnz c]
    have "m + 1 \<noteq> 0" using 1 nz by simp
    then have fr: "frontier ?r m' \<union> set ov = insert d (frontier ?r m) \<union> set ?ov"
      using cd 1 frontier_Suc [of m ?r] by (simp add: prod_eq_iff) (metis prod.collapse 1)
    have u: "ctr_val (es[i := (?r, m')]) = (ctr_val ?es)(?r := m')" "map fst (es[i := (?r, m')]) = map fst es"
      using ctr_update [OF es(1,3,4), of m'] es(5) by simp_all
    have a: "op_crdt_cc_add cc d = cc\<lparr>cc_entries := es[i := (?r, m')], cc_overflow := ov\<rparr>"
      unfolding add using 1 c by simp
    have "x \<in> cc_dots (op_crdt_cc_add cc d) \<longleftrightarrow> x \<in> insert d (cc_dots cc)" for x
    proof (cases "fst x = ?r")
      case True
      have "x \<in> frontier ?r m' \<union> set ov \<longleftrightarrow> x \<in> insert d (frontier ?r m) \<union> set ?ov" using fr by simp
      then show ?thesis using True nz cd ovnz unfolding a mem_cc_dots insert_iff
        by (auto simp: u(1) frontier_def m_def)
    next
      case False
      have "x \<in> frontier ?r m' \<union> set ov \<longleftrightarrow> x \<in> insert d (frontier ?r m) \<union> set ?ov" using fr by simp
      then have "x \<in> set ov \<longleftrightarrow> x \<in> set ?ov" using False by (auto simp: frontier_def)
      then show ?thesis using False unfolding a mem_cc_dots insert_iff by (auto simp: u(1))
    qed
    moreover have "fst ` set (es[i := (?r, m')]) = insert ?r (cc_keys cc)" using u(2) es(6) by (metis list.set_map)
    ultimately show ?thesis using ok es cd u(2) unfolding a by (auto simp: cc_ok_def ctr_ok_def)
  next
    case 2
    then have a: "op_crdt_cc_add cc d = cc\<lparr>cc_entries := es, cc_overflow := ?ov @ [d]\<rparr>" unfolding add by simp
    have "cc_dots (op_crdt_cc_add cc d) = insert d (cc_dots cc)"
      unfolding a using nz es(5) by (auto simp: mem_cc_dots)
    then show ?thesis using ok es nz room(2) unfolding a by (auto simp: cc_ok_def ctr_ok_def)
  next
    case 3
    then have a: "op_crdt_cc_add cc d = cc\<lparr>cc_entries := es\<rparr>" unfolding add by simp
    have "m + 1 \<noteq> 0" using 3 nz by (auto simp: word_gt_0)
    then have "snd d \<le> m" using 3 u64_le_Suc [of m "snd d"] by auto
    then have "cc_dots (op_crdt_cc_add cc d) = insert d (cc_dots cc)"
      unfolding a using nz es(5) by (auto simp: mem_cc_dots m_def)
    then show ?thesis using ok es unfolding a by (auto simp: cc_ok_def ctr_ok_def)
  qed
qed

lemma cc_merge_overflow:
  fixes K :: "replica set"
  assumes "cc_ok cc" "finite K" "card K \<le> OP_CRDT_CC_MAX_REPLICAS" "cc_keys cc \<subseteq> K" "fst ` set ds \<subseteq> K"
    "length (cc_overflow cc) + length ds \<le> OP_CRDT_CC_MAX_OVERFLOW" "\<forall>d\<in>set ds. snd d \<noteq> 0"
  shows "cc_ok (foldl (\<lambda>cc d. if op_crdt_cc_contains cc d then cc else op_crdt_cc_add cc d) cc ds)
    \<and> cc_dots (foldl (\<lambda>cc d. if op_crdt_cc_contains cc d then cc else op_crdt_cc_add cc d) cc ds) = cc_dots cc \<union> set ds"
  using assms
proof (induction ds arbitrary: cc)
  case (Cons d ds)
  show ?case
  proof (cases "op_crdt_cc_contains cc d")
    case True
    then have "d \<in> cc_dots cc" using Cons.prems(7) by (simp add: cc_dots_def)
    then show ?thesis using True Cons.IH [OF Cons.prems(1-4)] Cons.prems(5-7) by auto
  next
    case False
    have room: "fst d \<in> cc_keys cc \<or> length (cc_entries cc) < OP_CRDT_CC_MAX_REPLICAS"
    proof (rule ccontr)
      assume A: "\<not> ?thesis"
      have "card (insert (fst d) (cc_keys cc)) \<le> card K"
        using Cons.prems by (intro card_mono) auto
      moreover have "card (cc_keys cc) = length (cc_entries cc)"
        using Cons.prems(1) distinct_card [of "map fst (cc_entries cc)"] by (simp add: cc_ok_def ctr_ok_def)
      ultimately show False using A Cons.prems(3) by simp
    qed
    have s: "cc_ok (op_crdt_cc_add cc d)" "cc_dots (op_crdt_cc_add cc d) = insert d (cc_dots cc)"
        "cc_keys (op_crdt_cc_add cc d) = insert (fst d) (cc_keys cc)"
        "length (cc_overflow (op_crdt_cc_add cc d)) \<le> Suc (length (cc_overflow cc))"
      using cc_add_spec [OF Cons.prems(1) _ room] Cons.prems(6,7) by simp_all
    have "cc_keys (op_crdt_cc_add cc d) \<subseteq> K" using s(3) Cons.prems(4,5) by simp
    then show ?thesis using False Cons.IH [OF s(1) Cons.prems(2,3)] Cons.prems(5-7) s(2,4) by auto
  qed
qed simp

lemma cc_merge_spec:
  assumes ok: "cc_ok dst" "cc_ok src"
    and room: "card (cc_keys dst \<union> cc_keys src \<union> fst ` set (cc_overflow src)) \<le> OP_CRDT_CC_MAX_REPLICAS"
      "length (cc_overflow dst) + length (cc_overflow src) \<le> OP_CRDT_CC_MAX_OVERFLOW"
  shows "cc_ok (op_crdt_cc_merge dst src) \<and> cc_dots (op_crdt_cc_merge dst src) = cc_dots dst \<union> cc_dots src"
proof -
  let ?K = "cc_keys dst \<union> cc_keys src \<union> fst ` set (cc_overflow src)"
  let ?es = "ctr_merge OP_CRDT_CC_MAX_REPLICAS (cc_entries dst) (cc_entries src)"
  have c: "ctr_ok OP_CRDT_CC_MAX_REPLICAS (cc_entries dst)" "distinct (map fst (cc_entries src))"
    using ok by (auto simp: cc_ok_def ctr_ok_def)
  have "card (cc_keys dst \<union> cc_keys src) \<le> card ?K" by (intro card_mono) auto
  then have r: "card (cc_keys dst \<union> cc_keys src) \<le> OP_CRDT_CC_MAX_REPLICAS" using room(1) by simp
  note m = ctr_merge_spec [OF c(1) r]
  define cc where "cc = dst\<lparr>cc_entries := ?es\<rparr>"
  have "cc_ok cc" using ok m(1) by (simp add: cc_def cc_ok_def)
  moreover have "cc_keys cc \<subseteq> ?K" using m(3) by (auto simp: cc_def)
  ultimately have f: "cc_ok (foldl (\<lambda>cc d. if op_crdt_cc_contains cc d then cc else op_crdt_cc_add cc d) cc (cc_overflow src))
    \<and> cc_dots (foldl (\<lambda>cc d. if op_crdt_cc_contains cc d then cc else op_crdt_cc_add cc d) cc (cc_overflow src))
      = cc_dots cc \<union> set (cc_overflow src)"
    using room ok(2) by (intro cc_merge_overflow [where K = ?K]) (auto simp: cc_def cc_ok_def)
  have "cc_dots cc \<union> set (cc_overflow src) = cc_dots dst \<union> cc_dots src"
    using m(2) [OF c(2)] ok(2) by (auto simp: cc_def mem_cc_dots cc_ok_def max_def split: if_splits)
  then show ?thesis using f by (simp add: op_crdt_cc_merge_def cc_def)
qed

section \<open>The dots of an element\<close>

definition entry_view :: "op_crdt_orset_entry list \<Rightarrow> (u8 list \<times> op_crdt_dot list) list" where
  "entry_view es = map (\<lambda>e. (oe_key e, oe_dots e)) es"

definition dots_of :: "op_crdt_orset_entry list \<Rightarrow> u8 list \<Rightarrow> op_crdt_dot list" where
  "dots_of es k = (case map_of (entry_view es) k of None \<Rightarrow> [] | Some ds \<Rightarrow> ds)"

definition os_ok :: "op_crdt_orset \<Rightarrow> bool" where
  "os_ok os \<longleftrightarrow> distinct (map oe_key (os_entries os)) \<and> (\<forall>e\<in>set (os_entries os). oe_dots e \<noteq> [])
     \<and> length (os_entries os) \<le> os_capacity os"

lemma entry_find_None: "entry_find es k = None \<longleftrightarrow> k \<notin> oe_key ` set es"
  by (induction es) auto

lemma entry_find_Some:
  "entry_find es k = Some i \<Longrightarrow> i < length es \<and> oe_key (es ! i) = k \<and> map_of (entry_view es) k = Some (oe_dots (es ! i))"
  by (induction es arbitrary: i) (auto simp: entry_view_def split: if_splits)

lemma entry_view_None: "map_of (entry_view es) k = None \<longleftrightarrow> k \<notin> oe_key ` set es"
  by (simp add: entry_view_def map_of_eq_None_iff image_image)

lemma dots_of_None: "k \<notin> oe_key ` set es \<Longrightarrow> dots_of es k = []"
  using entry_view_None [of es k] by (simp add: dots_of_def)

lemma dots_of_mem:
  assumes "distinct (map oe_key es)" "e \<in> set es"
  shows "dots_of es (oe_key e) = oe_dots e"
proof -
  have "distinct (map fst (entry_view es))" using assms(1) by (simp add: entry_view_def comp_def)
  moreover have "(oe_key e, oe_dots e) \<in> set (entry_view es)" using assms(2) by (auto simp: entry_view_def)
  ultimately show ?thesis by (simp add: dots_of_def)
qed

lemma dots_of_nonempty:
  assumes "distinct (map oe_key es)" "\<forall>e\<in>set es. oe_dots e \<noteq> []"
  shows "dots_of es k \<noteq> [] \<longleftrightarrow> k \<in> oe_key ` set es"
proof
  assume "k \<in> oe_key ` set es"
  then obtain e where "e \<in> set es" "k = oe_key e" by auto
  then show "dots_of es k \<noteq> []" using assms dots_of_mem by metis
qed (use dots_of_None in blast)

lemma dots_of_update:
  assumes "distinct (map oe_key es)" "i < length es" "oe_key (es ! i) = k"
  shows "dots_of (es[i := (es ! i)\<lparr>oe_dots := ds\<rparr>]) = (dots_of es)(k := ds)"
    and "map oe_key (es[i := (es ! i)\<lparr>oe_dots := ds\<rparr>]) = map oe_key es"
proof -
  let ?es = "es[i := (es ! i)\<lparr>oe_dots := ds\<rparr>]"
  show keys: "map oe_key ?es = map oe_key es" by (simp add: map_update list_update_same_conv assms(2))
  then have d: "distinct (map oe_key ?es)" using assms(1) by simp
  show "dots_of ?es = (dots_of es)(k := ds)"
  proof
    fix x
    show "dots_of ?es x = ((dots_of es)(k := ds)) x"
    proof (cases "x = k")
      case True
      have "(es ! i)\<lparr>oe_dots := ds\<rparr> \<in> set ?es" using assms(2) by (rule set_update_memI)
      then show ?thesis using dots_of_mem [OF d, of "(es ! i)\<lparr>oe_dots := ds\<rparr>"] True assms(3) by simp
    next
      case False
      show ?thesis
      proof (cases "x \<in> oe_key ` set es")
        case True
        then obtain j where j: "j < length es" "oe_key (es ! j) = x" by (auto simp: in_set_conv_nth)
        then have "j \<noteq> i" using False assms(3) by auto
        then have "es ! j \<in> set ?es" using j(1) by (metis length_list_update nth_list_update_neq nth_mem)
        then show ?thesis using False dots_of_mem [OF d, of "es ! j"] dots_of_mem [OF assms(1), of "es ! j"] j by simp
      next
        case nk: False
        then have "x \<notin> oe_key ` set ?es" using keys by (metis list.set_map)
        then show ?thesis using False nk by (simp add: dots_of_None)
      qed
    qed
  qed
qed

lemma dots_of_remove:
  assumes "distinct (map oe_key es)" "i < length es" "oe_key (es ! i) = k"
  shows "dots_of (swap_remove es i) = (dots_of es)(k := [])"
    and "distinct (map oe_key (swap_remove es i))" and "set (swap_remove es i) \<subseteq> set es"
proof -
  have m: "mset es = add_mset (es ! i) (mset (swap_remove es i))"
    using assms(2) by (simp add: swap_remove_def mset_butlast_swap)
  have "mset (map oe_key es) = mset (k # map oe_key (swap_remove es i))"
    using assms(3) unfolding mset_map m by simp
  then have dk: "distinct (k # map oe_key (swap_remove es i))" using assms(1) mset_eq_imp_distinct_iff by blast
  then show d: "distinct (map oe_key (swap_remove es i))" by simp
  have s: "insert (es ! i) (set (swap_remove es i)) = set es" using assms(2) by (rule set_swap_remove)
  then show "set (swap_remove es i) \<subseteq> set es" by blast
  show "dots_of (swap_remove es i) = (dots_of es)(k := [])"
  proof
    fix x
    show "dots_of (swap_remove es i) x = ((dots_of es)(k := [])) x"
    proof (cases "x \<in> oe_key ` set (swap_remove es i)")
      case True
      then obtain e where "e \<in> set (swap_remove es i)" "x = oe_key e" by auto
      moreover have "x \<noteq> k" using True dk by auto
      ultimately show ?thesis using dots_of_mem [OF d, of e] dots_of_mem [OF assms(1), of e] s
        by (metis fun_upd_other insertI2)
    next
      case False
      then have "x = k \<or> x \<notin> oe_key ` set es" using s assms(3) by (metis imageE image_eqI insertE)
      then show ?thesis using False by (auto simp: dots_of_None)
    qed
  qed
qed

lemma dots_of_append:
  assumes "k \<notin> oe_key ` set es"
  shows "dots_of (es @ [\<lparr>oe_key = k, oe_dots = ds\<rparr>]) = (dots_of es)(k := ds)"
proof -
  have "map_of (entry_view es) k = None" using assms by (simp add: entry_view_None)
  then show ?thesis by (auto simp: dots_of_def entry_view_def fun_eq_iff map_add_def split: option.splits)
qed

lemma orset_append_ok:
  assumes "os_ok os" "length (os_entries os) < 2 ^ 31" "k \<notin> oe_key ` set (os_entries os)" "ds \<noteq> []"
  shows "\<exists>os'. orset_append os \<lparr>oe_key = k, oe_dots = ds\<rparr> = Some os' \<and> os_ok os'
    \<and> dots_of (os_entries os') = (dots_of (os_entries os))(k := ds) \<and> os_cc os' = os_cc os"
proof -
  have "length (os_entries (orset_grow os)) < os_capacity (orset_grow os)"
    using assms(1,2) by (auto simp: orset_grow_def os_ok_def)
  moreover have "os_entries (orset_grow os) = os_entries os" "os_cc (orset_grow os) = os_cc os"
    by (simp_all add: orset_grow_def)
  ultimately show ?thesis using assms dots_of_append [OF assms(3)]
    by (simp add: orset_append_def Let_def os_ok_def)
qed

section \<open>Purging the dots a remove delta covers\<close>






section \<open>Applying a delta\<close>

lemma merge_dots_set:
  assumes "length merged + length ds \<le> OP_CRDT_ORSET_MAX_DOTS"
  shows "set (merge_dots cc merged ds) = set merged \<union> {d \<in> set ds. \<not> op_crdt_cc_contains cc d}
    \<and> length (merge_dots cc merged ds) \<le> length merged + length ds"
  using assms
proof (induction cc merged ds rule: merge_dots.induct)
  case (2 cc merged d ds)
  then show ?case by (auto simp: dot_index_None)
qed simp

lemma apply_add_entry_spec:
  assumes "os_ok os" "length (os_entries os) < 2 ^ 31"
    and room: "length (dots_of (os_entries os) (oe_key (od_entry delta))) + length (oe_dots (od_entry delta))
      \<le> OP_CRDT_ORSET_MAX_DOTS"
  shows "\<exists>os' ds. apply_add_entry os delta = Some os' \<and> os_ok os' \<and> os_cc os' = os_cc os
    \<and> dots_of (os_entries os') = (dots_of (os_entries os))(oe_key (od_entry delta) := ds)
    \<and> set ds = {d \<in> set (dots_of (os_entries os) (oe_key (od_entry delta))). \<not> op_crdt_cc_contains (od_cc delta) d}
        \<union> {d \<in> set (oe_dots (od_entry delta)). \<not> op_crdt_cc_contains (os_cc os) d}"
proof -
  define es k dd where "es = os_entries os" and "k = oe_key (od_entry delta)" and "dd = oe_dots (od_entry delta)"
  have ok: "distinct (map oe_key es)" "\<forall>e\<in>set es. oe_dots e \<noteq> []" "length es \<le> os_capacity os"
    using assms(1) by (auto simp: os_ok_def es_def)
  show ?thesis
  proof (cases "entry_find es k")
    case (Some i)
    note i = entry_find_Some [OF Some]
    have dk: "dots_of es k = oe_dots (es ! i)" using i by (simp add: dots_of_def)
    define kept where "kept = filter (\<lambda>d. \<not> op_crdt_cc_contains (od_cc delta) d) (oe_dots (es ! i))"
    have "length kept \<le> length (oe_dots (es ! i))" by (simp add: kept_def)
    then have r: "length kept + length dd \<le> OP_CRDT_ORSET_MAX_DOTS" using room dk by (simp add: es_def k_def dd_def)
    define merged where "merged = merge_dots (os_cc os) kept dd"
    have m: "set merged = set kept \<union> {d \<in> set dd. \<not> op_crdt_cc_contains (os_cc os) d}" "length merged \<le> OP_CRDT_ORSET_MAX_DOTS"
      using merge_dots_set [OF r, of "os_cc os"] r by (auto simp: merged_def)
    define es' where "es' = (if merged \<noteq> [] then es[i := (es ! i)\<lparr>oe_dots := merged\<rparr>] else swap_remove es i)"
    have "apply_add_entry os delta = Some (os\<lparr>os_entries := es'\<rparr>)"
      using Some r m(2) unfolding es_def k_def es'_def merged_def kept_def dd_def
      by (simp add: apply_add_entry_def orset_find_def Let_def)
    moreover have d': "dots_of es' = (dots_of es)(k := merged)"
      using dots_of_update(1) [OF ok(1), of i k merged] dots_of_remove(1) [OF ok(1), of i k] i by (auto simp: es'_def)
    moreover have "os_ok (os\<lparr>os_entries := es'\<rparr>)"
    proof (cases "merged = []")
      case True
      then show ?thesis using dots_of_remove(2,3) [OF ok(1), of i k] i ok by (auto simp: es'_def os_ok_def)
    next
      case False
      then have "\<forall>e\<in>set es'. oe_dots e \<noteq> []" using ok(2) set_update_subset_insert [of es i "(es ! i)\<lparr>oe_dots := merged\<rparr>"]
        by (auto simp: es'_def dest!: subsetD)
      then show ?thesis using False dots_of_update(2) [OF ok(1), of i k merged] i ok by (simp add: es'_def os_ok_def)
    qed
    ultimately show ?thesis using m(1) dk by (auto simp: es_def k_def dd_def kept_def)
  next
    case None
    define live where "live = filter (\<lambda>d. \<not> op_crdt_cc_contains (os_cc os) d) dd"
    have "length live \<le> length dd" by (simp add: live_def)
    then have r: "length live \<le> OP_CRDT_ORSET_MAX_DOTS" using room by (simp add: dd_def)
    have nk: "k \<notin> oe_key ` set es" using None by (simp add: entry_find_None)
    then have dk: "dots_of es k = []" by (rule dots_of_None)
    have a: "apply_add_entry os delta = (if live \<noteq> [] then orset_append os \<lparr>oe_key = k, oe_dots = live\<rparr> else Some os)"
      using None r unfolding es_def k_def live_def dd_def by (simp add: apply_add_entry_def orset_find_def Let_def)
    show ?thesis
    proof (cases "live = []")
      case True
      then have "dots_of es = (dots_of es)(k := live)" using dk by auto
      moreover have "set live = {d \<in> set dd. \<not> op_crdt_cc_contains (os_cc os) d}" by (simp add: live_def)
      ultimately show ?thesis using a True assms(1) dk unfolding es_def k_def dd_def
        by (intro exI [of _ os] exI [of _ live]) simp
    next
      case False
      then obtain os' where "orset_append os \<lparr>oe_key = k, oe_dots = live\<rparr> = Some os'" "os_ok os'"
        "dots_of (os_entries os') = (dots_of es)(k := live)" "os_cc os' = os_cc os"
        using orset_append_ok [of os k live] assms nk by (auto simp: es_def)
      then show ?thesis using a False dk by (auto simp: es_def k_def dd_def live_def)
    qed
  qed
qed

lemma orset_contains_dots: "os_ok os \<Longrightarrow> op_crdt_orset_contains os k \<longleftrightarrow> dots_of (os_entries os) k \<noteq> []"
  using dots_of_nonempty [of "os_entries os" k] entry_find_None [of "os_entries os" k]
  by (auto simp: os_ok_def op_crdt_orset_contains_def orset_find_def)

lemma orset_update_cc [simp]: "os_ok (os\<lparr>os_cc := cc\<rparr>) = os_ok os"
  by (simp add: os_ok_def)

lemma cc_add_empty:
  assumes "snd d \<noteq> 0"
  shows "cc_ok (op_crdt_cc_add empty_cc d)" and "cc_dots (op_crdt_cc_add empty_cc d) = {d}"
    and "cc_keys (op_crdt_cc_add empty_cc d) = {fst d}" and "length (cc_overflow (op_crdt_cc_add empty_cc d)) \<le> 1"
    and "fst ` set (cc_overflow (op_crdt_cc_add empty_cc d)) \<subseteq> {fst d}"
proof -
  have ok: "cc_ok empty_cc" by (simp add: cc_ok_def empty_cc_def ctr_ok_def)
  have "cc_dots empty_cc = {}" by (auto simp: mem_cc_dots empty_cc_def ctr_val_def)
  then show "cc_ok (op_crdt_cc_add empty_cc d)" "cc_dots (op_crdt_cc_add empty_cc d) = {d}"
    "cc_keys (op_crdt_cc_add empty_cc d) = {fst d}" "length (cc_overflow (op_crdt_cc_add empty_cc d)) \<le> 1"
    using cc_add_spec [OF ok assms]
    by (simp_all add: empty_cc_def OP_CRDT_CC_MAX_REPLICAS_def OP_CRDT_CC_MAX_OVERFLOW_def)
  have "set (cc_overflow (op_crdt_cc_add empty_cc d)) \<subseteq> cc_dots (op_crdt_cc_add empty_cc d)"
    using \<open>cc_ok (op_crdt_cc_add empty_cc d)\<close> by (auto simp: mem_cc_dots cc_ok_def)
  then show "fst ` set (cc_overflow (op_crdt_cc_add empty_cc d)) \<subseteq> {fst d}"
    using \<open>cc_dots (op_crdt_cc_add empty_cc d) = {d}\<close> by auto
qed

section \<open>Last-writer-wins as a maximum\<close>

definition lww_ok :: "op_crdt_lww \<Rightarrow> bool" where
  "lww_ok r \<longleftrightarrow> length (lww_writer r) = 8 \<and> length (lww_value r) \<le> OP_CRDT_LWW_VALUE_MAX"

definition lww_stamp :: "op_crdt_lww \<Rightarrow> u64 \<times> u8 list" where
  "lww_stamp r = (hlc_ts (lww_hlc r), lww_writer r)"

abbreviation lww_join :: "op_crdt_lww \<Rightarrow> op_crdt_lww list \<Rightarrow> op_crdt_lww" where
  "lww_join r rs \<equiv> foldl (\<lambda>r x. snd (op_crdt_lww_merge r x)) r rs"

lemma memcmp_less: "length a = length b \<Longrightarrow> c_memcmp a b \<le> 0 \<longleftrightarrow> a \<le> b"
  by (induction a b rule: list_induct2) auto

lemma lww_merge_wins:
  assumes "lww_ok r" "lww_ok x"
  shows "op_crdt_lww_merge r x = (if lww_stamp r < lww_stamp x then (True, x) else (False, r))"
  using assms memcmp_less [of "lww_writer x" "lww_writer r"]
  by (auto simp: op_crdt_lww_merge_def op_crdt_lww_set_def Let_def op_hlc_cmp_def lww_ok_def lww_stamp_def
      less_prod_def' not_less)

lemma lww_merge_max:
  assumes "lww_ok r" "lww_ok x"
  shows "snd (op_crdt_lww_merge r x) = (if lww_stamp r < lww_stamp x then x else r)"
  by (simp add: lww_merge_wins [OF assms])

lemma lww_join_spec:
  assumes "lww_ok r" "\<forall>x\<in>set rs. lww_ok x"
  shows "lww_join r rs \<in> insert r (set rs) \<and> (\<forall>x\<in>insert r (set rs). lww_stamp x \<le> lww_stamp (lww_join r rs))"
  using assms
proof (induction rs arbitrary: r)
  case (Cons x rs)
  let ?m = "snd (op_crdt_lww_merge r x)"
  have m: "?m = (if lww_stamp r < lww_stamp x then x else r)" using Cons.prems by (intro lww_merge_max) auto
  have ih: "lww_join ?m rs \<in> insert ?m (set rs) \<and> (\<forall>y\<in>insert ?m (set rs). lww_stamp y \<le> lww_stamp (lww_join ?m rs))"
    using Cons.prems m by (intro Cons.IH) auto
  have le: "lww_stamp r \<le> lww_stamp ?m" "lww_stamp x \<le> lww_stamp ?m" unfolding m by auto
  have "?m \<in> {r, x}" unfolding m by simp
  then show ?case using ih le by (auto intro: order_trans)
qed simp

section \<open>Grow-only counters as maps\<close>

abbreviation gctr_val :: "op_crdt_gctr \<Rightarrow> replica \<Rightarrow> u64" where
  "gctr_val c \<equiv> ctr_val (gctr_entries c)"

abbreviation gctr_keys :: "op_crdt_gctr \<Rightarrow> replica set" where
  "gctr_keys c \<equiv> fst ` set (gctr_entries c)"

abbreviation gctr_ok :: "op_crdt_gctr \<Rightarrow> bool" where
  "gctr_ok c \<equiv> ctr_ok OP_CRDT_GCTR_MAX_REPLICAS (gctr_entries c)"

lemma gctr_value_sum:
  assumes "gctr_ok c"
  shows "op_crdt_gctr_value c = (\<Sum>k\<in>gctr_keys c. gctr_val c k)"
proof -
  have f: "foldl (\<lambda>t e. t + snd e) t es = t + sum_list (map snd es)" for t :: u64 and es :: "ctr_entry list"
    by (induction es arbitrary: t) (simp_all add: add.assoc)
  have d: "distinct (map fst (gctr_entries c))" using assms by (simp add: ctr_ok_def)
  then have "map snd (gctr_entries c) = map (gctr_val c) (map fst (gctr_entries c))" by (auto simp: ctr_val_def)
  then have "sum_list (map snd (gctr_entries c)) = (\<Sum>k\<in>set (map fst (gctr_entries c)). gctr_val c k)"
    using d by (metis sum_list_distinct_conv_sum_set)
  then show ?thesis by (simp add: op_crdt_gctr_value_def f)
qed

lemma gctr_merge_spec:
  assumes "gctr_ok a" "gctr_ok b" "card (gctr_keys a \<union> gctr_keys b) \<le> OP_CRDT_GCTR_MAX_REPLICAS"
  shows "gctr_ok (op_crdt_gctr_merge a b)" "gctr_val (op_crdt_gctr_merge a b) = (\<lambda>k. max (gctr_val a k) (gctr_val b k))"
    "gctr_keys (op_crdt_gctr_merge a b) = gctr_keys a \<union> gctr_keys b"
    "op_crdt_gctr_value (op_crdt_gctr_merge a b) = (\<Sum>k\<in>gctr_keys a \<union> gctr_keys b. max (gctr_val a k) (gctr_val b k))"
proof -
  have d: "distinct (map fst (gctr_entries b))" using assms(2) by (simp add: ctr_ok_def)
  note m = ctr_merge_spec [OF assms(1,3)]
  show 1: "gctr_ok (op_crdt_gctr_merge a b)" using m(1) by (simp add: op_crdt_gctr_merge_def)
  show 2: "gctr_val (op_crdt_gctr_merge a b) = (\<lambda>k. max (gctr_val a k) (gctr_val b k))"
    using m(2) [OF d] by (simp add: op_crdt_gctr_merge_def)
  show 3: "gctr_keys (op_crdt_gctr_merge a b) = gctr_keys a \<union> gctr_keys b" using m(3) by (simp add: op_crdt_gctr_merge_def)
  show "op_crdt_gctr_value (op_crdt_gctr_merge a b) = (\<Sum>k\<in>gctr_keys a \<union> gctr_keys b. max (gctr_val a k) (gctr_val b k))"
    using gctr_value_sum [OF 1] unfolding 2 3 .
qed

section \<open>Properties\<close>

text \<open>
  Merging causal contexts takes the union of the dots observed, and stays well formed,
  when the merged context has room for every replica and every dot above its replica's
  frontier.
\<close>

theorem cc_merge_union:
  assumes "cc_ok dst" "cc_ok src"
    "card (cc_keys dst \<union> cc_keys src \<union> fst ` set (cc_overflow src)) \<le> OP_CRDT_CC_MAX_REPLICAS"
    "length (cc_overflow dst) + length (cc_overflow src) \<le> OP_CRDT_CC_MAX_OVERFLOW" "snd d \<noteq> 0"
  shows "cc_ok (op_crdt_cc_merge dst src)
    \<and> (op_crdt_cc_contains (op_crdt_cc_merge dst src) d \<longleftrightarrow> op_crdt_cc_contains dst d \<or> op_crdt_cc_contains src d)"
proof -
  note m = cc_merge_spec [OF assms(1-4)]
  have "d \<in> cc_dots (op_crdt_cc_merge dst src) \<longleftrightarrow> d \<in> cc_dots dst \<or> d \<in> cc_dots src" using m by blast
  then show ?thesis using conjunct1 [OF m] assms(5) by (simp add: cc_dots_def)
qed

theorem cc_merge_union_witness:
  "op_crdt_cc_contains
     (op_crdt_cc_merge \<lparr>cc_entries = [([1, 0, 0, 0, 0, 0, 0, 0], 2)], cc_overflow = [([1, 0, 0, 0, 0, 0, 0, 0], 5)]\<rparr> \<lparr>cc_entries = [([1, 0, 0, 0, 0, 0, 0, 0], 4)], cc_overflow = []\<rparr>) ([1, 0, 0, 0, 0, 0, 0, 0], 5)"
  using cc_merge_union [of "\<lparr>cc_entries = [([1, 0, 0, 0, 0, 0, 0, 0], 2)], cc_overflow = [([1, 0, 0, 0, 0, 0, 0, 0], 5)]\<rparr>" "\<lparr>cc_entries = [([1, 0, 0, 0, 0, 0, 0, 0], 4)], cc_overflow = []\<rparr>" "([1, 0, 0, 0, 0, 0, 0, 0], 5)"]
  by (simp add: cc_ok_def ctr_ok_def OP_CRDT_CC_MAX_REPLICAS_def OP_CRDT_CC_MAX_OVERFLOW_def op_crdt_cc_contains_def)







text \<open>
  C36. Redelivering an add delta removes the element it added: the first application of a
  fresh add inserts the key, and the second, of the very same delta, deletes it, because
  the delta's own context covers the stored dot and the local context covers the delta's.
  The rule in the code's comment has a third term, the dots common to both, that would keep
  it.
\<close>

theorem orset_redelivery_removes:
  assumes "os_ok os" "cc_ok (os_cc os)" "length (os_entries os) < 2 ^ 31 - 1"
    "\<not> op_crdt_orset_contains os k" "\<not> op_crdt_cc_contains (os_cc os) d" "snd d \<noteq> 0"
    "card (insert (fst d) (cc_keys (os_cc os))) \<le> OP_CRDT_CC_MAX_REPLICAS"
    "length (cc_overflow (os_cc os)) < OP_CRDT_CC_MAX_OVERFLOW"
  shows "\<exists>os1 os2. op_crdt_orset_apply_delta os
        \<lparr>od_entry = \<lparr>oe_key = k, oe_dots = [d]\<rparr>, od_has_entry = True, od_cc = op_crdt_cc_add empty_cc d\<rparr> = Some os1
    \<and> op_crdt_orset_contains os1 k
    \<and> op_crdt_orset_apply_delta os1
        \<lparr>od_entry = \<lparr>oe_key = k, oe_dots = [d]\<rparr>, od_has_entry = True, od_cc = op_crdt_cc_add empty_cc d\<rparr> = Some os2
    \<and> \<not> op_crdt_orset_contains os2 k"
proof -
  let ?c = "op_crdt_cc_add empty_cc d"
  let ?delta = "\<lparr>od_entry = \<lparr>oe_key = k, oe_dots = [d]\<rparr>, od_has_entry = True, od_cc = ?c\<rparr>"
  let ?os1 = "os\<lparr>os_capacity := os_capacity (orset_grow os), os_entries := os_entries os @ [\<lparr>oe_key = k, oe_dots = [d]\<rparr>],
    os_cc := op_crdt_cc_merge (os_cc os) ?c\<rparr>"
  have nf: "entry_find (os_entries os) k = None" using assms(4) by (simp add: op_crdt_orset_contains_def orset_find_def)
  then have nk: "k \<notin> oe_key ` set (os_entries os)" by (simp add: entry_find_None)
  have room: "length (os_entries os) < os_capacity (orset_grow os)" "os_entries (orset_grow os) = os_entries os"
    using assms(1,3) by (auto simp: orset_grow_def os_ok_def)
  have "apply_add_entry os ?delta = Some (os\<lparr>os_capacity := os_capacity (orset_grow os),
      os_entries := os_entries os @ [\<lparr>oe_key = k, oe_dots = [d]\<rparr>]\<rparr>)"
    using nf assms(5) room by (auto simp: apply_add_entry_def orset_find_def orset_append_def Let_def
        OP_CRDT_ORSET_MAX_DOTS_def orset_grow_def)
  then have step1: "op_crdt_orset_apply_delta os ?delta = Some ?os1" by (simp add: op_crdt_orset_apply_delta_def)
  have ok1: "os_ok ?os1" using assms(1) nk room by (auto simp: os_ok_def)
  have d1: "dots_of (os_entries ?os1) = (dots_of (os_entries os))(k := [d])" using dots_of_append [OF nk] by simp
  have in1: "op_crdt_orset_contains ?os1 k" using orset_contains_dots [OF ok1, of k] d1 by simp
  note c = cc_add_empty [OF assms(6)]
  have "cc_keys (os_cc os) \<union> cc_keys ?c \<union> fst ` set (cc_overflow ?c) = insert (fst d) (cc_keys (os_cc os))"
    using c(3,5) by blast
  then have "cc_dots (op_crdt_cc_merge (os_cc os) ?c) = cc_dots (os_cc os) \<union> cc_dots ?c"
    using cc_merge_spec [OF assms(2) c(1)] assms(7,8) c(4) by simp
  then have cov: "op_crdt_cc_contains (os_cc ?os1) d" using c(2) by (auto simp: cc_dots_def)
  have self: "op_crdt_cc_contains ?c d" using c(2) by (auto simp: cc_dots_def)
  have "length (dots_of (os_entries ?os1) (oe_key (od_entry ?delta))) + length (oe_dots (od_entry ?delta)) \<le> OP_CRDT_ORSET_MAX_DOTS"
    using d1 by (simp add: OP_CRDT_ORSET_MAX_DOTS_def)
  moreover have "length (os_entries ?os1) < 2 ^ 31" using assms(3) by simp
  ultimately obtain os2 ds where a: "apply_add_entry ?os1 ?delta = Some os2" "os_ok os2"
    "dots_of (os_entries os2) = (dots_of (os_entries ?os1))(k := ds)"
    "set ds = {x \<in> set (dots_of (os_entries ?os1) k). \<not> op_crdt_cc_contains ?c x}
        \<union> {x \<in> {d}. \<not> op_crdt_cc_contains (os_cc ?os1) x}"
    using apply_add_entry_spec [OF ok1, of ?delta] by auto
  have "set ds = {}" unfolding a(4) d1 using cov self by auto
  then have e2: "dots_of (os_entries os2) k = []" using a(3) by simp
  let ?os2 = "os2\<lparr>os_cc := op_crdt_cc_merge (os_cc os2) ?c\<rparr>"
  have "op_crdt_orset_apply_delta ?os1 ?delta = Some ?os2" using a(1) by (simp add: op_crdt_orset_apply_delta_def)
  moreover have "\<not> op_crdt_orset_contains ?os2 k" using orset_contains_dots [of ?os2 k] a(2) e2 by simp
  ultimately show ?thesis using step1 in1 by blast
qed

theorem orset_redelivery_removes_witness:
  "\<exists>os1 os2. op_crdt_orset_apply_delta (op_crdt_orset_init 0)
        \<lparr>od_entry = \<lparr>oe_key = [7], oe_dots = [([1, 0, 0, 0, 0, 0, 0, 0], 1)]\<rparr>, od_has_entry = True, od_cc = op_crdt_cc_add empty_cc ([1, 0, 0, 0, 0, 0, 0, 0], 1)\<rparr> = Some os1
    \<and> op_crdt_orset_contains os1 [7]
    \<and> op_crdt_orset_apply_delta os1
        \<lparr>od_entry = \<lparr>oe_key = [7], oe_dots = [([1, 0, 0, 0, 0, 0, 0, 0], 1)]\<rparr>, od_has_entry = True, od_cc = op_crdt_cc_add empty_cc ([1, 0, 0, 0, 0, 0, 0, 0], 1)\<rparr> = Some os2
    \<and> \<not> op_crdt_orset_contains os2 [7]"
  using orset_redelivery_removes [of "op_crdt_orset_init 0" "[7]" "([1, 0, 0, 0, 0, 0, 0, 0], 1)"]
  by (simp add: op_crdt_orset_init_def os_ok_def cc_ok_def ctr_ok_def empty_cc_def op_crdt_orset_contains_def orset_find_def
      op_crdt_cc_contains_def OP_CRDT_CC_MAX_REPLICAS_def OP_CRDT_CC_MAX_OVERFLOW_def)

text \<open>
  C22. The last writer wins, and replicas converge.  A merge takes the remote write, and
  reports so, exactly when its stamp is later: a greater clock, or the same clock and a writer
  key that is greater byte by byte.  After any writes have been delivered, in any order and any
  number of times, the register holds one of them, with the greatest stamp; when each stamp
  belongs to one write, two replicas that have seen the same set of writes hold the same
  register.
\<close>

theorem lww_converges:
  assumes "lww_ok r" "\<forall>x\<in>set xs. lww_ok x" "set ys = set xs"
    "\<forall>a\<in>insert r (set xs). \<forall>b\<in>insert r (set xs). lww_stamp a = lww_stamp b \<longrightarrow> a = b"
  shows "(\<forall>x\<in>set xs. op_crdt_lww_merge r x =
       (if hlc_ts (lww_hlc r) < hlc_ts (lww_hlc x) \<or> hlc_ts (lww_hlc r) = hlc_ts (lww_hlc x) \<and> lww_writer r < lww_writer x
        then (True, x) else (False, r)))
    \<and> foldl (\<lambda>r x. snd (op_crdt_lww_merge r x)) r xs \<in> insert r (set xs)
    \<and> (\<forall>x\<in>insert r (set xs). lww_stamp x \<le> lww_stamp (foldl (\<lambda>r x. snd (op_crdt_lww_merge r x)) r xs))
    \<and> foldl (\<lambda>r x. snd (op_crdt_lww_merge r x)) r xs = foldl (\<lambda>r x. snd (op_crdt_lww_merge r x)) r ys"
proof -
  have x: "lww_join r xs \<in> insert r (set xs)" "\<forall>a\<in>insert r (set xs). lww_stamp a \<le> lww_stamp (lww_join r xs)"
    using lww_join_spec [OF assms(1,2)] by auto
  have y: "lww_join r ys \<in> insert r (set xs)" "\<forall>a\<in>insert r (set xs). lww_stamp a \<le> lww_stamp (lww_join r ys)"
    using lww_join_spec [OF assms(1), of ys] assms(2,3) by auto
  have "lww_stamp (lww_join r xs) = lww_stamp (lww_join r ys)" using x y by (meson order_antisym)
  then have "lww_join r xs = lww_join r ys" using x(1) y(1) assms(4) by blast
  moreover have "op_crdt_lww_merge r x =
      (if hlc_ts (lww_hlc r) < hlc_ts (lww_hlc x) \<or> hlc_ts (lww_hlc r) = hlc_ts (lww_hlc x) \<and> lww_writer r < lww_writer x
       then (True, x) else (False, r))" if "x \<in> set xs" for x
    using lww_merge_wins [OF assms(1), of x] assms(2) that by (simp add: lww_stamp_def less_prod_def')
  ultimately show ?thesis using x by blast
qed

theorem lww_converges_witness:
  "foldl (\<lambda>r x. snd (op_crdt_lww_merge r x)) \<lparr>lww_value = [], lww_hlc = \<lparr>hlc_ts = 0\<rparr>, lww_writer = replicate 8 0\<rparr>
     [\<lparr>lww_value = [2], lww_hlc = \<lparr>hlc_ts = 5\<rparr>, lww_writer = replicate 8 2\<rparr>,
      \<lparr>lww_value = [1], lww_hlc = \<lparr>hlc_ts = 5\<rparr>, lww_writer = replicate 8 1\<rparr>]
   = \<lparr>lww_value = [2], lww_hlc = \<lparr>hlc_ts = 5\<rparr>, lww_writer = replicate 8 2\<rparr>"
proof -
  let ?r = "\<lparr>lww_value = [], lww_hlc = \<lparr>hlc_ts = 0\<rparr>, lww_writer = replicate 8 0\<rparr>"
  let ?a = "\<lparr>lww_value = [1], lww_hlc = \<lparr>hlc_ts = 5\<rparr>, lww_writer = replicate 8 1\<rparr>"
  let ?b = "\<lparr>lww_value = [2], lww_hlc = \<lparr>hlc_ts = 5\<rparr>, lww_writer = replicate 8 2\<rparr>"
  have ok: "lww_ok ?r" "\<forall>x\<in>set [?b, ?a]. lww_ok x" "set [?a, ?b] = set [?b, ?a]"
    "\<forall>x\<in>insert ?r (set [?b, ?a]). \<forall>y\<in>insert ?r (set [?b, ?a]). lww_stamp x = lww_stamp y \<longrightarrow> x = y"
    by (auto simp: lww_ok_def lww_stamp_def OP_CRDT_LWW_VALUE_MAX_def numeral_nat)
  have "\<not> lww_stamp ?b \<le> lww_stamp ?r" "\<not> lww_stamp ?b \<le> lww_stamp ?a"
    by (simp_all add: lww_stamp_def numeral_nat)
  then show ?thesis using lww_converges [OF ok] by auto
qed

text \<open>
  Merging grow-only counters takes the maximum of each replica's count, and the value
  of a merge is commutative, associative and idempotent, when the replicas fit the table.
\<close>

theorem gctr_merge_join:
  assumes "gctr_ok a" "gctr_ok b" "gctr_ok c"
    "card (gctr_keys a \<union> gctr_keys b \<union> gctr_keys c) \<le> OP_CRDT_GCTR_MAX_REPLICAS"
  shows "gctr_val (op_crdt_gctr_merge a b) = (\<lambda>k. max (gctr_val a k) (gctr_val b k))
    \<and> op_crdt_gctr_value (op_crdt_gctr_merge a b) = op_crdt_gctr_value (op_crdt_gctr_merge b a)
    \<and> op_crdt_gctr_value (op_crdt_gctr_merge (op_crdt_gctr_merge a b) c)
      = op_crdt_gctr_value (op_crdt_gctr_merge a (op_crdt_gctr_merge b c))
    \<and> op_crdt_gctr_value (op_crdt_gctr_merge a a) = op_crdt_gctr_value a"
proof -
  have sub: "card X \<le> OP_CRDT_GCTR_MAX_REPLICAS" if "X \<subseteq> gctr_keys a \<union> gctr_keys b \<union> gctr_keys c" for X
    using card_mono [OF _ that] assms(4) by simp
  have card: "card (gctr_keys a \<union> gctr_keys b) \<le> OP_CRDT_GCTR_MAX_REPLICAS" "card (gctr_keys b \<union> gctr_keys a) \<le> OP_CRDT_GCTR_MAX_REPLICAS"
    "card (gctr_keys b \<union> gctr_keys c) \<le> OP_CRDT_GCTR_MAX_REPLICAS" "card (gctr_keys a \<union> gctr_keys a) \<le> OP_CRDT_GCTR_MAX_REPLICAS"
    "card (gctr_keys a \<union> (gctr_keys b \<union> gctr_keys c)) \<le> OP_CRDT_GCTR_MAX_REPLICAS"
    by (intro sub; blast)+
  note ab = gctr_merge_spec [OF assms(1,2) card(1)] note ba = gctr_merge_spec [OF assms(2,1) card(2)]
  note bc = gctr_merge_spec [OF assms(2,3) card(3)] note aa = gctr_merge_spec [OF assms(1,1) card(4)]
  have ab_c: "op_crdt_gctr_value (op_crdt_gctr_merge (op_crdt_gctr_merge a b) c) =
      (\<Sum>k\<in>gctr_keys a \<union> gctr_keys b \<union> gctr_keys c. max (max (gctr_val a k) (gctr_val b k)) (gctr_val c k))"
    using gctr_merge_spec(4) [OF ab(1) assms(3)] assms(4) unfolding ab(2,3) .
  have a_bc: "op_crdt_gctr_value (op_crdt_gctr_merge a (op_crdt_gctr_merge b c)) =
      (\<Sum>k\<in>gctr_keys a \<union> (gctr_keys b \<union> gctr_keys c). max (gctr_val a k) (max (gctr_val b k) (gctr_val c k)))"
    using gctr_merge_spec(4) [OF assms(1) bc(1)] card(5) unfolding bc(2,3) .
  show ?thesis
  proof (intro conjI)
    show "gctr_val (op_crdt_gctr_merge a b) = (\<lambda>k. max (gctr_val a k) (gctr_val b k))" by (rule ab(2))
    show "op_crdt_gctr_value (op_crdt_gctr_merge a b) = op_crdt_gctr_value (op_crdt_gctr_merge b a)"
      unfolding ab(4) ba(4) by (simp add: Un_commute max.commute)
    show "op_crdt_gctr_value (op_crdt_gctr_merge (op_crdt_gctr_merge a b) c)
      = op_crdt_gctr_value (op_crdt_gctr_merge a (op_crdt_gctr_merge b c))"
      unfolding ab_c a_bc by (simp add: Un_assoc max.assoc)
    show "op_crdt_gctr_value (op_crdt_gctr_merge a a) = op_crdt_gctr_value a"
      unfolding aa(4) gctr_value_sum [OF assms(1)] by simp
  qed
qed

theorem gctr_merge_join_witness:
  "op_crdt_gctr_value (op_crdt_gctr_merge \<lparr>gctr_entries = [([1, 0, 0, 0, 0, 0, 0, 0], 3)]\<rparr> \<lparr>gctr_entries = [([2, 0, 0, 0, 0, 0, 0, 0], 4), ([1, 0, 0, 0, 0, 0, 0, 0], 5)]\<rparr>)
   = op_crdt_gctr_value (op_crdt_gctr_merge \<lparr>gctr_entries = [([2, 0, 0, 0, 0, 0, 0, 0], 4), ([1, 0, 0, 0, 0, 0, 0, 0], 5)]\<rparr> \<lparr>gctr_entries = [([1, 0, 0, 0, 0, 0, 0, 0], 3)]\<rparr>)"
  using gctr_merge_join [of "\<lparr>gctr_entries = [([1, 0, 0, 0, 0, 0, 0, 0], 3)]\<rparr>" "\<lparr>gctr_entries = [([2, 0, 0, 0, 0, 0, 0, 0], 4), ([1, 0, 0, 0, 0, 0, 0, 0], 5)]\<rparr>" "\<lparr>gctr_entries = []\<rparr>"]
  by (simp add: ctr_ok_def OP_CRDT_GCTR_MAX_REPLICAS_def)

end
