(* ===== verification/Lru.thy ===== *)
theory Lru
  imports Htab_Keys
begin

text \<open>
  \<^verbatim>\<open>src/lru.c\<close>: the LRU cache, a hash table from keys to entries and a doubly linked list of
  the entries in order of recency.  The entries live in a memory \<open>m\<close> from addresses to
  records, so that the table and the list share them by address; reading or writing an address
  that holds no entry is undefined (\<open>None\<close>).  The allocator is a parameter: \<open>alloc A\<close> is the
  address \<^verbatim>\<open>op_malloc\<close> returns when the addresses \<open>A\<close> are in use.  The calls of the eviction
  callback are returned as the list of their key and value arguments, in order.
\<close>

section \<open>Entries and memory\<close>

record ('k, 'v) op_lru_entry =
  le_key :: "'k ptr"
  le_val :: "'v ptr"
  le_prev :: "addr ptr"
  le_next :: "addr ptr"

type_synonym ('k, 'v) lru_mem = "addr \<rightharpoonup> ('k, 'v) op_lru_entry"

record 'k op_lru =
  lru_ht :: "('k, addr) op_htab"
  lru_ht_addr :: addr
  lru_head :: "addr ptr"
  lru_tail :: "addr ptr"
  lru_size :: nat
  lru_capacity :: nat
  lru_evict_cb :: bool
  lru_name :: string
  lru_hits :: u64
  lru_misses :: u64
  lru_evictions :: u64
  lru_insertions :: u64
  lru_updates :: u64

definition entry_alloc :: "(addr set \<Rightarrow> addr) \<Rightarrow> ('k, 'v) lru_mem \<Rightarrow> addr \<times> ('k, 'v) lru_mem" where
  "entry_alloc alloc m =
     (let e = alloc (dom m) in (e, m(e \<mapsto> \<lparr>le_key = NULL, le_val = NULL, le_prev = NULL, le_next = NULL\<rparr>)))"

definition entry_free :: "('k, 'v) lru_mem \<Rightarrow> addr \<Rightarrow> ('k, 'v) lru_mem option" where
  "entry_free m e = do { _ \<leftarrow> m e; Some (m(e := None)) }"

definition call_evict :: "bool \<Rightarrow> 'k ptr \<Rightarrow> 'v ptr \<Rightarrow> ('k ptr \<times> 'v ptr) list" where
  "call_evict cb key val = (if cb then [(key, val)] else [])"

section \<open>The recency list\<close>

definition list_push_head ::
  "('k, 'v) lru_mem \<Rightarrow> 'k op_lru \<Rightarrow> addr \<Rightarrow> (('k, 'v) lru_mem \<times> 'k op_lru) option" where
  "list_push_head m lru e = do {
     x \<leftarrow> m e;
     let m = m(e \<mapsto> x\<lparr>le_prev := NULL, le_next := lru_head lru\<rparr>);
     (m, lru) \<leftarrow> (case lru_head lru of
         Some h \<Rightarrow> do { y \<leftarrow> m h; Some (m(h \<mapsto> y\<lparr>le_prev := Some e\<rparr>), lru) }
       | None \<Rightarrow> Some (m, lru\<lparr>lru_tail := Some e\<rparr>));
     Some (m, lru\<lparr>lru_head := Some e\<rparr>)
   }"

definition list_unlink ::
  "('k, 'v) lru_mem \<Rightarrow> 'k op_lru \<Rightarrow> addr \<Rightarrow> (('k, 'v) lru_mem \<times> 'k op_lru) option" where
  "list_unlink m lru e = do {
     x \<leftarrow> m e;
     (m, lru) \<leftarrow> (case le_prev x of
         Some p \<Rightarrow> do { y \<leftarrow> m p; Some (m(p \<mapsto> y\<lparr>le_next := le_next x\<rparr>), lru) }
       | None \<Rightarrow> Some (m, lru\<lparr>lru_head := le_next x\<rparr>));
     x \<leftarrow> m e;
     (m, lru) \<leftarrow> (case le_next x of
         Some n \<Rightarrow> do { y \<leftarrow> m n; Some (m(n \<mapsto> y\<lparr>le_prev := le_prev x\<rparr>), lru) }
       | None \<Rightarrow> Some (m, lru\<lparr>lru_tail := le_prev x\<rparr>));
     x \<leftarrow> m e;
     Some (m(e \<mapsto> x\<lparr>le_prev := NULL, le_next := NULL\<rparr>), lru)
   }"

definition list_promote ::
  "('k, 'v) lru_mem \<Rightarrow> 'k op_lru \<Rightarrow> addr \<Rightarrow> (('k, 'v) lru_mem \<times> 'k op_lru) option" where
  "list_promote m lru e =
     (if lru_head lru = Some e then Some (m, lru)
      else do { (m, lru) \<leftarrow> list_unlink m lru e; list_push_head m lru e })"

section \<open>Operations\<close>

definition lru_evict_tail ::
  "('k, 'v) lru_mem \<Rightarrow> 'k op_lru \<Rightarrow> (('k ptr \<times> 'v ptr) list \<times> ('k, 'v) lru_mem \<times> 'k op_lru) option" where
  "lru_evict_tail m lru =
     (case lru_tail lru of
        None \<Rightarrow> Some ([], m, lru)
      | Some e \<Rightarrow> do {
          (m, lru) \<leftarrow> list_unlink m lru e;
          x \<leftarrow> m e;
          (_, ht) \<leftarrow> op_htab_del (lru_ht lru) (le_key x);
          m \<leftarrow> entry_free m e;
          Some (call_evict (lru_evict_cb lru) (le_key x) (le_val x), m,
                lru\<lparr>lru_ht := ht, lru_size := sub64 (lru_size lru) 1, lru_evictions := lru_evictions lru + 1\<rparr>)
        })"

definition lru_create_common ::
  "string \<Rightarrow> nat \<Rightarrow> bool \<Rightarrow> addr \<Rightarrow> ('k, addr) op_htab \<Rightarrow> 'k op_lru" where
  "lru_create_common name capacity evict_cb self ht =
     \<lparr>lru_ht = ht, lru_ht_addr = self, lru_head = NULL, lru_tail = NULL, lru_size = 0,
      lru_capacity = (if capacity > 0 then capacity else 1), lru_evict_cb = evict_cb, lru_name = name,
      lru_hits = 0, lru_misses = 0, lru_evictions = 0, lru_insertions = 0, lru_updates = 0\<rparr>"

definition op_lru_create ::
  "htab_registry \<Rightarrow> addr \<Rightarrow> string \<Rightarrow> nat \<Rightarrow> bool \<Rightarrow> (cstr op_lru \<times> htab_registry) option" where
  "op_lru_create reg self name capacity evict_cb =
     (let initial = (if capacity < 16 then 16 else capacity) in do {
        (ht, reg) \<leftarrow> op_htab_create_str reg self name initial;
        Some (lru_create_common name capacity evict_cb self ht, reg) })"

definition op_lru_create_istr ::
  "htab_registry \<Rightarrow> addr \<Rightarrow> string \<Rightarrow> nat \<Rightarrow> bool \<Rightarrow> (cstr op_lru \<times> htab_registry) option" where
  "op_lru_create_istr reg self name capacity evict_cb =
     (let initial = (if capacity < 16 then 16 else capacity) in do {
        (ht, reg) \<leftarrow> op_htab_create_istr reg self name initial;
        Some (lru_create_common name capacity evict_cb self ht, reg) })"

text \<open>The walks follow the links of the memory, so their end is proved and not structural.\<close>

partial_function (option) lru_destroy_loop ::
  "bool \<Rightarrow> ('k, 'v) lru_mem \<Rightarrow> addr ptr \<Rightarrow> (('k ptr \<times> 'v ptr) list \<times> ('k, 'v) lru_mem) option" where
  "lru_destroy_loop cb m e =
     (case e of
        None \<Rightarrow> Some ([], m)
      | Some a \<Rightarrow> do {
          x \<leftarrow> m a;
          m \<leftarrow> entry_free m a;
          (calls, m) \<leftarrow> lru_destroy_loop cb m (le_next x);
          Some (call_evict cb (le_key x) (le_val x) @ calls, m)
        })"

definition op_lru_destroy ::
  "htab_registry \<Rightarrow> ('k, 'v) lru_mem \<Rightarrow> 'k op_lru \<Rightarrow> bool
     \<Rightarrow> (('k ptr \<times> 'v ptr) list \<times> ('k, 'v) lru_mem \<times> htab_registry) option" where
  "op_lru_destroy reg m lru call_ev = do {
     (calls, m) \<leftarrow> lru_destroy_loop (call_ev \<and> lru_evict_cb lru) m (lru_head lru);
     (_, reg) \<leftarrow> op_htab_destroy reg (lru_ht_addr lru) (lru_ht lru) False;
     Some (calls, m, reg)
   }"

definition op_lru_get ::
  "('k, 'v) lru_mem \<Rightarrow> 'k op_lru \<Rightarrow> 'k ptr \<Rightarrow> ('v ptr \<times> ('k, 'v) lru_mem \<times> 'k op_lru) option" where
  "op_lru_get m lru key = do {
     e \<leftarrow> op_htab_get (lru_ht lru) key;
     (case e of
        None \<Rightarrow> Some (NULL, m, lru\<lparr>lru_misses := lru_misses lru + 1\<rparr>)
      | Some e \<Rightarrow> do {
          (m, lru) \<leftarrow> list_promote m (lru\<lparr>lru_hits := lru_hits lru + 1\<rparr>) e;
          x \<leftarrow> m e;
          Some (le_val x, m, lru)
        })
   }"

definition op_lru_set ::
  "(addr set \<Rightarrow> addr) \<Rightarrow> ('k, 'v) lru_mem \<Rightarrow> 'k op_lru \<Rightarrow> 'k ptr \<Rightarrow> 'v ptr
     \<Rightarrow> (('k ptr \<times> 'v ptr) list \<times> ('k, 'v) lru_mem \<times> 'k op_lru) option" where
  "op_lru_set alloc m lru key val = do {
     e \<leftarrow> op_htab_get (lru_ht lru) key;
     (case e of
        Some e \<Rightarrow> do {
          x \<leftarrow> m e;
          let calls = call_evict (lru_evict_cb lru \<and> le_val x \<noteq> val) (le_key x) (le_val x);
          let m = m(e \<mapsto> x\<lparr>le_key := key, le_val := val\<rparr>);
          (m, lru) \<leftarrow> list_promote m lru e;
          Some (calls, m, lru\<lparr>lru_updates := lru_updates lru + 1\<rparr>)
        }
      | None \<Rightarrow> do {
          (calls, m, lru) \<leftarrow> (if lru_size lru \<ge> lru_capacity lru then lru_evict_tail m lru else Some ([], m, lru));
          let (e, m) = entry_alloc alloc m;
          x \<leftarrow> m e;
          let m = m(e \<mapsto> x\<lparr>le_key := key, le_val := val, le_prev := NULL, le_next := NULL\<rparr>);
          (_, _, ht) \<leftarrow> op_htab_set (lru_ht lru) key (Some e);
          (m, lru) \<leftarrow> list_push_head m (lru\<lparr>lru_ht := ht\<rparr>) e;
          Some (calls, m, lru\<lparr>lru_size := wrap64 (lru_size lru + 1), lru_insertions := lru_insertions lru + 1\<rparr>)
        })
   }"

definition op_lru_delete ::
  "('k, 'v) lru_mem \<Rightarrow> 'k op_lru \<Rightarrow> 'k ptr
     \<Rightarrow> (bool \<times> ('k ptr \<times> 'v ptr) list \<times> ('k, 'v) lru_mem \<times> 'k op_lru) option" where
  "op_lru_delete m lru key = do {
     (e, ht) \<leftarrow> op_htab_del (lru_ht lru) key;
     let lru = lru\<lparr>lru_ht := ht\<rparr>;
     (case e of
        None \<Rightarrow> Some (False, [], m, lru)
      | Some e \<Rightarrow> do {
          (m, lru) \<leftarrow> list_unlink m lru e;
          x \<leftarrow> m e;
          m \<leftarrow> entry_free m e;
          Some (True, call_evict (lru_evict_cb lru) (le_key x) (le_val x), m,
                lru\<lparr>lru_size := sub64 (lru_size lru) 1\<rparr>)
        })
   }"

partial_function (option) op_lru_flush ::
  "('k, 'v) lru_mem \<Rightarrow> 'k op_lru \<Rightarrow> (('k ptr \<times> 'v ptr) list \<times> ('k, 'v) lru_mem \<times> 'k op_lru) option" where
  "op_lru_flush m lru =
     (if lru_tail lru = NULL then Some ([], m, lru)
      else do {
        (calls, m, lru) \<leftarrow> lru_evict_tail m lru;
        (calls', m, lru) \<leftarrow> op_lru_flush m lru;
        Some (calls @ calls', m, lru)
      })"

definition op_lru_size :: "'k op_lru \<Rightarrow> nat" where
  "op_lru_size lru = lru_size lru"

definition op_lru_capacity :: "'k op_lru \<Rightarrow> nat" where
  "op_lru_capacity lru = lru_capacity lru"

definition op_lru_name :: "'k op_lru \<Rightarrow> string" where
  "op_lru_name lru = lru_name lru"

definition op_lru_stats :: "'k op_lru \<Rightarrow> u64 \<times> u64 \<times> u64 \<times> u64 \<times> u64" where
  "op_lru_stats lru = (lru_hits lru, lru_misses lru, lru_evictions lru, lru_insertions lru, lru_updates lru)"

definition op_lru_stats_reset :: "'k op_lru \<Rightarrow> 'k op_lru" where
  "op_lru_stats_reset lru =
     lru\<lparr>lru_hits := 0, lru_misses := 0, lru_evictions := 0, lru_insertions := 0, lru_updates := 0\<rparr>"

text \<open>The callback answers whether to continue (a zero result) and may change the user state.\<close>

partial_function (option) lru_foreach_loop ::
  "('k, 'v) lru_mem \<Rightarrow> ('k ptr \<times> 'v ptr \<Rightarrow> 's \<Rightarrow> bool \<times> 's) \<Rightarrow> addr ptr \<Rightarrow> 's \<Rightarrow> 's option" where
  "lru_foreach_loop m cb e ud =
     (case e of
        None \<Rightarrow> Some ud
      | Some a \<Rightarrow> do {
          x \<leftarrow> m a;
          (case cb (le_key x, le_val x) ud of (cont, ud) \<Rightarrow>
             if cont then lru_foreach_loop m cb (le_next x) ud else Some ud)
        })"

definition op_lru_foreach ::
  "('k, 'v) lru_mem \<Rightarrow> 'k op_lru \<Rightarrow> ('k ptr \<times> 'v ptr \<Rightarrow> 's \<Rightarrow> bool \<times> 's) \<Rightarrow> 's \<Rightarrow> 's option" where
  "op_lru_foreach m lru cb ud = lru_foreach_loop m cb (lru_head lru) ud"

section \<open>Lists in memory\<close>

fun first_ptr :: "addr list \<Rightarrow> addr ptr \<Rightarrow> addr ptr" where
  "first_ptr [] r = r"
| "first_ptr (a # as) r = Some a"

definition last_ptr :: "addr list \<Rightarrow> addr ptr \<Rightarrow> addr ptr" where
  "last_ptr as q = (if as = [] then q else Some (last as))"

text \<open>\<open>chain m q as r\<close>: the entries \<open>as\<close> are linked in order, between the neighbours \<open>q\<close> and \<open>r\<close>.\<close>

fun chain :: "('k, 'v) lru_mem \<Rightarrow> addr ptr \<Rightarrow> addr list \<Rightarrow> addr ptr \<Rightarrow> bool" where
  "chain m q [] r = True"
| "chain m q (a # as) r = (\<exists>x. m a = Some x \<and> le_prev x = q \<and> le_next x = first_ptr as r \<and> chain m (Some a) as r)"

lemma last_ptr_simps [simp]: "last_ptr [] q = q" "last_ptr (as @ [a]) q = Some a" "last_ptr (a # as) q = last_ptr as (Some a)"
  by (auto simp: last_ptr_def)

lemma first_ptr_append [simp]: "first_ptr (as @ bs) r = first_ptr as (first_ptr bs r)"
  by (cases as) auto

lemma last_ptr_append [simp]: "last_ptr (as @ bs) q = last_ptr bs (last_ptr as q)"
  by (auto simp: last_ptr_def)

lemma chain_append [simp]:
  "chain m q (as @ bs) r \<longleftrightarrow> chain m q as (first_ptr bs r) \<and> chain m (last_ptr as q) bs r"
  by (induction as arbitrary: q) auto

lemma chain_cong: "\<forall>a\<in>set as. m' a = m a \<Longrightarrow> chain m' q as r \<longleftrightarrow> chain m q as r"
  by (induction as arbitrary: q) auto

lemma chain_update [simp]: "a \<notin> set as \<Longrightarrow> chain (m(a := x)) q as r \<longleftrightarrow> chain m q as r"
  by (rule chain_cong) auto

lemma chain_mem: "chain m q as r \<Longrightarrow> a \<in> set as \<Longrightarrow> a \<in> dom m"
  by (induction as arbitrary: q) auto

text \<open>\<open>lru_list m l as\<close>: the list of \<open>l\<close> in \<open>m\<close> holds the entries \<open>as\<close>, most recent first.\<close>

definition lru_list :: "('k, 'v) lru_mem \<Rightarrow> 'k op_lru \<Rightarrow> addr list \<Rightarrow> bool" where
  "lru_list m l as \<longleftrightarrow> chain m NULL as NULL \<and> distinct as \<and> lru_head l = first_ptr as NULL
     \<and> lru_tail l = last_ptr as NULL"

text \<open>The fields of the cache other than the ends of its list.\<close>

definition lru_rest :: "'k op_lru \<Rightarrow> 'k op_lru" where
  "lru_rest l = l\<lparr>lru_head := NULL, lru_tail := NULL\<rparr>"

lemma lru_restD:
  assumes "lru_rest l' = lru_rest l"
  shows "lru_ht l' = lru_ht l" "lru_ht_addr l' = lru_ht_addr l" "lru_size l' = lru_size l"
    "lru_capacity l' = lru_capacity l" "lru_evict_cb l' = lru_evict_cb l"
  using assms by (cases l, cases l', simp add: lru_rest_def)+

text \<open>What an entry caches, apart from its links.\<close>

definition kv :: "('k, 'v) lru_mem \<Rightarrow> addr \<Rightarrow> ('k ptr \<times> 'v ptr) option" where
  "kv m a = map_option (\<lambda>x. (le_key x, le_val x)) (m a)"

lemma kv_update [simp]: "kv (m(a \<mapsto> x)) = (kv m)(a \<mapsto> (le_key x, le_val x))" "kv (m(a := None)) = (kv m)(a := None)"
  by (auto simp: kv_def fun_eq_iff)

lemma kv_Some: "m a = Some x \<Longrightarrow> kv m a = Some (le_key x, le_val x)"
  by (simp add: kv_def)

lemma list_push_head_spec:
  assumes l: "lru_list m l as" and a: "a \<notin> set as" "m a = Some x"
  shows "\<exists>m' l'. list_push_head m l a = Some (m', l') \<and> lru_list m' l' (a # as) \<and> kv m' = kv m
    \<and> (\<forall>b. b \<notin> set (a # as) \<longrightarrow> m' b = m b) \<and> lru_rest l' = lru_rest l"
proof (cases as)
  case Nil
  then show ?thesis using l a kv_Some [of m a x]
    by (auto simp: list_push_head_def lru_list_def lru_rest_def fun_upd_idem)
next
  case (Cons h hs)
  then obtain y where y: "m h = Some y" "le_prev y = NULL" "le_next y = first_ptr hs NULL" "chain m (Some h) hs NULL"
    using l by (auto simp: lru_list_def)
  then show ?thesis using l a kv_Some [of m a x] kv_Some [of m h y] Cons
    by (auto simp: list_push_head_def lru_list_def lru_rest_def fun_upd_idem)
qed

lemma list_unlink_spec:
  assumes l: "lru_list m l (xs @ a # ys)"
  shows "\<exists>m' l'. list_unlink m l a = Some (m', l') \<and> lru_list m' l' (xs @ ys) \<and> kv m' = kv m
    \<and> (\<forall>b. b \<notin> set (xs @ a # ys) \<longrightarrow> m' b = m b) \<and> a \<in> dom m'
    \<and> lru_rest l' = lru_rest l"
proof -
  obtain x where x: "m a = Some x" "le_prev x = last_ptr xs NULL" "le_next x = first_ptr ys NULL"
    and c: "chain m NULL xs (Some a)" "chain m (Some a) ys NULL"
    and d: "distinct xs" "distinct ys" "a \<notin> set xs" "a \<notin> set ys" "set xs \<inter> set ys = {}"
    and ht: "lru_head l = first_ptr xs (Some a)" "lru_tail l = last_ptr ys (Some a)"
    using l by (auto simp: lru_list_def)
  note kx = kv_Some [of m a x, OF x(1)]
  consider (nn) "xs = []" "ys = []" | (ny) n ns where "xs = []" "ys = n # ns"
    | (yn) ps p where "xs = ps @ [p]" "ys = []" | (yy) ps p n ns where "xs = ps @ [p]" "ys = n # ns"
    by (metis list.exhaust rev_exhaust)
  then show ?thesis
  proof cases
    case nn
    then show ?thesis using x kx d ht by (auto simp: list_unlink_def lru_list_def lru_rest_def fun_upd_idem)
  next
    case ny
    then obtain y where "m n = Some y" "le_prev y = Some a" "le_next y = first_ptr ns NULL" "chain m (Some n) ns NULL"
      using c by auto
    then show ?thesis using ny x kx d ht kv_Some [of m n y] by (auto simp: list_unlink_def lru_list_def lru_rest_def fun_upd_idem)
  next
    case yn
    then obtain z where "m p = Some z" "le_prev z = last_ptr ps NULL" "le_next z = Some a" "chain m NULL ps (Some p)"
      using c by auto
    then show ?thesis using yn x kx d ht kv_Some [of m p z] by (auto simp: list_unlink_def lru_list_def lru_rest_def fun_upd_idem)
  next
    case yy
    then obtain y z where "m n = Some y" "le_prev y = Some a" "le_next y = first_ptr ns NULL" "chain m (Some n) ns NULL"
      "m p = Some z" "le_prev z = last_ptr ps NULL" "le_next z = Some a" "chain m NULL ps (Some p)"
      using c by auto
    then show ?thesis using yy x kx d ht kv_Some [of m n y] kv_Some [of m p z]
      by (auto simp: list_unlink_def lru_list_def lru_rest_def fun_upd_idem)
  qed
qed

lemma list_promote_spec:
  assumes l: "lru_list m l (xs @ a # ys)"
  shows "\<exists>m' l'. list_promote m l a = Some (m', l') \<and> lru_list m' l' (a # xs @ ys) \<and> kv m' = kv m
    \<and> (\<forall>b. b \<notin> set (xs @ a # ys) \<longrightarrow> m' b = m b) \<and> lru_rest l' = lru_rest l"
proof (cases "lru_head l = Some a")
  case True
  then have "xs = []" using l by (cases xs) (auto simp: lru_list_def)
  then show ?thesis using True l by (simp add: list_promote_def)
next
  case False
  obtain m1 l1 where u: "list_unlink m l a = Some (m1, l1)" "lru_list m1 l1 (xs @ ys)" "kv m1 = kv m"
    "\<forall>b. b \<notin> set (xs @ a # ys) \<longrightarrow> m1 b = m b" "a \<in> dom m1" "lru_rest l1 = lru_rest l"
    using list_unlink_spec [OF l] by blast
  have "a \<notin> set (xs @ ys)" using l by (auto simp: lru_list_def)
  then obtain m2 l2 where p: "list_push_head m1 l1 a = Some (m2, l2)" "lru_list m2 l2 (a # xs @ ys)" "kv m2 = kv m1"
    "\<forall>b. b \<notin> set (a # xs @ ys) \<longrightarrow> m2 b = m1 b" "lru_rest l2 = lru_rest l1"
    using list_push_head_spec [OF u(2)] u(5) by blast
  have "list_promote m l a = Some (m2, l2)" using False u(1) p(1) by (simp add: list_promote_def)
  then show ?thesis using u(3,4,6) p(2-5) by auto
qed

section \<open>The cache as a list\<close>

definition key_of :: "('k, 'v) lru_mem \<Rightarrow> addr \<Rightarrow> 'k ptr" where
  "key_of m a = fst (the (kv m a))"

definition lru_view :: "('k, 'v) lru_mem \<Rightarrow> addr list \<Rightarrow> ('k ptr \<times> 'v ptr) list" where
  "lru_view m as = map (\<lambda>a. the (kv m a)) as"

definition lru_table ::
  "('k ptr \<Rightarrow> 'k ptr \<Rightarrow> bool) \<Rightarrow> ('k, 'v) lru_mem \<Rightarrow> ('k, addr) op_htab \<Rightarrow> addr list \<Rightarrow> bool" where
  "lru_table eq m ht as \<longleftrightarrow>
     (\<forall>k v. htab_map ht k = Some v \<longleftrightarrow> (\<exists>a\<in>set as. v = Some a \<and> eq (key_of m a) k))"

text \<open>
  The invariant: the list holds the entries \<open>as\<close>, which the table indexes by key; the count is
  their number, within the capacity; and outside of them the memory is \<open>m0\<close>.
\<close>

definition lru_ok ::
  "('k ptr \<Rightarrow> u64) \<Rightarrow> ('k ptr \<Rightarrow> 'k ptr \<Rightarrow> bool) \<Rightarrow> ('k, 'v) lru_mem \<Rightarrow> ('k, 'v) lru_mem \<Rightarrow> 'k op_lru
     \<Rightarrow> addr list \<Rightarrow> bool" where
  "lru_ok hash eq m0 m l as \<longleftrightarrow> lru_list m l as \<and> htab_ok hash eq (lru_ht l) \<and> lru_table eq m (lru_ht l) as
     \<and> lru_size l = length as \<and> length as \<le> lru_capacity l \<and> 0 < lru_capacity l
     \<and> (\<forall>b. b \<notin> set as \<longrightarrow> m b = m0 b) \<and> set as \<inter> dom m0 = {} \<and> card (dom m0) + lru_capacity l < W64"

lemma lru_view_simps [simp]:
  "lru_view m [] = []" "lru_view m (a # as) = the (kv m a) # lru_view m as"
  "lru_view m (as @ bs) = lru_view m as @ lru_view m bs" "length (lru_view m as) = length as"
  by (simp_all add: lru_view_def)

lemma lru_view_cong: "\<forall>a\<in>set as. kv m' a = kv m a \<Longrightarrow> lru_view m' as = lru_view m as"
  by (simp add: lru_view_def)

lemma lru_table_cong: "\<forall>a\<in>set as. kv m' a = kv m a \<Longrightarrow> lru_table eq m' ht as = lru_table eq m ht as"
  by (simp add: lru_table_def key_of_def)

lemma lru_table_set: "set as' = set as \<Longrightarrow> lru_table eq m ht as' = lru_table eq m ht as"
  by (simp add: lru_table_def)

context htab_keys
begin

lemma table_unique:
  assumes "lru_table eq_fn m ht as" "a \<in> set as" "b \<in> set as" "eq_fn (key_of m a) k" "eq_fn (key_of m b) k"
  shows "a = b"
proof -
  have "htab_map ht k = Some (Some a)" "htab_map ht k = Some (Some b)" using assms unfolding lru_table_def by blast+
  then show ?thesis by simp
qed

lemma table_hit:
  assumes "lru_table eq_fn m ht as" "htab_map ht k = Some v"
  obtains a where "v = Some a" "a \<in> set as" "eq_fn (key_of m a) k"
  using assms unfolding lru_table_def by blast

lemma view_hit:
  assumes t: "lru_table eq_fn m ht (xs @ a # ys)" and d: "distinct (xs @ a # ys)" and k: "eq_fn (key_of m a) k"
  shows "List.find (\<lambda>e. eq_fn (fst e) k) (lru_view m (xs @ a # ys)) = Some (the (kv m a))"
    and "filter (\<lambda>e. \<not> eq_fn (fst e) k) (lru_view m (xs @ a # ys)) = lru_view m (xs @ ys)"
proof -
  have n: "\<not> eq_fn (fst (the (kv m b))) k" if "b \<in> set xs \<union> set ys" for b
    using table_unique [OF t, of a b k] that d k by (auto simp: key_of_def)
  have "\<forall>e\<in>set (lru_view m xs). \<not> eq_fn (fst e) k" using n by (auto simp: lru_view_def)
  then have x: "List.find (\<lambda>e. eq_fn (fst e) k) (lru_view m xs) = None" "filter (\<lambda>e. \<not> eq_fn (fst e) k) (lru_view m xs) = lru_view m xs"
    by (auto simp: find_None_iff)
  have y: "filter (\<lambda>e. \<not> eq_fn (fst e) k) (lru_view m ys) = lru_view m ys" using n by (auto simp: lru_view_def)
  show "List.find (\<lambda>e. eq_fn (fst e) k) (lru_view m (xs @ a # ys)) = Some (the (kv m a))"
    using k x(1) by (simp add: find_append key_of_def)
  show "filter (\<lambda>e. \<not> eq_fn (fst e) k) (lru_view m (xs @ a # ys)) = lru_view m (xs @ ys)"
    using k x(2) y by (simp add: key_of_def)
qed

lemma view_miss:
  assumes "lru_table eq_fn m ht as" "htab_map ht k = None"
  shows "List.find (\<lambda>e. eq_fn (fst e) k) (lru_view m as) = None"
proof -
  have "\<not> eq_fn (fst (the (kv m a))) k" if "a \<in> set as" for a
  proof
    assume "eq_fn (fst (the (kv m a))) k"
    then have "htab_map ht k = Some (Some a)" using assms(1) that unfolding lru_table_def key_of_def by blast
    then show False using assms(2) by simp
  qed
  then show ?thesis by (auto simp: find_None_iff lru_view_def)
qed

lemma table_remove:
  assumes t: "lru_table eq_fn m ht (xs @ a # ys)" and d: "distinct (xs @ a # ys)" and k: "eq_fn (key_of m a) key"
    and h: "htab_map ht' = (\<lambda>k. if eq_fn key k then None else htab_map ht k)"
  shows "lru_table eq_fn m ht' (xs @ ys)"
proof -
  have "htab_map ht' k = Some v \<longleftrightarrow> (\<exists>b\<in>set (xs @ ys). v = Some b \<and> eq_fn (key_of m b) k)" for k v
  proof (cases "eq_fn key k")
    case True
    then have "eq_fn (key_of m a) k" using k eq_trans by blast
    then have "\<not> eq_fn (key_of m b) k" if "b \<in> set (xs @ ys)" for b
      using table_unique [OF t, of a b k] that d by auto
    then show ?thesis using True h by auto
  next
    case False
    then have "\<not> eq_fn (key_of m a) k" using k eq_sym eq_trans by blast
    then show ?thesis using False h t unfolding lru_table_def by auto
  qed
  then show ?thesis unfolding lru_table_def by blast
qed

lemma table_insert:
  assumes t: "lru_table eq_fn m ht as" and n: "htab_map ht key = None"
    and h: "htab_map ht' = (\<lambda>k. if eq_fn key k then Some (Some a) else htab_map ht k)"
    and m: "key_of m' a = key" "\<forall>b\<in>set as. kv m' b = kv m b"
  shows "lru_table eq_fn m' ht' (a # as)"
proof -
  have t': "lru_table eq_fn m' ht as" using t lru_table_cong [OF m(2)] by blast
  have no: "\<not> eq_fn (key_of m' b) key" if "b \<in> set as" for b
    using t' n that unfolding lru_table_def by (metis option.distinct(1))
  have "htab_map ht' k = Some v \<longleftrightarrow> (\<exists>b\<in>set (a # as). v = Some b \<and> eq_fn (key_of m' b) k)" for k v
  proof (cases "eq_fn key k")
    case True
    then have "\<not> eq_fn (key_of m' b) k" if "b \<in> set as" for b using no that eq_sym eq_trans by blast
    then show ?thesis using True h m(1) by auto
  next
    case False
    then show ?thesis using h m(1) t' unfolding lru_table_def by auto
  qed
  then show ?thesis unfolding lru_table_def by blast
qed

lemma table_rekey:
  assumes t: "lru_table eq_fn m ht as" and e: "eq_fn (key_of m a) key" "key_of m' a = key"
    and m: "\<forall>b\<in>set as - {a}. kv m' b = kv m b"
  shows "lru_table eq_fn m' ht as"
proof -
  have "eq_fn (key_of m' b) k = eq_fn (key_of m b) k" if "b \<in> set as" for b k
    using that m e eq_iff by (cases "b = a") (auto simp: key_of_def)
  then show ?thesis using t unfolding lru_table_def by auto
qed

lemma lru_okD:
  assumes "lru_ok hash_fn eq_fn m0 m l as"
  shows "lru_list m l as" "htab_ok hash_fn eq_fn (lru_ht l)" "lru_table eq_fn m (lru_ht l) as" "lru_size l = length as"
    "length as \<le> lru_capacity l" "0 < lru_capacity l" "\<forall>b. b \<notin> set as \<longrightarrow> m b = m0 b" "set as \<inter> dom m0 = {}"
    "card (dom m0) + lru_capacity l < W64" "distinct as"
  using assms by (simp_all add: lru_ok_def lru_list_def)

lemma lru_ok_relink:
  assumes ok: "lru_ok hash_fn eq_fn m0 m l as" and l: "lru_list m' l' as'" and s: "set as' = set as"
    and "\<forall>a\<in>set as. kv m' a = kv m a" "\<forall>b. b \<notin> set as \<longrightarrow> m' b = m b" "lru_rest l' = lru_rest l"
  shows "lru_ok hash_fn eq_fn m0 m' l' as'"
proof -
  have "length as' = length as" using l s lru_okD(10) [OF ok] by (metis distinct_card lru_list_def)
  moreover have "lru_table eq_fn m' (lru_ht l) as'"
    using lru_okD(3) [OF ok] lru_table_cong [OF assms(4)] lru_table_set [OF s] by blast
  ultimately show ?thesis using lru_okD [OF ok] l s assms(4-5) lru_restD [OF assms(6)] by (simp add: lru_ok_def)
qed

lemma lru_promote_ok:
  assumes "lru_ok hash_fn eq_fn m0 m l (xs @ a # ys)"
  shows "\<exists>m' l'. list_promote m l a = Some (m', l') \<and> lru_ok hash_fn eq_fn m0 m' l' (a # xs @ ys) \<and> kv m' = kv m
    \<and> lru_rest l' = lru_rest l"
proof -
  obtain m' l' where p: "list_promote m l a = Some (m', l')" "lru_list m' l' (a # xs @ ys)" "kv m' = kv m"
    "\<forall>b. b \<notin> set (xs @ a # ys) \<longrightarrow> m' b = m b" "lru_rest l' = lru_rest l"
    using list_promote_spec [OF lru_okD(1) [OF assms]] by blast
  moreover have "lru_ok hash_fn eq_fn m0 m' l' (a # xs @ ys)"
    using p(3-5) by (intro lru_ok_relink [OF assms p(2)]) auto
  ultimately show ?thesis by blast
qed

text \<open>Unlinking an entry whose key has just been deleted from the table, and freeing it.\<close>

lemma lru_drop_ok:
  assumes ok: "lru_ok hash_fn eq_fn m0 m l (xs @ a # ys)" and k: "eq_fn (key_of m a) key"
    and u: "list_unlink m l1 a = Some (m1, l2)" "lru_list m1 l2 (xs @ ys)" "kv m1 = kv m"
      "\<forall>b. b \<notin> set (xs @ a # ys) \<longrightarrow> m1 b = m b" "a \<in> dom m1" "lru_rest l2 = lru_rest l1"
    and h: "htab_ok hash_fn eq_fn ht" "htab_map ht = (\<lambda>k. if eq_fn key k then None else htab_map (lru_ht l) k)"
    and l': "lru_list m1 l' (xs @ ys)" "lru_ht l' = ht" "lru_size l' = sub64 (lru_size l) 1" "lru_capacity l' = lru_capacity l"
  shows "entry_free m1 a = Some (m1(a := None)) \<and> lru_ok hash_fn eq_fn m0 (m1(a := None)) l' (xs @ ys)
    \<and> (\<forall>b\<in>set (xs @ ys). kv (m1(a := None)) b = kv m b)"
proof -
  note o = lru_okD [OF ok]
  have d: "a \<notin> set (xs @ ys)" using o(10) by auto
  have m0a: "m0 a = None" using o(8) by auto
  have kv: "\<forall>b\<in>set (xs @ ys). kv (m1(a := None)) b = kv m b" using d u(3) by auto
  have "lru_table eq_fn (m1(a := None)) ht (xs @ ys)"
    using table_remove [OF o(3) o(10) k h(2)] lru_table_cong [OF kv] by blast
  moreover have "lru_list (m1(a := None)) l' (xs @ ys)" using l'(1) d by (auto simp: lru_list_def simp del: chain_append)
  moreover have "lru_size l' = length (xs @ ys)" using l'(3) o(4,5,9) by (simp add: sub64_le)
  ultimately have "lru_ok hash_fn eq_fn m0 (m1(a := None)) l' (xs @ ys)"
    using o h(1) l'(2,4) u(4) m0a by (auto simp: lru_ok_def)
  then show ?thesis using kv u(5) by (auto simp: entry_free_def)
qed

lemma evict_tail_spec:
  assumes ok: "lru_ok hash_fn eq_fn m0 m l (xs @ [a])" and room: "htab_room n (lru_ht l)"
  shows "\<exists>m' l'. lru_evict_tail m l = Some (call_evict (lru_evict_cb l) (fst (the (kv m a))) (snd (the (kv m a))), m', l')
    \<and> lru_ok hash_fn eq_fn m0 m' l' xs \<and> (\<forall>b\<in>set xs. kv m' b = kv m b) \<and> htab_room n (lru_ht l')
    \<and> lru_capacity l' = lru_capacity l \<and> lru_evict_cb l' = lru_evict_cb l \<and> lru_ht_addr l' = lru_ht_addr l"
proof -
  note o = lru_okD [OF ok]
  have ok': "lru_ok hash_fn eq_fn m0 m l (xs @ a # [])" using ok by simp
  obtain m1 l1 where u: "list_unlink m l a = Some (m1, l1)" "lru_list m1 l1 (xs @ [])" "kv m1 = kv m"
    "\<forall>b. b \<notin> set (xs @ a # []) \<longrightarrow> m1 b = m b" "a \<in> dom m1" "lru_rest l1 = lru_rest l"
    using list_unlink_spec [of m l xs a "[]"] o(1) by auto
  note r = lru_restD [OF u(6)]
  obtain x where x: "m1 a = Some x" using u(5) by auto
  then have kx: "the (kv m a) = (le_key x, le_val x)" using u(3) kv_Some by (metis option.sel)
  then have ka: "key_of m a = le_key x" by (simp add: key_of_def)
  obtain v ht where h: "op_htab_del (lru_ht l) (le_key x) = Some (v, ht)" "htab_ok hash_fn eq_fn ht"
    "htab_map ht = (\<lambda>k. if eq_fn (le_key x) k then None else htab_map (lru_ht l) k)" "htab_room n ht"
    using del_spec [OF o(2)] room by blast
  let ?l = "l1\<lparr>lru_ht := ht, lru_size := sub64 (lru_size l1) 1, lru_evictions := lru_evictions l1 + 1\<rparr>"
  have "lru_list m1 ?l (xs @ [])" using u(2) by (simp add: lru_list_def)
  then have f: "entry_free m1 a = Some (m1(a := None)) \<and> lru_ok hash_fn eq_fn m0 (m1(a := None)) ?l (xs @ [])
    \<and> (\<forall>b\<in>set (xs @ []). kv (m1(a := None)) b = kv m b)"
    using r eq_refl by (intro lru_drop_ok [OF ok' _ u h(2,3)]) (simp_all add: ka)
  have "lru_tail l = Some a" using o(1) by (simp add: lru_list_def)
  then have "lru_evict_tail m l = Some (call_evict (lru_evict_cb l) (le_key x) (le_val x), m1(a := None), ?l)"
    using u(1) x h(1) f r by (simp add: lru_evict_tail_def)
  then show ?thesis using f h(4) r kx by auto
qed

lemma flush_spec:
  "lru_ok hash_fn eq_fn m0 m l as \<Longrightarrow> htab_room n (lru_ht l) \<Longrightarrow>
   \<exists>m' l'. op_lru_flush m l = Some (if lru_evict_cb l then rev (lru_view m as) else [], m', l')
     \<and> lru_ok hash_fn eq_fn m0 m' l' [] \<and> htab_room n (lru_ht l') \<and> lru_capacity l' = lru_capacity l
     \<and> lru_evict_cb l' = lru_evict_cb l \<and> lru_ht_addr l' = lru_ht_addr l"
proof (induction as arbitrary: m l rule: rev_induct)
  case Nil
  then have "lru_tail l = NULL" by (simp add: lru_ok_def lru_list_def)
  then show ?case using Nil by (simp add: op_lru_flush.simps [of m l])
next
  case (snoc a as)
  obtain m1 l1 where e: "lru_evict_tail m l = Some (call_evict (lru_evict_cb l) (fst (the (kv m a))) (snd (the (kv m a))), m1, l1)"
    "lru_ok hash_fn eq_fn m0 m1 l1 as" "\<forall>b\<in>set as. kv m1 b = kv m b" "htab_room n (lru_ht l1)"
    "lru_capacity l1 = lru_capacity l" "lru_evict_cb l1 = lru_evict_cb l" "lru_ht_addr l1 = lru_ht_addr l"
    using evict_tail_spec [OF snoc.prems] by blast
  obtain m2 l2 where f: "op_lru_flush m1 l1 = Some (if lru_evict_cb l then rev (lru_view m as) else [], m2, l2)"
    "lru_ok hash_fn eq_fn m0 m2 l2 []" "htab_room n (lru_ht l2)" "lru_capacity l2 = lru_capacity l"
    "lru_evict_cb l2 = lru_evict_cb l" "lru_ht_addr l2 = lru_ht_addr l"
    using snoc.IH [OF e(2,4)] e(5-7) lru_view_cong [OF e(3)] by auto
  have tail: "lru_tail l = Some a" using lru_okD(1) [OF snoc.prems(1)] by (simp add: lru_list_def)
  have "op_lru_flush m l = Some (if lru_evict_cb l then rev (lru_view m (as @ [a])) else [], m2, l2)"
    using e(1) f(1) tail by (subst op_lru_flush.simps) (simp add: call_evict_def)
  then show ?case using f by blast
qed

lemma lru_get_spec:
  assumes ok: "lru_ok hash_fn eq_fn m0 m l as"
  shows "\<exists>m' l' as'. op_lru_get m l key =
      Some (case List.find (\<lambda>e. eq_fn (fst e) key) (lru_view m as) of None \<Rightarrow> NULL | Some e \<Rightarrow> snd e, m', l')
    \<and> lru_ok hash_fn eq_fn m0 m' l' as'
    \<and> lru_view m' as' = (case List.find (\<lambda>e. eq_fn (fst e) key) (lru_view m as) of None \<Rightarrow> lru_view m as
        | Some e \<Rightarrow> e # filter (\<lambda>e. \<not> eq_fn (fst e) key) (lru_view m as))
    \<and> lru_ht l' = lru_ht l \<and> lru_capacity l' = lru_capacity l \<and> lru_evict_cb l' = lru_evict_cb l \<and> lru_ht_addr l' = lru_ht_addr l"
proof (cases "htab_map (lru_ht l) key")
  case None
  note o = lru_okD [OF ok]
  have "op_lru_get m l key = Some (NULL, m, l\<lparr>lru_misses := lru_misses l + 1\<rparr>)"
    using None get_spec(1) [OF o(2)] by (simp add: op_lru_get_def)
  moreover have "lru_ok hash_fn eq_fn m0 m (l\<lparr>lru_misses := lru_misses l + 1\<rparr>) as"
    using ok by (simp add: lru_ok_def lru_list_def)
  ultimately show ?thesis using view_miss [OF o(3) None] by auto
next
  case (Some v)
  note o = lru_okD [OF ok]
  obtain a where a: "v = Some a" "a \<in> set as" "eq_fn (key_of m a) key" using table_hit [OF o(3) Some] by blast
  obtain xs ys where as: "as = xs @ a # ys" using a(2) by (auto simp: in_set_conv_decomp)
  let ?l = "l\<lparr>lru_hits := lru_hits l + 1\<rparr>"
  have "lru_ok hash_fn eq_fn m0 m ?l (xs @ a # ys)" using ok as by (simp add: lru_ok_def lru_list_def)
  then obtain m' l' where p: "list_promote m ?l a = Some (m', l')" "lru_ok hash_fn eq_fn m0 m' l' (a # xs @ ys)" "kv m' = kv m"
    "lru_rest l' = lru_rest ?l"
    using lru_promote_ok by blast
  have "a \<in> dom m'" using chain_mem [of m' NULL "a # xs @ ys" NULL a] lru_okD(1) [OF p(2)] by (simp add: lru_list_def)
  then obtain x where x: "m' a = Some x" by auto
  then have kx: "the (kv m a) = (le_key x, le_val x)" using p(3) kv_Some by (metis option.sel)
  have "op_lru_get m l key = Some (le_val x, m', l')"
    using Some a(1) get_spec(1) [OF o(2)] p(1) x by (simp add: op_lru_get_def)
  moreover have "lru_view m' (a # xs @ ys) = the (kv m a) # lru_view m (xs @ ys)" using p(3) by (simp add: lru_view_def)
  ultimately show ?thesis using p(2) lru_restD [OF p(4)] view_hit [OF o(3) [unfolded as] _ a(3)] o(10) as kx
    by (intro exI [of _ m'] exI [of _ l'] exI [of _ "a # xs @ ys"]) simp
qed

lemma lru_delete_spec:
  assumes ok: "lru_ok hash_fn eq_fn m0 m l as" and room: "htab_room n (lru_ht l)"
  shows "\<exists>m' l' as'. op_lru_delete m l key =
      Some (case List.find (\<lambda>e. eq_fn (fst e) key) (lru_view m as) of None \<Rightarrow> (False, [], m', l')
        | Some e \<Rightarrow> (True, call_evict (lru_evict_cb l) (fst e) (snd e), m', l'))
    \<and> lru_ok hash_fn eq_fn m0 m' l' as' \<and> lru_view m' as' = (if List.find (\<lambda>e. eq_fn (fst e) key) (lru_view m as) = None
        then lru_view m as else filter (\<lambda>e. \<not> eq_fn (fst e) key) (lru_view m as))
    \<and> htab_room n (lru_ht l') \<and> lru_capacity l' = lru_capacity l \<and> lru_evict_cb l' = lru_evict_cb l \<and> lru_ht_addr l' = lru_ht_addr l"
proof -
  note o = lru_okD [OF ok]
  obtain ht where h: "op_htab_del (lru_ht l) key = Some (case htab_map (lru_ht l) key of None \<Rightarrow> NULL | Some v \<Rightarrow> v, ht)"
    "htab_ok hash_fn eq_fn ht" "htab_map ht = (\<lambda>k. if eq_fn key k then None else htab_map (lru_ht l) k)" "htab_room n ht"
    using del_spec [OF o(2), of key] room by blast
  let ?l = "l\<lparr>lru_ht := ht\<rparr>"
  show ?thesis
  proof (cases "htab_map (lru_ht l) key")
    case None
    have "htab_map (lru_ht l) k = None" if "eq_fn key k" for k
    proof (rule ccontr)
      assume "htab_map (lru_ht l) k \<noteq> None"
      then obtain v where "htab_map (lru_ht l) k = Some v" by auto
      then obtain a where "a \<in> set as" "eq_fn (key_of m a) k" using table_hit [OF o(3)] by metis
      then have "htab_map (lru_ht l) key = Some (Some a)"
        using o(3) that eq_sym eq_trans unfolding lru_table_def by blast
      then show False using None by simp
    qed
    then have "htab_map ht = htab_map (lru_ht l)" using h(3) by auto
    then have "lru_ok hash_fn eq_fn m0 m ?l as" using ok h(2) by (simp add: lru_ok_def lru_list_def lru_table_def)
    moreover have "op_lru_delete m l key = Some (False, [], m, ?l)" using h(1) None by (simp add: op_lru_delete_def Let_def)
    ultimately show ?thesis using view_miss [OF o(3) None] h(4) by auto
  next
    case (Some v)
    obtain a where a: "v = Some a" "a \<in> set as" "eq_fn (key_of m a) key" using table_hit [OF o(3) Some] by blast
    obtain xs ys where as: "as = xs @ a # ys" using a(2) by (auto simp: in_set_conv_decomp)
    have ok': "lru_ok hash_fn eq_fn m0 m l (xs @ a # ys)" using ok as by simp
    have "lru_list m ?l (xs @ a # ys)" using o(1) as by (simp add: lru_list_def)
    then obtain m1 l1 where u: "list_unlink m ?l a = Some (m1, l1)" "lru_list m1 l1 (xs @ ys)" "kv m1 = kv m"
      "\<forall>b. b \<notin> set (xs @ a # ys) \<longrightarrow> m1 b = m b" "a \<in> dom m1" "lru_rest l1 = lru_rest ?l"
      using list_unlink_spec by blast
    note r = lru_restD [OF u(6)]
    obtain x where x: "m1 a = Some x" using u(5) by auto
    then have kx: "the (kv m a) = (le_key x, le_val x)" using u(3) kv_Some by (metis option.sel)
    let ?l' = "l1\<lparr>lru_size := sub64 (lru_size l1) 1\<rparr>"
    have "lru_list m1 ?l' (xs @ ys)" using u(2) by (simp add: lru_list_def)
    then have f: "entry_free m1 a = Some (m1(a := None)) \<and> lru_ok hash_fn eq_fn m0 (m1(a := None)) ?l' (xs @ ys)
      \<and> (\<forall>b\<in>set (xs @ ys). kv (m1(a := None)) b = kv m b)"
      using r by (intro lru_drop_ok [OF ok' a(3) u h(2,3)]) simp_all
    have "op_lru_delete m l key = Some (True, call_evict (lru_evict_cb l) (le_key x) (le_val x), m1(a := None), ?l')"
      using h(1) Some a(1) u(1) x f r by (simp add: op_lru_delete_def Let_def)
    moreover have "lru_view (m1(a := None)) (xs @ ys) = lru_view m (xs @ ys)" using f by (intro lru_view_cong) blast
    ultimately show ?thesis using f h(4) r view_hit [OF o(3) [unfolded as] _ a(3)] o(10) as kx
      by (intro exI [of _ "m1(a := None)"] exI [of _ ?l'] exI [of _ "xs @ ys"]) simp
  qed
qed

lemma lru_insert_spec:
  assumes ok: "lru_ok hash_fn eq_fn m0 m l as" and n: "htab_map (lru_ht l) key = None" "length as < lru_capacity l"
    and room: "htab_room (Suc n) (lru_ht l)" and al: "\<And>A. A \<noteq> UNIV \<Longrightarrow> alloc A \<notin> A"
  shows "\<exists>m' l' ht rc old. op_htab_set (lru_ht l) key (Some (alloc (dom m))) = Some (rc, old, ht)
    \<and> list_push_head (m(alloc (dom m) \<mapsto> \<lparr>le_key = key, le_val = val, le_prev = NULL, le_next = NULL\<rparr>)) (l\<lparr>lru_ht := ht\<rparr>) (alloc (dom m)) = Some (m', l')
    \<and> lru_ok hash_fn eq_fn m0 m' (l'\<lparr>lru_size := wrap64 (lru_size l' + 1), lru_insertions := lru_insertions l' + 1\<rparr>) (alloc (dom m) # as)
    \<and> lru_view m' (alloc (dom m) # as) = (key, val) # lru_view m as
    \<and> htab_room n (lru_ht l') \<and> lru_capacity l' = lru_capacity l \<and> lru_evict_cb l' = lru_evict_cb l \<and> lru_ht_addr l' = lru_ht_addr l"
proof -
  note o = lru_okD [OF ok]
  let ?a = "alloc (dom m)"
  have "dom m \<subseteq> dom m0 \<union> set as" using o(7) by (auto simp: domIff)
  then have "card (dom m) \<le> card (dom m0) + card (set as)"
    by (metis card_Un_le card_mono finite_class.finite_code order_trans)
  then have "card (dom m) < CARD(addr)" using o(5,9) n(2) card_length [of as] by (simp add: card_word W64_def)
  then have "dom m \<noteq> UNIV" by auto
  then have fresh: "m ?a = None" using al by (metis domIff)
  have new: "?a \<notin> set as" using fresh chain_mem [of m NULL as NULL] o(1) by (auto simp: lru_list_def)
  let ?x = "\<lparr>le_key = key, le_val = val, le_prev = NULL, le_next = NULL\<rparr>"
  let ?m = "m(?a \<mapsto> ?x)"
  have small: "ht_mask (lru_ht l) < 2 ^ 58" using room by (simp add: htab_room_def)
  obtain ht rc old where h: "op_htab_set (lru_ht l) key (Some ?a) = Some (rc, old, ht)" "htab_ok hash_fn eq_fn ht"
    "htab_map ht = (\<lambda>k. if eq_fn key k then Some (Some ?a) else htab_map (lru_ht l) k)" "htab_room n ht"
    using set_spec [OF o(2) small, of key "Some ?a"] room by blast
  let ?l = "l\<lparr>lru_ht := ht\<rparr>"
  have "lru_list ?m ?l as" using o(1) new by (simp add: lru_list_def)
  then obtain m' l' where p: "list_push_head ?m ?l ?a = Some (m', l')" "lru_list m' l' (?a # as)" "kv m' = kv ?m"
    "\<forall>b. b \<notin> set (?a # as) \<longrightarrow> m' b = ?m b" "lru_rest l' = lru_rest ?l"
    using list_push_head_spec [of ?m ?l as ?a ?x] new by auto
  note r = lru_restD [OF p(5)]
  have kvs: "\<forall>b\<in>set as. kv m' b = kv m b" using new p(3) by auto
  have t: "lru_table eq_fn m' ht (?a # as)"
    using p(3) by (intro table_insert [OF o(3) n(1) h(3) _ kvs]) (simp add: key_of_def)
  have "m0 ?a = None" using fresh o(7) new by metis
  moreover have "\<forall>b. b \<notin> set (?a # as) \<longrightarrow> m' b = m0 b" using p(4) o(7) by auto
  ultimately have "lru_ok hash_fn eq_fn m0 m' (l'\<lparr>lru_size := wrap64 (lru_size l' + 1), lru_insertions := lru_insertions l' + 1\<rparr>) (?a # as)"
    using o p(2) h(2) t r n(2) by (auto simp: lru_ok_def lru_list_def wrap64_small)
  moreover have "lru_view m' (?a # as) = (key, val) # lru_view m as" using p(3) lru_view_cong [OF kvs] by simp
  moreover have "htab_room n (lru_ht l')" "lru_capacity l' = lru_capacity l" "lru_evict_cb l' = lru_evict_cb l"
    "lru_ht_addr l' = lru_ht_addr l" using h(4) r by simp_all
  ultimately show ?thesis using h(1) p(1) by blast
qed

lemma lru_set_spec:
  assumes ok: "lru_ok hash_fn eq_fn m0 m l as" and room: "htab_room (Suc n) (lru_ht l)"
    and al: "\<And>A. A \<noteq> UNIV \<Longrightarrow> alloc A \<notin> A"
  shows "\<exists>m' l' as'. op_lru_set alloc m l key val =
      Some (case List.find (\<lambda>e. eq_fn (fst e) key) (lru_view m as) of
          Some e \<Rightarrow> call_evict (lru_evict_cb l \<and> snd e \<noteq> val) (fst e) (snd e)
        | None \<Rightarrow> if length as \<ge> lru_capacity l
            then call_evict (lru_evict_cb l) (fst (last (lru_view m as))) (snd (last (lru_view m as))) else [], m', l')
    \<and> lru_ok hash_fn eq_fn m0 m' l' as'
    \<and> lru_view m' as' = (key, val) # (case List.find (\<lambda>e. eq_fn (fst e) key) (lru_view m as) of
          Some e \<Rightarrow> filter (\<lambda>e. \<not> eq_fn (fst e) key) (lru_view m as)
        | None \<Rightarrow> if length as \<ge> lru_capacity l then butlast (lru_view m as) else lru_view m as)
    \<and> htab_room n (lru_ht l') \<and> lru_capacity l' = lru_capacity l \<and> lru_evict_cb l' = lru_evict_cb l \<and> lru_ht_addr l' = lru_ht_addr l"
proof (cases "htab_map (lru_ht l) key")
  case (Some v)
  note o = lru_okD [OF ok]
  obtain a where a: "v = Some a" "a \<in> set as" "eq_fn (key_of m a) key" using table_hit [OF o(3) Some] by blast
  obtain xs ys where as: "as = xs @ a # ys" using a(2) by (auto simp: in_set_conv_decomp)
  have "a \<in> dom m" using chain_mem [of m NULL as NULL a] o(1) a(2) by (simp add: lru_list_def)
  then obtain x where x: "m a = Some x" by auto
  have kx: "the (kv m a) = (le_key x, le_val x)" using kv_Some [of m a x, OF x] by simp
  let ?m = "m(a \<mapsto> x\<lparr>le_key := key, le_val := val\<rparr>)"
  have "chain ?m NULL (xs @ a # ys) NULL" using o(1,10) x unfolding as by (auto simp: lru_list_def)
  then have "lru_list ?m l (xs @ a # ys)" using o(1) unfolding as by (simp add: lru_list_def)
  moreover have "lru_table eq_fn ?m (lru_ht l) as" by (rule table_rekey [OF o(3) a(3)]) (auto simp: key_of_def)
  ultimately have "lru_ok hash_fn eq_fn m0 ?m l (xs @ a # ys)" using o as by (auto simp: lru_ok_def)
  then obtain m' l' where p: "list_promote ?m l a = Some (m', l')" "lru_ok hash_fn eq_fn m0 m' l' (a # xs @ ys)" "kv m' = kv ?m"
    "lru_rest l' = lru_rest l" using lru_promote_ok by blast
  let ?l = "l'\<lparr>lru_updates := lru_updates l' + 1\<rparr>"
  have s: "op_lru_set alloc m l key val = Some (call_evict (lru_evict_cb l \<and> le_val x \<noteq> val) (le_key x) (le_val x), m', ?l)"
    using Some a(1) get_spec(1) [OF o(2)] x p(1) by (simp add: op_lru_set_def Let_def)
  have ok': "lru_ok hash_fn eq_fn m0 m' ?l (a # xs @ ys)" using p(2) by (simp add: lru_ok_def lru_list_def)
  have "lru_view m' (xs @ ys) = lru_view m (xs @ ys)" using p(3) o(10) as by (intro lru_view_cong) auto
  then have v: "lru_view m' (a # xs @ ys) = (key, val) # lru_view m (xs @ ys)" using p(3) by simp
  have "htab_room n (lru_ht l)" using room by (auto simp: htab_room_def)
  then show ?thesis using s ok' v lru_restD [OF p(4)] view_hit [OF o(3) [unfolded as] _ a(3)] o(10) as kx
    by (intro exI [of _ m'] exI [of _ ?l] exI [of _ "a # xs @ ys"]) simp
next
  case None
  note o = lru_okD [OF ok]
  note miss = view_miss [OF o(3) None]
  show ?thesis
  proof (cases "length as \<ge> lru_capacity l")
    case False
    obtain m' l' ht rc old where i: "op_htab_set (lru_ht l) key (Some (alloc (dom m))) = Some (rc, old, ht)"
      "list_push_head (m(alloc (dom m) \<mapsto> \<lparr>le_key = key, le_val = val, le_prev = NULL, le_next = NULL\<rparr>)) (l\<lparr>lru_ht := ht\<rparr>) (alloc (dom m)) = Some (m', l')"
      "lru_ok hash_fn eq_fn m0 m' (l'\<lparr>lru_size := wrap64 (lru_size l' + 1), lru_insertions := lru_insertions l' + 1\<rparr>) (alloc (dom m) # as)"
      "lru_view m' (alloc (dom m) # as) = (key, val) # lru_view m as"
      "htab_room n (lru_ht l')" "lru_capacity l' = lru_capacity l" "lru_evict_cb l' = lru_evict_cb l" "lru_ht_addr l' = lru_ht_addr l"
      using lru_insert_spec [OF ok None _ room al, of val] False by auto
    have "op_lru_set alloc m l key val = Some ([], m', l'\<lparr>lru_size := wrap64 (lru_size l' + 1), lru_insertions := lru_insertions l' + 1\<rparr>)"
      using None False get_spec(1) [OF o(2)] o(4) i(1,2) by (simp add: op_lru_set_def Let_def entry_alloc_def)
    then show ?thesis using i(3-8) False miss
      by (intro exI [of _ m'] exI [of _ "l'\<lparr>lru_size := wrap64 (lru_size l' + 1), lru_insertions := lru_insertions l' + 1\<rparr>"]
          exI [of _ "alloc (dom m) # as"]) simp
  next
    case True
    then have "as \<noteq> []" using o(6) by auto
    then obtain bs b where as: "as = bs @ [b]" by (metis rev_exhaust)
    obtain m1 l1 where e: "lru_evict_tail m l = Some (call_evict (lru_evict_cb l) (fst (the (kv m b))) (snd (the (kv m b))), m1, l1)"
      "lru_ok hash_fn eq_fn m0 m1 l1 bs" "\<forall>c\<in>set bs. kv m1 c = kv m c" "htab_room (Suc n) (lru_ht l1)"
      "lru_capacity l1 = lru_capacity l" "lru_evict_cb l1 = lru_evict_cb l" "lru_ht_addr l1 = lru_ht_addr l"
      using evict_tail_spec [OF ok [unfolded as] room] by blast
    have bl: "length bs < lru_capacity l1" using o(5) e(5) as by simp
    have "htab_map (lru_ht l1) key = None"
    proof (rule ccontr)
      assume "htab_map (lru_ht l1) key \<noteq> None"
      then obtain v where "htab_map (lru_ht l1) key = Some v" by auto
      then obtain c where c: "c \<in> set bs" "eq_fn (key_of m1 c) key" using table_hit [OF lru_okD(3) [OF e(2)]] by metis
      then have "eq_fn (key_of m c) key" using e(3) by (simp add: key_of_def)
      then have "htab_map (lru_ht l) key = Some (Some c)" using o(3) c(1) as unfolding lru_table_def by auto
      then show False using None by simp
    qed
    from lru_insert_spec [OF e(2) this bl e(4) al, of val]
    obtain m' l' ht rc old where i: "op_htab_set (lru_ht l1) key (Some (alloc (dom m1))) = Some (rc, old, ht)"
      "list_push_head (m1(alloc (dom m1) \<mapsto> \<lparr>le_key = key, le_val = val, le_prev = NULL, le_next = NULL\<rparr>)) (l1\<lparr>lru_ht := ht\<rparr>) (alloc (dom m1)) = Some (m', l')"
      "lru_ok hash_fn eq_fn m0 m' (l'\<lparr>lru_size := wrap64 (lru_size l' + 1), lru_insertions := lru_insertions l' + 1\<rparr>) (alloc (dom m1) # bs)"
      "lru_view m' (alloc (dom m1) # bs) = (key, val) # lru_view m1 bs"
      "htab_room n (lru_ht l')" "lru_capacity l' = lru_capacity l1" "lru_evict_cb l' = lru_evict_cb l1" "lru_ht_addr l' = lru_ht_addr l1"
      by blast
    have "op_lru_set alloc m l key val = Some (call_evict (lru_evict_cb l) (fst (the (kv m b))) (snd (the (kv m b))), m',
        l'\<lparr>lru_size := wrap64 (lru_size l' + 1), lru_insertions := lru_insertions l' + 1\<rparr>)"
      using None True get_spec(1) [OF o(2)] o(4) e(1) i(1,2) by (simp add: op_lru_set_def Let_def entry_alloc_def)
    then show ?thesis using i(3-8) e(5-7) True miss lru_view_cong [OF e(3)] as
      by (intro exI [of _ m'] exI [of _ "l'\<lparr>lru_size := wrap64 (lru_size l' + 1), lru_insertions := lru_insertions l' + 1\<rparr>"]
          exI [of _ "alloc (dom m1) # bs"]) simp
  qed
qed

end

lemma destroy_loop_spec:
  assumes "chain m q as NULL" "distinct as"
  shows "lru_destroy_loop cb m (first_ptr as NULL) = Some (if cb then lru_view m as else [], \<lambda>b. if b \<in> set as then None else m b)"
  using assms
proof (induction as arbitrary: m q)
  case Nil
  then show ?case by (simp add: lru_destroy_loop.simps)
next
  case (Cons a as)
  then obtain x where x: "m a = Some x" "le_next x = first_ptr as NULL" "chain m (Some a) as NULL" by auto
  have kx: "the (kv m a) = (le_key x, le_val x)" using kv_Some [of m a x, OF x(1)] by simp
  have "lru_view (m(a := None)) as = lru_view m as" using Cons.prems(2) by (intro lru_view_cong) auto
  moreover have c: "chain (m(a := None)) (Some a) as NULL" using x(3) Cons.prems(2) chain_update [of a as m None] by simp
  moreover have "lru_destroy_loop cb (m(a := None)) (first_ptr as NULL)
      = Some (if cb then lru_view (m(a := None)) as else [], \<lambda>b. if b \<in> set as then None else (m(a := None)) b)"
    by (rule Cons.IH [OF c]) (use Cons.prems(2) in simp)
  moreover have "(\<lambda>b. if b \<in> set as then None else (m(a := None)) b) = (\<lambda>b. if b \<in> set (a # as) then None else m b)"
    by auto
  ultimately show ?case using x kx
    by (subst lru_destroy_loop.simps) (simp add: entry_free_def call_evict_def)
qed

lemma foreach_loop_spec:
  "chain m q as NULL \<Longrightarrow> lru_foreach_loop m cb (first_ptr as NULL) ud = Some (snd (visit_list cb (lru_view m as) (False, ud)))"
proof (induction as arbitrary: q ud)
  case Nil
  then show ?case by (simp add: lru_foreach_loop.simps)
next
  case (Cons a as)
  then obtain x where x: "m a = Some x" "le_next x = first_ptr as NULL" "chain m (Some a) as NULL" by auto
  have kx: "the (kv m a) = (le_key x, le_val x)" using kv_Some [of m a x, OF x(1)] by simp
  obtain cont ud' where c: "cb (le_key x, le_val x) ud = (cont, ud')" by (cases "cb (le_key x, le_val x) ud")
  show ?case using x kx c Cons.IH [OF x(3)]
    by (subst lru_foreach_loop.simps) (cases cont; simp add: visit_Cons visit_step_def)
qed

section \<open>Requests\<close>

text \<open>Each request answers with a number, a value and the calls of the eviction callback.\<close>

datatype ('k, 'v) lru_req =
    LGet "'k ptr"
  | LSet "'k ptr" "'v ptr"
  | LDelete "'k ptr"
  | LFlush
  | LSize

type_synonym ('k, 'v) lru_answer = "nat \<times> 'v ptr \<times> ('k ptr \<times> 'v ptr) list"

fun lru_step :: "(addr set \<Rightarrow> addr) \<Rightarrow> ('k, 'v) lru_mem \<Rightarrow> 'k op_lru \<Rightarrow> ('k, 'v) lru_req
    \<Rightarrow> (('k, 'v) lru_answer \<times> ('k, 'v) lru_mem \<times> 'k op_lru) option" where
  "lru_step alloc m l (LGet k) = do { (v, m, l) \<leftarrow> op_lru_get m l k; Some ((0, v, []), m, l) }"
| "lru_step alloc m l (LSet k v) = do { (calls, m, l) \<leftarrow> op_lru_set alloc m l k v; Some ((0, NULL, calls), m, l) }"
| "lru_step alloc m l (LDelete k) = do { (b, calls, m, l) \<leftarrow> op_lru_delete m l k; Some ((of_bool b, NULL, calls), m, l) }"
| "lru_step alloc m l LFlush = do { (calls, m, l) \<leftarrow> op_lru_flush m l; Some ((0, NULL, calls), m, l) }"
| "lru_step alloc m l LSize = Some ((op_lru_size l, NULL, []), m, l)"

fun lru_run :: "(addr set \<Rightarrow> addr) \<Rightarrow> ('k, 'v) lru_mem \<Rightarrow> 'k op_lru \<Rightarrow> ('k, 'v) lru_req list
    \<Rightarrow> (('k, 'v) lru_answer list \<times> ('k, 'v) lru_mem \<times> 'k op_lru) option" where
  "lru_run alloc m l [] = Some ([], m, l)"
| "lru_run alloc m l (r # rs) = do {
     (a, m, l) \<leftarrow> lru_step alloc m l r;
     (as, m, l) \<leftarrow> lru_run alloc m l rs;
     Some (a # as, m, l)
   }"

text \<open>The reference: a list of at most \<open>cap\<close> pairs in order of recency.\<close>

fun cache_step :: "('k ptr \<Rightarrow> 'k ptr \<Rightarrow> bool) \<Rightarrow> nat \<Rightarrow> bool \<Rightarrow> ('k ptr \<times> 'v ptr) list \<Rightarrow> ('k, 'v) lru_req
    \<Rightarrow> ('k, 'v) lru_answer \<times> ('k ptr \<times> 'v ptr) list" where
  "cache_step eq cap cb es (LGet k) =
     (case List.find (\<lambda>e. eq (fst e) k) es of
        None \<Rightarrow> ((0, NULL, []), es)
      | Some e \<Rightarrow> ((0, snd e, []), e # filter (\<lambda>e. \<not> eq (fst e) k) es))"
| "cache_step eq cap cb es (LSet k v) =
     (case List.find (\<lambda>e. eq (fst e) k) es of
        Some e \<Rightarrow> ((0, NULL, if cb \<and> snd e \<noteq> v then [e] else []), (k, v) # filter (\<lambda>e. \<not> eq (fst e) k) es)
      | None \<Rightarrow> if length es \<ge> cap then ((0, NULL, if cb then [last es] else []), (k, v) # butlast es)
          else ((0, NULL, []), (k, v) # es))"
| "cache_step eq cap cb es (LDelete k) =
     (case List.find (\<lambda>e. eq (fst e) k) es of
        None \<Rightarrow> ((0, NULL, []), es)
      | Some e \<Rightarrow> ((1, NULL, if cb then [e] else []), filter (\<lambda>e. \<not> eq (fst e) k) es))"
| "cache_step eq cap cb es LFlush = ((0, NULL, if cb then rev es else []), [])"
| "cache_step eq cap cb es LSize = ((length es, NULL, []), es)"

fun cache_run :: "('k ptr \<Rightarrow> 'k ptr \<Rightarrow> bool) \<Rightarrow> nat \<Rightarrow> bool \<Rightarrow> ('k ptr \<times> 'v ptr) list \<Rightarrow> ('k, 'v) lru_req list
    \<Rightarrow> ('k, 'v) lru_answer list \<times> ('k ptr \<times> 'v ptr) list" where
  "cache_run eq cap cb es [] = ([], es)"
| "cache_run eq cap cb es (r # rs) =
     (let (a, es) = cache_step eq cap cb es r; (as, es) = cache_run eq cap cb es rs in (a # as, es))"

context htab_keys
begin

lemma lru_step_refines:
  assumes ok: "lru_ok hash_fn eq_fn m0 m l as" and room: "htab_room (Suc n) (lru_ht l)"
    and al: "\<And>A. A \<noteq> UNIV \<Longrightarrow> alloc A \<notin> A"
  shows "\<exists>m' l' as'. lru_step alloc m l r =
      Some (fst (cache_step eq_fn (lru_capacity l) (lru_evict_cb l) (lru_view m as) r), m', l')
    \<and> lru_ok hash_fn eq_fn m0 m' l' as'
    \<and> lru_view m' as' = snd (cache_step eq_fn (lru_capacity l) (lru_evict_cb l) (lru_view m as) r)
    \<and> htab_room n (lru_ht l') \<and> lru_capacity l' = lru_capacity l \<and> lru_evict_cb l' = lru_evict_cb l \<and> lru_ht_addr l' = lru_ht_addr l"
proof -
  have less: "htab_room n (lru_ht l)" using room by (auto simp: htab_room_def)
  show ?thesis
  proof (cases r)
    case (LGet k)
    show ?thesis using lru_get_spec [OF ok, of k] less unfolding LGet
      by (cases "List.find (\<lambda>e. eq_fn (fst e) k) (lru_view m as)") fastforce+
  next
    case (LSet k v)
    show ?thesis using lru_set_spec [OF ok room al, of k v] unfolding LSet
      by (cases "List.find (\<lambda>e. eq_fn (fst e) k) (lru_view m as)") (fastforce simp: call_evict_def)+
  next
    case (LDelete k)
    show ?thesis using lru_delete_spec [OF ok less, of k] unfolding LDelete
      by (cases "List.find (\<lambda>e. eq_fn (fst e) k) (lru_view m as)") (fastforce simp: call_evict_def)+
  next
    case LFlush
    show ?thesis using flush_spec [OF ok less] unfolding LFlush by fastforce
  next
    case LSize
    show ?thesis using ok less lru_okD(4) [OF ok] unfolding LSize by (fastforce simp: op_lru_size_def)
  qed
qed

lemma lru_run_refines:
  assumes ok: "lru_ok hash_fn eq_fn m0 m l as" and room: "htab_room (length rs) (lru_ht l)"
    and al: "\<And>A. A \<noteq> UNIV \<Longrightarrow> alloc A \<notin> A"
  shows "\<exists>m' l' as'. lru_run alloc m l rs =
      Some (fst (cache_run eq_fn (lru_capacity l) (lru_evict_cb l) (lru_view m as) rs), m', l')
    \<and> lru_ok hash_fn eq_fn m0 m' l' as'
    \<and> lru_view m' as' = snd (cache_run eq_fn (lru_capacity l) (lru_evict_cb l) (lru_view m as) rs)
    \<and> lru_evict_cb l' = lru_evict_cb l \<and> lru_ht_addr l' = lru_ht_addr l"
  using ok room
proof (induction rs arbitrary: m l as)
  case (Cons r rs)
  obtain m1 l1 as1 where s: "lru_step alloc m l r =
      Some (fst (cache_step eq_fn (lru_capacity l) (lru_evict_cb l) (lru_view m as) r), m1, l1)"
    "lru_ok hash_fn eq_fn m0 m1 l1 as1"
    "lru_view m1 as1 = snd (cache_step eq_fn (lru_capacity l) (lru_evict_cb l) (lru_view m as) r)"
    "htab_room (length rs) (lru_ht l1)" "lru_capacity l1 = lru_capacity l" "lru_evict_cb l1 = lru_evict_cb l" "lru_ht_addr l1 = lru_ht_addr l"
    using lru_step_refines [OF Cons.prems(1) _ al, of "length rs" r] Cons.prems(2) by auto
  show ?case using Cons.IH [OF s(2,4)] s(1,3,5-7) by (auto simp: case_prod_beta)
qed auto

text \<open>A created cache, used and destroyed.\<close>

lemma lru_life:
  assumes reg: "registry_ok reg" and cap: "capacity \<le> 2 ^ 57" "length rs \<le> 2 ^ 56"
    and m0: "card (dom m0) + max 1 capacity < W64" and al: "\<And>A. A \<noteq> UNIV \<Longrightarrow> alloc A \<notin> A"
  shows "\<exists>ht reg' m l reg''. op_htab_create reg self name hash_fn eq_fn (if capacity < 16 then 16 else capacity) = Some (ht, reg')
    \<and> lru_run alloc m0 (lru_create_common name capacity cb self ht) rs = Some (fst (cache_run eq_fn (max 1 capacity) cb [] rs), m, l)
    \<and> op_lru_foreach m l fn ud = Some (snd (visit_list fn (snd (cache_run eq_fn (max 1 capacity) cb [] rs)) (False, ud)))
    \<and> op_lru_destroy reg' m l True = Some (if cb then snd (cache_run eq_fn (max 1 capacity) cb [] rs) else [], m0, reg'')
    \<and> mset (registered reg'') = mset (registered reg)"
proof -
  let ?init = "if capacity < 16 then 16 else capacity"
  have "?init \<le> 2 ^ 59" "?init \<le> 2 ^ 57" using cap(1) by auto
  then obtain ht reg' where c: "op_htab_create reg self name hash_fn eq_fn ?init = Some (ht :: ('k, addr) op_htab, reg')"
    "htab_ok hash_fn eq_fn ht" "ht_count ht = 0" "htab_map ht = Map.empty"
    "registered reg' = registered reg @ [Some self]" "ht_mask ht < 2 ^ 58"
    using htab_create_spec [OF reg, of ?init] by blast
  let ?l = "lru_create_common name capacity cb self ht"
  have l: "lru_ht ?l = ht" "lru_capacity ?l = max 1 capacity" "lru_evict_cb ?l = cb" "lru_ht_addr ?l = self"
    by (auto simp: lru_create_common_def)
  have "lru_ok hash_fn eq_fn m0 m0 ?l []"
    using c(2,4) m0 by (auto simp: lru_ok_def lru_list_def lru_table_def lru_create_common_def)
  moreover have "htab_room (length rs) (lru_ht ?l)" using c(3,6) cap(2) by (simp add: htab_room_def l)
  ultimately obtain m l' as' where r: "lru_run alloc m0 ?l rs = Some (fst (cache_run eq_fn (max 1 capacity) cb [] rs), m, l')"
    "lru_ok hash_fn eq_fn m0 m l' as'" "lru_view m as' = snd (cache_run eq_fn (max 1 capacity) cb [] rs)"
    "lru_evict_cb l' = cb" "lru_ht_addr l' = self"
    using lru_run_refines [OF _ _ al, of m0 m0 ?l "[]" rs] l by auto
  note o = lru_okD [OF r(2)]
  have ch: "chain m NULL as' NULL" "lru_head l' = first_ptr as' NULL" using o(1) by (auto simp: lru_list_def)
  have restored: "(\<lambda>b. if b \<in> set as' then None else m b) = m0"
  proof
    fix b
    show "(if b \<in> set as' then None else m b) = m0 b" using o(7,8) by (cases "b \<in> set as'") (simp_all, metis disjoint_iff domIff)
  qed
  obtain reg1 where "htab_register reg self = Some reg1" "vec_inv (htab_list reg1)" "htab_list_inited reg1"
    using htab_register_spec [OF reg] by blast
  then have v: "vec_inv (htab_list reg')" "htab_list_inited reg'"
    using c(1) by (auto simp: op_htab_create_def Let_def split: Option.bind_splits)
  obtain w where w: "op_vec_remove_ptr (htab_list reg') (Some self) = Some w"
    "mset (vec_list w) = mset (vec_list (htab_list reg')) - {#Some self#}"
    using op_vec_remove_ptr_spec [OF v(1)] by blast
  have "op_lru_destroy reg' m l' True = Some (if cb then lru_view m as' else [], m0, reg'\<lparr>htab_list := w\<rparr>)"
    using destroy_loop_spec [OF ch(1) o(10), of cb] w(1) r(4,5) ch(2) restored
    by (simp add: op_lru_destroy_def op_htab_destroy_def)
  moreover have "mset (registered (reg'\<lparr>htab_list := w\<rparr>)) = mset (registered reg)"
    using w(2) c(5) v(2) by (simp add: registered_def)
  moreover have "op_lru_foreach m l' fn ud = Some (snd (visit_list fn (lru_view m as') (False, ud)))"
    using foreach_loop_spec [OF ch(1)] ch(2) by (simp add: op_lru_foreach_def)
  ultimately show ?thesis using c(1) r(1,3) by auto
qed

end

section \<open>Property\<close>

text \<open>
  C2. An LRU cache, case-sensitive or case-insensitive, answers every sequence of requests as
  a bounded list in recency order does: a hit moves the entry to the front, an insertion into
  a full cache evicts the last entry, and the eviction callback is called on exactly the
  entries that leave or are replaced.  Enumeration visits the entries in recency order, and
  destruction reports the remaining ones, frees every entry the cache allocated and nothing
  else, and unregisters its table.
\<close>

theorem lru_refines_cache:
  assumes "registry_ok reg" "capacity \<le> 2 ^ 57" "length rs \<le> 2 ^ 56" "card (dom m0) + max 1 capacity < W64"
    "\<And>A. A \<noteq> UNIV \<Longrightarrow> alloc A \<notin> A" "eq = (if icase then htab_eq_istr else htab_eq_str)"
  shows "\<exists>lru reg' m l reg''. (if icase then op_lru_create_istr else op_lru_create) reg self name capacity cb = Some (lru, reg')
    \<and> lru_run alloc m0 lru rs = Some (fst (cache_run eq (max 1 capacity) cb [] rs), m, l)
    \<and> op_lru_foreach m l fn ud = Some (snd (visit_list fn (snd (cache_run eq (max 1 capacity) cb [] rs)) (False, ud)))
    \<and> op_lru_destroy reg' m l True = Some (if cb then snd (cache_run eq (max 1 capacity) cb [] rs) else [], m0, reg'')
    \<and> mset (registered reg'') = mset (registered reg)"
proof (cases icase)
  case True
  then show ?thesis using istrs.lru_life [OF assms(1-5), where self = self and name = name and cb = cb and fn = fn and ud = ud] assms(6)
    by (auto simp: op_lru_create_istr_def op_htab_create_istr_def Let_def)
next
  case False
  then show ?thesis using strs.lru_life [OF assms(1-5), where self = self and name = name and cb = cb and fn = fn and ud = ud] assms(6)
    by (auto simp: op_lru_create_def op_htab_create_str_def Let_def)
qed

theorem lru_refines_cache_witness:
  "\<exists>lru reg' m l. op_lru_create \<lparr>htab_list = op_vec_init 0, htab_list_inited = False\<rparr> 4096 ''dns'' 1 True = Some (lru, reg')
    \<and> lru_run (\<lambda>A. Min (- A)) Map.empty lru [LSet (Some [0x61]) (Some (1 :: nat)), LSet (Some [0x62]) (Some 2), LGet (Some [0x61])]
      = Some ([(0, NULL, []), (0, NULL, [(Some [0x61], Some 1)]), (0, NULL, [])], m, l)"
proof -
  let ?reg = "\<lparr>htab_list = op_vec_init 0, htab_list_inited = False\<rparr>"
  let ?rs = "[LSet (Some [0x61]) (Some (1 :: nat)), LSet (Some [0x62]) (Some 2), LGet (Some [0x61])]"
  have reg: "registry_ok ?reg" by (simp add: registry_ok_def)
  have al: "Min (- A) \<notin> A" if "A \<noteq> UNIV" for A :: "addr set"
  proof -
    have "- A \<noteq> {}" using that by auto
    then have "Min (- A) \<in> - A" by (intro Min_in) auto
    then show ?thesis by simp
  qed
  have ne: "\<not> htab_eq_str (Some [0x61]) (Some [0x62])" "\<not> htab_eq_str (Some [0x62]) (Some [0x61])"
    by (simp_all add: htab_eq_str_def deref_str_def c_strcmp_0 cstr_text_def)
  have run: "fst (cache_run htab_eq_str (max 1 1) True [] ?rs) = [(0, NULL, []), (0, NULL, [(Some [0x61], Some 1)]), (0, NULL, [])]"
    using ne by simp
  have "card (dom (Map.empty :: (cstr, nat) lru_mem)) + max 1 1 < W64" "length ?rs \<le> 2 ^ 56" "(1 :: nat) \<le> 2 ^ 57"
    by (simp_all add: W64_def)
  from lru_refines_cache [OF reg this(3,2,1) al, of htab_eq_str False 4096 "''dns''" True "\<lambda>_ u. (True, u)" "()"]
  show ?thesis unfolding run by (simp only: if_False) blast
qed

end
