(* ===== verification/Ringbuf.thy ===== *)
theory Ringbuf
  imports Libop_Prelude
begin

unbundle bit_operations_syntax

text \<open>
  \<^verbatim>\<open>include/op_ringbuf.h\<close> and \<^verbatim>\<open>include/op_spsc.h\<close>: the two bounded rings shared by one
  producer and one consumer.  Each call is given twice: as a function, for use from one
  thread, and as a sequence of atomic actions (load of the own cursor, load and test of the
  other cursor, access to the slot, store of the own cursor) that the two threads interleave
  freely.  The release store of a cursor and the acquire load that reads it order the slot
  accesses around them, which is what makes the interleaving of the actions the behaviour of
  the code.
\<close>

section \<open>The masked ring\<close>

record 'a op_ringbuf =
  rb_mask :: nat
  rb_head :: nat
  rb_tail :: nat
  rb_slots :: "'a ptr list"

text \<open>192 bytes of header precede the slots; clearing slots outside the block is undefined.\<close>

definition op_ringbuf_create :: "nat \<Rightarrow> 'a op_ringbuf option" where
  "op_ringbuf_create capacity =
     (let capacity = (if capacity < 2 then 2 else capacity);
          capacity = wrap64 (smear64 (capacity - 1) + 1)
      in if 192 + capacity * 8 < W64
         then Some \<lparr>rb_mask = sub64 capacity 1, rb_head = 0, rb_tail = 0, rb_slots = replicate capacity NULL\<rparr>
         else None)"

definition op_ringbuf_push :: "'a op_ringbuf \<Rightarrow> 'a ptr \<Rightarrow> (bool \<times> 'a op_ringbuf) option" where
  "op_ringbuf_push rb item =
     (let head = rb_head rb; nxt = wrap64 (head + 1) AND rb_mask rb in
      if nxt = rb_tail rb then Some (False, rb)
      else do {
        slots \<leftarrow> arr_set (rb_slots rb) (head AND rb_mask rb) item;
        Some (True, rb\<lparr>rb_slots := slots, rb_head := nxt\<rparr>)
      })"

definition op_ringbuf_pop :: "'a op_ringbuf \<Rightarrow> ('a ptr option \<times> 'a op_ringbuf) option" where
  "op_ringbuf_pop rb =
     (let tail = rb_tail rb in
      if tail = rb_head rb then Some (None, rb)
      else do {
        item \<leftarrow> arr_get (rb_slots rb) (tail AND rb_mask rb);
        Some (Some item, rb\<lparr>rb_tail := wrap64 (tail + 1) AND rb_mask rb\<rparr>)
      })"

definition op_ringbuf_cap :: "'a op_ringbuf \<Rightarrow> nat" where
  "op_ringbuf_cap rb = wrap64 (rb_mask rb + 1)"

definition op_ringbuf_empty :: "'a op_ringbuf \<Rightarrow> bool" where
  "op_ringbuf_empty rb \<longleftrightarrow> rb_tail rb = rb_head rb"

definition op_ringbuf_full :: "'a op_ringbuf \<Rightarrow> bool" where
  "op_ringbuf_full rb \<longleftrightarrow> wrap64 (rb_head rb + 1) AND rb_mask rb = rb_tail rb"

definition op_ringbuf_count :: "'a op_ringbuf \<Rightarrow> nat" where
  "op_ringbuf_count rb = sub64 (rb_head rb) (rb_tail rb) AND rb_mask rb"

section \<open>The counting ring\<close>

record 'a op_spsc =
  sq_head :: nat
  sq_tail :: nat
  sq_mask :: nat
  sq_slots :: "'a ptr list"

text \<open>\<open>got\<close> tells whether \<^verbatim>\<open>calloc\<close> returned a block; it fails when the size is not representable.\<close>

definition op_spsc_init :: "bool \<Rightarrow> nat \<Rightarrow> 'a op_spsc option" where
  "op_spsc_init got capacity =
     (if capacity = 0 \<or> capacity AND sub64 capacity 1 \<noteq> 0 then None
      else if got \<and> capacity * 8 < W64
      then Some \<lparr>sq_head = 0, sq_tail = 0, sq_mask = sub64 capacity 1, sq_slots = replicate capacity NULL\<rparr>
      else None)"

definition op_spsc_push :: "'a op_spsc \<Rightarrow> 'a ptr \<Rightarrow> (bool \<times> 'a op_spsc) option" where
  "op_spsc_push q item =
     (let h = sq_head q; t = sq_tail q in
      if sub64 h t > sq_mask q then Some (False, q)
      else do {
        slots \<leftarrow> arr_set (sq_slots q) (h AND sq_mask q) item;
        Some (True, q\<lparr>sq_slots := slots, sq_head := wrap64 (h + 1)\<rparr>)
      })"

definition op_spsc_pop :: "'a op_spsc \<Rightarrow> ('a ptr \<times> 'a op_spsc) option" where
  "op_spsc_pop q =
     (let t = sq_tail q; h = sq_head q in
      if h = t then Some (NULL, q)
      else do {
        item \<leftarrow> arr_get (sq_slots q) (t AND sq_mask q);
        Some (item, q\<lparr>sq_tail := wrap64 (t + 1)\<rparr>)
      })"

definition op_spsc_size :: "'a op_spsc \<Rightarrow> nat" where
  "op_spsc_size q = sub64 (sq_head q) (sq_tail q)"

definition op_spsc_empty :: "'a op_spsc \<Rightarrow> bool" where
  "op_spsc_empty q \<longleftrightarrow> op_spsc_size q = 0"

section \<open>Atomic actions\<close>

text \<open>
  The actions of the two calls: each side reads its own cursor, tests the other one against
  the value read, accesses the slot that value selects and stores its successor.
\<close>

record ('r, 'a) ring_ops =
  ro_head :: "'r \<Rightarrow> nat"
  ro_room :: "'r \<Rightarrow> nat \<Rightarrow> bool"
  ro_write :: "'r \<Rightarrow> nat \<Rightarrow> 'a ptr \<Rightarrow> 'r option"
  ro_publish :: "'r \<Rightarrow> nat \<Rightarrow> 'r"
  ro_tail :: "'r \<Rightarrow> nat"
  ro_avail :: "'r \<Rightarrow> nat \<Rightarrow> bool"
  ro_read :: "'r \<Rightarrow> nat \<Rightarrow> 'a ptr option"
  ro_release :: "'r \<Rightarrow> nat \<Rightarrow> 'r"

definition ringbuf_ops :: "('a op_ringbuf, 'a) ring_ops" where
  "ringbuf_ops =
     \<lparr>ro_head = rb_head,
      ro_room = (\<lambda>rb head. wrap64 (head + 1) AND rb_mask rb \<noteq> rb_tail rb),
      ro_write = (\<lambda>rb head item. do { slots \<leftarrow> arr_set (rb_slots rb) (head AND rb_mask rb) item; Some (rb\<lparr>rb_slots := slots\<rparr>) }),
      ro_publish = (\<lambda>rb head. rb\<lparr>rb_head := wrap64 (head + 1) AND rb_mask rb\<rparr>),
      ro_tail = rb_tail,
      ro_avail = (\<lambda>rb tail. tail \<noteq> rb_head rb),
      ro_read = (\<lambda>rb tail. arr_get (rb_slots rb) (tail AND rb_mask rb)),
      ro_release = (\<lambda>rb tail. rb\<lparr>rb_tail := wrap64 (tail + 1) AND rb_mask rb\<rparr>)\<rparr>"

definition spsc_ops :: "('a op_spsc, 'a) ring_ops" where
  "spsc_ops =
     \<lparr>ro_head = sq_head,
      ro_room = (\<lambda>q h. \<not> sub64 h (sq_tail q) > sq_mask q),
      ro_write = (\<lambda>q h item. do { slots \<leftarrow> arr_set (sq_slots q) (h AND sq_mask q) item; Some (q\<lparr>sq_slots := slots\<rparr>) }),
      ro_publish = (\<lambda>q h. q\<lparr>sq_head := wrap64 (h + 1)\<rparr>),
      ro_tail = sq_tail,
      ro_avail = (\<lambda>q t. sq_head q \<noteq> t),
      ro_read = (\<lambda>q t. arr_get (sq_slots q) (t AND sq_mask q)),
      ro_release = (\<lambda>q t. q\<lparr>sq_tail := wrap64 (t + 1)\<rparr>)\<rparr>"

text \<open>Where each thread stands in its call, and what has been sent and received so far.\<close>

datatype 'a producer = PIdle | PHead "'a ptr" nat | PRoom "'a ptr" nat | PWrote "'a ptr" nat

datatype 'a consumer = CIdle | CTail nat | CAvail nat | CRead nat "'a ptr"

record ('r, 'a) ring_sys =
  sys_ring :: 'r
  sys_prod :: "'a producer"
  sys_cons :: "'a consumer"
  sys_sent :: "'a ptr list"
  sys_got :: "'a ptr list"

definition ring_start :: "'r \<Rightarrow> ('r, 'a) ring_sys" where
  "ring_start r = \<lparr>sys_ring = r, sys_prod = PIdle, sys_cons = CIdle, sys_sent = [], sys_got = []\<rparr>"

inductive prod_step :: "('r, 'a) ring_ops \<Rightarrow> ('r, 'a) ring_sys \<Rightarrow> ('r, 'a) ring_sys \<Rightarrow> bool" for ops where
  load_head: "sys_prod s = PIdle \<Longrightarrow> prod_step ops s (s\<lparr>sys_prod := PHead x (ro_head ops (sys_ring s))\<rparr>)"
| load_tail: "sys_prod s = PHead x h \<Longrightarrow>
     prod_step ops s (s\<lparr>sys_prod := if ro_room ops (sys_ring s) h then PRoom x h else PIdle\<rparr>)"
| write_slot: "sys_prod s = PRoom x h \<Longrightarrow> ro_write ops (sys_ring s) h x = Some r \<Longrightarrow>
     prod_step ops s (s\<lparr>sys_ring := r, sys_prod := PWrote x h\<rparr>)"
| store_head: "sys_prod s = PWrote x h \<Longrightarrow>
     prod_step ops s (s\<lparr>sys_ring := ro_publish ops (sys_ring s) h, sys_prod := PIdle, sys_sent := sys_sent s @ [x]\<rparr>)"

inductive cons_step :: "('r, 'a) ring_ops \<Rightarrow> ('r, 'a) ring_sys \<Rightarrow> ('r, 'a) ring_sys \<Rightarrow> bool" for ops where
  own_tail: "sys_cons s = CIdle \<Longrightarrow> cons_step ops s (s\<lparr>sys_cons := CTail (ro_tail ops (sys_ring s))\<rparr>)"
| other_head: "sys_cons s = CTail t \<Longrightarrow>
     cons_step ops s (s\<lparr>sys_cons := if ro_avail ops (sys_ring s) t then CAvail t else CIdle\<rparr>)"
| read_slot: "sys_cons s = CAvail t \<Longrightarrow> ro_read ops (sys_ring s) t = Some x \<Longrightarrow>
     cons_step ops s (s\<lparr>sys_cons := CRead t x\<rparr>)"
| store_tail: "sys_cons s = CRead t x \<Longrightarrow>
     cons_step ops s (s\<lparr>sys_ring := ro_release ops (sys_ring s) t, sys_cons := CIdle, sys_got := sys_got s @ [x]\<rparr>)"

definition ring_step :: "('r, 'a) ring_ops \<Rightarrow> ('r, 'a) ring_sys \<Rightarrow> ('r, 'a) ring_sys \<Rightarrow> bool" where
  "ring_step ops s s' \<longleftrightarrow> prod_step ops s s' \<or> cons_step ops s s'"

section \<open>The contract of a ring\<close>

text \<open>
  \<open>items\<close> are the items between the cursors, \<open>cap\<close> how many fit, and \<open>pending\<close> the content of
  the slot at the producer's cursor, which its next store of the cursor publishes.
\<close>

locale ring =
  fixes ops :: "('r, 'a) ring_ops" and ok :: "'r \<Rightarrow> bool" and items :: "'r \<Rightarrow> 'a ptr list"
    and cap :: "'r \<Rightarrow> nat" and pending :: "'r \<Rightarrow> 'a ptr"
  assumes room_iff: "ok r \<Longrightarrow> ro_room ops r (ro_head ops r) \<longleftrightarrow> length (items r) < cap r"
    and avail_iff: "ok r \<Longrightarrow> ro_avail ops r (ro_tail ops r) \<longleftrightarrow> items r \<noteq> []"
    and write_law: "ok r \<Longrightarrow> length (items r) < cap r \<Longrightarrow>
      \<exists>r'. ro_write ops r (ro_head ops r) x = Some r' \<and> ok r' \<and> items r' = items r \<and> pending r' = x
        \<and> ro_head ops r' = ro_head ops r \<and> ro_tail ops r' = ro_tail ops r \<and> cap r' = cap r"
    and publish_law: "ok r \<Longrightarrow> length (items r) < cap r \<Longrightarrow>
      ok (ro_publish ops r (ro_head ops r)) \<and> items (ro_publish ops r (ro_head ops r)) = items r @ [pending r]
        \<and> ro_tail ops (ro_publish ops r (ro_head ops r)) = ro_tail ops r \<and> cap (ro_publish ops r (ro_head ops r)) = cap r"
    and read_law: "ok r \<Longrightarrow> items r \<noteq> [] \<Longrightarrow> ro_read ops r (ro_tail ops r) = Some (hd (items r))"
    and release_law: "ok r \<Longrightarrow> items r \<noteq> [] \<Longrightarrow>
      ok (ro_release ops r (ro_tail ops r)) \<and> items (ro_release ops r (ro_tail ops r)) = tl (items r)
        \<and> pending (ro_release ops r (ro_tail ops r)) = pending r
        \<and> ro_head ops (ro_release ops r (ro_tail ops r)) = ro_head ops r \<and> cap (ro_release ops r (ro_tail ops r)) = cap r"
    and cap_bound: "ok r \<Longrightarrow> length (items r) \<le> cap r"

definition prod_inv :: "('r, 'a) ring_ops \<Rightarrow> ('r \<Rightarrow> 'a ptr list) \<Rightarrow> ('r \<Rightarrow> nat) \<Rightarrow> ('r \<Rightarrow> 'a ptr) \<Rightarrow> 'r \<Rightarrow> 'a producer \<Rightarrow> bool" where
  "prod_inv ops items cap pending r p \<longleftrightarrow> (case p of
      PIdle \<Rightarrow> True
    | PHead x h \<Rightarrow> h = ro_head ops r
    | PRoom x h \<Rightarrow> h = ro_head ops r \<and> length (items r) < cap r
    | PWrote x h \<Rightarrow> h = ro_head ops r \<and> length (items r) < cap r \<and> pending r = x)"

definition cons_inv :: "('r, 'a) ring_ops \<Rightarrow> ('r \<Rightarrow> 'a ptr list) \<Rightarrow> 'r \<Rightarrow> 'a consumer \<Rightarrow> bool" where
  "cons_inv ops items r c \<longleftrightarrow> (case c of
      CIdle \<Rightarrow> True
    | CTail t \<Rightarrow> t = ro_tail ops r
    | CAvail t \<Rightarrow> t = ro_tail ops r \<and> items r \<noteq> []
    | CRead t x \<Rightarrow> t = ro_tail ops r \<and> items r \<noteq> [] \<and> x = hd (items r))"

context ring
begin

definition sys_ok :: "('r, 'a) ring_sys \<Rightarrow> bool" where
  "sys_ok s \<longleftrightarrow> ok (sys_ring s) \<and> sys_sent s = sys_got s @ items (sys_ring s)
     \<and> prod_inv ops items cap pending (sys_ring s) (sys_prod s) \<and> cons_inv ops items (sys_ring s) (sys_cons s)"

lemma prod_ok:
  assumes "prod_step ops s s'" "sys_ok s"
  shows "sys_ok s' \<and> cap (sys_ring s') = cap (sys_ring s)"
  using assms
proof (induction rule: prod_step.cases)
  case (load_head s x)
  then show ?case by (simp add: sys_ok_def prod_inv_def)
next
  case (load_tail s x h)
  then show ?case using room_iff [of "sys_ring s"] by (auto simp: sys_ok_def prod_inv_def)
next
  case (write_slot s x h r)
  then have o: "ok (sys_ring s)" "h = ro_head ops (sys_ring s)" "length (items (sys_ring s)) < cap (sys_ring s)"
    by (auto simp: sys_ok_def prod_inv_def)
  then show ?case using write_law [OF o(1,3), of x] write_slot
    by (auto simp: sys_ok_def prod_inv_def cons_inv_def split: consumer.splits)
next
  case (store_head s x h)
  then have o: "ok (sys_ring s)" "h = ro_head ops (sys_ring s)" "length (items (sys_ring s)) < cap (sys_ring s)" "pending (sys_ring s) = x"
    by (auto simp: sys_ok_def prod_inv_def)
  then show ?case using publish_law [OF o(1,3)] store_head
    by (auto simp: sys_ok_def prod_inv_def cons_inv_def split: consumer.splits)
qed

lemma cons_ok:
  assumes "cons_step ops s s'" "sys_ok s"
  shows "sys_ok s' \<and> cap (sys_ring s') = cap (sys_ring s)"
  using assms
proof (induction rule: cons_step.cases)
  case (own_tail s)
  then show ?case by (simp add: sys_ok_def cons_inv_def)
next
  case (other_head s t)
  then show ?case using avail_iff [of "sys_ring s"] by (auto simp: sys_ok_def cons_inv_def)
next
  case (read_slot s t x)
  then show ?case using read_law [of "sys_ring s"] by (auto simp: sys_ok_def cons_inv_def)
next
  case (store_tail s t x)
  then have o: "ok (sys_ring s)" "t = ro_tail ops (sys_ring s)" "items (sys_ring s) \<noteq> []" "x = hd (items (sys_ring s))"
    by (auto simp: sys_ok_def cons_inv_def)
  then show ?case using release_law [OF o(1,3)] store_tail
    by (auto simp: sys_ok_def prod_inv_def cons_inv_def split: producer.splits)
qed

lemma reachable_ok:
  assumes "(ring_step ops)\<^sup>*\<^sup>* (ring_start r) s" "ok r" "items r = []"
  shows "sys_ok s \<and> cap (sys_ring s) = cap r"
  using assms(1)
proof (induction rule: rtranclp_induct)
  case base
  then show ?case using assms(2,3) by (simp add: sys_ok_def ring_start_def prod_inv_def cons_inv_def)
next
  case (step s s')
  then show ?case using prod_ok cons_ok unfolding ring_step_def by metis
qed

lemma never_stuck:
  assumes "sys_ok s"
  shows "(\<exists>s'. prod_step ops s s') \<and> (\<exists>s'. cons_step ops s s')"
proof
  have o: "ok (sys_ring s)" using assms by (simp add: sys_ok_def)
  show "\<exists>s'. prod_step ops s s'"
  proof (cases "sys_prod s")
    case (PRoom x h)
    then have "h = ro_head ops (sys_ring s)" "length (items (sys_ring s)) < cap (sys_ring s)"
      using assms by (auto simp: sys_ok_def prod_inv_def)
    then show ?thesis using write_law [OF o, of x] PRoom by (metis prod_step.write_slot)
  qed (metis prod_step.load_head, metis prod_step.load_tail, metis prod_step.store_head)
  show "\<exists>s'. cons_step ops s s'"
  proof (cases "sys_cons s")
    case (CAvail t)
    then have "t = ro_tail ops (sys_ring s)" "items (sys_ring s) \<noteq> []" using assms by (auto simp: sys_ok_def cons_inv_def)
    then show ?thesis using read_law [OF o] CAvail by (metis cons_step.read_slot)
  qed (metis cons_step.own_tail, metis cons_step.other_head, metis cons_step.store_tail)
qed

text \<open>The consumer alone: finishing a call in progress, one whole call, and all of them.\<close>

lemma finish_avail:
  assumes s: "sys_ok s" "sys_cons s = CAvail t"
  shows "\<exists>s'. (cons_step ops ^^ 2) s s' \<and> sys_ok s' \<and> sys_cons s' = CIdle \<and> sys_sent s' = sys_sent s
    \<and> sys_got s' = sys_got s @ [hd (items (sys_ring s))] \<and> items (sys_ring s') = tl (items (sys_ring s))"
proof -
  have o: "ok (sys_ring s)" "t = ro_tail ops (sys_ring s)" "items (sys_ring s) \<noteq> []"
    using s by (auto simp: sys_ok_def cons_inv_def)
  let ?x = "hd (items (sys_ring s))"
  let ?s1 = "s\<lparr>sys_cons := CRead t ?x\<rparr>"
  let ?s2 = "?s1\<lparr>sys_ring := ro_release ops (sys_ring ?s1) t, sys_cons := CIdle, sys_got := sys_got ?s1 @ [?x]\<rparr>"
  have 1: "cons_step ops s ?s1" using read_law [OF o(1,3)] s(2) o(2) by (intro cons_step.read_slot) auto
  have 2: "cons_step ops ?s1 ?s2" by (rule cons_step.store_tail) simp
  have "(cons_step ops ^^ 2) s ?s2" using 1 2 by (auto simp: numeral_2_eq_2)
  moreover have "sys_ok ?s2" using cons_ok [OF 2] cons_ok [OF 1 s(1)] by blast
  moreover have "items (sys_ring ?s2) = tl (items (sys_ring s))" using release_law [OF o(1,3)] o(2) by simp
  ultimately show ?thesis by (intro exI [of _ ?s2]) simp
qed

lemma pop_one:
  assumes s: "sys_ok s" "sys_cons s = CIdle" "items (sys_ring s) \<noteq> []"
  shows "\<exists>s'. (cons_step ops ^^ 4) s s' \<and> sys_ok s' \<and> sys_cons s' = CIdle \<and> sys_sent s' = sys_sent s
    \<and> sys_got s' = sys_got s @ [hd (items (sys_ring s))] \<and> items (sys_ring s') = tl (items (sys_ring s))"
proof -
  have o: "ok (sys_ring s)" using s by (simp add: sys_ok_def)
  let ?t = "ro_tail ops (sys_ring s)"
  let ?s1 = "s\<lparr>sys_cons := CTail ?t\<rparr>"
  let ?s2 = "?s1\<lparr>sys_cons := CAvail ?t\<rparr>"
  have 1: "cons_step ops s ?s1" using s(2) by (rule cons_step.own_tail)
  have 2: "cons_step ops ?s1 ?s2" using cons_step.other_head [of ?s1 ?t ops] avail_iff [OF o] s(3) by simp
  have "sys_ok ?s2" using cons_ok [OF 2] cons_ok [OF 1 s(1)] by blast
  then obtain s' where s': "(cons_step ops ^^ 2) ?s2 s'" "sys_ok s'" "sys_cons s' = CIdle" "sys_sent s' = sys_sent s"
    "sys_got s' = sys_got s @ [hd (items (sys_ring s))]" "items (sys_ring s') = tl (items (sys_ring s))"
    using finish_avail [of ?s2 ?t] by auto
  have "(cons_step ops ^^ 2) s ?s2" using 1 2 by (auto simp: numeral_2_eq_2)
  then have "(cons_step ops ^^ (2 + 2)) s s'" using s'(1) by (metis relpowp_trans)
  then show ?thesis using s' by auto
qed

lemma finish_call:
  assumes s: "sys_ok s"
  shows "\<exists>s'. (cons_step ops)\<^sup>*\<^sup>* s s' \<and> sys_ok s' \<and> sys_cons s' = CIdle \<and> sys_sent s' = sys_sent s"
proof (cases "sys_cons s")
  case CIdle
  then show ?thesis using s by blast
next
  case (CTail t)
  show ?thesis
  proof (cases "ro_avail ops (sys_ring s) t")
    case False
    let ?s1 = "s\<lparr>sys_cons := CIdle\<rparr>"
    have 1: "cons_step ops s ?s1" using cons_step.other_head [OF CTail, of ops] False by simp
    then show ?thesis using cons_ok [OF 1 s] by (intro exI [of _ ?s1]) auto
  next
    case True
    let ?s1 = "s\<lparr>sys_cons := CAvail t\<rparr>"
    have 1: "cons_step ops s ?s1" using cons_step.other_head [OF CTail, of ops] True by simp
    then obtain s' where "(cons_step ops ^^ 2) ?s1 s'" "sys_ok s'" "sys_cons s' = CIdle" "sys_sent s' = sys_sent s"
      using finish_avail [of ?s1 t] cons_ok [OF 1 s] by auto
    then show ?thesis using 1 by (meson converse_rtranclp_into_rtranclp relpowp_imp_rtranclp)
  qed
next
  case (CAvail t)
  then show ?thesis using finish_avail [OF s] by (meson relpowp_imp_rtranclp)
next
  case (CRead t x)
  let ?s1 = "s\<lparr>sys_ring := ro_release ops (sys_ring s) t, sys_cons := CIdle, sys_got := sys_got s @ [x]\<rparr>"
  have 1: "cons_step ops s ?s1" using CRead by (rule cons_step.store_tail)
  then show ?thesis using cons_ok [OF 1 s] by (intro exI [of _ ?s1]) auto
qed

lemma drain_idle:
  "sys_ok s \<Longrightarrow> sys_cons s = CIdle \<Longrightarrow>
   \<exists>s'. (cons_step ops)\<^sup>*\<^sup>* s s' \<and> sys_got s' = sys_sent s \<and> sys_sent s' = sys_sent s \<and> items (sys_ring s') = []"
proof (induction "items (sys_ring s)" arbitrary: s)
  case Nil
  then show ?case by (auto simp: sys_ok_def)
next
  case (Cons y ys)
  obtain s1 where s1: "(cons_step ops ^^ 4) s s1" "sys_ok s1" "sys_cons s1 = CIdle" "sys_sent s1 = sys_sent s"
    "items (sys_ring s1) = ys"
    using pop_one [OF Cons.prems] Cons.hyps(2) by (metis list.distinct(1) list.sel(3))
  then obtain s' where "(cons_step ops)\<^sup>*\<^sup>* s1 s'" "sys_got s' = sys_sent s" "sys_sent s' = sys_sent s" "items (sys_ring s') = []"
    using Cons.hyps(1) [of s1] by auto
  then show ?case using s1(1) by (meson relpowp_imp_rtranclp rtranclp_trans)
qed

lemma drain:
  assumes "sys_ok s"
  shows "\<exists>s'. (cons_step ops)\<^sup>*\<^sup>* s s' \<and> sys_got s' = sys_sent s \<and> sys_sent s' = sys_sent s \<and> items (sys_ring s') = []"
proof -
  obtain s1 where s1: "(cons_step ops)\<^sup>*\<^sup>* s s1" "sys_ok s1" "sys_cons s1 = CIdle" "sys_sent s1 = sys_sent s"
    using finish_call [OF assms] by blast
  then obtain s' where "(cons_step ops)\<^sup>*\<^sup>* s1 s'" "sys_got s' = sys_sent s" "sys_sent s' = sys_sent s" "items (sys_ring s') = []"
    using drain_idle by metis
  then show ?thesis using s1(1) by (meson rtranclp_trans)
qed

text \<open>The producer alone: a call on a ring with room sends its item in four actions.\<close>

lemma push_one:
  assumes s: "sys_ok s" "sys_prod s = PIdle" "length (items (sys_ring s)) < cap (sys_ring s)"
  shows "\<exists>s'. (prod_step ops ^^ 4) s s' \<and> sys_prod s' = PIdle \<and> sys_sent s' = sys_sent s @ [x]"
proof -
  have o: "ok (sys_ring s)" using s by (simp add: sys_ok_def)
  let ?h = "ro_head ops (sys_ring s)"
  let ?s1 = "s\<lparr>sys_prod := PHead x ?h\<rparr>"
  let ?s2 = "?s1\<lparr>sys_prod := PRoom x ?h\<rparr>"
  obtain r where r: "ro_write ops (sys_ring s) ?h x = Some r" using write_law [OF o s(3), of x] by blast
  let ?s3 = "?s2\<lparr>sys_ring := r, sys_prod := PWrote x ?h\<rparr>"
  let ?s4 = "?s3\<lparr>sys_ring := ro_publish ops (sys_ring ?s3) ?h, sys_prod := PIdle, sys_sent := sys_sent ?s3 @ [x]\<rparr>"
  have 1: "prod_step ops s ?s1" using s(2) by (rule prod_step.load_head)
  have 2: "prod_step ops ?s1 ?s2" using prod_step.load_tail [of ?s1 x ?h ops] room_iff [OF o] s(3) by simp
  have 3: "prod_step ops ?s2 ?s3" by (rule prod_step.write_slot) (simp_all add: r)
  have 4: "prod_step ops ?s3 ?s4" by (rule prod_step.store_head) simp
  have "(prod_step ops ^^ 4) s ?s4" using 1 2 3 4 by (auto simp: eval_nat_numeral intro!: relcomppI)
  then show ?thesis by (intro exI [of _ ?s4]) simp
qed

end

section \<open>Calls from one thread\<close>

definition ring_push :: "('r, 'a) ring_ops \<Rightarrow> 'r \<Rightarrow> 'a ptr \<Rightarrow> (bool \<times> 'r) option" where
  "ring_push ops r item =
     (if ro_room ops r (ro_head ops r)
      then do { r' \<leftarrow> ro_write ops r (ro_head ops r) item; Some (True, ro_publish ops r' (ro_head ops r)) }
      else Some (False, r))"

definition ring_pop :: "('r, 'a) ring_ops \<Rightarrow> 'r \<Rightarrow> ('a ptr option \<times> 'r) option" where
  "ring_pop ops r =
     (if ro_avail ops r (ro_tail ops r)
      then do { x \<leftarrow> ro_read ops r (ro_tail ops r); Some (Some x, ro_release ops r (ro_tail ops r)) }
      else Some (None, r))"

lemma ringbuf_calls: "op_ringbuf_push = ring_push ringbuf_ops" "op_ringbuf_pop = ring_pop ringbuf_ops"
  by (intro ext, auto simp: op_ringbuf_push_def op_ringbuf_pop_def ring_push_def ring_pop_def ringbuf_ops_def Let_def
      split: Option.bind_splits)+

lemma spsc_calls: "op_spsc_push = ring_push spsc_ops"
  "op_spsc_pop q = map_option (\<lambda>(x, q). (case x of None \<Rightarrow> NULL | Some x \<Rightarrow> x, q)) (ring_pop spsc_ops q)"
  by (intro ext, auto simp: op_spsc_push_def op_spsc_pop_def ring_push_def ring_pop_def spsc_ops_def Let_def
      split: Option.bind_splits)+

datatype 'a ring_req = RPush "'a ptr" | RPop

text \<open>The answers: whether the call succeeded, and the item received.\<close>

fun ring_run :: "('r \<Rightarrow> 'a ptr \<Rightarrow> (bool \<times> 'r) option) \<Rightarrow> ('r \<Rightarrow> ('a ptr option \<times> 'r) option) \<Rightarrow> 'r \<Rightarrow> 'a ring_req list
    \<Rightarrow> ((bool \<times> 'a ptr) list \<times> 'r) option" where
  "ring_run push pop r [] = Some ([], r)"
| "ring_run push pop r (RPush x # rs) = do {
     (b, r) \<leftarrow> push r x;
     (as, r) \<leftarrow> ring_run push pop r rs;
     Some ((b, NULL) # as, r) }"
| "ring_run push pop r (RPop # rs) = do {
     (x, r) \<leftarrow> pop r;
     (as, r) \<leftarrow> ring_run push pop r rs;
     Some ((x \<noteq> None, case x of None \<Rightarrow> NULL | Some x \<Rightarrow> x) # as, r) }"

fun queue_run :: "nat \<Rightarrow> 'a ptr list \<Rightarrow> 'a ring_req list \<Rightarrow> (bool \<times> 'a ptr) list \<times> 'a ptr list" where
  "queue_run n xs [] = ([], xs)"
| "queue_run n xs (RPush x # rs) =
     (let (as, ys) = queue_run n (if length xs < n then xs @ [x] else xs) rs in ((length xs < n, NULL) # as, ys))"
| "queue_run n xs (RPop # rs) =
     (let (as, ys) = queue_run n (tl xs) rs in ((xs \<noteq> [], if xs = [] then NULL else hd xs) # as, ys))"

context ring
begin

lemma run_refines_queue:
  "ok r \<Longrightarrow> \<exists>r'. ring_run (ring_push ops) (ring_pop ops) r rs = Some (fst (queue_run (cap r) (items r) rs), r')
     \<and> ok r' \<and> items r' = snd (queue_run (cap r) (items r) rs)"
proof (induction rs arbitrary: r)
  case (Cons q rs)
  show ?case
  proof (cases q)
    case (RPush x)
    show ?thesis
    proof (cases "length (items r) < cap r")
      case True
      obtain r1 where w: "ro_write ops r (ro_head ops r) x = Some r1" "ok r1" "items r1 = items r" "pending r1 = x"
        "ro_head ops r1 = ro_head ops r" "cap r1 = cap r"
        using write_law [OF Cons.prems True] by blast
      let ?r = "ro_publish ops r1 (ro_head ops r)"
      have p: "ok ?r" "items ?r = items r @ [x]" "cap ?r = cap r"
        using publish_law [OF w(2)] w(3-6) True by auto
      have "ring_push ops r x = Some (True, ?r)" using room_iff [OF Cons.prems] True w(1) by (simp add: ring_push_def)
      then show ?thesis using RPush True Cons.IH [OF p(1)] p(2,3) by (auto simp: case_prod_beta)
    next
      case False
      then have "ring_push ops r x = Some (False, r)" using room_iff [OF Cons.prems] by (simp add: ring_push_def)
      then show ?thesis using RPush False Cons.IH [OF Cons.prems] by (auto simp: case_prod_beta)
    qed
  next
    case RPop
    show ?thesis
    proof (cases "items r = []")
      case True
      then have "ring_pop ops r = Some (None, r)" using avail_iff [OF Cons.prems] by (simp add: ring_pop_def)
      then show ?thesis using RPop True Cons.IH [OF Cons.prems] by (auto simp: case_prod_beta)
    next
      case False
      let ?r = "ro_release ops r (ro_tail ops r)"
      have l: "ok ?r" "items ?r = tl (items r)" "cap ?r = cap r" using release_law [OF Cons.prems False] by auto
      have "ring_pop ops r = Some (Some (hd (items r)), ?r)"
        using avail_iff [OF Cons.prems] read_law [OF Cons.prems False] False by (simp add: ring_pop_def)
      then show ?thesis using RPop False Cons.IH [OF l(1)] l(2,3) by (auto simp: case_prod_beta)
    qed
  qed
qed simp

end

section \<open>The two rings meet the contract\<close>

text \<open>\<open>n\<close> slots, a tail position and a count.\<close>

definition ring_items :: "'a list \<Rightarrow> nat \<Rightarrow> nat \<Rightarrow> 'a list" where
  "ring_items slots t c = map (\<lambda>i. slots ! ((t + i) mod length slots)) [0..<c]"

lemma length_ring_items [simp]: "length (ring_items slots t c) = c"
  by (simp add: ring_items_def)

lemma ring_items_Nil [simp]: "ring_items slots t c = [] \<longleftrightarrow> c = 0"
  by (simp add: ring_items_def)

lemma ring_items_snoc: "ring_items slots t (Suc c) = ring_items slots t c @ [slots ! ((t + c) mod length slots)]"
  by (simp add: ring_items_def)

lemma ring_items_Cons: "ring_items slots t (Suc c) = slots ! (t mod length slots) # ring_items slots (Suc t) c"
  by (simp add: ring_items_def upt_conv_Cons map_Suc_upt [symmetric] del: upt_Suc)

lemma ring_items_mod: "t mod length slots = t' mod length slots \<Longrightarrow> ring_items slots t c = ring_items slots t' c"
  unfolding ring_items_def by (metis mod_add_left_eq)

lemma ring_items_write:
  assumes "c < length slots"
  shows "ring_items (slots[(t + c) mod length slots := x]) t c = ring_items slots t c"
proof -
  have "(t + c) mod length slots \<noteq> (t + i) mod length slots" if "i < c" for i
  proof
    assume "(t + c) mod length slots = (t + i) mod length slots"
    then have "length slots dvd (t + c) - (t + i)" by (metis mod_eq_dvd_iff_nat nat_add_left_cancel_le less_imp_le_nat that)
    then have "length slots dvd c - i" by simp
    then show False using that assms by (auto dest: dvd_imp_le)
  qed
  then show ?thesis by (auto simp: ring_items_def)
qed

text \<open>The distance from \<open>t\<close> to \<open>h\<close> around a circle of \<open>n\<close> positions.\<close>

definition ring_diff :: "nat \<Rightarrow> nat \<Rightarrow> nat \<Rightarrow> nat" where
  "ring_diff n h t = (h + (n - t)) mod n"

lemma ring_diff_cases:
  assumes "h < n" "t < n"
  shows "ring_diff n h t = (if t \<le> h then h - t else h + n - t)"
proof (cases "t \<le> h")
  case True
  then have e: "h + (n - t) = (h - t) + n" using assms by simp
  have "ring_diff n h t = h - t" unfolding ring_diff_def e mod_add_self2 using assms by simp
  then show ?thesis using True by simp
next
  case False
  then have "h + (n - t) < n" using assms by simp
  then show ?thesis using False assms by (simp add: ring_diff_def)
qed

lemma succ_mod: "h < n \<Longrightarrow> Suc h mod n = (if Suc h = n then 0 else Suc h)"
  by simp

lemma ring_diff_facts:
  assumes "h < n" "t < n"
  shows "(t + ring_diff n h t) mod n = h" and "ring_diff n h t < n" and "ring_diff n h t = 0 \<longleftrightarrow> h = t"
    and "Suc h mod n = t \<longleftrightarrow> ring_diff n h t = n - 1"
    and "ring_diff n h t < n - 1 \<Longrightarrow> ring_diff n (Suc h mod n) t = Suc (ring_diff n h t)"
    and "h \<noteq> t \<Longrightarrow> ring_diff n h (Suc t mod n) = ring_diff n h t - 1"
proof -
  note c = ring_diff_cases [OF assms]
  show "(t + ring_diff n h t) mod n = h" using assms c by (cases "t \<le> h") auto
  show "ring_diff n h t < n" using assms by (simp add: ring_diff_def)
  show "ring_diff n h t = 0 \<longleftrightarrow> h = t" using assms c by (cases "t \<le> h") auto
  show "Suc h mod n = t \<longleftrightarrow> ring_diff n h t = n - 1" unfolding c succ_mod [OF assms(1)] using assms by (cases "t \<le> h") auto
  have m: "Suc h mod n < n" "Suc t mod n < n" using assms by simp_all
  show "ring_diff n (Suc h mod n) t = Suc (ring_diff n h t)" if "ring_diff n h t < n - 1"
    using that unfolding ring_diff_cases [OF m(1) assms(2)] c unfolding succ_mod [OF assms(1)] using assms
    by (cases "t \<le> h") (auto split: if_splits)
  show "ring_diff n h (Suc t mod n) = ring_diff n h t - 1" if "h \<noteq> t"
    using that unfolding ring_diff_cases [OF assms(1) m(2)] c unfolding succ_mod [OF assms(2)] using assms
    by (cases "t \<le> h") (auto split: if_splits)
qed

definition rb_ok :: "'a op_ringbuf \<Rightarrow> bool" where
  "rb_ok rb \<longleftrightarrow> (\<exists>k. 0 < k \<and> k \<le> 60 \<and> rb_mask rb = 2 ^ k - 1 \<and> length (rb_slots rb) = 2 ^ k)
     \<and> rb_head rb < length (rb_slots rb) \<and> rb_tail rb < length (rb_slots rb)"

definition rb_items :: "'a op_ringbuf \<Rightarrow> 'a ptr list" where
  "rb_items rb = ring_items (rb_slots rb) (rb_tail rb) (ring_diff (length (rb_slots rb)) (rb_head rb) (rb_tail rb))"

lemma rb_okD:
  assumes "rb_ok rb"
  shows "wrap64 (Suc x) AND rb_mask rb = Suc x mod length (rb_slots rb)" "x AND rb_mask rb = x mod length (rb_slots rb)"
    "rb_head rb < length (rb_slots rb)" "rb_tail rb < length (rb_slots rb)" "rb_mask rb = length (rb_slots rb) - 1"
proof -
  obtain k where k: "k \<le> 60" "rb_mask rb = 2 ^ k - 1" "length (rb_slots rb) = 2 ^ k" using assms by (auto simp: rb_ok_def)
  have "2 ^ k dvd W64" using k(1) by (intro pow2_dvd_W64) simp
  then show "wrap64 (Suc x) AND rb_mask rb = Suc x mod length (rb_slots rb)" "x AND rb_mask rb = x mod length (rb_slots rb)"
    unfolding k(2,3) and_mask_nat wrap64_def by (simp_all add: mod_mod_cancel)
qed (use assms in \<open>auto simp: rb_ok_def\<close>)

lemma length_rb_items: "length (rb_items rb) = ring_diff (length (rb_slots rb)) (rb_head rb) (rb_tail rb)"
  by (simp add: rb_items_def)

interpretation rbs: ring ringbuf_ops rb_ok rb_items rb_mask "\<lambda>rb. rb_slots rb ! rb_head rb"
proof
  fix r :: "'a op_ringbuf" assume ok: "rb_ok r"
  note o = rb_okD [OF ok] note f = ring_diff_facts [OF o(3,4)]
  let ?n = "length (rb_slots r)"
  have "ro_room ringbuf_ops r (ro_head ringbuf_ops r) \<longleftrightarrow> Suc (rb_head r) mod ?n \<noteq> rb_tail r" by (simp add: ringbuf_ops_def o(1))
  then show "ro_room ringbuf_ops r (ro_head ringbuf_ops r) \<longleftrightarrow> length (rb_items r) < rb_mask r"
    using f(2,4) by (auto simp: length_rb_items o(5))
  show "ro_avail ringbuf_ops r (ro_tail ringbuf_ops r) \<longleftrightarrow> rb_items r \<noteq> []"
    using f(3) by (auto simp: ringbuf_ops_def rb_items_def)
  show "length (rb_items r) \<le> rb_mask r" using f(2) by (simp add: length_rb_items o(5))
next
  fix r :: "'a op_ringbuf" and x :: "'a ptr"
  assume ok: "rb_ok r" and room: "length (rb_items r) < rb_mask r"
  note o = rb_okD [OF ok] note f = ring_diff_facts [OF o(3,4)]
  let ?n = "length (rb_slots r)"
  have "rb_items (r\<lparr>rb_slots := (rb_slots r)[rb_head r := x]\<rparr>) = rb_items r"
    using ring_items_write [of "ring_diff ?n (rb_head r) (rb_tail r)" "rb_slots r" "rb_tail r" x] f(1,2)
    by (simp add: rb_items_def)
  then show "\<exists>r'. ro_write ringbuf_ops r (ro_head ringbuf_ops r) x = Some r' \<and> rb_ok r' \<and> rb_items r' = rb_items r
      \<and> rb_slots r' ! rb_head r' = x \<and> ro_head ringbuf_ops r' = ro_head ringbuf_ops r \<and> ro_tail ringbuf_ops r' = ro_tail ringbuf_ops r
      \<and> rb_mask r' = rb_mask r"
    using ok o(3) by (simp add: ringbuf_ops_def arr_set_def o(2)) (auto simp: rb_ok_def)
next
  fix r :: "'a op_ringbuf"
  assume ok: "rb_ok r" and room: "length (rb_items r) < rb_mask r"
  note o = rb_okD [OF ok] note f = ring_diff_facts [OF o(3,4)]
  let ?n = "length (rb_slots r)"
  have "ring_diff ?n (rb_head r) (rb_tail r) < ?n - 1" using room by (simp add: length_rb_items o(5))
  then have "rb_items (r\<lparr>rb_head := Suc (rb_head r) mod ?n\<rparr>) = rb_items r @ [rb_slots r ! rb_head r]"
    using f(1,5) by (simp add: rb_items_def ring_items_snoc)
  moreover have "rb_ok (r\<lparr>rb_head := Suc (rb_head r) mod ?n\<rparr>)" using ok by (auto simp: rb_ok_def)
  ultimately show "rb_ok (ro_publish ringbuf_ops r (ro_head ringbuf_ops r))
      \<and> rb_items (ro_publish ringbuf_ops r (ro_head ringbuf_ops r)) = rb_items r @ [rb_slots r ! rb_head r]
      \<and> ro_tail ringbuf_ops (ro_publish ringbuf_ops r (ro_head ringbuf_ops r)) = ro_tail ringbuf_ops r
      \<and> rb_mask (ro_publish ringbuf_ops r (ro_head ringbuf_ops r)) = rb_mask r"
    by (simp add: ringbuf_ops_def o(1))
next
  fix r :: "'a op_ringbuf"
  assume ok: "rb_ok r" and ne: "rb_items r \<noteq> []"
  note o = rb_okD [OF ok] note f = ring_diff_facts [OF o(3,4)]
  let ?n = "length (rb_slots r)"
  obtain c where c: "ring_diff ?n (rb_head r) (rb_tail r) = Suc c" using ne by (auto simp: rb_items_def gr0_conv_Suc)
  have items: "rb_items r = rb_slots r ! rb_tail r # ring_items (rb_slots r) (Suc (rb_tail r)) c"
    using c o(4) by (simp add: rb_items_def ring_items_Cons)
  show "ro_read ringbuf_ops r (ro_tail ringbuf_ops r) = Some (hd (rb_items r))"
    using items o(4) by (simp add: ringbuf_ops_def arr_get_def o(2))
  have "rb_head r \<noteq> rb_tail r" using c f(3) by simp
  then have "rb_items (r\<lparr>rb_tail := Suc (rb_tail r) mod ?n\<rparr>) = tl (rb_items r)"
    using f(6) c items ring_items_mod [of "Suc (rb_tail r) mod ?n" "rb_slots r" "Suc (rb_tail r)" c] by (simp add: rb_items_def)
  moreover have "rb_ok (r\<lparr>rb_tail := Suc (rb_tail r) mod ?n\<rparr>)" using ok by (auto simp: rb_ok_def)
  ultimately show "rb_ok (ro_release ringbuf_ops r (ro_tail ringbuf_ops r))
      \<and> rb_items (ro_release ringbuf_ops r (ro_tail ringbuf_ops r)) = tl (rb_items r)
      \<and> rb_slots (ro_release ringbuf_ops r (ro_tail ringbuf_ops r)) ! rb_head (ro_release ringbuf_ops r (ro_tail ringbuf_ops r))
        = rb_slots r ! rb_head r
      \<and> ro_head ringbuf_ops (ro_release ringbuf_ops r (ro_tail ringbuf_ops r)) = ro_head ringbuf_ops r
      \<and> rb_mask (ro_release ringbuf_ops r (ro_tail ringbuf_ops r)) = rb_mask r"
    by (simp add: ringbuf_ops_def o(1))
qed

definition sq_ok :: "'a op_spsc \<Rightarrow> bool" where
  "sq_ok q \<longleftrightarrow> (\<exists>k. k \<le> 60 \<and> sq_mask q = 2 ^ k - 1 \<and> length (sq_slots q) = 2 ^ k)
     \<and> sq_head q < W64 \<and> sq_tail q < W64 \<and> sub64 (sq_head q) (sq_tail q) \<le> length (sq_slots q)"

definition sq_items :: "'a op_spsc \<Rightarrow> 'a ptr list" where
  "sq_items q = ring_items (sq_slots q) (sq_tail q) (sub64 (sq_head q) (sq_tail q))"

lemma sub64_ring_diff: "t < W64 \<Longrightarrow> sub64 h t = ring_diff W64 h t"
  by (simp add: sub64_def ring_diff_def)

lemma sq_okD:
  assumes "sq_ok q"
  shows "x AND sq_mask q = x mod length (sq_slots q)" "sq_head q < W64" "sq_tail q < W64"
    "sub64 (sq_head q) (sq_tail q) \<le> length (sq_slots q)" "sq_mask q = length (sq_slots q) - 1" "0 < length (sq_slots q)"
    "length (sq_slots q) dvd W64" "length (sq_slots q) < W64"
proof -
  obtain k where k: "k \<le> 60" "sq_mask q = 2 ^ k - 1" "length (sq_slots q) = 2 ^ k" using assms by (auto simp: sq_ok_def)
  show "x AND sq_mask q = x mod length (sq_slots q)" unfolding k(2,3) and_mask_nat by simp
  show "length (sq_slots q) dvd W64" using k(1,3) pow2_dvd_W64 [of k] by simp
  have "(2::nat) ^ k \<le> 2 ^ 60" using k(1) by (intro power_increasing) auto
  then show "length (sq_slots q) < W64" using k(3) by (simp add: W64_def)
  show "0 < length (sq_slots q)" "sq_mask q = length (sq_slots q) - 1" using k by auto
qed (use assms in \<open>auto simp: sq_ok_def\<close>)

lemma sq_facts:
  assumes "sq_ok q"
  shows "(sq_tail q + sub64 (sq_head q) (sq_tail q)) mod length (sq_slots q) = sq_head q mod length (sq_slots q)"
    and "sub64 (sq_head q) (sq_tail q) = 0 \<longleftrightarrow> sq_head q = sq_tail q"
    and "sub64 (sq_head q) (sq_tail q) < length (sq_slots q) \<Longrightarrow>
      sub64 (wrap64 (Suc (sq_head q))) (sq_tail q) = Suc (sub64 (sq_head q) (sq_tail q))"
    and "sq_head q \<noteq> sq_tail q \<Longrightarrow> sub64 (sq_head q) (wrap64 (Suc (sq_tail q))) = sub64 (sq_head q) (sq_tail q) - 1"
    and "Suc x mod W64 mod length (sq_slots q) = Suc x mod length (sq_slots q)"
proof -
  note o = sq_okD [OF assms] note f = ring_diff_facts [OF o(2,3)]
  note s = sub64_ring_diff [OF o(3)]
  have "(sq_tail q + sub64 (sq_head q) (sq_tail q)) mod W64 mod length (sq_slots q) = sq_head q mod length (sq_slots q)"
    using f(1) by (simp add: s)
  then show "(sq_tail q + sub64 (sq_head q) (sq_tail q)) mod length (sq_slots q) = sq_head q mod length (sq_slots q)"
    by (simp add: mod_mod_cancel [OF o(7)])
  show "sub64 (sq_head q) (sq_tail q) = 0 \<longleftrightarrow> sq_head q = sq_tail q" using f(3) by (simp add: s)
  show "sub64 (wrap64 (Suc (sq_head q))) (sq_tail q) = Suc (sub64 (sq_head q) (sq_tail q))"
    if "sub64 (sq_head q) (sq_tail q) < length (sq_slots q)"
    using f(5) that o(8) by (simp add: s wrap64_def)
  show "sub64 (sq_head q) (wrap64 (Suc (sq_tail q))) = sub64 (sq_head q) (sq_tail q) - 1" if "sq_head q \<noteq> sq_tail q"
    using f(6) [OF that] by (simp add: s sub64_ring_diff wrap64_def)
  show "Suc x mod W64 mod length (sq_slots q) = Suc x mod length (sq_slots q)" by (rule mod_mod_cancel [OF o(7)])
qed

interpretation sqs: ring spsc_ops sq_ok sq_items "\<lambda>q. length (sq_slots q)" "\<lambda>q. sq_slots q ! (sq_head q mod length (sq_slots q))"
proof
  fix r :: "'a op_spsc" assume ok: "sq_ok r"
  note o = sq_okD [OF ok] note f = sq_facts [OF ok]
  show "ro_room spsc_ops r (ro_head spsc_ops r) \<longleftrightarrow> length (sq_items r) < length (sq_slots r)"
  proof -
    have "\<not> sub64 (sq_head r) (sq_tail r) > sq_mask r \<longleftrightarrow> sub64 (sq_head r) (sq_tail r) < length (sq_slots r)"
      using o(5,6) by linarith
    then show ?thesis by (simp add: spsc_ops_def sq_items_def)
  qed
  show "ro_avail spsc_ops r (ro_tail spsc_ops r) \<longleftrightarrow> sq_items r \<noteq> []"
    using f(2) by (auto simp: spsc_ops_def sq_items_def)
  show "length (sq_items r) \<le> length (sq_slots r)" using o(4) by (simp add: sq_items_def)
next
  fix r :: "'a op_spsc" and x :: "'a ptr"
  assume ok: "sq_ok r" and room: "length (sq_items r) < length (sq_slots r)"
  note o = sq_okD [OF ok] note f = sq_facts [OF ok]
  let ?n = "length (sq_slots r)"
  have lt: "sub64 (sq_head r) (sq_tail r) < ?n" using room by (simp add: sq_items_def)
  have "sq_items (r\<lparr>sq_slots := (sq_slots r)[sq_head r mod ?n := x]\<rparr>) = sq_items r"
    using ring_items_write [OF lt, of "sq_tail r" x] f(1) by (simp add: sq_items_def)
  moreover have "sq_head r mod ?n < ?n" using o(6) by simp
  ultimately show "\<exists>r'. ro_write spsc_ops r (ro_head spsc_ops r) x = Some r' \<and> sq_ok r' \<and> sq_items r' = sq_items r
      \<and> sq_slots r' ! (sq_head r' mod length (sq_slots r')) = x \<and> ro_head spsc_ops r' = ro_head spsc_ops r
      \<and> ro_tail spsc_ops r' = ro_tail spsc_ops r \<and> length (sq_slots r') = length (sq_slots r)"
    using ok by (simp add: spsc_ops_def arr_set_def o(1)) (auto simp: sq_ok_def)
next
  fix r :: "'a op_spsc"
  assume ok: "sq_ok r" and room: "length (sq_items r) < length (sq_slots r)"
  note o = sq_okD [OF ok] note f = sq_facts [OF ok]
  let ?n = "length (sq_slots r)"
  have lt: "sub64 (sq_head r) (sq_tail r) < ?n" using room by (simp add: sq_items_def)
  have "sq_items (r\<lparr>sq_head := wrap64 (Suc (sq_head r))\<rparr>) = sq_items r @ [sq_slots r ! (sq_head r mod ?n)]"
    using f(1) f(3) [OF lt] by (simp add: sq_items_def ring_items_snoc)
  moreover have "sq_ok (r\<lparr>sq_head := wrap64 (Suc (sq_head r))\<rparr>)" using ok f(3) [OF lt] lt by (auto simp: sq_ok_def)
  ultimately show "sq_ok (ro_publish spsc_ops r (ro_head spsc_ops r))
      \<and> sq_items (ro_publish spsc_ops r (ro_head spsc_ops r)) = sq_items r @ [sq_slots r ! (sq_head r mod length (sq_slots r))]
      \<and> ro_tail spsc_ops (ro_publish spsc_ops r (ro_head spsc_ops r)) = ro_tail spsc_ops r
      \<and> length (sq_slots (ro_publish spsc_ops r (ro_head spsc_ops r))) = length (sq_slots r)"
    by (simp add: spsc_ops_def)
next
  fix r :: "'a op_spsc"
  assume ok: "sq_ok r" and ne: "sq_items r \<noteq> []"
  note o = sq_okD [OF ok] note f = sq_facts [OF ok]
  let ?n = "length (sq_slots r)"
  obtain c where c: "sub64 (sq_head r) (sq_tail r) = Suc c" using ne by (auto simp: sq_items_def gr0_conv_Suc)
  have items: "sq_items r = sq_slots r ! (sq_tail r mod ?n) # ring_items (sq_slots r) (Suc (sq_tail r)) c"
    using c by (simp add: sq_items_def ring_items_Cons)
  show "ro_read spsc_ops r (ro_tail spsc_ops r) = Some (hd (sq_items r))"
    using items o(6) by (simp add: spsc_ops_def arr_get_def o(1))
  have hd: "sq_head r \<noteq> sq_tail r" using c f(2) by simp
  have "ring_items (sq_slots r) (wrap64 (Suc (sq_tail r))) c = ring_items (sq_slots r) (Suc (sq_tail r)) c"
    using f(5) by (intro ring_items_mod) (simp add: wrap64_def)
  then have "sq_items (r\<lparr>sq_tail := wrap64 (Suc (sq_tail r))\<rparr>) = tl (sq_items r)"
    using f(4) [OF hd] c items by (simp add: sq_items_def)
  moreover have "sq_ok (r\<lparr>sq_tail := wrap64 (Suc (sq_tail r))\<rparr>)" using ok f(4) [OF hd] by (auto simp: sq_ok_def)
  ultimately show "sq_ok (ro_release spsc_ops r (ro_tail spsc_ops r))
      \<and> sq_items (ro_release spsc_ops r (ro_tail spsc_ops r)) = tl (sq_items r)
      \<and> sq_slots (ro_release spsc_ops r (ro_tail spsc_ops r)) ! (sq_head (ro_release spsc_ops r (ro_tail spsc_ops r))
          mod length (sq_slots (ro_release spsc_ops r (ro_tail spsc_ops r)))) = sq_slots r ! (sq_head r mod length (sq_slots r))
      \<and> ro_head spsc_ops (ro_release spsc_ops r (ro_tail spsc_ops r)) = ro_head spsc_ops r
      \<and> length (sq_slots (ro_release spsc_ops r (ro_tail spsc_ops r))) = length (sq_slots r)"
    by (simp add: spsc_ops_def)
qed

section \<open>Creation\<close>

lemma ringbuf_create_ok:
  assumes "capacity \<le> 2 ^ 60"
  shows "\<exists>rb :: 'a op_ringbuf. op_ringbuf_create capacity = Some rb \<and> rb_ok rb \<and> rb_items rb = []
    \<and> capacity \<le> Suc (rb_mask rb) \<and> (2 < capacity \<longrightarrow> Suc (rb_mask rb) < 2 * capacity)"
proof -
  define c where "c = (if capacity < 2 then 2 else capacity)"
  have "2 \<le> c" "c \<le> 2 ^ 63" using assms by (auto simp: c_def)
  then obtain k where k: "0 < k" "k \<le> 63" "smear64 (c - 1) + 1 = 2 ^ k" "c \<le> 2 ^ k" "2 ^ (k - 1) < c"
    using smear64_pow2 by blast
  have "(2::nat) ^ (k - 1) < 2 ^ 60" using k(5) assms by (auto simp: c_def split: if_splits)
  then have "k - 1 < 60" by (simp only: power_strict_increasing_iff one_less_numeral_iff semiring_norm)
  then have k60: "k \<le> 60" using k(1) by simp
  have "(2::nat) ^ k \<le> 2 ^ 60" using k60 by (intro power_increasing) auto
  then have w: "(2::nat) ^ k < W64" "192 + 2 ^ k * 8 < W64" by (simp_all add: W64_def)
  have s: "sub64 (2 ^ k) 1 = 2 ^ k - 1" using w(1) by (intro sub64_le) simp_all
  have "smear64 (c - 1) + 1 < W64" using k(3) w(1) by simp
  then have "wrap64 (smear64 (c - 1) + 1) = 2 ^ k" using k(3) by (metis wrap64_small)
  then have cr: "op_ringbuf_create capacity = Some \<lparr>rb_mask = 2 ^ k - 1, rb_head = 0, rb_tail = 0, rb_slots = replicate (2 ^ k) NULL\<rparr>"
    using w(2) s unfolding op_ringbuf_create_def c_def [symmetric] by (simp add: Let_def)
  have "c < 2 * c" using \<open>2 \<le> c\<close> by simp
  moreover have "(2::nat) ^ k = 2 * 2 ^ (k - 1)" using k(1) by (metis power_Suc Suc_pred')
  ultimately have "2 < capacity \<longrightarrow> (2::nat) ^ k < 2 * capacity" using k(5) by (auto simp: c_def)
  moreover have "capacity \<le> 2 ^ k" using k(4) by (simp add: c_def split: if_splits)
  ultimately show ?thesis using k(1) k60 cr by (auto simp: rb_ok_def rb_items_def ring_diff_def)
qed

lemma pow2_test:
  assumes "0 < (n::nat)" "n AND (n - 1) = 0"
  shows "\<exists>k. n = 2 ^ k"
proof -
  obtain k where k: "2 ^ k \<le> n" "n < 2 ^ Suc k" using pow2_bracket [OF assms(1)] by blast
  have bk: "bit x k" if "2 ^ k \<le> x" "x < 2 ^ Suc k" for x :: nat
  proof -
    have "x div 2 ^ k = 1" using that by (intro div_nat_eqI) auto
    then show ?thesis by (simp add: bit_iff_odd)
  qed
  have "n = 2 ^ k"
  proof (rule ccontr)
    assume "n \<noteq> 2 ^ k"
    then have "bit n k" "bit (n - 1) k" using bk [of n] bk [of "n - 1"] k by auto
    then have "bit (n AND (n - 1)) k" by (simp add: bit_and_iff)
    then show False using assms(2) by simp
  qed
  then show ?thesis ..
qed

lemma spsc_init_ok:
  assumes "op_spsc_init got capacity = Some (q :: 'a op_spsc)" "capacity \<le> 2 ^ 60"
  shows "sq_ok q \<and> sq_items q = [] \<and> length (sq_slots q) = capacity"
proof -
  have c: "0 < capacity" "capacity AND sub64 capacity 1 = 0"
    and q: "q = \<lparr>sq_head = 0, sq_tail = 0, sq_mask = sub64 capacity 1, sq_slots = replicate capacity NULL\<rparr>"
    using assms(1) by (auto simp: op_spsc_init_def split: if_splits)
  have s: "sub64 capacity 1 = capacity - 1" using c(1) assms(2) by (intro sub64_le) (auto simp: W64_def)
  then obtain k where k: "capacity = 2 ^ k" using pow2_test [OF c(1)] c(2) by auto
  then have "(2::nat) ^ k \<le> 2 ^ 60" using assms(2) by simp
  then have "k \<le> 60" by (simp only: power_increasing_iff one_less_numeral_iff semiring_norm)
  then show ?thesis using q s k by (auto simp: sq_ok_def sq_items_def sub64_def)
qed

section \<open>Properties\<close>

text \<open>
  C37. Used from one thread, a new masked ring is a bounded queue: of a requested capacity
  rounded up to a power of two it holds one item fewer, a push fails exactly when it is full,
  a pop exactly when it is empty, and items come out in the order they went in.
\<close>

theorem ringbuf_refines_queue:
  assumes "capacity \<le> 2 ^ 60"
  shows "\<exists>rb rb'. op_ringbuf_create capacity = Some (rb :: 'a op_ringbuf)
    \<and> capacity \<le> op_ringbuf_cap rb \<and> (2 < capacity \<longrightarrow> op_ringbuf_cap rb < 2 * capacity)
    \<and> ring_run op_ringbuf_push op_ringbuf_pop rb rs = Some (fst (queue_run (op_ringbuf_cap rb - 1) [] rs), rb')
    \<and> op_ringbuf_count rb' = length (snd (queue_run (op_ringbuf_cap rb - 1) [] rs))
    \<and> (op_ringbuf_empty rb' \<longleftrightarrow> snd (queue_run (op_ringbuf_cap rb - 1) [] rs) = [])"
proof -
  obtain rb :: "'a op_ringbuf" where rb: "op_ringbuf_create capacity = Some rb" "rb_ok rb" "rb_items rb = []"
    "capacity \<le> Suc (rb_mask rb)" "2 < capacity \<longrightarrow> Suc (rb_mask rb) < 2 * capacity"
    using ringbuf_create_ok [OF assms] by blast
  obtain rb' where r: "ring_run op_ringbuf_push op_ringbuf_pop rb rs = Some (fst (queue_run (rb_mask rb) [] rs), rb')"
    "rb_ok rb'" "rb_items rb' = snd (queue_run (rb_mask rb) [] rs)"
    using rbs.run_refines_queue [OF rb(2), of rs] rb(3) unfolding ringbuf_calls by auto
  obtain k where k: "k \<le> 60" "rb_mask rb = 2 ^ k - 1" using rb(2) by (auto simp: rb_ok_def)
  have "(2::nat) ^ k \<le> 2 ^ 60" using k(1) by (intro power_increasing) auto
  then have "Suc (rb_mask rb) < W64" using k(2) by (simp add: W64_def)
  then have cap: "op_ringbuf_cap rb = Suc (rb_mask rb)" by (simp add: op_ringbuf_cap_def wrap64_small)
  obtain k' where k': "k' \<le> 60" "rb_mask rb' = 2 ^ k' - 1" "length (rb_slots rb') = 2 ^ k'" using r(2) by (auto simp: rb_ok_def)
  note o = rb_okD [OF r(2)]
  have "op_ringbuf_count rb' = length (rb_items rb')"
    using sub64_mask [of k' "rb_tail rb'" "rb_head rb'"] k' o(4) by (simp add: op_ringbuf_count_def length_rb_items ring_diff_def)
  moreover have "op_ringbuf_empty rb' \<longleftrightarrow> rb_items rb' = []"
    using ring_diff_facts(3) [OF o(3,4)] by (auto simp: op_ringbuf_empty_def rb_items_def)
  ultimately show ?thesis using rb r cap by auto
qed

theorem ringbuf_refines_queue_witness:
  "\<exists>rb rb'. op_ringbuf_create 3 = Some (rb :: nat op_ringbuf) \<and> 3 \<le> op_ringbuf_cap rb
    \<and> ring_run op_ringbuf_push op_ringbuf_pop rb [RPush (Some 7), RPop, RPop]
      = Some ([(True, NULL), (True, Some 7), (False, NULL)], rb')"
proof -
  have three: "(3 :: nat) \<le> 2 ^ 60" by simp
  obtain rb :: "nat op_ringbuf" and rb' where r: "op_ringbuf_create 3 = Some rb" "3 \<le> op_ringbuf_cap rb"
    "ring_run op_ringbuf_push op_ringbuf_pop rb [RPush (Some 7), RPop, RPop]
      = Some (fst (queue_run (op_ringbuf_cap rb - 1) [] [RPush (Some 7), RPop, RPop]), rb')"
    using ringbuf_refines_queue [OF three, of "[RPush (Some 7), RPop, RPop]"] by blast
  have "op_ringbuf_cap rb - 1 > 0" using r(2) by simp
  then have "fst (queue_run (op_ringbuf_cap rb - 1) [] [RPush (Some 7), RPop, RPop]) = [(True, NULL), (True, Some 7), (False, NULL)]"
    by simp
  then show ?thesis using r by metis
qed

text \<open>
  C11. In every interleaving of one producer and one consumer on a masked ring, what has been
  received followed by what is in the ring is what has been sent, the ring never holds more
  than its mask, neither thread is ever blocked or leaves the slots, and when one thread is
  about to write a slot and the other to read one, the slots differ.
\<close>

theorem ringbuf_fifo:
  fixes rb :: "'a op_ringbuf"
  assumes "op_ringbuf_create capacity = Some rb" "capacity \<le> 2 ^ 60" "(ring_step ringbuf_ops)\<^sup>*\<^sup>* (ring_start rb) s"
  shows "sys_sent s = sys_got s @ rb_items (sys_ring s) \<and> length (rb_items (sys_ring s)) \<le> rb_mask rb
    \<and> (\<exists>s'. prod_step ringbuf_ops s s') \<and> (\<exists>s'. cons_step ringbuf_ops s s')
    \<and> (\<forall>x h t. sys_prod s = PRoom x h \<and> sys_cons s = CAvail t \<longrightarrow> h AND rb_mask rb \<noteq> t AND rb_mask rb)"
proof -
  have rb: "rb_ok rb" "rb_items rb = []"
    using ringbuf_create_ok [where 'a = 'a, OF assms(2)] assms(1) by auto
  have s: "rbs.sys_ok s" and m: "rb_mask (sys_ring s) = rb_mask rb" using rbs.reachable_ok [OF assms(3) rb] by auto
  have ok: "rb_ok (sys_ring s)" using s by (simp add: rbs.sys_ok_def)
  note o = rb_okD [OF ok]
  have race: "h AND rb_mask rb \<noteq> t AND rb_mask rb" if "sys_prod s = PRoom x h" "sys_cons s = CAvail t" for x h t
  proof -
    have "h = rb_head (sys_ring s)" "t = rb_tail (sys_ring s)" "rb_items (sys_ring s) \<noteq> []"
      using s that unfolding rbs.sys_ok_def prod_inv_def cons_inv_def by (auto simp: ringbuf_ops_def)
    moreover have "rb_head (sys_ring s) \<noteq> rb_tail (sys_ring s)"
      using calculation(3) ring_diff_facts(3) [OF o(3,4)] by (simp add: rb_items_def)
    ultimately show ?thesis using o(3,4) unfolding m [symmetric] o(2) by simp
  qed
  show ?thesis
    using s race rbs.never_stuck [OF s] rbs.cap_bound [OF ok] m by (auto simp: rbs.sys_ok_def)
qed

theorem ringbuf_fifo_witness:
  "\<exists>rb. op_ringbuf_create 2 = Some (rb :: nat op_ringbuf) \<and> (\<exists>s'. prod_step ringbuf_ops (ring_start rb) s')"
proof -
  obtain rb :: "nat op_ringbuf" where rb: "op_ringbuf_create 2 = Some rb" using ringbuf_create_ok [of 2] by auto
  have start: "(ring_step ringbuf_ops)\<^sup>*\<^sup>* (ring_start rb :: (nat op_ringbuf, nat) ring_sys) (ring_start rb)" by simp
  show ?thesis using ringbuf_fifo [OF rb _ start] rb by auto
qed

text \<open>
  C20. The counting ring makes progress: from every reachable state of a producer and a
  consumer the consumer alone, in a finite number of its actions, receives everything sent so
  far, in order; an idle producer with room sends its item in four actions; and an idle
  consumer of a non-empty ring receives the oldest item in four.
\<close>

theorem spsc_progress:
  assumes "op_spsc_init got capacity = Some q" "capacity \<le> 2 ^ 60" "(ring_step spsc_ops)\<^sup>*\<^sup>* (ring_start q) s"
  shows "(\<exists>s'. (cons_step spsc_ops)\<^sup>*\<^sup>* s s' \<and> sys_got s' = sys_sent s \<and> sys_sent s' = sys_sent s)
    \<and> (\<forall>x. sys_prod s = PIdle \<and> length (sys_sent s) < length (sys_got s) + capacity
        \<longrightarrow> (\<exists>s'. (prod_step spsc_ops ^^ 4) s s' \<and> sys_sent s' = sys_sent s @ [x]))
    \<and> (\<forall>x xs. sys_cons s = CIdle \<and> sys_sent s = sys_got s @ x # xs
        \<longrightarrow> (\<exists>s'. (cons_step spsc_ops ^^ 4) s s' \<and> sys_got s' = sys_got s @ [x]))"
proof -
  have q: "sq_ok q" "sq_items q = []" "length (sq_slots q) = capacity" using spsc_init_ok [OF assms(1,2)] by auto
  have s: "sqs.sys_ok s" and c: "length (sq_slots (sys_ring s)) = capacity"
    using sqs.reachable_ok [OF assms(3) q(1,2)] q(3) by auto
  then have sent: "sys_sent s = sys_got s @ sq_items (sys_ring s)" by (simp add: sqs.sys_ok_def)
  show ?thesis
  proof (intro conjI allI impI)
    show "\<exists>s'. (cons_step spsc_ops)\<^sup>*\<^sup>* s s' \<and> sys_got s' = sys_sent s \<and> sys_sent s' = sys_sent s"
      using sqs.drain [OF s] by blast
    fix x xs
    show "\<exists>s'. (prod_step spsc_ops ^^ 4) s s' \<and> sys_sent s' = sys_sent s @ [x]"
      if "sys_prod s = PIdle \<and> length (sys_sent s) < length (sys_got s) + capacity"
      using sqs.push_one [OF s, of x] that sent c by auto
    show "\<exists>s'. (cons_step spsc_ops ^^ 4) s s' \<and> sys_got s' = sys_got s @ [x]"
      if "sys_cons s = CIdle \<and> sys_sent s = sys_got s @ x # xs"
      using sqs.pop_one [OF s] that sent by auto
  qed
qed

theorem spsc_progress_witness:
  "\<exists>q s'. op_spsc_init True 4 = Some (q :: nat op_spsc)
    \<and> (prod_step spsc_ops ^^ 4) (ring_start q) s' \<and> sys_sent s' = [Some 7]"
proof -
  let ?q = "\<lparr>sq_head = 0, sq_tail = 0, sq_mask = 3, sq_slots = replicate 4 NULL\<rparr> :: nat op_spsc"
  have q: "op_spsc_init True 4 = Some ?q" by (simp add: op_spsc_init_def sub64_le W64_def)
  have "(ring_step spsc_ops)\<^sup>*\<^sup>* (ring_start ?q :: (nat op_spsc, nat) ring_sys) (ring_start ?q)" by simp
  then have "\<exists>s'. (prod_step spsc_ops ^^ 4) (ring_start ?q :: (nat op_spsc, nat) ring_sys) s' \<and> sys_sent s' = [Some 7]"
    using spsc_progress [OF q, of "ring_start ?q"] by (simp add: ring_start_def)
  then show ?thesis using q by blast
qed

end
