(* ===== verification/Ratelimit.thy ===== *)
theory Ratelimit
  imports Libop_Prelude
begin

text \<open>
  \<^verbatim>\<open>include/op_ratelimit.h\<close>: the token bucket.  Times are microseconds in 64 bits; tokens and
  capacity are thousandths of a token in 32 bits.  The integers are natural numbers with the
  wrap-around of their width written out, and dividing by a zero rate is undefined (\<open>None\<close>).
\<close>

section \<open>Model\<close>

definition OP_RATELIMIT_SCALE :: nat where
  "OP_RATELIMIT_SCALE = 1000"

definition UINT64_MAX :: nat where
  "UINT64_MAX = W64 - 1"

record op_ratelimit =
  rl_last_refill :: nat
  rl_rate_usec :: nat
  rl_tokens :: nat
  rl_capacity :: nat

definition op_ratelimit_init :: "nat \<Rightarrow> nat \<Rightarrow> nat \<Rightarrow> op_ratelimit" where
  "op_ratelimit_init capacity rate_per_sec now_usec =
     \<lparr>rl_last_refill = now_usec,
      rl_rate_usec = (if rate_per_sec > 0 then 1000000 div rate_per_sec else UINT64_MAX),
      rl_tokens = wrap32 (capacity * OP_RATELIMIT_SCALE),
      rl_capacity = wrap32 (capacity * OP_RATELIMIT_SCALE)\<rparr>"

text \<open>The refill, which both checks begin with.\<close>

definition rl_refill :: "op_ratelimit \<Rightarrow> nat \<Rightarrow> op_ratelimit option" where
  "rl_refill rl now_usec =
     (let elapsed = (if now_usec > rl_last_refill rl then now_usec - rl_last_refill rl else 0);
          rl = rl\<lparr>rl_last_refill := now_usec\<rparr>
      in if rl_rate_usec rl < UINT64_MAX \<and> elapsed > 0
         then if rl_rate_usec rl = 0 then None
              else let new_tokens = wrap64 ((elapsed div rl_rate_usec rl) * OP_RATELIMIT_SCALE);
                       total = wrap64 (rl_tokens rl + new_tokens)
                   in Some (rl\<lparr>rl_tokens := (if total > rl_capacity rl then rl_capacity rl else wrap32 total)\<rparr>)
         else Some rl)"

definition op_ratelimit_check :: "op_ratelimit \<Rightarrow> nat \<Rightarrow> (bool \<times> op_ratelimit) option" where
  "op_ratelimit_check rl now_usec = map_option (\<lambda>rl.
     if rl_tokens rl < OP_RATELIMIT_SCALE then (False, rl)
     else (True, rl\<lparr>rl_tokens := rl_tokens rl - OP_RATELIMIT_SCALE\<rparr>)) (rl_refill rl now_usec)"

definition op_ratelimit_check_n :: "op_ratelimit \<Rightarrow> nat \<Rightarrow> nat \<Rightarrow> (bool \<times> op_ratelimit) option" where
  "op_ratelimit_check_n rl now_usec n = map_option (\<lambda>rl.
     let cost = wrap32 (n * OP_RATELIMIT_SCALE) in
     if rl_tokens rl < cost then (False, rl)
     else (True, rl\<lparr>rl_tokens := rl_tokens rl - cost\<rparr>)) (rl_refill rl now_usec)"

definition op_ratelimit_tokens :: "op_ratelimit \<Rightarrow> nat" where
  "op_ratelimit_tokens rl = rl_tokens rl div OP_RATELIMIT_SCALE"

definition op_ratelimit_reset :: "op_ratelimit \<Rightarrow> nat \<Rightarrow> op_ratelimit" where
  "op_ratelimit_reset rl now_usec = rl\<lparr>rl_tokens := rl_capacity rl, rl_last_refill := now_usec\<rparr>"

definition op_ratelimit_drain :: "op_ratelimit \<Rightarrow> op_ratelimit" where
  "op_ratelimit_drain rl = rl\<lparr>rl_tokens := 0\<rparr>"

text \<open>A client that asks for one token at each of the times \<open>ts\<close>.\<close>

fun ratelimit_run :: "op_ratelimit \<Rightarrow> nat list \<Rightarrow> (bool list \<times> op_ratelimit) option" where
  "ratelimit_run rl [] = Some ([], rl)"
| "ratelimit_run rl (t # ts) =
     (case op_ratelimit_check rl t of
        None \<Rightarrow> None
      | Some (b, rl) \<Rightarrow> map_option (\<lambda>(bs, rl). (b # bs, rl)) (ratelimit_run rl ts))"

section \<open>The invariant\<close>

definition rl_ok :: "op_ratelimit \<Rightarrow> bool" where
  "rl_ok rl \<longleftrightarrow> rl_tokens rl \<le> rl_capacity rl \<and> rl_capacity rl < 2 ^ 32 \<and> 0 < rl_rate_usec rl"

lemma ratelimit_init_ok: "rate_per_sec \<le> 1000000 \<Longrightarrow> rl_ok (op_ratelimit_init capacity rate_per_sec now)"
  by (simp add: rl_ok_def op_ratelimit_init_def wrap32_def UINT64_MAX_def W64_def div_greater_zero_iff)

lemma wrap64_le: "wrap64 n \<le> n"
  by (simp add: wrap64_def)

text \<open>
  Whatever the clock, a refill returns, keeps the invariant and adds at most the whole token
  periods since the last one; below \<open>2 ^ 53\<close> microseconds it adds exactly those, up to the
  capacity.
\<close>

lemma refill_spec:
  assumes "rl_ok rl"
  shows "\<exists>rl'. rl_refill rl now = Some rl' \<and> rl_ok rl' \<and> rl_last_refill rl' = now
    \<and> rl_rate_usec rl' = rl_rate_usec rl \<and> rl_capacity rl' = rl_capacity rl
    \<and> rl_tokens rl' \<le> rl_tokens rl + (now - rl_last_refill rl) div rl_rate_usec rl * 1000
    \<and> (now < 2 ^ 53 \<and> rl_rate_usec rl < UINT64_MAX \<longrightarrow>
         rl_tokens rl' = min (rl_capacity rl) (rl_tokens rl + (now - rl_last_refill rl) div rl_rate_usec rl * 1000))"
proof (cases "rl_rate_usec rl < UINT64_MAX \<and> now > rl_last_refill rl")
  case False
  then have "rl_refill rl now = Some (rl\<lparr>rl_last_refill := now\<rparr>)" by (auto simp: rl_refill_def)
  then show ?thesis using False assms by (auto simp: rl_ok_def)
next
  case True
  let ?e = "(now - rl_last_refill rl) div rl_rate_usec rl * 1000"
  define total where "total = wrap64 (rl_tokens rl + wrap64 ?e)"
  let ?rl = "rl\<lparr>rl_last_refill := now, rl_tokens := (if total > rl_capacity rl then rl_capacity rl else wrap32 total)\<rparr>"
  have r: "rl_refill rl now = Some ?rl"
    using True assms by (simp add: rl_refill_def Let_def total_def OP_RATELIMIT_SCALE_def rl_ok_def)
  have le: "total \<le> rl_tokens rl + ?e"
    unfolding total_def by (rule order_trans [OF wrap64_le]) (simp add: wrap64_le)
  have small: "wrap32 total = total" if "\<not> total > rl_capacity rl" using that assms by (simp add: wrap32_def rl_ok_def)
  have exact: "total = rl_tokens rl + ?e" if "now < 2 ^ 53"
  proof -
    have "?e \<le> (now - rl_last_refill rl) * 1000" by (intro mult_right_mono div_le_dividend) simp
    also have "\<dots> < 2 ^ 63" using that by simp
    finally have "?e < 2 ^ 63" .
    then show ?thesis using assms unfolding total_def by (simp add: wrap64_def W64_def rl_ok_def)
  qed
  have "rl_tokens ?rl \<le> rl_tokens rl + ?e" using le small by (cases "total > rl_capacity rl") auto
  moreover have "rl_tokens ?rl = min (rl_capacity rl) (rl_tokens rl + ?e)" if "now < 2 ^ 53"
    using exact [OF that] small by (cases "total > rl_capacity rl") auto
  moreover have "rl_ok ?rl" using assms small by (cases "total > rl_capacity rl") (auto simp: rl_ok_def)
  ultimately show ?thesis using r by auto
qed

lemma check_spec:
  assumes "rl_ok rl"
  shows "\<exists>b rl'. op_ratelimit_check rl now = Some (b, rl') \<and> rl_ok rl' \<and> rl_last_refill rl' = now
    \<and> rl_rate_usec rl' = rl_rate_usec rl \<and> rl_capacity rl' = rl_capacity rl
    \<and> rl_tokens rl' + of_bool b * 1000 \<le> rl_tokens rl + (now - rl_last_refill rl) div rl_rate_usec rl * 1000
    \<and> (b \<or> rl_tokens rl' < 1000)"
proof -
  define e where "e = (now - rl_last_refill rl) div rl_rate_usec rl * 1000"
  obtain rl' where r: "rl_refill rl now = Some rl'" "rl_ok rl'" "rl_last_refill rl' = now" "rl_rate_usec rl' = rl_rate_usec rl"
    "rl_capacity rl' = rl_capacity rl" "rl_tokens rl' \<le> rl_tokens rl + e"
    using refill_spec [OF assms] unfolding e_def by blast
  show ?thesis
  proof (cases "rl_tokens rl' < 1000")
    case True
    then have "op_ratelimit_check rl now = Some (False, rl')"
      using r(1) by (simp add: op_ratelimit_check_def OP_RATELIMIT_SCALE_def)
    then show ?thesis using r True by (auto simp flip: e_def)
  next
    case False
    let ?rl = "rl'\<lparr>rl_tokens := rl_tokens rl' - 1000\<rparr>"
    have "op_ratelimit_check rl now = Some (True, ?rl)"
      using r(1) False by (simp add: op_ratelimit_check_def OP_RATELIMIT_SCALE_def)
    moreover have "rl_ok ?rl" using r(2) by (auto simp: rl_ok_def)
    moreover have "rl_tokens ?rl + of_bool True * 1000 \<le> rl_tokens rl + e" using False r(6) by simp
    ultimately show ?thesis using r(3-5) by (intro exI [of _ True] exI [of _ ?rl]) (simp flip: e_def)
  qed
qed

text \<open>Whole periods of parts add up to at most the whole periods of the sum.\<close>

lemma div_add_le: "(a :: nat) div r + b div r \<le> (a + b) div r"
  by (simp add: div_add1_eq [of a b r])

section \<open>Properties\<close>

text \<open>
  C19. The limiter limits: over any sequence of checks at non-decreasing times it always
  answers, keeps its tokens within the capacity, and allows at most the tokens in the bucket
  at the start plus one for each whole token period that has passed.
\<close>

theorem ratelimit_bounds_events:
  assumes "rl_ok rl" "sorted (rl_last_refill rl # ts)"
  shows "\<exists>bs rl'. ratelimit_run rl ts = Some (bs, rl') \<and> length bs = length ts \<and> rl_ok rl'
    \<and> 1000 * length (filter (\<lambda>b. b) bs) \<le> rl_tokens rl + 1000 * ((last (rl_last_refill rl # ts) - rl_last_refill rl) div rl_rate_usec rl)"
proof -
  have "\<exists>bs rl'. ratelimit_run rl ts = Some (bs, rl') \<and> length bs = length ts \<and> rl_ok rl'
    \<and> rl_tokens rl' + 1000 * length (filter (\<lambda>b. b) bs)
        \<le> rl_tokens rl + 1000 * ((last (rl_last_refill rl # ts) - rl_last_refill rl) div rl_rate_usec rl)"
    using assms
  proof (induction ts arbitrary: rl)
    case (Cons t ts)
    obtain b rl1 where c: "op_ratelimit_check rl t = Some (b, rl1)" "rl_ok rl1" "rl_last_refill rl1 = t"
      "rl_rate_usec rl1 = rl_rate_usec rl"
      "rl_tokens rl1 + of_bool b * 1000 \<le> rl_tokens rl + (t - rl_last_refill rl) div rl_rate_usec rl * 1000"
      using check_spec [OF Cons.prems(1)] by blast
    obtain bs rl' where r: "ratelimit_run rl1 ts = Some (bs, rl')" "length bs = length ts" "rl_ok rl'"
      "rl_tokens rl' + 1000 * length (filter (\<lambda>b. b) bs) \<le> rl_tokens rl1 + 1000 * ((last (t # ts) - t) div rl_rate_usec rl)"
      using Cons.IH [OF c(2)] Cons.prems(2) c(3,4) by auto
    have "t \<le> last (t # ts)" using Cons.prems(2) by (cases ts) auto
    then have "(t - rl_last_refill rl) + (last (t # ts) - t) = last (t # ts) - rl_last_refill rl"
      using Cons.prems(2) by simp
    then have "(t - rl_last_refill rl) div rl_rate_usec rl + (last (t # ts) - t) div rl_rate_usec rl
        \<le> (last (t # ts) - rl_last_refill rl) div rl_rate_usec rl"
      using div_add_le [of "t - rl_last_refill rl" "rl_rate_usec rl" "last (t # ts) - t"] by simp
    moreover have "length (filter (\<lambda>b. b) (b # bs)) = of_bool b + length (filter (\<lambda>b. b) bs)" by simp
    ultimately have "rl_tokens rl' + 1000 * length (filter (\<lambda>b. b) (b # bs))
        \<le> rl_tokens rl + 1000 * ((last (t # ts) - rl_last_refill rl) div rl_rate_usec rl)"
      using r(4) c(5) by (simp add: algebra_simps)
    then show ?case using c(1) r by simp
  qed simp
  then show ?thesis by (meson add_leD2 order_trans)
qed

theorem ratelimit_bounds_events_witness:
  "\<exists>bs rl'. ratelimit_run (op_ratelimit_init 2 5 0) [0, 0, 0, 200000] = Some (bs, rl') \<and> length (filter (\<lambda>b. b) bs) \<le> 3"
proof -
  have "rl_ok (op_ratelimit_init 2 5 0)" by (rule ratelimit_init_ok) simp
  from ratelimit_bounds_events [OF this, of "[0, 0, 0, 200000]"]
  show ?thesis by (auto simp: op_ratelimit_init_def wrap32_def OP_RATELIMIT_SCALE_def)
qed

text \<open>
  A refused client recovers: once a whole token period has passed since the last check, the
  next check of a bucket that can hold a token succeeds.
\<close>

theorem ratelimit_recovers:
  assumes "rl_ok rl" "1000 \<le> rl_capacity rl" "rl_rate_usec rl < UINT64_MAX" "now < 2 ^ 53"
    "rl_last_refill rl + rl_rate_usec rl \<le> now"
  shows "\<exists>rl'. op_ratelimit_check rl now = Some (True, rl')"
proof -
  obtain rl' where r: "rl_refill rl now = Some rl'"
    "rl_tokens rl' = min (rl_capacity rl) (rl_tokens rl + (now - rl_last_refill rl) div rl_rate_usec rl * 1000)"
    using refill_spec [OF assms(1)] assms(3,4) by blast
  have "1 \<le> (now - rl_last_refill rl) div rl_rate_usec rl"
    using assms(1,5) by (simp add: rl_ok_def div_greater_zero_iff Suc_le_eq le_diff_conv2)
  then have "1000 \<le> rl_tokens rl'" using r(2) assms(2) by simp
  then show ?thesis using r(1) by (simp add: op_ratelimit_check_def OP_RATELIMIT_SCALE_def)
qed

theorem ratelimit_recovers_witness:
  "\<exists>rl'. op_ratelimit_check (op_ratelimit_drain (op_ratelimit_init 10 5 0)) 200000 = Some (True, rl')"
  by (rule ratelimit_recovers)
    (simp_all add: op_ratelimit_drain_def op_ratelimit_init_def rl_ok_def wrap32_def OP_RATELIMIT_SCALE_def UINT64_MAX_def W64_def)

text \<open>
  C38. A client that asks more often than once per token period is never refilled: the elapsed
  time is rounded down to whole periods at each check and the remainder is dropped, so over any
  number of such checks it is allowed at most the tokens it started with, however long it takes.
\<close>

theorem ratelimit_fast_checks_starve:
  assumes "rl_ok rl" "\<forall>i < length ts. ts ! i < (rl_last_refill rl # ts) ! i + rl_rate_usec rl"
  shows "\<exists>bs rl'. ratelimit_run rl ts = Some (bs, rl')
    \<and> rl_tokens rl' + 1000 * length (filter (\<lambda>b. b) bs) \<le> rl_tokens rl"
  using assms
proof (induction ts arbitrary: rl)
  case (Cons t ts)
  obtain b rl1 where c: "op_ratelimit_check rl t = Some (b, rl1)" "rl_ok rl1" "rl_last_refill rl1 = t"
    "rl_rate_usec rl1 = rl_rate_usec rl"
    "rl_tokens rl1 + of_bool b * 1000 \<le> rl_tokens rl + (t - rl_last_refill rl) div rl_rate_usec rl * 1000"
    using check_spec [OF Cons.prems(1)] by blast
  have "t < rl_last_refill rl + rl_rate_usec rl" using Cons.prems(2) by auto
  then have "t - rl_last_refill rl < rl_rate_usec rl" using Cons.prems(1) by (auto simp: rl_ok_def)
  then have "(t - rl_last_refill rl) div rl_rate_usec rl = 0" by (rule div_less)
  then have tok: "rl_tokens rl1 + of_bool b * 1000 \<le> rl_tokens rl" using c(5) by simp
  have "\<forall>i < length ts. ts ! i < (rl_last_refill rl1 # ts) ! i + rl_rate_usec rl1" using Cons.prems(2) c(3,4) by auto
  then obtain bs rl' where "ratelimit_run rl1 ts = Some (bs, rl')" "rl_tokens rl' + 1000 * length (filter (\<lambda>b. b) bs) \<le> rl_tokens rl1"
    using Cons.IH [OF c(2)] by blast
  then show ?case using c(1) tok by auto
qed simp

theorem ratelimit_fast_checks_starve_witness:
  "\<exists>bs rl'. ratelimit_run (op_ratelimit_init 1 5 0) [0, 150000, 300000, 450000] = Some (bs, rl') \<and> length (filter (\<lambda>b. b) bs) \<le> 1"
proof -
  have "rl_ok (op_ratelimit_init 1 5 0)" by (rule ratelimit_init_ok) simp
  moreover have "\<forall>i < length [0, 150000, 300000, 450000]. [0, 150000, 300000, 450000] ! i
      < (rl_last_refill (op_ratelimit_init 1 5 0) # [0, 150000, 300000, 450000]) ! i + rl_rate_usec (op_ratelimit_init 1 5 0)"
    by (simp add: op_ratelimit_init_def less_Suc_eq all_conj_distrib)
  ultimately show ?thesis using ratelimit_fast_checks_starve [of "op_ratelimit_init 1 5 0" "[0, 150000, 300000, 450000]"]
    by (auto simp: op_ratelimit_init_def wrap32_def OP_RATELIMIT_SCALE_def)
qed

text \<open>
  The cost of a weighted check wraps at 32 bits, a stale clock moves the refill time back, so
  that the same interval is paid out again, and a rate above one token per microsecond makes
  the next refill divide by zero.
\<close>

lemma check_n_wraps: "op_ratelimit_check_n (op_ratelimit_drain (op_ratelimit_init 10 5 0)) 0 (2 ^ 29)
    = Some (True, op_ratelimit_drain (op_ratelimit_init 10 5 0))"
  by (simp add: op_ratelimit_check_n_def rl_refill_def op_ratelimit_drain_def op_ratelimit_init_def wrap32_def
      OP_RATELIMIT_SCALE_def Let_def)

lemma stale_clock_refills:
  "map_option fst (ratelimit_run (op_ratelimit_drain (op_ratelimit_init 10 5 400000)) [400000, 0, 400000]) = Some [False, False, True]"
  by (simp add: op_ratelimit_check_def rl_refill_def op_ratelimit_drain_def op_ratelimit_init_def wrap32_def
      OP_RATELIMIT_SCALE_def Let_def UINT64_MAX_def W64_def wrap64_def)

lemma high_rate_divides_by_zero: "op_ratelimit_check (op_ratelimit_init 10 2000000 0) 1 = None"
  by (simp add: op_ratelimit_check_def rl_refill_def op_ratelimit_init_def UINT64_MAX_def W64_def)

end
