(* ===== verification/Bitset.thy ===== *)
theory Bitset
  imports Libop_Prelude
begin

unbundle bit_operations_syntax

text \<open>
  \<^verbatim>\<open>include/op_bitset.h\<close>: fixed-size bit sets, an array of 64-bit words.  The set of a word
  array holds the number \<open>64 * k + j\<close> exactly when bit \<open>j\<close> of word \<open>k\<close> is set; every operation
  is shown to be the one on sets that its comment names.  An access outside the array is
  undefined (\<open>None\<close>), and so is \<^verbatim>\<open>__builtin_ctzll\<close> of zero.  Bit numbers and counts are \<^verbatim>\<open>int\<close>:
  a bit number is converted with its low 32 bits kept, and a sum that overflows is undefined.
\<close>

section \<open>Words\<close>

definition OP_BITSET_WORDS :: "nat \<Rightarrow> nat" where
  "OP_BITSET_WORDS nbits = (nbits + 63) div 64"

definition OP_BS_WORD :: "nat \<Rightarrow> nat" where
  "OP_BS_WORD i = i div 64"

definition OP_BS_MASK :: "nat \<Rightarrow> u64" where
  "OP_BS_MASK i = push_bit (i mod 64) 1"

text \<open>The compiler's population count and count of trailing zeros.\<close>

definition popcountll :: "u64 \<Rightarrow> nat" where
  "popcountll x = length (filter (bit x) [0..<64])"

definition ctzll :: "u64 \<Rightarrow> nat option" where
  "ctzll x = List.find (bit x) [0..<64]"

section \<open>Operations\<close>

definition op_bs_zero :: "u64 list \<Rightarrow> u64 list" where
  "op_bs_zero w = map (\<lambda>_. 0) w"

definition op_bs_fill :: "u64 list \<Rightarrow> u64 list" where
  "op_bs_fill w = map (\<lambda>_. 0xFFFFFFFFFFFFFFFF) w"

definition op_bs_set :: "u64 list \<Rightarrow> nat \<Rightarrow> u64 list option" where
  "op_bs_set w i = do { x \<leftarrow> arr_get w (OP_BS_WORD i); arr_set w (OP_BS_WORD i) (x OR OP_BS_MASK i) }"

definition op_bs_clear :: "u64 list \<Rightarrow> nat \<Rightarrow> u64 list option" where
  "op_bs_clear w i = do { x \<leftarrow> arr_get w (OP_BS_WORD i); arr_set w (OP_BS_WORD i) (x AND NOT (OP_BS_MASK i)) }"

definition op_bs_test :: "u64 list \<Rightarrow> nat \<Rightarrow> u64 option" where
  "op_bs_test w i = do { x \<leftarrow> arr_get w (OP_BS_WORD i); Some (x AND OP_BS_MASK i) }"

definition op_bs_flip :: "u64 list \<Rightarrow> nat \<Rightarrow> u64 list option" where
  "op_bs_flip w i = do { x \<leftarrow> arr_get w (OP_BS_WORD i); arr_set w (OP_BS_WORD i) (x XOR OP_BS_MASK i) }"

text \<open>The word loops of the aggregate operations; both arrays have the type's word count.\<close>

definition op_bs_or :: "u64 list \<Rightarrow> u64 list \<Rightarrow> u64 list" where
  "op_bs_or a b = map2 (OR) a b"

definition op_bs_and :: "u64 list \<Rightarrow> u64 list \<Rightarrow> u64 list" where
  "op_bs_and a b = map2 (AND) a b"

definition op_bs_xor :: "u64 list \<Rightarrow> u64 list \<Rightarrow> u64 list" where
  "op_bs_xor a b = map2 (XOR) a b"

definition op_bs_andnot :: "u64 list \<Rightarrow> u64 list \<Rightarrow> u64 list" where
  "op_bs_andnot a b = map2 (\<lambda>x y. x AND NOT y) a b"

definition op_bs_not :: "u64 list \<Rightarrow> u64 list" where
  "op_bs_not a = map NOT a"

fun op_bs_any_impl :: "u64 list \<Rightarrow> bool" where
  "op_bs_any_impl [] = False"
| "op_bs_any_impl (x # w) = (if x \<noteq> 0 then True else op_bs_any_impl w)"

definition op_bs_none :: "u64 list \<Rightarrow> bool" where
  "op_bs_none w \<longleftrightarrow> \<not> op_bs_any_impl w"

primrec count_loop :: "u64 list \<Rightarrow> int \<Rightarrow> int option" where
  "count_loop [] n = Some n"
| "count_loop (x # w) n = do { n \<leftarrow> int_add n (int (popcountll x)); count_loop w n }"

definition op_bs_count_impl :: "u64 list \<Rightarrow> int option" where
  "op_bs_count_impl w = count_loop w 0"

fun op_bs_eq_impl :: "u64 list \<Rightarrow> u64 list \<Rightarrow> bool" where
  "op_bs_eq_impl (x # a) (y # b) = (if x \<noteq> y then False else op_bs_eq_impl a b)"
| "op_bs_eq_impl _ _ = True"

fun op_bs_subset_impl :: "u64 list \<Rightarrow> u64 list \<Rightarrow> bool" where
  "op_bs_subset_impl (x # a) (y # b) = (if x AND y \<noteq> x then False else op_bs_subset_impl a b)"
| "op_bs_subset_impl _ _ = True"

fun op_bs_intersects_impl :: "u64 list \<Rightarrow> u64 list \<Rightarrow> bool" where
  "op_bs_intersects_impl (x # a) (y # b) = (if x AND y \<noteq> 0 then True else op_bs_intersects_impl a b)"
| "op_bs_intersects_impl _ _ = False"

text \<open>The scan of \<^verbatim>\<open>op_bs_next\<close> over the words from index \<open>wi\<close> on, and the whole function.\<close>

fun next_word :: "u64 list \<Rightarrow> nat \<Rightarrow> int option" where
  "next_word [] wi = Some (- 1)"
| "next_word (x # w) wi =
     (if x \<noteq> 0 then map_option (\<lambda>c. int_cast (wi * 64 + c)) (ctzll x) else next_word w (Suc wi))"

definition op_bs_next :: "u64 list \<Rightarrow> int \<Rightarrow> int option" where
  "op_bs_next w from =
     (if from < 0 then Some (- 1)
      else let start_word = nat from div 64; start_bit = nat from mod 64 in
        if start_word \<ge> length w then Some (- 1)
        else do {
          x \<leftarrow> arr_get w start_word;
          let word = drop_bit start_bit x;
          (if word \<noteq> 0 then map_option (\<lambda>c. int_cast (start_word * 64 + start_bit + c)) (ctzll word)
           else next_word (drop (start_word + 1) w) (start_word + 1))
        })"

text \<open>The loop of \<^verbatim>\<open>OP_BS_FOREACH\<close>: the values the loop variable takes.\<close>

partial_function (option) bs_foreach_from :: "u64 list \<Rightarrow> int \<Rightarrow> int list option" where
  "bs_foreach_from w b =
     (if b \<ge> 0 then do {
        i \<leftarrow> int_add b 1;
        b' \<leftarrow> op_bs_next w i;
        bs \<leftarrow> bs_foreach_from w b';
        Some (b # bs) }
      else Some [])"

definition OP_BS_FOREACH :: "u64 list \<Rightarrow> int list option" where
  "OP_BS_FOREACH w = do { b \<leftarrow> op_bs_next w 0; bs_foreach_from w b }"

section \<open>Bit sets as sets\<close>

definition bs_set :: "u64 list \<Rightarrow> nat set" where
  "bs_set w = {i. i div 64 < length w \<and> bit (w ! (i div 64)) (i mod 64)}"

lemma bs_set_bound: "i \<in> bs_set w \<Longrightarrow> i < 64 * length w"
  by (simp add: bs_set_def div_less_iff_less_mult mult.commute)

lemma finite_bs_set [simp]: "finite (bs_set w)"
  using bs_set_bound by (meson finite_nat_set_iff_bounded)

lemma bit_u64: "bit (x :: u64) j \<Longrightarrow> j < 64"
  using bit_imp_le_length [of x j] by simp

lemma bit_bound [simp]: "bit (x :: u64) j \<and> j < 64 \<longleftrightarrow> bit x j"
  using bit_u64 by blast

lemma u64_nonzero: "(x :: u64) \<noteq> 0 \<longleftrightarrow> (\<exists>j<64. bit x j)"
  using bit_u64 by (auto simp: bit_eq_iff)

lemma bit_mask_u64: "j < 64 \<Longrightarrow> bit (OP_BS_MASK i) j \<longleftrightarrow> j = i mod 64"
  by (auto simp: OP_BS_MASK_def bit_exp_iff)

lemma div_mod_eqI: "(i :: nat) div 64 = k div 64 \<Longrightarrow> i mod 64 = k mod 64 \<Longrightarrow> i = k"
  by (metis div_mult_mod_eq)

lemma bs_set_update:
  assumes "i div 64 < length w" "\<And>j. j < 64 \<Longrightarrow> bit x j \<longleftrightarrow> (if j = i mod 64 then b else bit (w ! (i div 64)) j)"
  shows "bs_set (w[i div 64 := x]) = (if b then insert i (bs_set w) else bs_set w - {i})"
proof -
  have mem: "k \<in> bs_set (w[i div 64 := x]) \<longleftrightarrow> (if k = i then b else k \<in> bs_set w)" for k
  proof (cases "k div 64 = i div 64")
    case True
    then show ?thesis using assms(1) assms(2) [of "k mod 64"] div_mod_eqI [of k i] by (auto simp: bs_set_def)
  next
    case False
    then show ?thesis by (auto simp: bs_set_def nth_list_update)
  qed
  show ?thesis by (rule set_eqI) (cases b; auto simp: mem)
qed

lemma bit_ops_spec:
  assumes "i < 64 * length w"
  shows "\<exists>w'. op_bs_set w i = Some w' \<and> length w' = length w \<and> bs_set w' = insert i (bs_set w)"
    and "\<exists>w'. op_bs_clear w i = Some w' \<and> length w' = length w \<and> bs_set w' = bs_set w - {i}"
    and "\<exists>w'. op_bs_flip w i = Some w' \<and> length w' = length w
      \<and> bs_set w' = (if i \<in> bs_set w then bs_set w - {i} else insert i (bs_set w))"
    and "\<exists>x. op_bs_test w i = Some x \<and> (x \<noteq> 0 \<longleftrightarrow> i \<in> bs_set w)"
proof -
  have i: "i div 64 < length w" using assms by (simp add: div_less_iff_less_mult mult.commute)
  let ?x = "w ! (i div 64)"
  show "\<exists>w'. op_bs_set w i = Some w' \<and> length w' = length w \<and> bs_set w' = insert i (bs_set w)"
    using i bs_set_update [OF i, of "?x OR OP_BS_MASK i" True]
    by (simp add: op_bs_set_def arr_get_def arr_set_def OP_BS_WORD_def bit_or_iff bit_mask_u64)
  show "\<exists>w'. op_bs_clear w i = Some w' \<and> length w' = length w \<and> bs_set w' = bs_set w - {i}"
    using i bs_set_update [OF i, of "?x AND NOT (OP_BS_MASK i)" False]
    by (simp add: op_bs_clear_def arr_get_def arr_set_def OP_BS_WORD_def bit_and_iff bit_not_iff bit_mask_u64)
  have m: "i \<in> bs_set w \<longleftrightarrow> bit ?x (i mod 64)" using i by (simp add: bs_set_def)
  show "\<exists>w'. op_bs_flip w i = Some w' \<and> length w' = length w
      \<and> bs_set w' = (if i \<in> bs_set w then bs_set w - {i} else insert i (bs_set w))"
    using i bs_set_update [OF i, of "?x XOR OP_BS_MASK i" "\<not> bit ?x (i mod 64)"] m
    by (auto simp: op_bs_flip_def arr_get_def arr_set_def OP_BS_WORD_def bit_xor_iff bit_mask_u64)
  have "(?x AND OP_BS_MASK i) \<noteq> 0 \<longleftrightarrow> bit ?x (i mod 64)"
    unfolding u64_nonzero by (auto simp: bit_and_iff bit_mask_u64 intro!: exI [of _ "i mod 64"])
  then show "\<exists>x. op_bs_test w i = Some x \<and> (x \<noteq> 0 \<longleftrightarrow> i \<in> bs_set w)"
    using i m by (simp add: op_bs_test_def arr_get_def OP_BS_WORD_def)
qed

lemma bs_set_map2:
  assumes "length a = length b"
  shows "bs_set (map2 f a b) = {i. i div 64 < length a \<and> bit (f (a ! (i div 64)) (b ! (i div 64))) (i mod 64)}"
  using assms by (auto simp: bs_set_def)

lemma bs_set_Cons:
  "i \<in> bs_set (x # w) \<longleftrightarrow> (if i < 64 then bit x i else i - 64 \<in> bs_set w)"
proof (cases "i < 64")
  case False
  then obtain k where "i = k + 64" using le_Suc_ex by (metis add.commute not_less)
  moreover have "(k + 64) div 64 = Suc (k div 64)" using div_add_self2 [of 64 k] by simp
  ultimately show ?thesis by (simp add: bs_set_def)
qed (simp add: bs_set_def)

lemma bs_set_empty: "bs_set w = {} \<longleftrightarrow> (\<forall>x\<in>set w. x = 0)"
proof (induction w)
  case (Cons x w)
  have "bs_set (x # w) = {} \<longleftrightarrow> (\<forall>j<64. \<not> bit x j) \<and> bs_set w = {}"
  proof safe
    fix j
    assume e: "bs_set (x # w) = {}"
    { assume "j < 64" "bit x j" then show False using e bs_set_Cons [of j x w] by auto }
    { assume "j \<in> bs_set w" then show "j \<in> {}" using e bs_set_Cons [of "j + 64" x w] by auto }
  next
    fix i assume "\<forall>j<64. \<not> bit x j" "bs_set w = {}" "i \<in> bs_set (x # w)"
    then show "i \<in> {}" using bs_set_Cons [of i x w] by (auto split: if_splits)
  qed
  then show ?case using Cons u64_nonzero [of x] by auto
qed (simp add: bs_set_def)

lemma any_spec: "op_bs_any_impl w \<longleftrightarrow> bs_set w \<noteq> {}"
  unfolding bs_set_empty by (induction w) auto

lemma bs_set_inj: "length a = length b \<Longrightarrow> bs_set a = bs_set b \<longleftrightarrow> a = b"
proof
  assume l: "length a = length b" and e: "bs_set a = bs_set b"
  show "a = b"
  proof (rule nth_equalityI [OF l])
    fix k assume k: "k < length a"
    have "bit (a ! k) j \<longleftrightarrow> bit (b ! k) j" if "j < 64" for j
    proof -
      have "(64 * k + j) div 64 = k" "(64 * k + j) mod 64 = j" using that by auto
      then show ?thesis using e k l unfolding bs_set_def set_eq_iff mem_Collect_eq by metis
    qed
    then show "a ! k = b ! k" using bit_u64 by (auto simp: bit_eq_iff)
  qed
qed simp

lemma eq_spec: "length a = length b \<Longrightarrow> op_bs_eq_impl a b \<longleftrightarrow> a = b"
  by (induction a b rule: list_induct2) auto

lemma subset_impl_nth: "length a = length b \<Longrightarrow> op_bs_subset_impl a b \<longleftrightarrow> op_bs_and a b = a"
  by (induction a b rule: list_induct2) (auto simp: op_bs_and_def)

lemma intersects_any: "length a = length b \<Longrightarrow> op_bs_intersects_impl a b \<longleftrightarrow> op_bs_any_impl (op_bs_and a b)"
  by (induction a b rule: list_induct2) (auto simp: op_bs_and_def)

lemma count_loop_sum:
  "0 \<le> n \<Longrightarrow> n < 2 ^ 31 \<Longrightarrow> count_loop w n =
    (if n + int (sum_list (map popcountll w)) < 2 ^ 31 then Some (n + int (sum_list (map popcountll w))) else None)"
  by (induction w arbitrary: n) (auto simp: int_add_def add.assoc)

lemma count_spec: "op_bs_count_impl w = (if card (bs_set w) < 2 ^ 31 then Some (int (card (bs_set w))) else None)"
proof -
  have "sum_list (map popcountll w) = card (bs_set w)"
  proof (induction w)
    case Nil
    then show ?case by (simp add: bs_set_def)
  next
    case (Cons x w)
    have "bs_set (x # w) = {j. bit x j} \<union> (+) 64 ` bs_set w"
    proof (rule set_eqI)
      fix i
      show "i \<in> bs_set (x # w) \<longleftrightarrow> i \<in> {j. bit x j} \<union> (+) 64 ` bs_set w"
        unfolding bs_set_Cons using bit_u64 [of x i] by (cases "i < 64") (auto simp: image_iff le_add_diff_inverse intro!: bexI [of _ "i - 64"])
    qed
    moreover have "{j. bit x j} \<inter> (+) 64 ` bs_set w = {}" using bit_u64 by fastforce
    moreover have "{j. bit x j} = set (filter (bit x) [0..<64])" using bit_u64 by auto
    then have "finite {j. bit x j}" "card {j. bit x j} = popcountll x"
      using distinct_card [of "filter (bit x) [0..<64]"] by (simp_all add: popcountll_def)
    moreover have "card ((+) 64 ` bs_set w) = card (bs_set w)" by (intro card_image) simp
    ultimately show ?case using Cons by (simp add: card_Un_disjoint)
  qed
  then show ?thesis using count_loop_sum [of 0 w] by (auto simp: op_bs_count_impl_def)
qed

section \<open>Iteration\<close>

text \<open>\<open>is_next S f r\<close>: \<open>r\<close> is the least member of \<open>S\<close> from \<open>f\<close> on, or \<open>- 1\<close> when there is none.\<close>

definition is_next :: "nat set \<Rightarrow> nat \<Rightarrow> int \<Rightarrow> bool" where
  "is_next S f r \<longleftrightarrow> (r = - 1 \<and> (\<forall>k\<in>S. k < f))
     \<or> (\<exists>i. r = int i \<and> i \<in> S \<and> f \<le> i \<and> (\<forall>k\<in>S. f \<le> k \<longrightarrow> i \<le> k))"

lemma ctzll_spec:
  assumes "x \<noteq> 0"
  shows "\<exists>c. ctzll x = Some c \<and> c < 64 \<and> bit x c \<and> (\<forall>j<c. \<not> bit x j)"
proof -
  obtain j where "j < 64" "bit x j" using assms u64_nonzero by blast
  then have "ctzll x \<noteq> None" unfolding ctzll_def find_None_iff by auto
  then obtain c where c: "ctzll x = Some c" by auto
  then obtain i where i: "i < length [0..<64]" "bit x ([0..<64] ! i)" "c = [0..<64] ! i" "\<forall>j<i. \<not> bit x ([0..<64] ! j)"
    unfolding ctzll_def find_Some_iff by blast
  then have "c = i" by simp
  then show ?thesis using c i by auto
qed

lemma next_word_spec: "(wi + length ws) * 64 < 2 ^ 31 \<Longrightarrow> \<exists>r. next_word ws wi = Some r \<and> ((r = - 1 \<and> bs_set ws = {})
    \<or> (\<exists>i. r = int (wi * 64 + i) \<and> i \<in> bs_set ws \<and> (\<forall>k\<in>bs_set ws. i \<le> k)))"
proof (induction ws arbitrary: wi)
  case Nil
  then show ?case by (simp add: bs_set_def)
next
  case (Cons x ws)
  show ?case
  proof (cases "x = 0")
    case False
    then obtain c where c: "ctzll x = Some c" "c < 64" "bit x c" "\<forall>j<c. \<not> bit x j" using ctzll_spec by blast
    have "c \<in> bs_set (x # ws)" using c(2,3) by (simp add: bs_set_Cons)
    moreover have "c \<le> k" if "k \<in> bs_set (x # ws)" for k
      using that c(2,4) unfolding bs_set_Cons by (meson leI less_trans not_less)
    moreover have "int_cast (wi * 64 + c) = int (wi * 64 + c)" using Cons.prems c(2) by (intro int_cast_small) simp
    ultimately show ?thesis using False c(1) by auto
  next
    case True
    have e: "k \<in> bs_set (x # ws) \<longleftrightarrow> 64 \<le> k \<and> k - 64 \<in> bs_set ws" for k
      unfolding bs_set_Cons using True by auto
    obtain r where r: "next_word ws (Suc wi) = Some r" "(r = - 1 \<and> bs_set ws = {})
      \<or> (\<exists>i. r = int (Suc wi * 64 + i) \<and> i \<in> bs_set ws \<and> (\<forall>k\<in>bs_set ws. i \<le> k))"
      using Cons.IH [of "Suc wi"] Cons.prems by auto
    from r(2) show ?thesis
    proof (elim disjE exE)
      assume "r = - 1 \<and> bs_set ws = {}"
      moreover have "bs_set (x # ws) = {}" if "bs_set ws = {}" using e that by auto
      ultimately show ?thesis using r(1) True by auto
    next
      fix i assume i: "r = int (Suc wi * 64 + i) \<and> i \<in> bs_set ws \<and> (\<forall>k\<in>bs_set ws. i \<le> k)"
      have "i + 64 \<in> bs_set (x # ws)" using e i by simp
      moreover have "i + 64 \<le> k" if "k \<in> bs_set (x # ws)" for k using that e i by fastforce
      moreover have "r = int (wi * 64 + (i + 64))" using i by simp
      moreover have "next_word (x # ws) wi = Some r" using r(1) True by simp
      ultimately show ?thesis by blast
    qed
  qed
qed

lemma bs_set_drop: "i \<in> bs_set (drop n w) \<longleftrightarrow> n * 64 + i \<in> bs_set w"
proof -
  have d: "(n * 64 + i) div 64 = n + i div 64" "(n * 64 + i) mod 64 = i mod 64" by simp_all
  show ?thesis unfolding bs_set_def mem_Collect_eq d by (auto simp: less_diff_conv add.commute)
qed

lemma bs_next_spec:
  assumes small: "64 * length w < 2 ^ 31"
  shows "\<exists>r. op_bs_next w (int f) = Some r \<and> is_next (bs_set w) f r"
proof (cases "f div 64 < length w")
  case False
  have "k < f" if "k \<in> bs_set w" for k
  proof (rule ccontr)
    assume "\<not> k < f"
    then have "f div 64 \<le> k div 64" by (intro div_le_mono) simp
    then show False using that False by (simp add: bs_set_def)
  qed
  then show ?thesis using False by (auto simp: op_bs_next_def is_next_def Let_def)
next
  case True
  define sw sb where "sw = f div 64" and "sb = f mod 64"
  have f: "f = sw * 64 + sb" "sb < 64" "sw < length w" using True by (simp_all add: sw_def sb_def)
  let ?x = "w ! sw"
  have in_word: "sw * 64 + j \<in> bs_set w \<longleftrightarrow> bit ?x j" if "j < 64" for j
    using that f(3) by (simp add: bs_set_def)
  have run: "op_bs_next w (int f) = (if drop_bit sb ?x \<noteq> 0 then map_option (\<lambda>c. int_cast (sw * 64 + sb + c)) (ctzll (drop_bit sb ?x))
      else next_word (drop (sw + 1) w) (sw + 1))"
    using f(3) by (simp add: op_bs_next_def Let_def arr_get_def flip: sw_def sb_def)
  show ?thesis
  proof (cases "drop_bit sb ?x = 0")
    case False
    then obtain c where c: "ctzll (drop_bit sb ?x) = Some c" "bit ?x (sb + c)" "\<forall>j<c. \<not> bit ?x (sb + j)"
      using ctzll_spec [OF False] by (auto simp: bit_drop_bit_eq)
    have lt: "sb + c < 64" using bit_u64 c(2) by blast
    have "sw * 64 + (sb + c) \<in> bs_set w" using in_word [OF lt] c(2) by simp
    moreover have "sw * 64 + sb + c \<le> k" if k: "k \<in> bs_set w" "f \<le> k" for k
    proof (rule ccontr)
      assume "\<not> sw * 64 + sb + c \<le> k"
      moreover obtain j where "k = f + j" using k(2) le_Suc_ex by blast
      ultimately have j: "k = sw * 64 + (sb + j)" "j < c" using f(1) by simp_all
      then have "bit ?x (sb + j)" using in_word [of "sb + j"] k(1) lt by simp
      then show False using c(3) j(2) by blast
    qed
    ultimately have "is_next (bs_set w) f (int (sw * 64 + sb + c))"
      unfolding is_next_def by (intro disjI2 exI [of _ "sw * 64 + sb + c"]) (auto simp: add.assoc f(1))
    moreover have "int_cast (sw * 64 + sb + c) = int (sw * 64 + sb + c)"
      using lt f(3) small by (intro int_cast_small) simp
    ultimately show ?thesis using False run c(1) by simp
  next
    case zero: True
    have none: "\<not> bit ?x (sb + j)" for j
      using arg_cong [OF zero, of "\<lambda>x. bit x j"] by (simp add: bit_drop_bit_eq)
    have later: "\<exists>i. k = Suc sw * 64 + i \<and> i \<in> bs_set (drop (Suc sw) w)" if k: "k \<in> bs_set w" "f \<le> k" for k
    proof -
      have "Suc sw * 64 \<le> k"
      proof (rule ccontr)
        assume "\<not> Suc sw * 64 \<le> k"
        moreover obtain j where j: "k = f + j" using k(2) le_Suc_ex by blast
        ultimately have "k = sw * 64 + (sb + j)" "sb + j < 64" using f(1) by simp_all
        then show False using in_word k(1) none by blast
      qed
      then obtain i where "k = Suc sw * 64 + i" using le_Suc_ex by blast
      then show ?thesis using k(1) bs_set_drop by blast
    qed
    obtain r where r: "next_word (drop (Suc sw) w) (Suc sw) = Some r" "(r = - 1 \<and> bs_set (drop (Suc sw) w) = {})
      \<or> (\<exists>i. r = int (Suc sw * 64 + i) \<and> i \<in> bs_set (drop (Suc sw) w) \<and> (\<forall>k\<in>bs_set (drop (Suc sw) w). i \<le> k))"
    proof -
      have "(Suc sw + length (drop (Suc sw) w)) * 64 < 2 ^ 31" using small f(3) by simp
      from next_word_spec [OF this] that show ?thesis by blast
    qed
    from r(2) have "is_next (bs_set w) f r"
    proof (elim disjE exE)
      assume "r = - 1 \<and> bs_set (drop (Suc sw) w) = {}"
      moreover have "k < f" if "k \<in> bs_set w" for k using later [OF that] calculation by (metis empty_iff leI)
      ultimately show ?thesis by (simp add: is_next_def)
    next
      fix i assume i: "r = int (Suc sw * 64 + i) \<and> i \<in> bs_set (drop (Suc sw) w) \<and> (\<forall>k\<in>bs_set (drop (Suc sw) w). i \<le> k)"
      have "Suc sw * 64 + i \<in> bs_set w" using i bs_set_drop by blast
      moreover have "f \<le> Suc sw * 64 + i" using f(1,2) by simp
      moreover have "Suc sw * 64 + i \<le> k" if "k \<in> bs_set w" "f \<le> k" for k using later [OF that] i by auto
      ultimately show ?thesis using i unfolding is_next_def by blast
    qed
    then show ?thesis using run zero r(1) by simp
  qed
qed

lemma foreach_from_spec:
  assumes small: "64 * length w < 2 ^ 31"
  shows "is_next (bs_set w) f r \<Longrightarrow> bs_foreach_from w r = Some (map int (sorted_list_of_set {i \<in> bs_set w. f \<le> i}))"
proof (induction "card {i \<in> bs_set w. f \<le> i}" arbitrary: f r rule: less_induct)
  case less
  show ?case
  proof (cases "r = - 1")
    case True
    then have "{i \<in> bs_set w. f \<le> i} = {}" using less.prems by (auto simp: is_next_def)
    then have e: "sorted_list_of_set {i \<in> bs_set w. f \<le> i} = []" by simp
    show ?thesis unfolding e using True by (subst bs_foreach_from.simps) simp
  next
    case False
    then obtain i where i: "r = int i" "i \<in> bs_set w" "f \<le> i" "\<forall>k\<in>bs_set w. f \<le> k \<longrightarrow> i \<le> k"
      using less.prems by (auto simp: is_next_def)
    let ?S = "{k \<in> bs_set w. f \<le> k}" and ?T = "{k \<in> bs_set w. Suc i \<le> k}"
    have S: "?S = insert i ?T"
    proof (intro equalityI subsetI)
      fix k assume "k \<in> ?S"
      moreover then have "i \<le> k" using i(4) by blast
      ultimately show "k \<in> insert i ?T" by (cases "k = i") simp_all
    next
      fix k assume "k \<in> insert i ?T"
      then show "k \<in> ?S" using i(2,3) by (cases "k = i") simp_all
    qed
    have fin: "finite ?T" and new: "i \<notin> ?T" by simp_all
    obtain r' where r': "op_bs_next w (int (Suc i)) = Some r'" "is_next (bs_set w) (Suc i) r'" using bs_next_spec [OF small] by blast
    have "card ?T < card ?S" using fin new unfolding S by simp
    from less.hyps [OF this r'(2)] have t: "bs_foreach_from w r' = Some (map int (sorted_list_of_set ?T))" .
    have "sorted_list_of_set ?S = i # sorted_list_of_set ?T"
    proof -
      have "sorted_list_of_set (insert i ?T) = insort i (sorted_list_of_set ?T)"
        using fin new by (simp add: sorted_list_of_set_insert)
      also have "\<dots> = i # sorted_list_of_set ?T"
        using fin by (intro insort_is_Cons) auto
      finally show ?thesis unfolding S .
    qed
    moreover have "int_add (int i) 1 = Some (int (Suc i))" using bs_set_bound [OF i(2)] small by (simp add: int_add_def)
    ultimately show ?thesis using t i(1) r'(1) by (subst bs_foreach_from.simps) simp
  qed
qed

section \<open>Properties\<close>

text \<open>
  The bit operations act on the set of the array: for a position inside it they return,
  without leaving the array or changing its length, and set, clear and flip insert, delete and
  toggle the position, while test is non-zero exactly when it is a member; a position beyond the
  array is undefined.
\<close>

theorem bitset_bit_ops:
  "(i < 64 * length w \<longrightarrow>
      (\<exists>w'. op_bs_set w i = Some w' \<and> length w' = length w \<and> bs_set w' = insert i (bs_set w))
    \<and> (\<exists>w'. op_bs_clear w i = Some w' \<and> length w' = length w \<and> bs_set w' = bs_set w - {i})
    \<and> (\<exists>w'. op_bs_flip w i = Some w' \<and> length w' = length w
          \<and> bs_set w' = (if i \<in> bs_set w then bs_set w - {i} else insert i (bs_set w)))
    \<and> (\<exists>x. op_bs_test w i = Some x \<and> (x \<noteq> 0 \<longleftrightarrow> i \<in> bs_set w)))
   \<and> (64 * length w \<le> i \<longrightarrow> op_bs_set w i = None \<and> op_bs_clear w i = None \<and> op_bs_flip w i = None \<and> op_bs_test w i = None)"
proof (intro conjI impI)
  assume i: "i < 64 * length w"
  note ops = bit_ops_spec [OF i]
  show "\<exists>w'. op_bs_set w i = Some w' \<and> length w' = length w \<and> bs_set w' = insert i (bs_set w)" by (rule ops(1))
  show "\<exists>w'. op_bs_clear w i = Some w' \<and> length w' = length w \<and> bs_set w' = bs_set w - {i}" by (rule ops(2))
  show "\<exists>w'. op_bs_flip w i = Some w' \<and> length w' = length w
      \<and> bs_set w' = (if i \<in> bs_set w then bs_set w - {i} else insert i (bs_set w))" by (rule ops(3))
  show "\<exists>x. op_bs_test w i = Some x \<and> (x \<noteq> 0 \<longleftrightarrow> i \<in> bs_set w)" by (rule ops(4))
next
  assume "64 * length w \<le> i"
  then have "\<not> i div 64 < length w" by (simp add: div_less_iff_less_mult mult.commute)
  then show "op_bs_set w i = None" "op_bs_clear w i = None" "op_bs_flip w i = None" "op_bs_test w i = None"
    by (simp_all add: op_bs_set_def op_bs_clear_def op_bs_flip_def op_bs_test_def arr_get_def OP_BS_WORD_def)
qed

theorem bitset_bit_ops_witness:
  "\<exists>w'. op_bs_set [0, 0] 70 = Some w' \<and> bs_set w' = {70}"
  using bitset_bit_ops [of 70 "[0, 0]"] bs_set_empty [of "[0, 0]"] by auto

text \<open>
  C39. The word loops are the operations of sets: on two arrays of one type, or, and, xor and
  andnot give union, intersection, symmetric difference and difference, not gives the complement
  within all the words' bits, and any, count, eq, subset and intersects decide or compute
  non-emptiness, cardinality, equality, inclusion and overlap.  The count is kept in an \<^verbatim>\<open>int\<close>: it
  is defined exactly when fewer than \<open>2 ^ 31\<close> bits are set.
\<close>

theorem bitset_aggregates:
  assumes l: "length a = length b"
  shows "bs_set (op_bs_or a b) = bs_set a \<union> bs_set b \<and> bs_set (op_bs_and a b) = bs_set a \<inter> bs_set b
    \<and> bs_set (op_bs_xor a b) = (bs_set a - bs_set b) \<union> (bs_set b - bs_set a)
    \<and> bs_set (op_bs_andnot a b) = bs_set a - bs_set b \<and> bs_set (op_bs_not a) = {..<64 * length a} - bs_set a
    \<and> (op_bs_any_impl a \<longleftrightarrow> bs_set a \<noteq> {}) 
    \<and> op_bs_count_impl a = (if card (bs_set a) < 2 ^ 31 then Some (int (card (bs_set a))) else None)
    \<and> (op_bs_eq_impl a b \<longleftrightarrow> bs_set a = bs_set b) \<and> (op_bs_subset_impl a b \<longleftrightarrow> bs_set a \<subseteq> bs_set b)
    \<and> (op_bs_intersects_impl a b \<longleftrightarrow> bs_set a \<inter> bs_set b \<noteq> {})"
proof -
  have n: "bs_set (op_bs_and a b) = bs_set a \<inter> bs_set b"
    unfolding op_bs_and_def bs_set_map2 [OF l] using l by (auto simp: bs_set_def bit_and_iff)
  have "bs_set (op_bs_or a b) = bs_set a \<union> bs_set b"
    unfolding op_bs_or_def bs_set_map2 [OF l] using l by (auto simp: bs_set_def bit_or_iff)
  moreover have "bs_set (op_bs_xor a b) = (bs_set a - bs_set b) \<union> (bs_set b - bs_set a)"
    unfolding op_bs_xor_def bs_set_map2 [OF l] using l by (auto simp: bs_set_def bit_xor_iff)
  moreover have "bs_set (op_bs_andnot a b) = bs_set a - bs_set b"
    unfolding op_bs_andnot_def bs_set_map2 [OF l] using l by (auto simp: bs_set_def bit_and_iff bit_not_iff)
  moreover have "bs_set (op_bs_not a) = {..<64 * length a} - bs_set a"
    by (auto simp: bs_set_def op_bs_not_def bit_not_iff div_less_iff_less_mult mult.commute)
  moreover have "op_bs_eq_impl a b \<longleftrightarrow> bs_set a = bs_set b" using eq_spec [OF l] bs_set_inj [OF l] by simp
  moreover have "op_bs_subset_impl a b \<longleftrightarrow> bs_set a \<subseteq> bs_set b"
  proof -
    have "length (op_bs_and a b) = length a" using l by (simp add: op_bs_and_def)
    then have "op_bs_and a b = a \<longleftrightarrow> bs_set a \<inter> bs_set b = bs_set a" using bs_set_inj n by metis
    then show ?thesis using subset_impl_nth [OF l] by auto
  qed
  moreover have "op_bs_intersects_impl a b \<longleftrightarrow> bs_set a \<inter> bs_set b \<noteq> {}"
    using intersects_any [OF l] any_spec [of "op_bs_and a b"] n by simp
  ultimately show ?thesis using n any_spec [of a] count_spec [of a] by blast
qed

theorem bitset_aggregates_witness:
  "op_bs_count_impl [5, 1] = Some (int (card (bs_set [5, 1]))) \<and> bs_set (op_bs_and [5, 1] [4, 0]) = bs_set [5, 1] \<inter> bs_set [4, 0]"
proof -
  have "bs_set [5, 1] \<subseteq> {..<128}" using bs_set_bound [of _ "[5, 1]"] by auto
  then have "card (bs_set [5, 1]) \<le> 128" using card_mono [of "{..<128 :: nat}" "bs_set [5, 1]"] by simp
  then show ?thesis using bitset_aggregates [of "[5, 1]" "[4, 0]"] by simp
qed

text \<open>
  C21. Iteration with the for-each macro terminates and visits exactly the set bits, each once and
  in increasing order: scanning for the next set bit always returns, with the least member at or
  after its start or \<open>- 1\<close> when there is none, and a negative start gives \<open>- 1\<close>.  This holds for
  arrays of fewer than \<open>2 ^ 31\<close> bits, whose bit numbers and their successors are representable.
\<close>

theorem bitset_foreach:
  assumes small: "64 * length w < 2 ^ 31"
  shows "OP_BS_FOREACH w = Some (map int (sorted_list_of_set (bs_set w)))
   \<and> (\<forall>from. if from < 0 then op_bs_next w from = Some (- 1)
        else \<exists>r. op_bs_next w from = Some r \<and> is_next (bs_set w) (nat from) r)"
proof -
  obtain r where r: "op_bs_next w (int 0) = Some r" "is_next (bs_set w) 0 r" using bs_next_spec [OF small] by blast
  have "{i \<in> bs_set w. 0 \<le> i} = bs_set w" by simp
  then have "OP_BS_FOREACH w = Some (map int (sorted_list_of_set (bs_set w)))"
    using foreach_from_spec [OF small r(2)] r(1) by (simp add: OP_BS_FOREACH_def)
  moreover have "\<exists>r. op_bs_next w from = Some r \<and> is_next (bs_set w) (nat from) r" if "\<not> from < 0" for "from"
    using bs_next_spec [OF small, of "nat from"] that by simp
  ultimately show ?thesis by (auto simp: op_bs_next_def [of _ "from" for "from"])
qed

theorem bitset_foreach_witness:
  "OP_BS_FOREACH [1, 1] = Some [0, 64]"
proof -
  have "i \<in> bs_set [1, 1] \<longleftrightarrow> i \<in> {0, 64}" for i
    by (cases "i < 64"; cases "i - 64 < 64") (auto simp: bs_set_Cons bs_set_def bit_1_iff)
  then have "bs_set [1, 1] = {0, 64}" by blast
  then show ?thesis using bitset_foreach [of "[1, 1]"] by simp
qed

end
