(* ===== verification/Key_Order.thy ===== *)
theory Key_Order
  imports Cstring
begin

text \<open>
  The contract of a three-way comparator, as the ordered containers rely on it: the sign is
  antisymmetric and \<open>\<le>\<close> is transitive.  The locale \<open>key_order\<close> derives the chains of
  comparisons the searches use and the laws of the reference structure, a list of entries in
  key order.  \<^verbatim>\<open>op_strcasecmp\<close> of \<^verbatim>\<open>src/tools.c\<close> and \<^verbatim>\<open>strcmp\<close> are shown to obey the contract.
\<close>

section \<open>Case-insensitive comparison\<close>

text \<open>The fallback of \<^verbatim>\<open>tools.c\<close>, in the C locale.\<close>

function op_strcasecmp :: "cstr \<Rightarrow> cstr \<Rightarrow> int" where
  "op_strcasecmp us1 us2 =
     (if c_tolower (cbyte us1) = c_tolower (cbyte us2)
      then if cbyte us1 = 0 then 0 else op_strcasecmp (tl us1) (tl us2)
      else uint (c_tolower (cbyte us1)) - uint (c_tolower (cbyte us2)))"
  by pat_completeness auto
termination
  by (relation "measure (\<lambda>(a, b). length a)") (auto simp: cbyte_def split: list.splits)

declare op_strcasecmp.simps [simp del]

section \<open>Entries in key order\<close>

type_synonym ('k, 'v) entries = "('k ptr \<times> 'v ptr) list"

definition entries_sorted :: "('k ptr \<Rightarrow> 'k ptr \<Rightarrow> int) \<Rightarrow> ('k, 'v) entries \<Rightarrow> bool" where
  "entries_sorted cmp xs \<longleftrightarrow> sorted_wrt (\<lambda>a b. cmp (fst a) (fst b) < 0) xs"

fun entries_upd :: "('k ptr \<Rightarrow> 'k ptr \<Rightarrow> int) \<Rightarrow> 'k ptr \<Rightarrow> 'v ptr \<Rightarrow> ('k, 'v) entries \<Rightarrow> ('k, 'v) entries" where
  "entries_upd cmp k v [] = [(k, v)]"
| "entries_upd cmp k v (e # xs) =
     (if cmp k (fst e) < 0 then (k, v) # e # xs
      else if cmp k (fst e) > 0 then e # entries_upd cmp k v xs
      else (k, v) # xs)"

definition entries_del :: "('k ptr \<Rightarrow> 'k ptr \<Rightarrow> int) \<Rightarrow> 'k ptr \<Rightarrow> ('k, 'v) entries \<Rightarrow> ('k, 'v) entries" where
  "entries_del cmp k xs = filter (\<lambda>e. cmp k (fst e) \<noteq> 0) xs"

definition entries_find :: "('k ptr \<Rightarrow> 'k ptr \<Rightarrow> int) \<Rightarrow> 'k ptr \<Rightarrow> ('k, 'v) entries \<Rightarrow> ('k ptr \<times> 'v ptr) option" where
  "entries_find cmp k xs = find (\<lambda>e. cmp k (fst e) = 0) xs"

definition entries_get :: "('k ptr \<Rightarrow> 'k ptr \<Rightarrow> int) \<Rightarrow> 'k ptr \<Rightarrow> ('k, 'v) entries \<Rightarrow> 'v ptr" where
  "entries_get cmp k xs = (case entries_find cmp k xs of None \<Rightarrow> NULL | Some e \<Rightarrow> snd e)"

definition entry_key :: "('k ptr \<times> 'v ptr) option \<Rightarrow> 'k ptr" where
  "entry_key e = (case e of None \<Rightarrow> NULL | Some e \<Rightarrow> fst e)"

lemma entries_sorted_split:
  "entries_sorted cmp (xs @ e # ys) \<longleftrightarrow> entries_sorted cmp xs \<and> entries_sorted cmp ys
     \<and> (\<forall>x\<in>set xs. cmp (fst x) (fst e) < 0) \<and> (\<forall>y\<in>set ys. cmp (fst e) (fst y) < 0)
     \<and> (\<forall>x\<in>set xs. \<forall>y\<in>set ys. cmp (fst x) (fst y) < 0)"
  by (auto simp: entries_sorted_def sorted_wrt_append)

lemma entries_sorted_Nil [simp]: "entries_sorted cmp []"
  by (simp add: entries_sorted_def)

lemma entries_upd_low:
  "cmp k (fst e) < 0 \<Longrightarrow> entries_upd cmp k v (xs @ e # ys) = entries_upd cmp k v xs @ e # ys"
  by (induction xs) auto

lemma entries_upd_skip:
  "\<forall>x\<in>set xs. 0 < cmp k (fst x) \<Longrightarrow> entries_upd cmp k v (xs @ ys) = xs @ entries_upd cmp k v ys"
  by (induction xs) auto

lemma entries_del_skip: "\<forall>x\<in>set xs. cmp k (fst x) \<noteq> 0 \<Longrightarrow> entries_del cmp k xs = xs"
  by (simp add: entries_del_def filter_id_conv)

lemma entries_del_append [simp]: "entries_del cmp k (xs @ ys) = entries_del cmp k xs @ entries_del cmp k ys"
  by (simp add: entries_del_def)

lemma entries_del_Cons:
  "entries_del cmp k (e # ys) = (if cmp k (fst e) = 0 then entries_del cmp k ys else e # entries_del cmp k ys)"
  by (simp add: entries_del_def)

lemma entries_find_append:
  "entries_find cmp k (xs @ ys) = (case entries_find cmp k xs of None \<Rightarrow> entries_find cmp k ys | Some e \<Rightarrow> Some e)"
  by (simp add: entries_find_def find_append split: option.split)

lemma entries_find_Cons:
  "entries_find cmp k (e # ys) = (if cmp k (fst e) = 0 then Some e else entries_find cmp k ys)"
  by (simp add: entries_find_def)

lemma entries_find_skip: "\<forall>x\<in>set xs. cmp k (fst x) \<noteq> 0 \<Longrightarrow> entries_find cmp k xs = None"
  by (auto simp: entries_find_def find_None_iff)

lemma entries_sorted_del: "entries_sorted cmp xs \<Longrightarrow> entries_sorted cmp (entries_del cmp k xs)"
  by (simp add: entries_sorted_def entries_del_def sorted_wrt_filter)

lemma set_entries_upd: "set (entries_upd cmp k v xs) \<subseteq> insert (k, v) (set xs)"
  by (induction xs) auto

section \<open>The contract of a comparator\<close>

locale key_order =
  fixes cmp :: "'k ptr \<Rightarrow> 'k ptr \<Rightarrow> int"
  assumes cmp_swap: "cmp a b < 0 \<longleftrightarrow> 0 < cmp b a"
    and cmp_trans: "cmp a b \<le> 0 \<Longrightarrow> cmp b c \<le> 0 \<Longrightarrow> cmp a c \<le> 0"
begin

lemma cmp_0_sym: "cmp a b = 0 \<longleftrightarrow> cmp b a = 0"
  using cmp_swap [of a b] cmp_swap [of b a] by linarith

lemma cmp_less_le: "cmp a b < 0 \<Longrightarrow> cmp b c \<le> 0 \<Longrightarrow> cmp a c < 0"
  using cmp_swap [of a b] cmp_swap [of a c] cmp_trans [of b c a] by linarith

lemma cmp_less_less: "cmp a b < 0 \<Longrightarrow> cmp b c < 0 \<Longrightarrow> cmp a c < 0"
  using cmp_less_le [of a b c] by linarith

lemma cmp_trans_less: "cmp a b \<le> 0 \<Longrightarrow> cmp b c < 0 \<Longrightarrow> cmp a c < 0"
  using cmp_swap [of b c] cmp_swap [of a c] cmp_trans [of c a b] by linarith

lemma cmp_gt_trans: "0 < cmp a b \<Longrightarrow> 0 \<le> cmp b c \<Longrightarrow> 0 < cmp a c"
  using cmp_swap [of b a] cmp_swap [of c a] cmp_swap [of c b] cmp_trans_less [of c b a] cmp_swap [of b c]
  by linarith

lemma cmp_trans_gt: "0 \<le> cmp a b \<Longrightarrow> 0 < cmp b c \<Longrightarrow> 0 < cmp a c"
  using cmp_swap [of b a] cmp_swap [of a b] cmp_swap [of c a] cmp_swap [of c b] cmp_less_le [of c b a]
  by linarith

lemma cmp_0_left: "cmp a b = 0 \<Longrightarrow> cmp b c < 0 \<longleftrightarrow> cmp a c < 0"
  using cmp_trans_less [of a b c] cmp_trans_less [of b a c] cmp_0_sym [of a b] by linarith

lemma entries_sorted_upd: "entries_sorted cmp xs \<Longrightarrow> entries_sorted cmp (entries_upd cmp k v xs)"
proof (induction xs)
  case Nil
  then show ?case by (simp add: entries_sorted_def)
next
  case (Cons e xs)
  have e: "\<forall>y\<in>set xs. cmp (fst e) (fst y) < 0" and xs: "entries_sorted cmp xs"
    using Cons.prems by (auto simp: entries_sorted_def)
  consider "cmp k (fst e) < 0" | "cmp k (fst e) > 0" | "cmp k (fst e) = 0" by linarith
  then show ?case
  proof cases
    case 1
    then show ?thesis using Cons.prems e by (fastforce simp: entries_sorted_def intro: cmp_less_less)
  next
    case 2
    then have "cmp (fst e) k < 0" using cmp_swap by simp
    then have "\<forall>y\<in>set (entries_upd cmp k v xs). cmp (fst e) (fst y) < 0"
      using e set_entries_upd [of cmp k v xs] by auto
    then show ?thesis using 2 Cons.IH [OF xs] by (simp add: entries_sorted_def)
  next
    case 3
    then show ?thesis using e xs by (simp add: entries_sorted_def cmp_0_left)
  qed
qed

text \<open>Searching below and above an entry.\<close>

lemma low_not_above:
  "entries_sorted cmp (xs @ e # ys) \<Longrightarrow> cmp k (fst e) < 0 \<Longrightarrow> \<forall>y\<in>set (e # ys). cmp k (fst y) < 0"
  by (fastforce simp: entries_sorted_split intro: cmp_less_less)

lemma high_not_below:
  "entries_sorted cmp (xs @ e # ys) \<Longrightarrow> 0 \<le> cmp k (fst e) \<Longrightarrow> \<forall>x\<in>set xs. 0 < cmp k (fst x)"
  by (auto simp: entries_sorted_split cmp_swap intro: cmp_trans_gt)

lemma find_low:
  assumes "entries_sorted cmp (xs @ e # ys)" and "cmp k (fst e) < 0"
  shows "entries_find cmp k (xs @ e # ys) = entries_find cmp k xs"
    and "entries_del cmp k (xs @ e # ys) = entries_del cmp k xs @ e # ys"
    and "entries_upd cmp k v (xs @ e # ys) = entries_upd cmp k v xs @ e # ys"
proof -
  have "\<forall>y\<in>set (e # ys). cmp k (fst y) \<noteq> 0" using low_not_above [OF assms] by fastforce
  then show "entries_find cmp k (xs @ e # ys) = entries_find cmp k xs"
    "entries_del cmp k (xs @ e # ys) = entries_del cmp k xs @ e # ys"
    by (simp_all add: entries_find_append entries_find_skip entries_del_skip split: option.split)
qed (simp add: entries_upd_low assms(2))

lemma find_high:
  assumes "entries_sorted cmp (xs @ e # ys)" and "0 < cmp k (fst e)"
  shows "entries_find cmp k (xs @ e # ys) = entries_find cmp k ys"
    and "entries_del cmp k (xs @ e # ys) = xs @ e # entries_del cmp k ys"
    and "entries_upd cmp k v (xs @ e # ys) = xs @ e # entries_upd cmp k v ys"
proof -
  have h: "\<forall>x\<in>set xs. 0 < cmp k (fst x)" using high_not_below [OF assms(1)] assms(2) by simp
  then have "\<forall>x\<in>set xs. cmp k (fst x) \<noteq> 0" by fastforce
  then show "entries_find cmp k (xs @ e # ys) = entries_find cmp k ys"
    "entries_del cmp k (xs @ e # ys) = xs @ e # entries_del cmp k ys"
    using assms(2) by (simp_all add: entries_find_append entries_find_skip entries_del_skip
        entries_find_Cons entries_del_Cons)
  show "entries_upd cmp k v (xs @ e # ys) = xs @ e # entries_upd cmp k v ys"
    using h assms(2) by (simp add: entries_upd_skip)
qed

lemma find_here:
  assumes "entries_sorted cmp (xs @ e # ys)" and "cmp k (fst e) = 0"
  shows "entries_find cmp k (xs @ e # ys) = Some e"
    and "entries_del cmp k (xs @ e # ys) = xs @ ys"
    and "entries_upd cmp k v (xs @ e # ys) = xs @ (k, v) # ys"
proof -
  have h: "\<forall>x\<in>set xs. 0 < cmp k (fst x)" using high_not_below [OF assms(1)] assms(2) by simp
  then have x: "\<forall>x\<in>set xs. cmp k (fst x) \<noteq> 0" by fastforce
  have y: "\<forall>y\<in>set ys. cmp k (fst y) \<noteq> 0"
    using assms cmp_trans_less [of k "fst e"] by (fastforce simp: entries_sorted_split)
  show "entries_find cmp k (xs @ e # ys) = Some e" "entries_del cmp k (xs @ e # ys) = xs @ ys"
    using assms(2) x y by (simp_all add: entries_find_append entries_find_skip entries_del_skip
        entries_find_Cons entries_del_Cons)
  show "entries_upd cmp k v (xs @ e # ys) = xs @ (k, v) # ys"
    using h assms(2) by (simp add: entries_upd_skip)
qed

lemma find_split:
  assumes "entries_find cmp k xs = Some e"
  shows "\<exists>ys zs. xs = ys @ e # zs \<and> cmp k (fst e) = 0"
  using assms by (auto simp: entries_find_def find_Some_iff dest: id_take_nth_drop)

lemma length_entries_del:
  assumes "entries_sorted cmp xs"
  shows "length (entries_del cmp k xs) = (if entries_find cmp k xs = None then length xs else length xs - 1)
    \<and> (entries_find cmp k xs \<noteq> None \<longrightarrow> 0 < length xs)"
proof (cases "entries_find cmp k xs")
  case None
  then have "\<forall>x\<in>set xs. cmp k (fst x) \<noteq> 0" by (auto simp: entries_find_def find_None_iff)
  then show ?thesis using None by (simp add: entries_del_skip)
next
  case (Some e)
  then obtain ys zs where "xs = ys @ e # zs" "cmp k (fst e) = 0" using find_split by blast
  then show ?thesis using Some find_here(2) [of ys e zs k] assms by simp
qed

lemma length_entries_upd:
  assumes "entries_sorted cmp xs"
  shows "length (entries_upd cmp k v xs) = (if entries_find cmp k xs = None then Suc (length xs) else length xs)"
proof (cases "entries_find cmp k xs")
  case None
  then show ?thesis by (induction xs) (auto simp: entries_find_def split: if_splits)
next
  case (Some e)
  then obtain ys zs where "xs = ys @ e # zs" "cmp k (fst e) = 0" using find_split by blast
  then show ?thesis using Some find_here(3) [of ys e zs k v] assms by simp
qed

lemma drop_below:
  assumes "entries_sorted cmp xs"
  shows "dropWhile (\<lambda>e. 0 < cmp k (fst e)) xs = filter (\<lambda>e. cmp k (fst e) \<le> 0) xs"
  using assms
proof (induction xs)
  case (Cons e xs)
  have "\<forall>y\<in>set xs. cmp k (fst y) \<le> 0" if "cmp k (fst e) \<le> 0"
    using Cons.prems that cmp_trans_less [of k "fst e"] by (auto simp: entries_sorted_def intro: less_imp_le)
  then show ?case using Cons by (auto simp: entries_sorted_def filter_id_conv)
qed simp

lemmas find_in = find_low find_high find_here

end

lemma c_strcmp_swap: "c_strcmp a b < 0 \<longleftrightarrow> 0 < c_strcmp b a"
  by (induction a b rule: c_strcmp.induct)
    (subst c_strcmp.simps, subst (2) c_strcmp.simps, auto simp: not_less)

lemma c_strcmp_trans: "c_strcmp a b \<le> 0 \<Longrightarrow> c_strcmp b c \<le> 0 \<Longrightarrow> c_strcmp a c \<le> 0"
proof (induction a b arbitrary: c rule: c_strcmp.induct)
  case (1 a b)
  show ?case
    using "1.prems" "1.IH" [of "tl c"]
    by (subst c_strcmp.simps, subst (asm) (1 2) c_strcmp.simps)
      (auto split: if_splits)
qed

lemma tolower_0D: "c_tolower c = c_tolower 0 \<Longrightarrow> c = 0" "c_tolower 0 = c_tolower c \<Longrightarrow> c = 0"
  by (auto simp: c_tolower_0 c_tolower_def [of 0])

lemma op_strcasecmp_swap: "op_strcasecmp a b < 0 \<longleftrightarrow> 0 < op_strcasecmp b a"
  by (induction a b rule: op_strcasecmp.induct)
    (subst op_strcasecmp.simps, subst (2) op_strcasecmp.simps,
      auto dest!: tolower_0D)

lemma op_strcasecmp_trans:
  "op_strcasecmp a b \<le> 0 \<Longrightarrow> op_strcasecmp b c \<le> 0 \<Longrightarrow> op_strcasecmp a c \<le> 0"
proof (induction a b arbitrary: c rule: op_strcasecmp.induct)
  case (1 a b)
  show ?case
    using "1.prems" "1.IH" [of "tl c"]
    by (subst op_strcasecmp.simps, subst (asm) (1 2) op_strcasecmp.simps)
      (auto split: if_splits dest!: tolower_0D unsigned_word_eqI)
qed

end
