(* ===== verification/Rbt.thy ===== *)
theory Rbt
  imports Key_Order
begin

text \<open>
  Left-leaning red-black trees of \<^verbatim>\<open>src/rbt.c\<close> and \<^verbatim>\<open>include/op_rbt.h\<close>: the rotations and
  colour flips, insertion, top-down deletion, the searches, the enumerations, the iterator
  with its fixed stack, and the ready-made comparators.  A node owns its two subtrees, so the
  pointer structure is a datatype; following a null pointer is \<open>None\<close>.  The comparator is a
  parameter of a tree, with the laws of the locale \<open>key_order\<close>; the comparators of the file
  are shown to meet it.
\<close>

section \<open>Nodes\<close>

abbreviation (input) RED :: bool where
  "RED \<equiv> True"

abbreviation (input) BLACK :: bool where
  "BLACK \<equiv> False"

datatype ('k, 'v) rbt_node =
    RNull
  | RNode (rn_key: "'k ptr") (rn_val: "'v ptr") (rn_left: "('k, 'v) rbt_node")
      (rn_right: "('k, 'v) rbt_node") (rn_colour: bool)
where
  "rn_left RNull = RNull"
| "rn_right RNull = RNull"

text \<open>
  The selectors are applied to a null pointer nowhere: every use below stands behind a test
  that the node exists, or behind an operation that returns \<open>None\<close> when it does not.
\<close>

type_synonym 'k rbt_cmp = "'k ptr \<Rightarrow> 'k ptr \<Rightarrow> int"

record ('k, 'v) op_rbt =
  rb_root :: "('k, 'v) rbt_node"
  rb_cmp :: "'k rbt_cmp"
  rb_size :: nat
  rb_name :: string

fun is_red :: "('k, 'v) rbt_node \<Rightarrow> bool" where
  "is_red RNull = False"
| "is_red (RNode k v l r c) = (c = RED)"

definition rbt_node_alloc :: "'k ptr \<Rightarrow> 'v ptr \<Rightarrow> ('k, 'v) rbt_node" where
  "rbt_node_alloc key val = RNode key val RNull RNull RED"

section \<open>Structural transformations\<close>

fun rotate_left :: "('k, 'v) rbt_node \<Rightarrow> ('k, 'v) rbt_node option" where
  "rotate_left (RNode k v l (RNode xk xv xl xr xc) c) = Some (RNode xk xv (RNode k v l xl RED) xr c)"
| "rotate_left _ = None"

fun rotate_right :: "('k, 'v) rbt_node \<Rightarrow> ('k, 'v) rbt_node option" where
  "rotate_right (RNode k v (RNode xk xv xl xr xc) r c) = Some (RNode xk xv xl (RNode k v xr r RED) c)"
| "rotate_right _ = None"

fun flip_colours :: "('k, 'v) rbt_node \<Rightarrow> ('k, 'v) rbt_node option" where
  "flip_colours (RNode k v (RNode lk lv ll lr lc) (RNode rk rv rl rr rc) c) =
     Some (RNode k v (RNode lk lv ll lr (\<not> lc)) (RNode rk rv rl rr (\<not> rc)) (\<not> c))"
| "flip_colours _ = None"

definition fixup :: "('k, 'v) rbt_node \<Rightarrow> ('k, 'v) rbt_node option" where
  "fixup h = (if h = RNull then None else do {
     h \<leftarrow> (if is_red (rn_right h) \<and> \<not> is_red (rn_left h) then rotate_left h else Some h);
     h \<leftarrow> (if is_red (rn_left h) \<and> is_red (rn_left (rn_left h)) then rotate_right h else Some h);
     if is_red (rn_left h) \<and> is_red (rn_right h) then flip_colours h else Some h
   })"

section \<open>Insertion\<close>

text \<open>The result carries \<^verbatim>\<open>*old_val\<close> (null unless a value was replaced) and \<^verbatim>\<open>*inserted\<close>.\<close>

primrec rbt_insert :: "('k, 'v) rbt_node \<Rightarrow> 'k ptr \<Rightarrow> 'v ptr \<Rightarrow> 'k rbt_cmp
    \<Rightarrow> (('k, 'v) rbt_node \<times> 'v ptr \<times> bool) option" where
  "rbt_insert RNull key val cmp = Some (rbt_node_alloc key val, NULL, True)"
| "rbt_insert (RNode k v l r c) key val cmp =
     (if cmp key k < 0 then do {
        (l', old, ins) \<leftarrow> rbt_insert l key val cmp;
        h \<leftarrow> fixup (RNode k v l' r c);
        Some (h, old, ins) }
      else if cmp key k > 0 then do {
        (r', old, ins) \<leftarrow> rbt_insert r key val cmp;
        h \<leftarrow> fixup (RNode k v l r' c);
        Some (h, old, ins) }
      else do {
        h \<leftarrow> fixup (RNode key val l r c);
        Some (h, v, False) })"

section \<open>Deletion\<close>

definition set_left :: "('k, 'v) rbt_node \<Rightarrow> ('k, 'v) rbt_node \<Rightarrow> ('k, 'v) rbt_node" where
  "set_left h l = RNode (rn_key h) (rn_val h) l (rn_right h) (rn_colour h)"

definition set_right :: "('k, 'v) rbt_node \<Rightarrow> ('k, 'v) rbt_node \<Rightarrow> ('k, 'v) rbt_node" where
  "set_right h r = RNode (rn_key h) (rn_val h) (rn_left h) r (rn_colour h)"

definition move_red_left :: "('k, 'v) rbt_node \<Rightarrow> ('k, 'v) rbt_node option" where
  "move_red_left h = do {
     h \<leftarrow> flip_colours h;
     if is_red (rn_left (rn_right h)) then do {
       r \<leftarrow> rotate_right (rn_right h);
       h \<leftarrow> rotate_left (set_right h r);
       flip_colours h }
     else Some h }"

definition move_red_right :: "('k, 'v) rbt_node \<Rightarrow> ('k, 'v) rbt_node option" where
  "move_red_right h = do {
     h \<leftarrow> flip_colours h;
     if is_red (rn_left (rn_left h)) then do {
       h \<leftarrow> rotate_right h;
       flip_colours h }
     else Some h }"

fun tree_min :: "('k, 'v) rbt_node \<Rightarrow> ('k, 'v) rbt_node option" where
  "tree_min RNull = None"
| "tree_min (RNode k v l r c) = (if l \<noteq> RNull then tree_min l else Some (RNode k v l r c))"

text \<open>The entries of a subtree in key order; also the measure of the recursions below.\<close>

fun rbt_list :: "('k, 'v) rbt_node \<Rightarrow> ('k ptr \<times> 'v ptr) list" where
  "rbt_list RNull = []"
| "rbt_list (RNode k v l r c) = rbt_list l @ (k, v) # rbt_list r"

named_theorems rbt_moves \<open>restructuring keeps the entries in order\<close>

lemma rbt_list_node: "h \<noteq> RNull \<Longrightarrow> rbt_list h = rbt_list (rn_left h) @ (rn_key h, rn_val h) # rbt_list (rn_right h)"
  by (cases h) simp_all

lemma rbt_list_Nil [simp]: "rbt_list h = [] \<longleftrightarrow> h = RNull" "[] = rbt_list h \<longleftrightarrow> h = RNull"
  by (cases h; simp)+

lemma rotate_left_list [rbt_moves]: "rotate_left h = Some h' \<Longrightarrow> rbt_list h' = rbt_list h"
  by (cases h rule: rotate_left.cases) auto

lemma rotate_right_list [rbt_moves]: "rotate_right h = Some h' \<Longrightarrow> rbt_list h' = rbt_list h"
  by (cases h rule: rotate_right.cases) auto

lemma flip_colours_list [rbt_moves]: "flip_colours h = Some h' \<Longrightarrow> rbt_list h' = rbt_list h"
  by (cases h rule: flip_colours.cases) auto

lemma move_red_left_list [rbt_moves]: "move_red_left h = Some h' \<Longrightarrow> rbt_list h' = rbt_list h"
  by (cases h rule: flip_colours.cases)
    (auto simp: move_red_left_def set_right_def split: if_splits bind_splits dest!: rbt_moves)

lemma move_red_right_list [rbt_moves]: "move_red_right h = Some h' \<Longrightarrow> rbt_list h' = rbt_list h"
  unfolding move_red_right_def
  by (auto split: if_splits bind_splits dest!: rbt_moves)

lemma fixup_list [rbt_moves]: "fixup h = Some h' \<Longrightarrow> rbt_list h' = rbt_list h"
  unfolding fixup_def
  by (auto split: if_splits bind_splits dest!: rbt_moves)

lemma shorter_left: "rbt_list h' = rbt_list h \<Longrightarrow> h \<noteq> RNull \<Longrightarrow> length (rbt_list (rn_left h')) < length (rbt_list h)"
  by (drule arg_cong [where f = length]) (cases h'; cases h; simp)

lemma shorter_right: "rbt_list h' = rbt_list h \<Longrightarrow> h \<noteq> RNull \<Longrightarrow> length (rbt_list (rn_right h')) < length (rbt_list h)"
  by (drule arg_cong [where f = length]) (cases h'; cases h; simp)

definition lean_left :: "('k, 'v) rbt_node \<Rightarrow> ('k, 'v) rbt_node option" where
  "lean_left h = (if \<not> is_red (rn_left h) \<and> \<not> is_red (rn_left (rn_left h)) then move_red_left h else Some h)"

definition lean_right :: "('k, 'v) rbt_node \<Rightarrow> ('k, 'v) rbt_node option" where
  "lean_right h = (if \<not> is_red (rn_right h) \<and> \<not> is_red (rn_left (rn_right h)) then move_red_right h else Some h)"

lemma lean_left_list [rbt_moves]: "lean_left h = Some h' \<Longrightarrow> rbt_list h' = rbt_list h"
  by (auto simp: lean_left_def split: if_splits dest: rbt_moves)

lemma lean_right_list [rbt_moves]: "lean_right h = Some h' \<Longrightarrow> rbt_list h' = rbt_list h"
  by (auto simp: lean_right_def split: if_splits dest: rbt_moves)

function del_min :: "('k, 'v) rbt_node \<Rightarrow> ('k, 'v) rbt_node option" where
  "del_min h =
     (if h = RNull then None
      else if rn_left h = RNull then Some RNull
      else do {
        h \<leftarrow> lean_left h;
        l \<leftarrow> del_min (rn_left h);
        fixup (set_left h l) })"
  by pat_completeness auto
termination
  by (relation "measure (length \<circ> rbt_list)") (auto intro!: shorter_left dest!: rbt_moves)

text \<open>The result carries \<^verbatim>\<open>*found_val\<close> and \<^verbatim>\<open>*found\<close>.\<close>

function rbt_del :: "('k, 'v) rbt_node \<Rightarrow> 'k ptr \<Rightarrow> 'k rbt_cmp
    \<Rightarrow> (('k, 'v) rbt_node \<times> 'v ptr \<times> bool) option" where
  "rbt_del h key cmp =
     (if h = RNull then Some (RNull, NULL, False)
      else if cmp key (rn_key h) < 0 then
        if rn_left h = RNull then Some (h, NULL, False)
        else do {
          h \<leftarrow> lean_left h;
          (l, found_val, found) \<leftarrow> rbt_del (rn_left h) key cmp;
          h \<leftarrow> fixup (set_left h l);
          Some (h, found_val, found) }
      else do {
        h \<leftarrow> (if is_red (rn_left h) then rotate_right h else Some h);
        if cmp key (rn_key h) = 0 \<and> rn_right h = RNull then Some (RNull, rn_val h, True)
        else if rn_right h = RNull then do { h \<leftarrow> fixup h; Some (h, NULL, False) }
        else do {
          h \<leftarrow> lean_right h;
          if cmp key (rn_key h) = 0 then do {
            s \<leftarrow> tree_min (rn_right h);
            r \<leftarrow> del_min (rn_right h);
            h' \<leftarrow> fixup (RNode (rn_key s) (rn_val s) (rn_left h) r (rn_colour h));
            Some (h', rn_val h, True) }
          else do {
            (r, found_val, found) \<leftarrow> rbt_del (rn_right h) key cmp;
            h \<leftarrow> fixup (set_right h r);
            Some (h, found_val, found) } } })"
  by pat_completeness auto
termination
  by (relation "measure (\<lambda>(h, key, cmp). length (rbt_list h))")
    (auto intro!: shorter_left shorter_right split: if_splits dest!: rbt_moves)

declare del_min.simps [simp del] rbt_del.simps [simp del]

section \<open>Trees\<close>

definition op_rbt_create :: "string \<Rightarrow> 'k rbt_cmp \<Rightarrow> ('k, 'v) op_rbt" where
  "op_rbt_create name cmp = \<lparr>rb_root = RNull, rb_cmp = cmp, rb_size = 0, rb_name = name\<rparr>"

primrec destroy_r :: "('k, 'v) rbt_node \<Rightarrow> ('k ptr \<Rightarrow> 'v ptr \<Rightarrow> 's \<Rightarrow> 's) ptr \<Rightarrow> 's \<Rightarrow> 's" where
  "destroy_r RNull fn ud = ud"
| "destroy_r (RNode k v l r c) fn ud =
     (let ud = destroy_r r fn (destroy_r l fn ud) in case fn of None \<Rightarrow> ud | Some f \<Rightarrow> f k v ud)"

definition op_rbt_destroy :: "('k, 'v) op_rbt \<Rightarrow> ('k ptr \<Rightarrow> 'v ptr \<Rightarrow> 's \<Rightarrow> 's) ptr \<Rightarrow> 's \<Rightarrow> 's" where
  "op_rbt_destroy t fn ud = destroy_r (rb_root t) fn ud"

fun set_colour :: "('k, 'v) rbt_node \<Rightarrow> bool \<Rightarrow> ('k, 'v) rbt_node option" where
  "set_colour RNull c' = None"
| "set_colour (RNode k v l r c) c' = Some (RNode k v l r c')"

definition op_rbt_set ::
  "('k, 'v) op_rbt \<Rightarrow> 'k ptr \<Rightarrow> 'v ptr \<Rightarrow> (('k, 'v) op_rbt \<times> 'v ptr \<times> bool) option" where
  "op_rbt_set t key val = do {
     (root, old, inserted) \<leftarrow> rbt_insert (rb_root t) key val (rb_cmp t);
     root \<leftarrow> set_colour root BLACK;
     Some (t\<lparr>rb_root := root, rb_size := (if inserted then wrap64 (rb_size t + 1) else rb_size t)\<rparr>,
       old, inserted) }"

definition op_rbt_del :: "('k, 'v) op_rbt \<Rightarrow> 'k ptr \<Rightarrow> (('k, 'v) op_rbt \<times> 'v ptr) option" where
  "op_rbt_del t key = do {
     (root, found_val, found) \<leftarrow> rbt_del (rb_root t) key (rb_cmp t);
     root \<leftarrow> (if root \<noteq> RNull then set_colour root BLACK else Some root);
     Some (t\<lparr>rb_root := root, rb_size := (if found then sub64 (rb_size t) 1 else rb_size t)\<rparr>, found_val) }"

section \<open>Lookup\<close>

primrec get_loop :: "('k, 'v) rbt_node \<Rightarrow> 'k ptr \<Rightarrow> 'k rbt_cmp \<Rightarrow> 'v ptr" where
  "get_loop RNull key cmp = NULL"
| "get_loop (RNode k v l r c) key cmp =
     (if cmp key k < 0 then get_loop l key cmp
      else if cmp key k > 0 then get_loop r key cmp
      else v)"

definition op_rbt_get :: "('k, 'v) op_rbt \<Rightarrow> 'k ptr \<Rightarrow> 'v ptr" where
  "op_rbt_get t key = get_loop (rb_root t) key (rb_cmp t)"

primrec has_loop :: "('k, 'v) rbt_node \<Rightarrow> 'k ptr \<Rightarrow> 'k rbt_cmp \<Rightarrow> bool" where
  "has_loop RNull key cmp = False"
| "has_loop (RNode k v l r c) key cmp =
     (if cmp key k < 0 then has_loop l key cmp
      else if cmp key k > 0 then has_loop r key cmp
      else True)"

definition op_rbt_has :: "('k, 'v) op_rbt \<Rightarrow> 'k ptr \<Rightarrow> bool" where
  "op_rbt_has t key = has_loop (rb_root t) key (rb_cmp t)"

fun min_loop :: "('k, 'v) rbt_node \<Rightarrow> 'k ptr" where
  "min_loop RNull = NULL"
| "min_loop (RNode k v l r c) = (if l \<noteq> RNull then min_loop l else k)"

definition op_rbt_min_key :: "('k, 'v) op_rbt \<Rightarrow> 'k ptr" where
  "op_rbt_min_key t = (if rb_root t = RNull then NULL else min_loop (rb_root t))"

fun max_loop :: "('k, 'v) rbt_node \<Rightarrow> 'k ptr" where
  "max_loop RNull = NULL"
| "max_loop (RNode k v l r c) = (if r \<noteq> RNull then max_loop r else k)"

definition op_rbt_max_key :: "('k, 'v) op_rbt \<Rightarrow> 'k ptr" where
  "op_rbt_max_key t = (if rb_root t = RNull then NULL else max_loop (rb_root t))"

primrec lower_loop :: "('k, 'v) rbt_node \<Rightarrow> 'k ptr \<Rightarrow> 'k ptr \<Rightarrow> 'k rbt_cmp \<Rightarrow> 'k ptr" where
  "lower_loop RNull best key cmp = best"
| "lower_loop (RNode k v l r c) best key cmp =
     (if cmp key k \<le> 0 then lower_loop l k key cmp else lower_loop r best key cmp)"

definition op_rbt_lower_bound :: "('k, 'v) op_rbt \<Rightarrow> 'k ptr \<Rightarrow> 'k ptr" where
  "op_rbt_lower_bound t key = lower_loop (rb_root t) NULL key (rb_cmp t)"

primrec upper_loop :: "('k, 'v) rbt_node \<Rightarrow> 'k ptr \<Rightarrow> 'k ptr \<Rightarrow> 'k rbt_cmp \<Rightarrow> 'k ptr" where
  "upper_loop RNull best key cmp = best"
| "upper_loop (RNode k v l r c) best key cmp =
     (if cmp key k < 0 then upper_loop l k key cmp else upper_loop r best key cmp)"

definition op_rbt_upper_bound :: "('k, 'v) op_rbt \<Rightarrow> 'k ptr \<Rightarrow> 'k ptr" where
  "op_rbt_upper_bound t key = upper_loop (rb_root t) NULL key (rb_cmp t)"

definition op_rbt_size :: "('k, 'v) op_rbt \<Rightarrow> nat" where
  "op_rbt_size t = rb_size t"

definition op_rbt_name :: "('k, 'v) op_rbt \<Rightarrow> string" where
  "op_rbt_name t = rb_name t"

section \<open>Enumeration\<close>

type_synonym ('k, 'v, 's) rbt_each = "'k ptr \<Rightarrow> 'v ptr \<Rightarrow> 's \<Rightarrow> bool \<times> 's"

primrec foreach_r :: "('k, 'v) rbt_node \<Rightarrow> ('k, 'v, 's) rbt_each \<Rightarrow> 's \<Rightarrow> bool \<times> 's" where
  "foreach_r RNull fn ud = (True, ud)"
| "foreach_r (RNode k v l r c) fn ud =
     (case foreach_r l fn ud of (go, ud) \<Rightarrow>
        if \<not> go then (False, ud)
        else case fn k v ud of (go, ud) \<Rightarrow>
          if \<not> go then (False, ud) else foreach_r r fn ud)"

definition op_rbt_foreach :: "('k, 'v) op_rbt \<Rightarrow> ('k, 'v, 's) rbt_each \<Rightarrow> 's \<Rightarrow> 's" where
  "op_rbt_foreach t fn ud = snd (foreach_r (rb_root t) fn ud)"

primrec foreach_rev_r :: "('k, 'v) rbt_node \<Rightarrow> ('k, 'v, 's) rbt_each \<Rightarrow> 's \<Rightarrow> bool \<times> 's" where
  "foreach_rev_r RNull fn ud = (True, ud)"
| "foreach_rev_r (RNode k v l r c) fn ud =
     (case foreach_rev_r r fn ud of (go, ud) \<Rightarrow>
        if \<not> go then (False, ud)
        else case fn k v ud of (go, ud) \<Rightarrow>
          if \<not> go then (False, ud) else foreach_rev_r l fn ud)"

definition op_rbt_foreach_rev :: "('k, 'v) op_rbt \<Rightarrow> ('k, 'v, 's) rbt_each \<Rightarrow> 's \<Rightarrow> 's" where
  "op_rbt_foreach_rev t fn ud = snd (foreach_rev_r (rb_root t) fn ud)"

section \<open>Iterators\<close>

text \<open>
  The stack is an array of node pointers of fixed length; the tree must not change while an
  iterator is active, so an entry is the subtree it points to.
\<close>

definition OP_RBT_ITER_DEPTH :: nat where
  "OP_RBT_ITER_DEPTH = 64"

record ('k, 'v) op_rbt_iter =
  it_stack :: "('k, 'v) rbt_node list"
  it_sp :: int

definition iter_push :: "('k, 'v) op_rbt_iter \<Rightarrow> ('k, 'v) rbt_node \<Rightarrow> ('k, 'v) op_rbt_iter option" where
  "iter_push it h = (let sp = it_sp it + 1 in do {
     stack \<leftarrow> arr_set (it_stack it) (nat sp) h;
     Some (it\<lparr>it_stack := stack, it_sp := sp\<rparr>) })"

primrec push_left :: "('k, 'v) rbt_node \<Rightarrow> ('k, 'v) op_rbt_iter \<Rightarrow> ('k, 'v) op_rbt_iter option" where
  "push_left RNull it = Some it"
| "push_left (RNode k v l r c) it =
     (if it_sp it < int OP_RBT_ITER_DEPTH - 1
      then do { it \<leftarrow> iter_push it (RNode k v l r c); push_left l it }
      else Some it)"

definition op_rbt_iter_init ::
  "('k, 'v) op_rbt_iter \<Rightarrow> ('k, 'v) op_rbt \<Rightarrow> ('k, 'v) op_rbt_iter option" where
  "op_rbt_iter_init it t = push_left (rb_root t) (it\<lparr>it_sp := -1\<rparr>)"

primrec iter_lower_loop :: "('k, 'v) rbt_node \<Rightarrow> 'k ptr \<Rightarrow> 'k rbt_cmp \<Rightarrow> ('k, 'v) op_rbt_iter
    \<Rightarrow> ('k, 'v) op_rbt_iter option" where
  "iter_lower_loop RNull lower cmp it = Some it"
| "iter_lower_loop (RNode k v l r c) lower cmp it =
     (if it_sp it < int OP_RBT_ITER_DEPTH - 1 then
        if cmp lower k \<le> 0
        then do { it \<leftarrow> iter_push it (RNode k v l r c); iter_lower_loop l lower cmp it }
        else iter_lower_loop r lower cmp it
      else Some it)"

definition op_rbt_iter_lower ::
  "('k, 'v) op_rbt_iter \<Rightarrow> ('k, 'v) op_rbt \<Rightarrow> 'k ptr \<Rightarrow> ('k, 'v) op_rbt_iter option" where
  "op_rbt_iter_lower it t lower = iter_lower_loop (rb_root t) lower (rb_cmp t) (it\<lparr>it_sp := -1\<rparr>)"

definition op_rbt_iter_next ::
  "('k, 'v) op_rbt_iter \<Rightarrow> (('k, 'v) op_rbt_iter \<times> ('k ptr \<times> 'v ptr) option) option" where
  "op_rbt_iter_next it =
     (if it_sp it < 0 then Some (it, None)
      else do {
        cur \<leftarrow> arr_get (it_stack it) (nat (it_sp it));
        (case cur of RNull \<Rightarrow> None
         | RNode k v l r c \<Rightarrow> do {
             it \<leftarrow> push_left r (it\<lparr>it_sp := it_sp it - 1\<rparr>);
             Some (it, Some (k, v)) }) })"

section \<open>Comparators\<close>

text \<open>
  As for the hash tables, the string comparators read a null key as an empty object and the
  integer comparator reads it as zero: null is outside their contract.
\<close>

definition op_rbt_cmp_str :: "cstr ptr \<Rightarrow> cstr ptr \<Rightarrow> int" where
  "op_rbt_cmp_str a b = c_strcmp (deref_str a) (deref_str b)"

definition op_rbt_cmp_istr :: "cstr ptr \<Rightarrow> cstr ptr \<Rightarrow> int" where
  "op_rbt_cmp_istr a b = op_strcasecmp (deref_str a) (deref_str b)"

definition op_rbt_cmp_u64 :: "u64 ptr \<Rightarrow> u64 ptr \<Rightarrow> int" where
  "op_rbt_cmp_u64 a b =
     (let ua = (case a of None \<Rightarrow> 0 | Some x \<Rightarrow> x); ub = (case b of None \<Rightarrow> 0 | Some x \<Rightarrow> x)
      in of_bool (ua > ub) - of_bool (ua < ub))"

text \<open>A pointer as an address, the null pointer being address zero.\<close>

definition op_rbt_cmp_ptr :: "nat ptr \<Rightarrow> nat ptr \<Rightarrow> int" where
  "op_rbt_cmp_ptr a b =
     (let pa = (case a of None \<Rightarrow> 0 | Some x \<Rightarrow> Suc x); pb = (case b of None \<Rightarrow> 0 | Some x \<Rightarrow> Suc x)
      in of_bool (pa > pb) - of_bool (pa < pb))"

section \<open>The red-black invariants\<close>

text \<open>
  \<open>black_height\<close> counts the black links down the left spine; \<open>balanced\<close> says that every
  path has the same number; \<open>llrb\<close> that no right link is red and no red node has a red left
  child.  \<open>node_ok\<close> joins the two.
\<close>

fun black_height :: "('k, 'v) rbt_node \<Rightarrow> nat" where
  "black_height RNull = 0"
| "black_height (RNode k v l r c) = black_height l + (if c = BLACK then 1 else 0)"

fun balanced :: "('k, 'v) rbt_node \<Rightarrow> bool" where
  "balanced RNull = True"
| "balanced (RNode k v l r c) \<longleftrightarrow> black_height l = black_height r \<and> balanced l \<and> balanced r"

fun llrb :: "('k, 'v) rbt_node \<Rightarrow> bool" where
  "llrb RNull = True"
| "llrb (RNode k v l r c) \<longleftrightarrow> \<not> is_red r \<and> (c = RED \<longrightarrow> \<not> is_red l) \<and> llrb l \<and> llrb r"

definition node_ok :: "('k, 'v) rbt_node \<Rightarrow> bool" where
  "node_ok h \<longleftrightarrow> balanced h \<and> llrb h"

fun blacken :: "('k, 'v) rbt_node \<Rightarrow> ('k, 'v) rbt_node" where
  "blacken RNull = RNull"
| "blacken (RNode k v l r c) = RNode k v l r BLACK"

lemma node_ok_RNull [simp]: "node_ok RNull"
  by (simp add: node_ok_def)

lemma node_ok_RNode [simp]:
  "node_ok (RNode k v l r c) \<longleftrightarrow> black_height l = black_height r \<and> node_ok l \<and> node_ok r
     \<and> \<not> is_red r \<and> (c = RED \<longrightarrow> \<not> is_red l)"
  by (auto simp: node_ok_def)

lemma blacken_list [simp]: "rbt_list (blacken h) = rbt_list h"
  by (cases h) simp_all

lemma node_ok_blacken: "node_ok h \<Longrightarrow> node_ok (blacken h)"
  by (cases h) simp_all

lemma blacken_black [simp]: "\<not> is_red (blacken h)"
  by (cases h) simp_all

lemma black_pos: "\<not> is_red h \<Longrightarrow> black_height h = 0 \<longleftrightarrow> h = RNull"
  by (cases h) auto

section \<open>Rebalancing on the way up\<close>

text \<open>
  Three uses of \<open>fixup\<close>: nothing to do; a black node over two sound subtrees of any colour;
  and any node over two sound subtrees, where only the colour of the result is left open.
\<close>

lemma fixup_id:
  assumes "\<not> is_red r" and "c = RED \<Longrightarrow> \<not> is_red l" and "node_ok l"
  shows "fixup (RNode k v l r c) = Some (RNode k v l r c)"
  using assms by (cases l) (auto simp: fixup_def)

lemma fixup_black:
  assumes "node_ok l" and "node_ok r" and "black_height l = black_height r"
  shows "\<exists>t. fixup (RNode k v l r BLACK) = Some t \<and> node_ok t \<and> black_height t = Suc (black_height l)
    \<and> (is_red l \<and> is_red r \<or> \<not> is_red t)"
  using assms by (cases l; cases r; cases "rn_left l"; cases "rn_left r") (auto simp: fixup_def split: if_splits)

lemma fixup_any:
  assumes "node_ok l" and "node_ok r" and "black_height l = black_height r"
  shows "\<exists>t. fixup (RNode k v l r c) = Some t \<and> node_ok (blacken t)"
  using assms by (cases l; cases r; cases "rn_left l"; cases "rn_left r") (auto simp: fixup_def split: if_splits)

text \<open>Insertion may also leave a red left child with a red left child under a black node.\<close>

lemma fixup_over_left:
  assumes "node_ok (blacken l)" and "node_ok r" and "black_height l = black_height r" and "\<not> is_red r"
  shows "\<exists>t. fixup (RNode k v l r BLACK) = Some t \<and> node_ok t \<and> black_height t = Suc (black_height l)"
  using assms by (cases l; cases r; cases "rn_left l") (auto simp: fixup_def split: if_splits)

lemma fixup_red:
  assumes "node_ok l" and "node_ok r" and "black_height l = black_height r" and "\<not> is_red l"
  shows "\<exists>t. fixup (RNode k v l r RED) = Some t \<and> node_ok (blacken t) \<and> black_height t = black_height l"
  using assms by (cases l; cases r; cases "rn_left r") (auto simp: fixup_def split: if_splits)

lemma fixup_red_left:
  assumes "node_ok l" and "node_ok r" and "black_height l = black_height r" and "\<not> is_red r"
  shows "\<exists>t. fixup (RNode k v l r RED) = Some t \<and> node_ok (blacken t) \<and> black_height t = black_height l"
  using assms by (cases l) (auto simp: fixup_def)

lemma fixup_not_null: "fixup h = Some t \<Longrightarrow> t \<noteq> RNull"
  using fixup_list [of h t] by (auto simp: fixup_def split: if_splits)

section \<open>Insertion keeps the invariants\<close>

lemma rbt_insert_ok:
  assumes "node_ok h"
  shows "\<exists>t old ins. rbt_insert h key val cmp = Some (t, old, ins) \<and> t \<noteq> RNull
    \<and> node_ok (blacken t) \<and> (\<not> is_red h \<longrightarrow> node_ok t) \<and> black_height t = black_height h"
  using assms
proof (induction h)
  case RNull
  show ?case by (auto simp: rbt_node_alloc_def)
next
  case (RNode k v l r c)
  note h = RNode.prems [unfolded node_ok_RNode]
  consider (lo) "cmp key k < 0" | (hi) "cmp key k > 0" | (eq) "cmp key k = 0" by linarith
  then show ?case
  proof cases
    case lo
    obtain l' old ins where l': "rbt_insert l key val cmp = Some (l', old, ins)" "node_ok (blacken l')"
      "\<not> is_red l \<longrightarrow> node_ok l'" "black_height l' = black_height l"
      using RNode.IH(1) h by blast
    obtain t where "fixup (RNode k v l' r c) = Some t" "node_ok (blacken t)" "c = BLACK \<longrightarrow> node_ok t"
      "black_height t = black_height (RNode k v l r c)"
    proof (cases "c = RED")
      case True
      then show thesis using fixup_red_left [of l' r k v] l' h that by auto
    next
      case False
      then show thesis using fixup_over_left [of l' r k v] l' h that node_ok_blacken by auto
    qed
    with lo l'(1) show ?thesis using fixup_not_null by fastforce
  next
    case hi
    obtain r' old ins where r': "rbt_insert r key val cmp = Some (r', old, ins)"
      "node_ok r'" "black_height r' = black_height r"
      using RNode.IH(2) h by blast
    obtain t where "fixup (RNode k v l r' c) = Some t" "node_ok (blacken t)" "c = BLACK \<longrightarrow> node_ok t"
      "black_height t = black_height (RNode k v l r c)"
    proof (cases "c = RED")
      case True
      then show thesis using fixup_red [of l r' k v] r' h that by auto
    next
      case False
      then show thesis using fixup_black [of l r' k v] r' h that node_ok_blacken by auto
    qed
    with hi r'(1) show ?thesis using fixup_not_null by fastforce
  next
    case eq
    then show ?thesis using h fixup_id [of r c l key val] by auto
  qed
qed

section \<open>Deletion keeps the invariants\<close>

text \<open>
  The descent of a deletion enters only nodes from which a red link can be lent: the node or
  its left child is red (\<open>enter_ok\<close>), or, after a rotation in \<open>move_red_right\<close>, a black
  node whose right child is red while the key sought is not below it.
\<close>

definition enter_ok :: "('k, 'v) rbt_node \<Rightarrow> bool" where
  "enter_ok h \<longleftrightarrow> h \<noteq> RNull \<and> node_ok h \<and> (is_red h \<or> is_red (rn_left h))"

fun enter_right_ok :: "('k, 'v) rbt_node \<Rightarrow> bool" where
  "enter_right_ok RNull = False"
| "enter_right_ok (RNode k v l r c) \<longleftrightarrow> c = BLACK \<and> black_height l = black_height r \<and> node_ok l \<and> node_ok r
     \<and> \<not> is_red l \<and> is_red r"

text \<open>What a deletion below \<open>h\<close> leaves in its place.\<close>

definition leave_ok :: "('k, 'v) rbt_node \<Rightarrow> ('k, 'v) rbt_node \<Rightarrow> bool" where
  "leave_ok h t \<longleftrightarrow> node_ok t \<and> black_height t = black_height h \<and> (\<not> is_red h \<longrightarrow> \<not> is_red t)"

text \<open>
  Before the descent to the left: the step that borrows a red link succeeds, whatever the
  colour of the node, and the rebuilt node is sound again when the node was one a descent
  enters.
\<close>

lemma lean_left_ok:
  assumes "node_ok l" "node_ok r" "black_height l = black_height r" "\<not> is_red r" "l \<noteq> RNull"
  shows "\<exists>k' v' l' r' c'. lean_left (RNode k v l r c) = Some (RNode k' v' l' r' c') \<and> enter_ok l'
    \<and> node_ok r' \<and> black_height l' = black_height r' \<and> (k' = k \<or> k' \<in> fst ` set (rbt_list r))
    \<and> (enter_ok (RNode k v l r c) \<longrightarrow> black_height (RNode k v l r c) = black_height l' + (if c' then 0 else 1)
        \<and> (if c' then c \<and> \<not> is_red l' \<and> \<not> is_red r' else c \<or> \<not> is_red r'))"
  using assms
  by (cases l; cases r; cases "rn_left r"; cases "rn_left l")
    (auto simp: lean_left_def move_red_left_def set_right_def enter_ok_def split: if_splits)

lemma rebuild_ok:
  assumes "node_ok l'" "node_ok r'" "black_height l' = black_height r'"
    and "black_height h = black_height l' + (if c' then 0 else 1)"
    and "if c' then is_red h \<and> \<not> is_red l' \<and> \<not> is_red r' else is_red h \<or> \<not> is_red l' \<or> \<not> is_red r'"
  shows "\<exists>t. fixup (RNode k' v' l' r' c') = Some t \<and> leave_ok h t"
proof (cases c')
  case True
  then show ?thesis using assms fixup_id [of r' c' l' k' v'] by (auto simp: leave_ok_def)
next
  case False
  then show ?thesis using assms fixup_black [of l' r' k' v'] by (fastforce simp: leave_ok_def)
qed

text \<open>
  Before the descent to the right, likewise.  The node that ends up on top is the old one,
  or comes from its left subtree; in that case the key sought is above it.
\<close>

definition right_ready :: "('k, 'v) rbt_node \<Rightarrow> ('k, 'v) rbt_node \<Rightarrow> bool" where
  "right_ready h h' \<longleftrightarrow> node_ok (rn_left h') \<and> black_height (rn_left h') = black_height (rn_right h')
     \<and> h' \<noteq> RNull
     \<and> (rn_key h' = rn_key h \<and> rn_val h' = rn_val h \<and> enter_ok (rn_right h')
       \<or> rn_key h' \<in> fst ` set (rbt_list (rn_left h))
         \<and> (enter_ok (rn_right h') \<or> enter_right_ok (rn_right h') \<and> rn_key (rn_right h') = rn_key h))
     \<and> (enter_ok h \<or> enter_right_ok h \<longrightarrow>
         black_height h = black_height (rn_left h') + (if rn_colour h' then 0 else 1)
         \<and> (if rn_colour h' then is_red h \<and> \<not> is_red (rn_left h') \<and> \<not> is_red (rn_right h')
            else is_red h \<or> \<not> is_red (rn_left h')))"

lemma lean_right_ok:
  assumes "node_ok l" "node_ok r" "black_height l = black_height r" "\<not> is_red l" "\<not> is_red r" "r \<noteq> RNull"
  shows "\<exists>h'. lean_right (RNode k v l r c) = Some h' \<and> right_ready (RNode k v l r c) h'"
proof (cases "is_red (rn_left r)")
  case True
  then show ?thesis using assms by (auto simp: lean_right_def right_ready_def enter_ok_def)
next
  case False
  obtain rk rv rl rr where r: "r = RNode rk rv rl rr BLACK" using assms by (cases r) auto
  obtain lk lv ll lr where l: "l = RNode lk lv ll lr BLACK" using assms r by (cases l) auto
  show ?thesis
  proof (cases "is_red ll")
    case True
    then obtain k2 v2 l2 r2 where "ll = RNode k2 v2 l2 r2 RED" by (cases ll) auto
    then show ?thesis using assms r l False
      by (auto simp: lean_right_def move_red_right_def right_ready_def enter_ok_def)
  next
    case 2: False
    then show ?thesis using assms r l False
      by (auto simp: lean_right_def move_red_right_def right_ready_def enter_ok_def)
  qed
qed

lemma turn_right_ok:
  assumes "node_ok l" "node_ok r" "black_height l = black_height r"
    and "\<not> is_red r \<or> enter_right_ok (RNode k v l r c)"
  shows "\<exists>h1. (if is_red l then rotate_right (RNode k v l r c) else Some (RNode k v l r c)) = Some h1
    \<and> (if rn_right h1 = RNull then h1 = RNode k v RNull RNull c \<and> l = RNull \<and> r = RNull
       else \<exists>h'. lean_right h1 = Some h' \<and> right_ready (RNode k v l r c) h')"
proof (cases "is_red l")
  case True
  then obtain xk xv xl xr where "l = RNode xk xv xl xr RED" by (cases l) auto
  then show ?thesis using assms by (auto simp: lean_right_def enter_ok_def right_ready_def)
next
  case l: False
  show ?thesis
  proof (cases "r = RNull \<or> is_red r")
    case True
    then show ?thesis using assms l black_pos [of l]
      by (auto simp: lean_right_def enter_ok_def right_ready_def)
  next
    case False
    then show ?thesis using lean_right_ok [of l r k v c] assms l by simp
  qed
qed

lemma del_min_ok: "enter_ok h \<Longrightarrow> \<exists>t. del_min h = Some t \<and> leave_ok h t \<and> rbt_list t = tl (rbt_list h)"
proof (induction h rule: del_min.induct)
  case (1 h)
  obtain k v l r c where h: "h = RNode k v l r c" using "1.prems" by (cases h) (auto simp: enter_ok_def)
  show ?case
  proof (cases "l = RNull")
    case True
    then show ?thesis using h "1.prems" black_pos [of r]
      by (subst del_min.simps) (auto simp: enter_ok_def leave_ok_def)
  next
    case False
    obtain k' v' l' r' c' where m: "lean_left h = Some (RNode k' v' l' r' c')" "enter_ok l'" "node_ok r'"
        "black_height l' = black_height r'" "black_height h = black_height l' + (if c' then 0 else 1)"
        "if c' then c \<and> \<not> is_red l' \<and> \<not> is_red r' else c \<or> \<not> is_red r'"
      using lean_left_ok [of l r k v c] "1.prems" False unfolding h by (auto simp: enter_ok_def)
    then obtain t' where t': "del_min l' = Some t'" "leave_ok l' t'" "rbt_list t' = tl (rbt_list l')"
      using "1.IH" [of "RNode k' v' l' r' c'"] h False by auto
    obtain t where t: "fixup (RNode k' v' t' r' c') = Some t" "leave_ok h t"
      using rebuild_ok [of t' r' h c' k' v'] m t'(2) h by (auto simp: leave_ok_def split: if_splits)
    have "l' \<noteq> RNull" using m(2) by (simp add: enter_ok_def)
    then have "rbt_list t = tl (rbt_list h)"
      using fixup_list [OF t(1)] lean_left_list [OF m(1)] t'(3) by (metis rbt_list.simps(2) rbt_list_Nil(1) tl_append2)
    then show ?thesis using h False m(1) t'(1) t by (subst del_min.simps) (simp add: set_left_def)
  qed
qed

lemma tree_min_ok: "h \<noteq> RNull \<Longrightarrow> \<exists>s. tree_min h = Some s \<and> rbt_list h = (rn_key s, rn_val s) # tl (rbt_list h)"
  by (induction h) auto

text \<open>What a deletion returns, as against the entries of the subtree.\<close>

definition del_result :: "('k, 'v) rbt_node \<Rightarrow> 'k ptr \<Rightarrow> 'k rbt_cmp \<Rightarrow> ('k, 'v) rbt_node \<times> 'v ptr \<times> bool \<Rightarrow> bool" where
  "del_result h key cmp res \<longleftrightarrow> (case res of (t, found_val, found) \<Rightarrow>
     rbt_list t = entries_del cmp key (rbt_list h)
     \<and> found_val = entries_get cmp key (rbt_list h)
     \<and> found = (entries_find cmp key (rbt_list h) \<noteq> None))"

definition del_enters :: "('k, 'v) rbt_node \<Rightarrow> 'k ptr \<Rightarrow> 'k rbt_cmp \<Rightarrow> bool" where
  "del_enters h key cmp \<longleftrightarrow> enter_ok h \<or> enter_right_ok h \<and> 0 \<le> cmp key (rn_key h)"

context key_order
begin

lemma del_descend_left:
  fixes h :: "('k, 'v) rbt_node"
  assumes "entries_sorted cmp (rbt_list h)" and "0 > cmp key (rn_key h)"
    and "node_ok h" "rn_left h \<noteq> RNull"
    and IH: "\<And>h' :: ('k, 'v) rbt_node. \<lbrakk>length (rbt_list h') < length (rbt_list h); entries_sorted cmp (rbt_list h');
       del_enters h' key cmp\<rbrakk> \<Longrightarrow> \<exists>t fv f. rbt_del h' key cmp = Some (t, fv, f) \<and> leave_ok h' t \<and> del_result h' key cmp (t, fv, f)"
  shows "\<exists>t fv f. rbt_del h key cmp = Some (t, fv, f) \<and> del_result h key cmp (t, fv, f)
    \<and> node_ok (blacken t) \<and> (enter_ok h \<longrightarrow> leave_ok h t)"
proof -
  obtain k v l r c where h: "h = RNode k v l r c" using assms(4) by (cases h) auto
  obtain k' v' l' r' c' where m: "lean_left h = Some (RNode k' v' l' r' c')" "enter_ok l'" "node_ok r'"
      "black_height l' = black_height r'"
      "enter_ok h \<longrightarrow> black_height h = black_height l' + (if c' then 0 else 1)
        \<and> (if c' then c \<and> \<not> is_red l' \<and> \<not> is_red r' else c \<or> \<not> is_red r')"
      "k' = k \<or> k' \<in> fst ` set (rbt_list r)"
    using lean_left_ok [of l r k v c] assms(3,4) unfolding h node_ok_RNode rbt_node.sel by blast
  have L: "rbt_list h = rbt_list l' @ (k', v') # rbt_list r'" using lean_left_list [OF m(1)] by simp
  have "\<forall>e\<in>set ((k, v) # rbt_list r). cmp key (fst e) < 0"
    using low_not_above [of "rbt_list l" "(k, v)" "rbt_list r" key] assms(1,2) h by simp
  then have below: "cmp key k' < 0" using m(6) by auto
  obtain t' fv f where t': "rbt_del l' key cmp = Some (t', fv, f)" "leave_ok l' t'" "del_result l' key cmp (t', fv, f)"
    using IH [of l'] m(2) assms(1) unfolding L by (auto simp: entries_sorted_split del_enters_def)
  obtain t where t: "fixup (RNode k' v' t' r' c') = Some t" "node_ok (blacken t)"
    using fixup_any [of t' r' k' v' c'] m t'(2) by (auto simp: leave_ok_def)
  have "enter_ok h \<Longrightarrow> leave_ok h t"
    using rebuild_ok [of t' r' h c' k' v'] m t t'(2) h by (auto simp: leave_ok_def split: if_splits)
  moreover have "del_result h key cmp (t, fv, f)"
    using t'(3) fixup_list [OF t(1)] find_low [OF assms(1) [unfolded L]] below
    by (simp add: del_result_def L entries_get_def)
  ultimately show ?thesis using h assms(2,4) m(1) t'(1) t
    by (subst rbt_del.simps) (simp add: set_left_def)
qed

lemma del_descend_right:
  fixes h :: "('k, 'v) rbt_node"
  assumes ok: "entries_sorted cmp (rbt_list h)" and key: "0 \<le> cmp key (rn_key h)"
    and "h \<noteq> RNull" "node_ok h \<or> enter_right_ok h"
    and IH: "\<And>h' :: ('k, 'v) rbt_node. \<lbrakk>length (rbt_list h') < length (rbt_list h); entries_sorted cmp (rbt_list h');
       del_enters h' key cmp\<rbrakk> \<Longrightarrow> \<exists>t fv f. rbt_del h' key cmp = Some (t, fv, f) \<and> leave_ok h' t \<and> del_result h' key cmp (t, fv, f)"
  shows "\<exists>t fv f. rbt_del h key cmp = Some (t, fv, f) \<and> del_result h key cmp (t, fv, f)
    \<and> node_ok (blacken t) \<and> (enter_ok h \<or> enter_right_ok h \<longrightarrow> leave_ok h t)"
proof -
  obtain k v l r c where h: "h = RNode k v l r c" using assms(3) by (cases h) auto
  have sub: "node_ok l" "node_ok r" "black_height l = black_height r" "\<not> is_red r \<or> enter_right_ok h"
    using assms(4) h by auto
  obtain h1 where h1: "(if is_red l then rotate_right h else Some h) = Some h1"
    "if rn_right h1 = RNull then h1 = RNode k v RNull RNull c \<and> l = RNull \<and> r = RNull
     else \<exists>h'. lean_right h1 = Some h' \<and> right_ready h h'"
    using turn_right_ok [of l r k v c] sub h by blast
  show ?thesis
  proof (cases "rn_right h1 = RNull")
    case True
    then have "h1 = h" "l = RNull" "r = RNull" using h1(2) h by auto
    then show ?thesis using h key h1(1)
      by (subst rbt_del.simps) (auto simp: fixup_id del_result_def entries_del_def entries_get_def entries_find_def
          leave_ok_def enter_ok_def)
  next
    case False
    then obtain h' where h': "lean_right h1 = Some h'" "right_ready h h'" using h1(2) by auto
    obtain k' v' l' r' c' where n: "h' = RNode k' v' l' r' c'" using h'(2) by (cases h') (auto simp: right_ready_def)
    have rdy: "node_ok l'" "black_height l' = black_height r'"
      "k' = k \<and> v' = v \<and> enter_ok r'
         \<or> k' \<in> fst ` set (rbt_list l) \<and> (enter_ok r' \<or> enter_right_ok r' \<and> rn_key r' = k)"
      "enter_ok h \<or> enter_right_ok h \<Longrightarrow> black_height h = black_height l' + (if c' then 0 else 1)
         \<and> (if c' then is_red h \<and> \<not> is_red l' \<and> \<not> is_red r' else is_red h \<or> \<not> is_red l')"
      using h'(2) h by (auto simp: right_ready_def n)
    have "rbt_list h1 = rbt_list h" using h1(1) by (auto split: if_splits dest: rbt_moves)
    then have L: "rbt_list h = rbt_list l' @ (k', v') # rbt_list r'" using lean_right_list [OF h'(1)] n by simp
    have rebuild: "\<exists>t. fixup (RNode k2 v2 l' r2 c') = Some t \<and> rbt_list t = rbt_list l' @ (k2, v2) # rbt_list r2
        \<and> node_ok (blacken t) \<and> (enter_ok h \<or> enter_right_ok h \<longrightarrow> leave_ok h t)"
      if r2: "leave_ok r' r2" for k2 v2 r2
    proof -
      obtain t where t: "fixup (RNode k2 v2 l' r2 c') = Some t" "node_ok (blacken t)"
        using fixup_any [of l' r2 k2 v2 c'] rdy(1,2) r2 by (auto simp: leave_ok_def)
      have "leave_ok h t" if en: "enter_ok h \<or> enter_right_ok h"
        using rebuild_ok [of l' r2 h c' k2 v2] rdy(1,2) rdy(4) [OF en] t r2
        by (auto simp: leave_ok_def split: if_splits)
      then show ?thesis using t fixup_list [OF t(1)] by auto
    qed
    have above: "\<forall>e\<in>set (rbt_list l). 0 < cmp key (fst e)"
      using high_not_below [of "rbt_list l" "(k, v)" "rbt_list r" key] ok key h by simp
    show ?thesis
    proof (cases "cmp key k' = 0")
      case True
      have "enter_ok r'" using rdy(3) True above by auto
      then obtain r2 s where m: "del_min r' = Some r2" "leave_ok r' r2" "rbt_list r2 = tl (rbt_list r')"
          "tree_min r' = Some s" "rbt_list r' = (rn_key s, rn_val s) # tl (rbt_list r')"
        using del_min_ok [of r'] tree_min_ok [of r'] by (auto simp: enter_ok_def)
      obtain t where t: "fixup (RNode (rn_key s) (rn_val s) l' r2 c') = Some t"
          "rbt_list t = rbt_list l' @ (rn_key s, rn_val s) # rbt_list r2"
          "node_ok (blacken t)" "enter_ok h \<or> enter_right_ok h \<longrightarrow> leave_ok h t"
        using rebuild [OF m(2)] by blast
      have "del_result h key cmp (t, v', True)"
        using find_here [OF ok [unfolded L], of key] True t(2) m(3,5) L
        by (simp add: del_result_def entries_get_def)
      then show ?thesis using h key h1(1) h'(1) n False True m t
        by (subst rbt_del.simps) auto
    next
      case ne: False
      have en: "del_enters r' key cmp" using rdy(3) key h by (auto simp: del_enters_def)
      have gt: "0 < cmp key k'" using rdy(3) ne key h above by auto
      obtain r2 fv f where r2: "rbt_del r' key cmp = Some (r2, fv, f)" "leave_ok r' r2" "del_result r' key cmp (r2, fv, f)"
        using IH [of r'] en ok unfolding L by (auto simp: entries_sorted_split)
      obtain t where t: "fixup (RNode k' v' l' r2 c') = Some t" "rbt_list t = rbt_list l' @ (k', v') # rbt_list r2"
          "node_ok (blacken t)" "enter_ok h \<or> enter_right_ok h \<longrightarrow> leave_ok h t"
        using rebuild [OF r2(2)] by blast
      have "del_result h key cmp (t, fv, f)"
        using find_high [OF ok [unfolded L], of key] gt t(2) r2(3) L
        by (simp add: del_result_def entries_get_def)
      then show ?thesis using h key h1(1) h'(1) n False ne r2(1) t
        by (subst rbt_del.simps) (auto simp: set_right_def)
    qed
  qed
qed

lemma rbt_del_enter:
  fixes h :: "('k, 'v) rbt_node"
  shows "\<lbrakk>entries_sorted cmp (rbt_list h); del_enters h key cmp\<rbrakk> \<Longrightarrow>
    \<exists>t fv f. rbt_del h key cmp = Some (t, fv, f) \<and> leave_ok h t \<and> del_result h key cmp (t, fv, f)"
proof (induction "length (rbt_list h)" arbitrary: h rule: less_induct)
  case less
  have h: "h \<noteq> RNull" using less.prems(2) by (auto simp: del_enters_def enter_ok_def)
  show ?case
  proof (cases "cmp key (rn_key h) < 0")
    case True
    then have e: "enter_ok h" "node_ok h" using less.prems(2) by (auto simp: del_enters_def enter_ok_def)
    show ?thesis
    proof (cases "rn_left h = RNull")
      case False
      then show ?thesis using del_descend_left [OF less.prems(1) True e(2) False less.hyps] e(1) by auto
    next
      case null: True
      then obtain k v r c where "h = RNode k v RNull r c" using h by (cases h) auto
      moreover have "entries_find cmp key (rbt_list h) = None" "entries_del cmp key (rbt_list h) = rbt_list h"
        using calculation less.prems(1) True find_low [of "[]" "(k, v)" "rbt_list r" key]
        by (auto simp: entries_find_def entries_del_def)
      ultimately show ?thesis using True e null
        by (subst rbt_del.simps) (auto simp: leave_ok_def del_result_def entries_get_def)
    qed
  next
    case False
    then have "node_ok h \<or> enter_right_ok h" using less.prems(2) by (auto simp: del_enters_def enter_ok_def)
    then show ?thesis
      using del_descend_right [OF less.prems(1) _ h _ less.hyps] False less.prems(2)
      by (fastforce simp: del_enters_def)
  qed
qed

lemma rbt_del_ok:
  fixes h :: "('k, 'v) rbt_node"
  assumes "entries_sorted cmp (rbt_list h)" and "node_ok h"
  shows "\<exists>t fv f. rbt_del h key cmp = Some (t, fv, f) \<and> node_ok (blacken t) \<and> del_result h key cmp (t, fv, f)"
proof -
  consider "h = RNull" | "h \<noteq> RNull" "cmp key (rn_key h) < 0" "rn_left h \<noteq> RNull"
    | "h \<noteq> RNull" "cmp key (rn_key h) < 0" "rn_left h = RNull" | "h \<noteq> RNull" "0 \<le> cmp key (rn_key h)"
    by linarith
  then show ?thesis
  proof cases
    case 1
    then show ?thesis
      by (subst rbt_del.simps) (auto simp: del_result_def entries_del_def entries_get_def entries_find_def)
  next
    case 2
    then show ?thesis using del_descend_left [OF assms(1) _ assms(2)] rbt_del_enter by blast
  next
    case 3
    then obtain k v r c where h: "h = RNode k v RNull r c" by (cases h) auto
    then have "r = RNull" using assms(2) black_pos [of r] by auto
    then show ?thesis using 3 h
      by (subst rbt_del.simps) (auto simp: del_result_def entries_del_def entries_get_def entries_find_def)
  next
    case 4
    then show ?thesis using del_descend_right [OF assms(1)] assms(2) rbt_del_enter by blast
  qed
qed

lemma rbt_insert_list:
  "rbt_insert h key val cmp = Some (t, old, ins) \<Longrightarrow> entries_sorted cmp (rbt_list h) \<Longrightarrow>
    rbt_list t = entries_upd cmp key val (rbt_list h) \<and> old = entries_get cmp key (rbt_list h)
    \<and> ins = (entries_find cmp key (rbt_list h) = None)"
proof (induction h arbitrary: t)
  case RNull
  then show ?case by (auto simp: rbt_node_alloc_def entries_get_def entries_find_def)
next
  case (RNode k v l r c)
  have sub: "entries_sorted cmp (rbt_list l)" "entries_sorted cmp (rbt_list r)"
    using RNode.prems(2) by (auto simp: entries_sorted_split)
  note at = find_in [of "rbt_list l" "(k, v)" "rbt_list r" key, OF RNode.prems(2) [simplified]]
  consider (lo) "cmp key k < 0" | (hi) "cmp key k > 0" | (eq) "cmp key k = 0" by linarith
  then show ?case
  proof cases
    case lo
    then show ?thesis using RNode.prems(1) RNode.IH(1) [OF _ sub(1)] at(1-3)
      by (auto simp: entries_get_def split: bind_splits dest!: fixup_list)
  next
    case hi
    then show ?thesis using RNode.prems(1) RNode.IH(2) [OF _ sub(2)] at(4-6)
      by (auto simp: entries_get_def split: bind_splits dest!: fixup_list)
  next
    case eq
    then show ?thesis using RNode.prems(1) at(7-9)
      by (auto simp: entries_get_def split: bind_splits dest!: fixup_list)
  qed
qed

lemma get_loop_list: "entries_sorted cmp (rbt_list h) \<Longrightarrow> get_loop h key cmp = entries_get cmp key (rbt_list h)"
proof (induction h)
  case (RNode k v l r c)
  then show ?case using find_in [of "rbt_list l" "(k, v)" "rbt_list r" key]
    by (auto simp: entries_sorted_split entries_get_def not_less)
qed (simp add: entries_get_def entries_find_def)

lemma has_loop_list:
  "entries_sorted cmp (rbt_list h) \<Longrightarrow> has_loop h key cmp = (entries_find cmp key (rbt_list h) \<noteq> None)"
proof (induction h)
  case (RNode k v l r c)
  then show ?case using find_in [of "rbt_list l" "(k, v)" "rbt_list r" key]
    by (auto simp: entries_sorted_split not_less)
qed (simp add: entries_find_def)

lemma lower_loop_list:
  "entries_sorted cmp (rbt_list h) \<Longrightarrow> lower_loop h best key cmp =
     (case find (\<lambda>e. cmp key (fst e) \<le> 0) (rbt_list h) of None \<Rightarrow> best | Some e \<Rightarrow> fst e)"
proof (induction h arbitrary: best)
  case (RNode k v l r c)
  have "find (\<lambda>e. cmp key (fst e) \<le> 0) (rbt_list l) = None" if "0 < cmp key k"
    using that high_not_below [OF RNode.prems [unfolded rbt_list.simps], of key] by (fastforce simp: find_None_iff)
  then show ?case using RNode by (auto simp: entries_sorted_split find_append split: option.split)
qed simp

lemma upper_loop_list:
  "entries_sorted cmp (rbt_list h) \<Longrightarrow> upper_loop h best key cmp =
     (case find (\<lambda>e. cmp key (fst e) < 0) (rbt_list h) of None \<Rightarrow> best | Some e \<Rightarrow> fst e)"
proof (induction h arbitrary: best)
  case (RNode k v l r c)
  have "find (\<lambda>e. cmp key (fst e) < 0) (rbt_list l) = None" if "0 \<le> cmp key k"
    using that high_not_below [OF RNode.prems [unfolded rbt_list.simps], of key] by (fastforce simp: find_None_iff)
  then show ?case using RNode by (auto simp: entries_sorted_split find_append not_less split: option.split)
qed simp

end

lemma min_loop_list: "h \<noteq> RNull \<Longrightarrow> min_loop h = fst (hd (rbt_list h))"
  by (induction h) auto

lemma max_loop_list: "h \<noteq> RNull \<Longrightarrow> max_loop h = fst (last (rbt_list h))"
  by (induction h) auto

lemma foreach_r_visit:
  "foreach_r h fn ud = (case visit_list (\<lambda>e. fn (fst e) (snd e)) (rbt_list h) (False, ud) of (stop, ud') \<Rightarrow> (\<not> stop, ud'))"
proof (induction h arbitrary: ud)
  case (RNode k v l r c)
  show ?case
    by (cases "visit_list (\<lambda>e. fn (fst e) (snd e)) (rbt_list l) (False, ud)"; cases "fst (visit_list (\<lambda>e. fn (fst e) (snd e)) (rbt_list l) (False, ud))")
      (auto simp: RNode.IH visit_Cons visit_step_def split: prod.splits)
qed simp

lemma foreach_rev_r_visit:
  "foreach_rev_r h fn ud = (case visit_list (\<lambda>e. fn (fst e) (snd e)) (rev (rbt_list h)) (False, ud) of (stop, ud') \<Rightarrow> (\<not> stop, ud'))"
proof (induction h arbitrary: ud)
  case (RNode k v l r c)
  show ?case
    by (cases "visit_list (\<lambda>e. fn (fst e) (snd e)) (rev (rbt_list r)) (False, ud)"; cases "fst (visit_list (\<lambda>e. fn (fst e) (snd e)) (rev (rbt_list r)) (False, ud))")
      (auto simp: RNode.IH visit_Cons visit_step_def split: prod.splits)
qed simp

text \<open>Destruction hands every entry to the callback once, children first.\<close>

fun postorder :: "('k, 'v) rbt_node \<Rightarrow> ('k ptr \<times> 'v ptr) list" where
  "postorder RNull = []"
| "postorder (RNode k v l r c) = postorder l @ postorder r @ [(k, v)]"

lemma postorder_mset: "mset (postorder h) = mset (rbt_list h)"
  by (induction h) simp_all

lemma destroy_r_visits: "destroy_r h (Some f) ud = fold (\<lambda>e. f (fst e) (snd e)) (postorder h) ud"
  by (induction h arbitrary: ud) simp_all

lemma destroy_r_none: "destroy_r h None ud = ud"
  by (induction h arbitrary: ud) simp_all

section \<open>Trees refine entries in key order\<close>

definition rbt_inv :: "'k rbt_cmp \<Rightarrow> ('k, 'v) op_rbt \<Rightarrow> bool" where
  "rbt_inv cmp t \<longleftrightarrow> rb_cmp t = cmp \<and> node_ok (rb_root t) \<and> \<not> is_red (rb_root t)
     \<and> entries_sorted cmp (rbt_list (rb_root t)) \<and> rb_size t = wrap64 (length (rbt_list (rb_root t)))"

datatype ('k, 'v, 's) rbt_req =
    RSet "'k ptr" "'v ptr"
  | RDel "'k ptr"
  | RGet "'k ptr"
  | RHas "'k ptr"
  | RMin
  | RMax
  | RLower "'k ptr"
  | RUpper "'k ptr"
  | RSize
  | REach "('k, 'v, 's) rbt_each" 's
  | REachRev "('k, 'v, 's) rbt_each" 's

datatype ('k, 'v, 's) rbt_res =
    RsSet "'v ptr" bool
  | RsVal "'v ptr"
  | RsBool bool
  | RsKey "'k ptr"
  | RsNum nat
  | RsState 's

fun rbt_step :: "('k, 'v, 's) rbt_req \<Rightarrow> ('k, 'v) op_rbt \<Rightarrow> (('k, 'v) op_rbt \<times> ('k, 'v, 's) rbt_res) option" where
  "rbt_step (RSet k v) t = do { (t, old, ins) \<leftarrow> op_rbt_set t k v; Some (t, RsSet old ins) }"
| "rbt_step (RDel k) t = do { (t, v) \<leftarrow> op_rbt_del t k; Some (t, RsVal v) }"
| "rbt_step (RGet k) t = Some (t, RsVal (op_rbt_get t k))"
| "rbt_step (RHas k) t = Some (t, RsBool (op_rbt_has t k))"
| "rbt_step RMin t = Some (t, RsKey (op_rbt_min_key t))"
| "rbt_step RMax t = Some (t, RsKey (op_rbt_max_key t))"
| "rbt_step (RLower k) t = Some (t, RsKey (op_rbt_lower_bound t k))"
| "rbt_step (RUpper k) t = Some (t, RsKey (op_rbt_upper_bound t k))"
| "rbt_step RSize t = Some (t, RsNum (op_rbt_size t))"
| "rbt_step (REach fn ud) t = Some (t, RsState (op_rbt_foreach t fn ud))"
| "rbt_step (REachRev fn ud) t = Some (t, RsState (op_rbt_foreach_rev t fn ud))"

fun rbt_run :: "('k, 'v, 's) rbt_req list \<Rightarrow> ('k, 'v) op_rbt \<Rightarrow> (('k, 'v) op_rbt \<times> ('k, 'v, 's) rbt_res list) option" where
  "rbt_run [] t = Some (t, [])"
| "rbt_run (q # qs) t = do { (t, a) \<leftarrow> rbt_step q t; (t, as) \<leftarrow> rbt_run qs t; Some (t, a # as) }"

text \<open>The reference: a list of entries strictly increasing in key order.\<close>

fun entries_step :: "'k rbt_cmp \<Rightarrow> ('k, 'v, 's) rbt_req \<Rightarrow> ('k, 'v) entries \<Rightarrow> ('k, 'v) entries \<times> ('k, 'v, 's) rbt_res" where
  "entries_step cmp (RSet k v) xs = (entries_upd cmp k v xs, RsSet (entries_get cmp k xs) (entries_find cmp k xs = None))"
| "entries_step cmp (RDel k) xs = (entries_del cmp k xs, RsVal (entries_get cmp k xs))"
| "entries_step cmp (RGet k) xs = (xs, RsVal (entries_get cmp k xs))"
| "entries_step cmp (RHas k) xs = (xs, RsBool (entries_find cmp k xs \<noteq> None))"
| "entries_step cmp RMin xs = (xs, RsKey (if xs = [] then NULL else fst (hd xs)))"
| "entries_step cmp RMax xs = (xs, RsKey (if xs = [] then NULL else fst (last xs)))"
| "entries_step cmp (RLower k) xs = (xs, RsKey (entry_key (find (\<lambda>e. cmp k (fst e) \<le> 0) xs)))"
| "entries_step cmp (RUpper k) xs = (xs, RsKey (entry_key (find (\<lambda>e. cmp k (fst e) < 0) xs)))"
| "entries_step cmp RSize xs = (xs, RsNum (wrap64 (length xs)))"
| "entries_step cmp (REach fn ud) xs = (xs, RsState (snd (visit_list (\<lambda>e. fn (fst e) (snd e)) xs (False, ud))))"
| "entries_step cmp (REachRev fn ud) xs =
     (xs, RsState (snd (visit_list (\<lambda>e. fn (fst e) (snd e)) (rev xs) (False, ud))))"

fun entries_run :: "'k rbt_cmp \<Rightarrow> ('k, 'v, 's) rbt_req list \<Rightarrow> ('k, 'v) entries \<Rightarrow> ('k, 'v) entries \<times> ('k, 'v, 's) rbt_res list" where
  "entries_run cmp [] xs = (xs, [])"
| "entries_run cmp (q # qs) xs =
     (case entries_step cmp q xs of (xs, a) \<Rightarrow> case entries_run cmp qs xs of (xs, as) \<Rightarrow> (xs, a # as))"

lemma set_colour_blacken: "h \<noteq> RNull \<Longrightarrow> set_colour h BLACK = Some (blacken h)"
  by (cases h) simp_all

lemma rbt_inv_create: "rbt_inv cmp (op_rbt_create name cmp)"
  by (simp add: rbt_inv_def op_rbt_create_def wrap64_def)

context key_order
begin

lemma op_rbt_set_refines:
  assumes "rbt_inv cmp t"
  shows "\<exists>t'. op_rbt_set t k v = Some (t', entries_get cmp k (rbt_list (rb_root t)), entries_find cmp k (rbt_list (rb_root t)) = None)
    \<and> rbt_inv cmp t' \<and> rbt_list (rb_root t') = entries_upd cmp k v (rbt_list (rb_root t))"
proof -
  obtain h old ins where h: "rbt_insert (rb_root t) k v cmp = Some (h, old, ins)" "h \<noteq> RNull" "node_ok (blacken h)"
    using rbt_insert_ok [of "rb_root t" k v cmp] assms by (auto simp: rbt_inv_def)
  note l = rbt_insert_list [OF h(1)]
  have ok: "entries_sorted cmp (rbt_list (rb_root t))" using assms by (simp add: rbt_inv_def)
  then show ?thesis
    using h l [OF ok] assms entries_sorted_upd [OF ok, of k v] length_entries_upd [OF ok, of k v]
    by (simp add: op_rbt_set_def set_colour_blacken rbt_inv_def wrap64_Suc [simplified])
qed

lemma op_rbt_del_refines:
  assumes "rbt_inv cmp t"
  shows "\<exists>t'. op_rbt_del t k = Some (t', entries_get cmp k (rbt_list (rb_root t)))
    \<and> rbt_inv cmp t' \<and> rbt_list (rb_root t') = entries_del cmp k (rbt_list (rb_root t))"
proof -
  have ok: "entries_sorted cmp (rbt_list (rb_root t))" using assms by (simp add: rbt_inv_def)
  obtain h fv f where h: "rbt_del (rb_root t) k cmp = Some (h, fv, f)" "node_ok (blacken h)"
      "del_result (rb_root t) k cmp (h, fv, f)"
    using rbt_del_ok [OF ok, of k] assms by (auto simp: rbt_inv_def)
  have b: "(if h \<noteq> RNull then set_colour h BLACK else Some h) = Some (blacken h)"
    by (cases h) simp_all
  show ?thesis
    using h b assms entries_sorted_del [OF ok, of k] length_entries_del [OF ok, of k]
    sub64_wrap64 [of "length (rbt_list (rb_root t))", simplified]
    by (auto simp: op_rbt_del_def rbt_inv_def del_result_def)
qed

lemma rbt_step_refines:
  assumes "rbt_inv cmp t"
  shows "\<exists>t'. rbt_step q t = Some (t', snd (entries_step cmp q (rbt_list (rb_root t)))) \<and> rbt_inv cmp t'
    \<and> rbt_list (rb_root t') = fst (entries_step cmp q (rbt_list (rb_root t)))"
proof -
  have ok: "entries_sorted cmp (rbt_list (rb_root t))" and c: "rb_cmp t = cmp" using assms by (simp_all add: rbt_inv_def)
  show ?thesis
  proof (cases q)
    case (RSet k v)
    then show ?thesis using op_rbt_set_refines [OF assms, of k v] by auto
  next
    case (RDel k)
    then show ?thesis using op_rbt_del_refines [OF assms, of k] by auto
  next
    case RSize
    then show ?thesis using assms by (simp add: rbt_inv_def op_rbt_size_def)
  qed (use assms c ok in \<open>auto simp: op_rbt_get_def op_rbt_has_def op_rbt_min_key_def op_rbt_max_key_def
      op_rbt_lower_bound_def op_rbt_upper_bound_def op_rbt_foreach_def op_rbt_foreach_rev_def get_loop_list has_loop_list
      min_loop_list max_loop_list lower_loop_list upper_loop_list entry_key_def foreach_r_visit foreach_rev_r_visit
      split: prod.split\<close>)
qed

lemma rbt_run_refines:
  "rbt_inv cmp t \<Longrightarrow> \<exists>t'. rbt_run qs t = Some (t', snd (entries_run cmp qs (rbt_list (rb_root t)))) \<and> rbt_inv cmp t'
    \<and> rbt_list (rb_root t') = fst (entries_run cmp qs (rbt_list (rb_root t)))"
proof (induction qs arbitrary: t)
  case (Cons q qs)
  obtain t1 where t1: "rbt_step q t = Some (t1, snd (entries_step cmp q (rbt_list (rb_root t))))" "rbt_inv cmp t1"
      "rbt_list (rb_root t1) = fst (entries_step cmp q (rbt_list (rb_root t)))"
    using rbt_step_refines [OF Cons.prems] by blast
  with Cons.IH [OF t1(2)] show ?case by (auto split: prod.split)
qed simp

end

section \<open>Height\<close>

fun rbt_height :: "('k, 'v) rbt_node \<Rightarrow> nat" where
  "rbt_height RNull = 0"
| "rbt_height (RNode k v l r c) = Suc (max (rbt_height l) (rbt_height r))"

lemma height_left: "int (rbt_height l) + 1 \<le> int (rbt_height (RNode k v l r c))"
  by simp

lemma height_right: "int (rbt_height r) + 1 \<le> int (rbt_height (RNode k v l r c))"
  by simp

lemma rbt_height_black: "node_ok h \<Longrightarrow> rbt_height h \<le> 2 * black_height h + (if is_red h then 1 else 0)"
  by (induction h) (auto split: if_splits)

lemma black_height_size: "node_ok h \<Longrightarrow> 2 ^ black_height h \<le> Suc (length (rbt_list h))"
  by (induction h) auto

lemma rbt_height_size:
  assumes "rbt_inv cmp t"
  shows "2 ^ rbt_height (rb_root t) \<le> (Suc (length (rbt_list (rb_root t))))\<^sup>2"
proof -
  have "rbt_height (rb_root t) \<le> 2 * black_height (rb_root t)"
    using assms rbt_height_black [of "rb_root t"] by (simp add: rbt_inv_def)
  then have "(2::nat) ^ rbt_height (rb_root t) \<le> 2 ^ (2 * black_height (rb_root t))" by (intro power_increasing) auto
  also have "\<dots> = (2 ^ black_height (rb_root t))\<^sup>2" by (simp add: power_mult [symmetric] mult.commute)
  also have "\<dots> \<le> (Suc (length (rbt_list (rb_root t))))\<^sup>2"
    using assms by (intro power_mono black_height_size) (auto simp: rbt_inv_def)
  finally show ?thesis .
qed

lemma rbt_height_iter:
  assumes "rbt_inv cmp t" and "Suc (length (rbt_list (rb_root t))) < 2 ^ 33"
  shows "rbt_height (rb_root t) \<le> OP_RBT_ITER_DEPTH"
proof -
  have "2 ^ black_height (rb_root t) \<le> Suc (length (rbt_list (rb_root t)))"
    using assms(1) by (intro black_height_size) (simp add: rbt_inv_def)
  with assms(2) have "(2::nat) ^ black_height (rb_root t) < 2 ^ 33" by (rule order_le_less_trans [rotated])
  then have "black_height (rb_root t) < 33" by (simp only: power_strict_increasing_iff)
  then show ?thesis using assms(1) rbt_height_black [of "rb_root t"]
    by (simp add: rbt_inv_def OP_RBT_ITER_DEPTH_def)
qed

section \<open>The iterator walks the entries in order\<close>

definition iter_items :: "('k, 'v) op_rbt_iter \<Rightarrow> ('k, 'v) rbt_node list" where
  "iter_items it = take (nat (it_sp it + 1)) (it_stack it)"

definition iter_ok :: "('k, 'v) op_rbt_iter \<Rightarrow> bool" where
  "iter_ok it \<longleftrightarrow> length (it_stack it) = OP_RBT_ITER_DEPTH \<and> -1 \<le> it_sp it \<and> it_sp it < int OP_RBT_ITER_DEPTH
     \<and> (\<forall>i < length (iter_items it). iter_items it ! i \<noteq> RNull
          \<and> rbt_height (iter_items it ! i) + i \<le> OP_RBT_ITER_DEPTH)"

definition items_rest :: "('k, 'v) rbt_node list \<Rightarrow> ('k, 'v) entries" where
  "items_rest hs = concat (map (\<lambda>h. (rn_key h, rn_val h) # rbt_list (rn_right h)) (rev hs))"

abbreviation iter_rest :: "('k, 'v) op_rbt_iter \<Rightarrow> ('k, 'v) entries" where
  "iter_rest it \<equiv> items_rest (iter_items it)"

fun iter_calls :: "nat \<Rightarrow> ('k, 'v) op_rbt_iter \<Rightarrow> ('k ptr \<times> 'v ptr) option list option" where
  "iter_calls 0 it = Some []"
| "iter_calls (Suc n) it = do { (it, e) \<leftarrow> op_rbt_iter_next it; es \<leftarrow> iter_calls n it; Some (e # es) }"

lemma iter_items_length: "iter_ok it \<Longrightarrow> int (length (iter_items it)) = it_sp it + 1"
  by (auto simp: iter_items_def iter_ok_def)

lemma items_rest_snoc [simp]: "items_rest (hs @ [h]) = (rn_key h, rn_val h) # rbt_list (rn_right h) @ items_rest hs"
  by (simp add: items_rest_def)

lemma items_rest_Nil [simp]: "items_rest [] = []"
  by (simp add: items_rest_def)

lemma iter_push_ok:
  assumes "iter_ok it" and "h \<noteq> RNull" and "int (rbt_height h) + it_sp it + 1 \<le> int OP_RBT_ITER_DEPTH"
  shows "\<exists>it'. iter_push it h = Some it' \<and> iter_ok it' \<and> it_sp it' = it_sp it + 1 \<and> iter_items it' = iter_items it @ [h]"
proof -
  have "0 < rbt_height h" using assms(2) by (cases h) auto
  then have sp: "it_sp it + 1 < int OP_RBT_ITER_DEPTH" "-1 \<le> it_sp it" using assms(1,3) by (auto simp: iter_ok_def)
  define n where "n = nat (it_sp it + 1)"
  have n: "n < length (it_stack it)" "nat (it_sp it + 1 + 1) = Suc n" "it_sp it + 1 = int n"
    using sp assms(1) by (auto simp: n_def iter_ok_def)
  let ?it = "it\<lparr>it_stack := (it_stack it)[n := h], it_sp := it_sp it + 1\<rparr>"
  have p: "iter_push it h = Some ?it" using n by (simp add: iter_push_def)
  have i: "iter_items ?it = iter_items it @ [h]"
    using n by (simp add: iter_items_def take_list_update_last)
  have len: "length (iter_items it) = n" using n by (simp add: iter_items_def)
  have "iter_ok ?it"
    using assms sp n len unfolding iter_ok_def i by (auto simp: nth_append less_Suc_eq)
  then show ?thesis using p i by auto
qed

lemma push_left_ok:
  "\<lbrakk>iter_ok it; int (rbt_height h) + it_sp it + 1 \<le> int OP_RBT_ITER_DEPTH\<rbrakk> \<Longrightarrow>
   \<exists>it'. push_left h it = Some it' \<and> iter_ok it' \<and> iter_rest it' = rbt_list h @ iter_rest it"
proof (induction h arbitrary: it)
  case (RNode k v l r c)
  obtain it1 where 1: "iter_push it (RNode k v l r c) = Some it1" "iter_ok it1" "it_sp it1 = it_sp it + 1"
      "iter_items it1 = iter_items it @ [RNode k v l r c]"
    using iter_push_ok [OF RNode.prems(1) _ RNode.prems(2)] by blast
  obtain it2 where "push_left l it1 = Some it2" "iter_ok it2" "iter_rest it2 = rbt_list l @ iter_rest it1"
    using RNode.IH(1) [OF 1(2)] 1(3) RNode.prems(2) height_left [of l k v r c] by auto
  then show ?case using 1 RNode.prems(2) by simp
qed simp

lemma iter_next_ok:
  assumes "iter_ok it"
  shows "case iter_rest it of [] \<Rightarrow> op_rbt_iter_next it = Some (it, None)
    | e # es \<Rightarrow> \<exists>it'. op_rbt_iter_next it = Some (it', Some e) \<and> iter_ok it' \<and> iter_rest it' = es"
proof (cases "it_sp it < 0")
  case True
  then have "length (iter_items it) = 0" using iter_items_length [OF assms] by linarith
  then show ?thesis using True by (simp add: op_rbt_iter_next_def)
next
  case False
  define n where "n = nat (it_sp it)"
  have n: "n < length (it_stack it)" "nat (it_sp it + 1) = Suc n" "it_sp it = int n"
    using False assms by (auto simp: n_def iter_ok_def)
  let ?h = "it_stack it ! n"
  let ?it = "it\<lparr>it_sp := it_sp it - 1\<rparr>"
  have i: "iter_items it = iter_items ?it @ [?h]"
    using n by (simp add: iter_items_def take_Suc_conv_app_nth)
  have len: "length (iter_items ?it) = n" using n by (simp add: iter_items_def)
  have ok: "iter_ok ?it" and h: "?h \<noteq> RNull" "rbt_height ?h + n \<le> OP_RBT_ITER_DEPTH"
    using assms False n len unfolding iter_ok_def i by (auto simp: nth_append less_Suc_eq)
  obtain k v l r c where hn: "?h = RNode k v l r c" using h(1) by (cases ?h) auto
  have "int (rbt_height r) + it_sp ?it + 1 \<le> int OP_RBT_ITER_DEPTH"
    using h(2) n(3) height_right [of r k v l c] unfolding hn by simp
  then obtain it' where "push_left r ?it = Some it'" "iter_ok it'" "iter_rest it' = rbt_list r @ iter_rest ?it"
    using push_left_ok [OF ok, of r] by blast
  then show ?thesis using False n hn i by (auto simp: op_rbt_iter_next_def)
qed

lemma iter_calls_ok:
  "iter_ok it \<Longrightarrow> iter_calls n it = Some (map Some (take n (iter_rest it)) @ replicate (n - length (iter_rest it)) None)"
proof (induction n arbitrary: it)
  case (Suc n)
  show ?case
  proof (cases "iter_rest it")
    case Nil
    then show ?thesis using iter_next_ok [OF Suc.prems] Suc.IH [OF Suc.prems] by simp
  next
    case (Cons e es)
    then show ?thesis using iter_next_ok [OF Suc.prems] Suc.IH by auto
  qed
qed simp

lemma iter_start: "length (it_stack it) = OP_RBT_ITER_DEPTH \<Longrightarrow> iter_ok (it\<lparr>it_sp := -1\<rparr>) \<and> iter_items (it\<lparr>it_sp := -1\<rparr>) = []"
  by (simp add: iter_ok_def iter_items_def)

context key_order
begin

lemma iter_lower_loop_ok:
  "\<lbrakk>iter_ok it; entries_sorted cmp (rbt_list h); int (rbt_height h) + it_sp it + 1 \<le> int OP_RBT_ITER_DEPTH\<rbrakk> \<Longrightarrow>
   \<exists>it'. iter_lower_loop h lower cmp it = Some it' \<and> iter_ok it'
     \<and> iter_rest it' = dropWhile (\<lambda>e. 0 < cmp lower (fst e)) (rbt_list h) @ iter_rest it"
proof (induction h arbitrary: it)
  case (RNode k v l r c)
  have room: "it_sp it < int OP_RBT_ITER_DEPTH - 1" using RNode.prems(3) by simp
  have sub: "entries_sorted cmp (rbt_list l)" "entries_sorted cmp (rbt_list r)"
    using RNode.prems(2) by (auto simp: entries_sorted_split)
  show ?case
  proof (cases "cmp lower k \<le> 0")
    case True
    obtain it1 where 1: "iter_push it (RNode k v l r c) = Some it1" "iter_ok it1" "it_sp it1 = it_sp it + 1"
        "iter_items it1 = iter_items it @ [RNode k v l r c]"
      using iter_push_ok [OF RNode.prems(1) _ RNode.prems(3)] by blast
    obtain it2 where "iter_lower_loop l lower cmp it1 = Some it2" "iter_ok it2"
        "iter_rest it2 = dropWhile (\<lambda>e. 0 < cmp lower (fst e)) (rbt_list l) @ iter_rest it1"
      using RNode.IH(1) [OF 1(2) sub(1)] 1(3) RNode.prems(3) height_left [of l k v r c] by auto
    then show ?thesis using 1 True room by (auto simp: dropWhile_append3)
  next
    case False
    obtain it2 where "iter_lower_loop r lower cmp it = Some it2" "iter_ok it2"
        "iter_rest it2 = dropWhile (\<lambda>e. 0 < cmp lower (fst e)) (rbt_list r) @ iter_rest it"
      using RNode.IH(2) [OF RNode.prems(1) sub(2)] RNode.prems(3) height_right [of r k v l c] by auto
    moreover have "\<forall>e\<in>set (rbt_list l). 0 < cmp lower (fst e)"
      using high_not_below [OF RNode.prems(2) [unfolded rbt_list.simps], of lower] False by simp
    ultimately show ?thesis using False room by (auto simp: dropWhile_append2)
  qed
qed simp

end

section \<open>The comparators meet the contract\<close>

interpretation cmp_str: key_order op_rbt_cmp_str
  by unfold_locales (auto simp: op_rbt_cmp_str_def c_strcmp_swap intro: c_strcmp_trans)

interpretation cmp_istr: key_order op_rbt_cmp_istr
  by unfold_locales (auto simp: op_rbt_cmp_istr_def op_strcasecmp_swap intro: op_strcasecmp_trans)

interpretation cmp_u64: key_order op_rbt_cmp_u64
  by unfold_locales (auto simp: op_rbt_cmp_u64_def Let_def of_bool_def split: if_splits)

interpretation cmp_ptr: key_order op_rbt_cmp_ptr
  by unfold_locales (auto simp: op_rbt_cmp_ptr_def Let_def of_bool_def split: if_splits)

section \<open>Properties of the component\<close>

text \<open>
  C3.  A tree refines a list of entries in strictly increasing key order.  For every
  comparator that is a total order, every sequence of requests made of \<^verbatim>\<open>op_rbt_set\<close>,
  \<^verbatim>\<open>op_rbt_del\<close>, \<^verbatim>\<open>op_rbt_get\<close>, \<^verbatim>\<open>op_rbt_has\<close>, the minimum and maximum, both bounds, the size
  and both enumerations runs to its end on the tree, without following a null pointer, and
  returns what the list returns; the tree then holds exactly the list's entries and is a
  left-leaning red-black tree with a black root.
\<close>

theorem rbt_refines_entries:
  assumes "key_order cmp"
  shows "\<exists>t. rbt_run qs (op_rbt_create name cmp) = Some (t, snd (entries_run cmp qs []))
    \<and> rbt_list (rb_root t) = fst (entries_run cmp qs [])
    \<and> balanced (rb_root t) \<and> llrb (rb_root t) \<and> \<not> is_red (rb_root t)"
  using key_order.rbt_run_refines [OF assms rbt_inv_create, of qs name]
  by (auto simp: op_rbt_create_def rbt_inv_def node_ok_def)

theorem rbt_refines_entries_witness:
  "key_order op_rbt_cmp_u64 \<and> (\<exists>t. rbt_run
     [RSet (Some 5) (Some ''five''), RSet (Some 3) (Some ''three''), RSet (Some 8) (Some ''eight''),
      RDel (Some 5), RLower (Some 4), RSize] (op_rbt_create ''t'' op_rbt_cmp_u64 :: (u64, string) op_rbt)
     = Some (t, [RsSet NULL True, RsSet NULL True, RsSet NULL True, RsVal (Some ''five''),
         RsKey (Some 8), RsNum 2 :: (u64, string, unit) rbt_res])
     \<and> rbt_list (rb_root t) = [(Some 3, Some ''three''), (Some 8, Some ''eight'')])"
  using rbt_refines_entries [OF cmp_u64.key_order_axioms, of "[RSet (Some 5) (Some ''five''), RSet (Some 3) (Some ''three''),
      RSet (Some 8) (Some ''eight''), RDel (Some 5), RLower (Some 4), RSize :: (u64, string, unit) rbt_req]" "''t''"]
    cmp_u64.key_order_axioms
  by (auto simp: op_rbt_cmp_u64_def entries_find_def entries_get_def entries_del_def entry_key_def wrap64_def W64_def
      simp del: rbt_run.simps)

text \<open>
  C15.  The iterator enumerates the tree from a lower bound.  On a tree reached by any sequence
  of requests that holds fewer than \<open>2 ^ 33 - 1\<close> entries, an iterator positioned with
  \<^verbatim>\<open>op_rbt_iter_lower\<close> never outgrows its 64-slot stack: any number of calls of
  \<^verbatim>\<open>op_rbt_iter_next\<close> return, in ascending order, the entries whose key is not below the
  bound, each once, and then report exhaustion for good.
\<close>

theorem rbt_iter_lower_walks:
  assumes "key_order cmp" and "rbt_run qs (op_rbt_create name cmp) = Some (t, as)"
    and "Suc (length (rbt_list (rb_root t))) < 2 ^ 33" and "length (it_stack it) = OP_RBT_ITER_DEPTH"
  shows "\<exists>it'. op_rbt_iter_lower it t lower = Some it'
    \<and> (let es = filter (\<lambda>e. cmp lower (fst e) \<le> 0) (rbt_list (rb_root t))
       in iter_calls n it' = Some (map Some (take n es) @ replicate (n - length es) None))"
proof -
  have t: "rbt_inv cmp t" using key_order.rbt_run_refines [OF assms(1) rbt_inv_create, of qs name] assms(2) by auto
  note d = t [unfolded rbt_inv_def]
  obtain it' where "iter_lower_loop (rb_root t) lower cmp (it\<lparr>it_sp := -1\<rparr>) = Some it'" "iter_ok it'"
      "iter_rest it' = dropWhile (\<lambda>e. 0 < cmp lower (fst e)) (rbt_list (rb_root t))"
    using key_order.iter_lower_loop_ok [OF assms(1), of "it\<lparr>it_sp := -1\<rparr>" "rb_root t" lower]
      iter_start [OF assms(4)] rbt_height_iter [OF t assms(3)] d by auto
  then show ?thesis
    using iter_calls_ok [of it' n] key_order.drop_below [OF assms(1), of "rbt_list (rb_root t)" lower] d
    by (simp add: op_rbt_iter_lower_def Let_def)
qed

theorem rbt_iter_lower_walks_witness:
  "\<exists>t as it'. rbt_run [RSet (Some 2) (Some 20), RSet (Some 7) (Some 70), RSet (Some 4) (Some (40 :: nat))]
       (op_rbt_create ''t'' op_rbt_cmp_u64) = Some (t, as :: (u64, nat, unit) rbt_res list)
     \<and> op_rbt_iter_lower \<lparr>it_stack = replicate OP_RBT_ITER_DEPTH RNull, it_sp = 0\<rparr> t (Some 3) = Some it'
     \<and> iter_calls 3 it' = Some [Some (Some 4, Some 40), Some (Some 7, Some 70), None]"
proof -
  let ?qs = "[RSet (Some 2) (Some 20), RSet (Some 7) (Some 70), RSet (Some 4) (Some 40)] :: (u64, nat, unit) rbt_req list"
  let ?t0 = "op_rbt_create ''t'' op_rbt_cmp_u64 :: (u64, nat) op_rbt"
  let ?it = "\<lparr>it_stack = replicate OP_RBT_ITER_DEPTH RNull, it_sp = 0\<rparr> :: (u64, nat) op_rbt_iter"
  obtain t as where r: "rbt_run ?qs ?t0 = Some (t, as)"
      "rbt_list (rb_root t) = [(Some 2, Some 20), (Some 4, Some 40), (Some 7, Some 70)]"
    using cmp_u64.rbt_run_refines [OF rbt_inv_create, of ?qs "''t''"] by (auto simp: op_rbt_create_def op_rbt_cmp_u64_def)
  have "Suc (length (rbt_list (rb_root t))) < 2 ^ 33" "length (it_stack ?it) = OP_RBT_ITER_DEPTH"
    by (simp_all add: r(2))
  from rbt_iter_lower_walks [OF cmp_u64.key_order_axioms r(1) this, of "Some 3" 3] r
  show ?thesis by (auto simp: op_rbt_cmp_u64_def numeral_3_eq_3 simp del: rbt_run.simps)
qed

text \<open>
  C40.  Search paths are logarithmic.  After any sequence of requests the height of the tree is
  at most twice the binary logarithm of one more than the number of entries, stated without
  logarithms.
\<close>

theorem rbt_height_logarithmic:
  assumes "key_order cmp" and "rbt_run qs (op_rbt_create name cmp) = Some (t, as)"
  shows "2 ^ rbt_height (rb_root t) \<le> (Suc (length (rbt_list (rb_root t))))\<^sup>2"
proof -
  have "rbt_inv cmp t" using key_order.rbt_run_refines [OF assms(1) rbt_inv_create, of qs name] assms(2) by auto
  then show ?thesis by (rule rbt_height_size)
qed

theorem rbt_height_logarithmic_witness:
  "\<exists>t as. rbt_run [RSet (Some 2) (Some 20), RSet (Some 7) (Some (70 :: nat))] (op_rbt_create ''t'' op_rbt_cmp_u64)
       = Some (t, as :: (u64, nat, unit) rbt_res list) \<and> 2 ^ rbt_height (rb_root t) \<le> (9 :: nat)"
proof -
  let ?qs = "[RSet (Some 2) (Some 20), RSet (Some 7) (Some 70)] :: (u64, nat, unit) rbt_req list"
  let ?t0 = "op_rbt_create ''t'' op_rbt_cmp_u64 :: (u64, nat) op_rbt"
  obtain t as where r: "rbt_run ?qs ?t0 = Some (t, as)"
      "rbt_list (rb_root t) = [(Some 2, Some 20), (Some 7, Some 70)]"
    using cmp_u64.rbt_run_refines [OF rbt_inv_create, of ?qs "''t''"] by (auto simp: op_rbt_create_def op_rbt_cmp_u64_def)
  from rbt_height_logarithmic [OF cmp_u64.key_order_axioms r(1)] r show ?thesis
    by (auto simp: power2_eq_square simp del: rbt_run.simps)
qed

text \<open>
  The case-insensitive comparator folds ASCII letters only: two nicknames that the IRC folding
  of the hash table identifies are different keys of a tree.
\<close>

lemma rbt_cmp_istr_not_irc: "op_rbt_cmp_istr (Some [0x5B]) (Some [0x7B]) \<noteq> 0"
  by (simp add: op_rbt_cmp_istr_def deref_str_def op_strcasecmp.simps c_tolower_def)

end
