(* ===== verification/Simd_Scan.thy ===== *)
theory Simd_Scan
  imports Libop_Prelude
begin

unbundle bit_operations_syntax

text \<open>
  The byte scans of \<^verbatim>\<open>src/simd_scan.c\<close> in their AVX2, SSE2, NEON and scalar versions, and the
  two functions that dispatch to them.  A vector register is the list of its byte lanes; the
  intrinsics used are defined lane by lane, and the masks they are collapsed to are machine
  words.  A range \<^verbatim>\<open>[p, end)\<close> is the list of its bytes and a result pointer is an offset from
  \<^verbatim>\<open>p\<close>.  The locale \<open>block_scan\<close> is the contract of a scan that proceeds in blocks; all six
  vector loops meet it, so every version returns what the byte-by-byte loop returns.
\<close>

section \<open>Vector operations\<close>

type_synonym vec8 = "u8 list"

definition set1 :: "nat \<Rightarrow> u8 \<Rightarrow> vec8" where
  "set1 n c = replicate n c"

definition cmpeq :: "vec8 \<Rightarrow> vec8 \<Rightarrow> vec8" where
  "cmpeq a b = map2 (\<lambda>x y. if x = y then 0xFF else 0) a b"

definition vor :: "vec8 \<Rightarrow> vec8 \<Rightarrow> vec8" where
  "vor a b = map2 (OR) a b"

definition vnot :: "vec8 \<Rightarrow> vec8" where
  "vnot a = map NOT a"

text \<open>\<^verbatim>\<open>movemask\<close> gathers the top bits of the lanes; \<^verbatim>\<open>__builtin_ctz\<close> of zero is undefined.\<close>

definition movemask :: "vec8 \<Rightarrow> u32" where
  "movemask v = horner_sum of_bool 2 (map (\<lambda>b. bit b 7) v)"

definition builtin_ctz :: "u32 \<Rightarrow> nat option" where
  "builtin_ctz x = List.find (bit x) [0..<32]"

definition builtin_ctzll :: "u64 \<Rightarrow> nat option" where
  "builtin_ctzll x = List.find (bit x) [0..<64]"

text \<open>
  NEON: the lanes taken in little-endian pairs, each pair shifted right and narrowed to a
  byte, and the resulting eight bytes stored as a little-endian 64-bit integer.
\<close>

fun reinterpret_u16 :: "vec8 \<Rightarrow> u16 list" where
  "reinterpret_u16 (a # b # v) = (ucast a OR push_bit 8 (ucast b)) # reinterpret_u16 v"
| "reinterpret_u16 _ = []"

definition shrn_u16 :: "nat \<Rightarrow> u16 list \<Rightarrow> vec8" where
  "shrn_u16 n v = map (\<lambda>x. ucast (drop_bit n x)) v"

fun load_u64 :: "vec8 \<Rightarrow> u64" where
  "load_u64 [] = 0"
| "load_u64 (b # v) = ucast b OR push_bit 8 (load_u64 v)"

section \<open>The scans\<close>

fun find_delim_scalar :: "u8 list \<Rightarrow> u8 \<Rightarrow> u8 \<Rightarrow> nat" where
  "find_delim_scalar [] d1 d2 = 0"
| "find_delim_scalar (c # p) d1 d2 = (if c = d1 \<or> c = d2 then 0 else Suc (find_delim_scalar p d1 d2))"

fun count_leading_scalar :: "u8 list \<Rightarrow> u8 \<Rightarrow> nat" where
  "count_leading_scalar [] c = 0"
| "count_leading_scalar (b # p) c = (if b = c then Suc (count_leading_scalar p c) else 0)"

function find_delim_avx2 :: "u8 list \<Rightarrow> u8 \<Rightarrow> u8 \<Rightarrow> nat option" where
  "find_delim_avx2 p d1 d2 =
     (if 32 \<le> length p then
        let chunk = take 32 p;
            eq1 = cmpeq chunk (set1 32 d1);
            eq2 = cmpeq chunk (set1 32 d2);
            mask = movemask (vor eq1 eq2)
        in if mask \<noteq> 0 then builtin_ctz mask
           else map_option ((+) 32) (find_delim_avx2 (drop 32 p) d1 d2)
      else Some (find_delim_scalar p d1 d2))"
  by pat_completeness auto
termination
  by (relation "measure (\<lambda>(p, d1, d2). length p)") auto

function count_leading_avx2 :: "u8 list \<Rightarrow> u8 \<Rightarrow> nat option" where
  "count_leading_avx2 p c =
     (if 32 \<le> length p then
        let chunk = take 32 p;
            eq = cmpeq chunk (set1 32 c);
            mask = NOT (movemask eq)
        in if mask \<noteq> 0 then builtin_ctz mask
           else map_option ((+) 32) (count_leading_avx2 (drop 32 p) c)
      else Some (count_leading_scalar p c))"
  by pat_completeness auto
termination
  by (relation "measure (\<lambda>(p, c). length p)") auto

function find_delim_sse2 :: "u8 list \<Rightarrow> u8 \<Rightarrow> u8 \<Rightarrow> nat option" where
  "find_delim_sse2 p d1 d2 =
     (if 16 \<le> length p then
        let chunk = take 16 p;
            eq1 = cmpeq chunk (set1 16 d1);
            eq2 = cmpeq chunk (set1 16 d2);
            mask = movemask (vor eq1 eq2)
        in if mask \<noteq> 0 then builtin_ctz mask
           else map_option ((+) 16) (find_delim_sse2 (drop 16 p) d1 d2)
      else Some (find_delim_scalar p d1 d2))"
  by pat_completeness auto
termination
  by (relation "measure (\<lambda>(p, d1, d2). length p)") auto

function count_leading_sse2 :: "u8 list \<Rightarrow> u8 \<Rightarrow> nat option" where
  "count_leading_sse2 p c =
     (if 16 \<le> length p then
        let chunk = take 16 p;
            eq = cmpeq chunk (set1 16 c);
            mask = NOT (movemask eq)
        in if mask AND 0xFFFF \<noteq> 0 then builtin_ctz (mask AND 0xFFFF)
           else map_option ((+) 16) (count_leading_sse2 (drop 16 p) c)
      else Some (count_leading_scalar p c))"
  by pat_completeness auto
termination
  by (relation "measure (\<lambda>(p, c). length p)") auto

function find_delim_neon :: "u8 list \<Rightarrow> u8 \<Rightarrow> u8 \<Rightarrow> nat option" where
  "find_delim_neon p d1 d2 =
     (if 16 \<le> length p then
        let chunk = take 16 p;
            eq = vor (cmpeq chunk (set1 16 d1)) (cmpeq chunk (set1 16 d2));
            mask = load_u64 (shrn_u16 4 (reinterpret_u16 eq))
        in if mask \<noteq> 0 then map_option (\<lambda>n. n div 4) (builtin_ctzll mask)
           else map_option ((+) 16) (find_delim_neon (drop 16 p) d1 d2)
      else Some (find_delim_scalar p d1 d2))"
  by pat_completeness auto
termination
  by (relation "measure (\<lambda>(p, d1, d2). length p)") auto

function count_leading_neon :: "u8 list \<Rightarrow> u8 \<Rightarrow> nat option" where
  "count_leading_neon p c =
     (if 16 \<le> length p then
        let chunk = take 16 p;
            neq = vnot (cmpeq chunk (set1 16 c));
            mask = load_u64 (shrn_u16 4 (reinterpret_u16 neq))
        in if mask \<noteq> 0 then map_option (\<lambda>n. n div 4) (builtin_ctzll mask)
           else map_option ((+) 16) (count_leading_neon (drop 16 p) c)
      else Some (count_leading_scalar p c))"
  by pat_completeness auto
termination
  by (relation "measure (\<lambda>(p, c). length p)") auto

declare find_delim_avx2.simps [simp del] count_leading_avx2.simps [simp del]
  find_delim_sse2.simps [simp del] count_leading_sse2.simps [simp del]
  find_delim_neon.simps [simp del] count_leading_neon.simps [simp del]

text \<open>What the preprocessor and the processor's features select.\<close>

datatype simd_arch = Avx2 | Sse2 | Neon | Scalar

definition op_simd_find_delim :: "simd_arch \<Rightarrow> u8 list \<Rightarrow> u8 \<Rightarrow> u8 \<Rightarrow> nat option" where
  "op_simd_find_delim arch p d1 d2 =
     (if p = [] then Some 0
      else case arch of
        Avx2 \<Rightarrow> find_delim_avx2 p d1 d2
      | Sse2 \<Rightarrow> find_delim_sse2 p d1 d2
      | Neon \<Rightarrow> find_delim_neon p d1 d2
      | Scalar \<Rightarrow> Some (find_delim_scalar p d1 d2))"

definition op_simd_count_leading :: "simd_arch \<Rightarrow> u8 list \<Rightarrow> u8 \<Rightarrow> nat option" where
  "op_simd_count_leading arch p c =
     (if p = [] then Some 0
      else case arch of
        Avx2 \<Rightarrow> count_leading_avx2 p c
      | Sse2 \<Rightarrow> count_leading_sse2 p c
      | Neon \<Rightarrow> count_leading_neon p c
      | Scalar \<Rightarrow> Some (count_leading_scalar p c))"

section \<open>Masks\<close>

text \<open>
  A mask with \<open>g\<close> bits per lane: every bit of the group of lane \<open>i\<close> says whether the lane is a
  hit.  The number of trailing zeros then gives the first hit.
\<close>

definition lane_mask :: "nat \<Rightarrow> ('a \<Rightarrow> bool) \<Rightarrow> 'a list \<Rightarrow> 'w::len word \<Rightarrow> bool" where
  "lane_mask g hit chunk msk \<longleftrightarrow> 0 < g \<and> g * length chunk \<le> LENGTH('w)
     \<and> (\<forall>i. bit msk i \<longleftrightarrow> i < g * length chunk \<and> hit (chunk ! (i div g)))"

lemma lane_mask_zero:
  assumes "lane_mask g hit chunk msk"
  shows "msk = 0 \<longleftrightarrow> (\<forall>c\<in>set chunk. \<not> hit c)"
proof
  assume z: "msk = 0"
  show "\<forall>c\<in>set chunk. \<not> hit c"
  proof
    fix c assume "c \<in> set chunk"
    then obtain i where i: "i < length chunk" "c = chunk ! i" by (auto simp: in_set_conv_nth)
    have "g * i < g * length chunk" "g * i div g = i" using i assms by (auto simp: lane_mask_def)
    then show "\<not> hit c" using assms i z unfolding lane_mask_def by (metis bit_0_eq bot_apply bot_bool_def)
  qed
next
  assume n: "\<forall>c\<in>set chunk. \<not> hit c"
  have "\<not> bit msk i" for i
  proof
    assume "bit msk i"
    then have "i < g * length chunk" "hit (chunk ! (i div g))" using assms by (auto simp: lane_mask_def)
    moreover then have "i div g < length chunk" by (simp add: less_mult_imp_div_less mult.commute)
    ultimately show False using n nth_mem by blast
  qed
  then show "msk = 0" by (simp add: bit_eq_iff)
qed

lemma first_bit:
  assumes "lane_mask g hit chunk (msk :: 'w::len word)" and "msk \<noteq> 0"
  shows "map_option (\<lambda>n. n div g) (List.find (bit msk) [0..<LENGTH('w)])
    = Some (length (takeWhile (\<lambda>c. \<not> hit c) chunk))"
proof -
  let ?n = "length (takeWhile (\<lambda>c. \<not> hit c) chunk)"
  have g: "0 < g" "g * length chunk \<le> LENGTH('w)" and m: "\<And>i. bit msk i \<longleftrightarrow> i < g * length chunk \<and> hit (chunk ! (i div g))"
    using assms(1) by (auto simp: lane_mask_def)
  have "\<exists>c\<in>set chunk. hit c" using lane_mask_zero [OF assms(1)] assms(2) by blast
  then have n: "?n < length chunk" "hit (chunk ! ?n)"
    using nth_length_takeWhile [of "\<lambda>c. \<not> hit c" chunk] takeWhile_eq_all_conv [of "\<lambda>c. \<not> hit c" chunk]
    by (metis length_takeWhile_le le_neq_implies_less takeWhile_eq_take take_all_iff order_refl)+
  have before: "\<not> bit msk i" if "i < g * ?n" for i
  proof -
    have "i div g < ?n" using that by (simp add: less_mult_imp_div_less mult.commute)
    then have "\<not> hit (chunk ! (i div g))" using set_takeWhileD [of "takeWhile (\<lambda>c. \<not> hit c) chunk ! (i div g)"]
      by (metis nth_mem takeWhile_nth)
    then show ?thesis by (simp add: m)
  qed
  have at: "bit msk (g * ?n)" using n g by (simp add: m)
  have "g * ?n < LENGTH('w)" using n(1) g by (meson less_le_trans mult_less_mono2)
  then have "List.find (bit msk) [0..<LENGTH('w)] = Some (g * ?n)"
    using before at by (auto simp: find_Some_iff intro!: exI [of _ "g * ?n"])
  then show ?thesis using g(1) by simp
qed

text \<open>The library reads the bits of a word numeral off the integer.\<close>

lemma bit_FF: "bit (0xFF :: int) n \<longleftrightarrow> n < 8"
proof -
  have "(0xFF :: int) = mask 8" by (simp add: mask_eq_exp_minus_1)
  then show ?thesis by (simp only: bit_mask_iff) simp
qed

lemma bit_FFFF: "bit (0xFFFF :: int) n \<longleftrightarrow> n < 16"
proof -
  have "(0xFFFF :: int) = mask 16" by (simp add: mask_eq_exp_minus_1)
  then show ?thesis by (simp only: bit_mask_iff) simp
qed

text \<open>The comparison vectors: a lane is all ones at a hit and zero elsewhere.\<close>

definition hit_lanes :: "('a \<Rightarrow> bool) \<Rightarrow> 'a list \<Rightarrow> vec8" where
  "hit_lanes hit chunk = map (\<lambda>c. if hit c then 0xFF else 0) chunk"

lemma length_hit_lanes [simp]: "length (hit_lanes hit chunk) = length chunk"
  by (simp add: hit_lanes_def)

lemma cmpeq_lanes: "length chunk = n \<Longrightarrow> cmpeq chunk (set1 n d) = hit_lanes (\<lambda>c. c = d) chunk"
  by (rule nth_equalityI) (auto simp: cmpeq_def set1_def hit_lanes_def)

lemma vor_lanes: "vor (hit_lanes f chunk) (hit_lanes g chunk) = hit_lanes (\<lambda>c. f c \<or> g c) chunk"
  by (rule nth_equalityI) (auto simp: vor_def hit_lanes_def)

lemma vnot_lanes: "vnot (hit_lanes f chunk) = hit_lanes (\<lambda>c. \<not> f c) chunk"
  by (rule nth_equalityI) (auto simp: vnot_def hit_lanes_def)

lemma bit_movemask: "bit (movemask (hit_lanes hit chunk)) i \<longleftrightarrow> i < 32 \<and> i < length chunk \<and> hit (chunk ! i)"
  by (auto simp: movemask_def bit_horner_sum_bit_word_iff hit_lanes_def bit_FF split: if_splits)

lemma movemask_lanes: "length chunk \<le> 32 \<Longrightarrow> lane_mask 1 hit chunk (movemask (hit_lanes hit chunk))"
  by (auto simp: lane_mask_def bit_movemask)

lemma not_movemask_lanes: "length chunk = 32 \<Longrightarrow> lane_mask 1 (\<lambda>c. \<not> hit c) chunk (NOT (movemask (hit_lanes hit chunk)))"
  by (auto simp: lane_mask_def bit_movemask bit_not_iff)

lemma not_movemask16_lanes:
  "length chunk = 16 \<Longrightarrow> lane_mask 1 (\<lambda>c. \<not> hit c) chunk (NOT (movemask (hit_lanes hit chunk)) AND 0xFFFF)"
  by (auto simp: lane_mask_def bit_movemask bit_not_iff bit_and_iff bit_FFFF)

lemma bit_load_u64: "bit (load_u64 v) i \<longleftrightarrow> i < 64 \<and> i div 8 < length v \<and> bit (v ! (i div 8)) (i mod 8)"
proof (induction v arbitrary: i)
  case (Cons b v)
  show ?case
  proof (cases "i < 8")
    case True
    then show ?thesis by (simp add: bit_or_iff bit_push_bit_iff bit_ucast_iff)
  next
    case False
    then obtain j where j: "i = j + 8" using less_imp_add_positive [of 7 i] by (metis add.commute le_add_diff_inverse not_less)
    have "\<not> bit b (j + 8)" using bit_imp_le_length [of b "j + 8"] by auto
    moreover have "(j + 8) div 8 = Suc (j div 8)" "(j + 8) mod 8 = j mod 8" by simp_all
    ultimately show ?thesis using Cons.IH [of j] unfolding j by (simp add: bit_or_iff bit_push_bit_iff bit_ucast_iff) auto
  qed
qed simp

lemma reinterpret_u16_nth:
  "j < length v div 2 \<Longrightarrow> reinterpret_u16 v ! j = ucast (v ! (2 * j)) OR push_bit 8 (ucast (v ! Suc (2 * j)))"
  by (induction v arbitrary: j rule: reinterpret_u16.induct) (auto simp: nth_Cons split: nat.splits)

lemma length_reinterpret_u16 [simp]: "length (reinterpret_u16 v) = length v div 2"
  by (induction v rule: reinterpret_u16.induct) auto

lemma neon_lanes:
  assumes "length chunk = 16"
  shows "lane_mask 4 hit chunk (load_u64 (shrn_u16 4 (reinterpret_u16 (hit_lanes hit chunk))))"
proof -
  let ?v = "hit_lanes hit chunk"
  have lane: "bit (?v ! k) b \<longleftrightarrow> b < 8 \<and> hit (chunk ! k)" if "k < 16" for k b
    using that assms by (auto simp: hit_lanes_def bit_FF)
  have "bit (load_u64 (shrn_u16 4 (reinterpret_u16 ?v))) i \<longleftrightarrow> i < 64 \<and> hit (chunk ! (i div 4))" for i
  proof (cases "i < 64")
    case True
    define j where "j = i div 8"
    define r where "r = i mod 8"
    have ij: "i = 8 * j + r" "j < 8" "r < 8" using True unfolding j_def r_def by simp_all
    have d: "i div 4 = (if r < 4 then 2 * j else Suc (2 * j))" using ij by (intro div_nat_eqI) auto
    have "bit (load_u64 (shrn_u16 4 (reinterpret_u16 ?v))) i \<longleftrightarrow> bit (reinterpret_u16 ?v ! j) (r + 4)"
      using True ij assms by (simp add: bit_load_u64 shrn_u16_def j_def [symmetric] r_def [symmetric] bit_ucast_iff bit_drop_bit_eq add.commute)
    also have "\<dots> \<longleftrightarrow> (if r < 4 then bit (?v ! (2 * j)) (r + 4) else bit (?v ! Suc (2 * j)) (r - 4))"
      using ij(2,3) assms lane [of "2 * j" "r + 4"]
      by (auto simp: reinterpret_u16_nth bit_or_iff bit_push_bit_iff bit_ucast_iff)
    also have "\<dots> \<longleftrightarrow> hit (chunk ! (i div 4))"
      unfolding d using ij(2,3) lane [of "2 * j" "r + 4"] lane [of "Suc (2 * j)" "r - 4"] by auto
    finally show ?thesis using True by simp
  next
    case False
    then show ?thesis by (simp add: bit_load_u64)
  qed
  then show ?thesis using assms by (simp add: lane_mask_def)
qed

section \<open>Scanning in blocks\<close>

text \<open>
  A scan for the first hit that looks at blocks of \<open>w\<close> bytes: \<open>block\<close> gives the first hit of a
  block, if there is one.
\<close>

locale block_scan =
  fixes w :: nat and hit :: "u8 \<Rightarrow> bool"
    and block :: "u8 list \<Rightarrow> nat option"
    and scan :: "u8 list \<Rightarrow> nat option"
  assumes width: "0 < w"
    and block_hit: "length c = w \<Longrightarrow> \<exists>x\<in>set c. hit x \<Longrightarrow> block c = Some (length (takeWhile (\<lambda>x. \<not> hit x) c))"
    and block_miss: "length c = w \<Longrightarrow> \<forall>x\<in>set c. \<not> hit x \<Longrightarrow> block c = None"
    and scan_block: "w \<le> length p \<Longrightarrow> scan p = (case block (take w p) of Some i \<Rightarrow> Some i
        | None \<Rightarrow> map_option ((+) w) (scan (drop w p)))"
    and scan_tail: "length p < w \<Longrightarrow> scan p = Some (length (takeWhile (\<lambda>x. \<not> hit x) p))"
begin

lemma scan_first_hit: "scan p = Some (length (takeWhile (\<lambda>x. \<not> hit x) p))"
proof (induction "length p" arbitrary: p rule: less_induct)
  case less
  show ?case
  proof (cases "w \<le> length p")
    case True
    have p: "takeWhile (\<lambda>x. \<not> hit x) p = takeWhile (\<lambda>x. \<not> hit x) (take w p @ drop w p)" by simp
    show ?thesis
    proof (cases "\<exists>x\<in>set (take w p). hit x")
      case hit: True
      then obtain x where "x \<in> set (take w p)" "\<not> \<not> hit x" by blast
      then have "takeWhile (\<lambda>x. \<not> hit x) p = takeWhile (\<lambda>x. \<not> hit x) (take w p)"
        unfolding p by (rule takeWhile_append1)
      then show ?thesis using True hit by (simp add: scan_block block_hit)
    next
      case False
      have "takeWhile (\<lambda>x. \<not> hit x) p = take w p @ takeWhile (\<lambda>x. \<not> hit x) (drop w p)"
        using False unfolding p by (intro takeWhile_append2) auto
      then show ?thesis using True False width less [of "drop w p"] by (simp add: scan_block block_miss)
    qed
  next
    case False
    then show ?thesis by (simp add: scan_tail)
  qed
qed

end

lemma find_scalar_hit: "find_delim_scalar p d1 d2 = length (takeWhile (\<lambda>c. \<not> (c = d1 \<or> c = d2)) p)"
  by (induction p) auto

lemma count_scalar_hit: "count_leading_scalar p c = length (takeWhile (\<lambda>b. \<not> \<not> b = c) p)"
  by (induction p) auto

text \<open>The first hit of a block as its mask gives it, and the loop step it stands for.\<close>

definition ctz_first :: "u32 \<Rightarrow> nat option" where
  "ctz_first msk = (if msk \<noteq> 0 then builtin_ctz msk else None)"

definition ctzll_first :: "u64 \<Rightarrow> nat option" where
  "ctzll_first msk = (if msk \<noteq> 0 then map_option (\<lambda>n. n div 4) (builtin_ctzll msk) else None)"

lemma ctz_first_hit:
  assumes "lane_mask 1 hit chunk msk"
  shows "ctz_first msk = (if \<exists>x\<in>set chunk. hit x then Some (length (takeWhile (\<lambda>x. \<not> hit x) chunk)) else None)"
  unfolding ctz_first_def builtin_ctz_def using first_bit [OF assms] lane_mask_zero [OF assms]
  by (auto simp: option.map_id [unfolded id_def])

lemma ctzll_first_hit:
  assumes "lane_mask 4 hit chunk msk"
  shows "ctzll_first msk = (if \<exists>x\<in>set chunk. hit x then Some (length (takeWhile (\<lambda>x. \<not> hit x) chunk)) else None)"
  unfolding ctzll_first_def builtin_ctzll_def using first_bit [OF assms] lane_mask_zero [OF assms] by auto

lemma ctz_step:
  assumes "lane_mask 1 hit chunk msk"
  shows "(if msk \<noteq> 0 then builtin_ctz msk else r) = (case ctz_first msk of Some i \<Rightarrow> Some i | None \<Rightarrow> r)"
  using ctz_first_hit [OF assms] lane_mask_zero [OF assms] by (cases "msk = 0") (auto simp: ctz_first_def)

lemma ctzll_step:
  assumes "lane_mask 4 hit chunk msk"
  shows "(if msk \<noteq> 0 then map_option (\<lambda>n. n div 4) (builtin_ctzll msk) else r)
    = (case ctzll_first msk of Some i \<Rightarrow> Some i | None \<Rightarrow> r)"
  using ctzll_first_hit [OF assms] lane_mask_zero [OF assms] by (cases "msk = 0") (auto simp: ctzll_first_def)

lemmas lanes = cmpeq_lanes vor_lanes vnot_lanes

interpretation find_avx2: block_scan 32 "\<lambda>c. c = d1 \<or> c = d2"
    "\<lambda>c. ctz_first (movemask (hit_lanes (\<lambda>c. c = d1 \<or> c = d2) c))" "\<lambda>p. find_delim_avx2 p d1 d2" for d1 d2
proof (unfold_locales, goal_cases)
  case (4 p)
  have m: "lane_mask 1 (\<lambda>c. c = d1 \<or> c = d2) (take 32 p) (movemask (hit_lanes (\<lambda>c. c = d1 \<or> c = d2) (take 32 p)))"
    by (rule movemask_lanes) simp
  show ?case using 4 by (subst find_delim_avx2.simps) (simp add: Let_def lanes ctz_step [OF m] split del: if_split cong: if_cong)
qed (auto simp: ctz_first_hit [OF movemask_lanes] find_delim_avx2.simps find_scalar_hit)

interpretation find_sse2: block_scan 16 "\<lambda>c. c = d1 \<or> c = d2"
    "\<lambda>c. ctz_first (movemask (hit_lanes (\<lambda>c. c = d1 \<or> c = d2) c))" "\<lambda>p. find_delim_sse2 p d1 d2" for d1 d2
proof (unfold_locales, goal_cases)
  case (4 p)
  have m: "lane_mask 1 (\<lambda>c. c = d1 \<or> c = d2) (take 16 p) (movemask (hit_lanes (\<lambda>c. c = d1 \<or> c = d2) (take 16 p)))"
    by (rule movemask_lanes) simp
  show ?case using 4 by (subst find_delim_sse2.simps) (simp add: Let_def lanes ctz_step [OF m] split del: if_split cong: if_cong)
qed (auto simp: ctz_first_hit [OF movemask_lanes] find_delim_sse2.simps find_scalar_hit)

interpretation count_avx2: block_scan 32 "\<lambda>b. \<not> b = c"
    "\<lambda>ch. ctz_first (NOT (movemask (hit_lanes (\<lambda>b. b = c) ch)))" "\<lambda>p. count_leading_avx2 p c" for c
proof (unfold_locales, goal_cases)
  case (4 p)
  then have m: "lane_mask 1 (\<lambda>b. \<not> b = c) (take 32 p) (NOT (movemask (hit_lanes (\<lambda>b. b = c) (take 32 p))))"
    by (intro not_movemask_lanes) simp
  show ?case using 4 by (subst count_leading_avx2.simps) (simp add: Let_def lanes ctz_step [OF m] split del: if_split cong: if_cong)
qed (auto simp: ctz_first_hit [OF not_movemask_lanes] count_leading_avx2.simps count_scalar_hit)

interpretation count_sse2: block_scan 16 "\<lambda>b. \<not> b = c"
    "\<lambda>ch. ctz_first (NOT (movemask (hit_lanes (\<lambda>b. b = c) ch)) AND 0xFFFF)" "\<lambda>p. count_leading_sse2 p c" for c
proof (unfold_locales, goal_cases)
  case (4 p)
  then have m: "lane_mask 1 (\<lambda>b. \<not> b = c) (take 16 p) (NOT (movemask (hit_lanes (\<lambda>b. b = c) (take 16 p))) AND 0xFFFF)"
    by (intro not_movemask16_lanes) simp
  show ?case using 4 by (subst count_leading_sse2.simps) (simp add: Let_def lanes ctz_step [OF m] split del: if_split cong: if_cong)
qed (auto simp: ctz_first_hit [OF not_movemask16_lanes] count_leading_sse2.simps count_scalar_hit)

interpretation find_neon: block_scan 16 "\<lambda>c. c = d1 \<or> c = d2"
    "\<lambda>c. ctzll_first (load_u64 (shrn_u16 4 (reinterpret_u16 (hit_lanes (\<lambda>c. c = d1 \<or> c = d2) c))))"
    "\<lambda>p. find_delim_neon p d1 d2" for d1 d2
proof (unfold_locales, goal_cases)
  case (4 p)
  then have m: "lane_mask 4 (\<lambda>c. c = d1 \<or> c = d2) (take 16 p)
      (load_u64 (shrn_u16 4 (reinterpret_u16 (hit_lanes (\<lambda>c. c = d1 \<or> c = d2) (take 16 p)))))"
    by (intro neon_lanes) simp
  show ?case using 4 by (subst find_delim_neon.simps) (simp add: Let_def lanes ctzll_step [OF m] split del: if_split cong: if_cong)
qed (auto simp: ctzll_first_hit [OF neon_lanes] find_delim_neon.simps find_scalar_hit)

interpretation count_neon: block_scan 16 "\<lambda>b. \<not> b = c"
    "\<lambda>ch. ctzll_first (load_u64 (shrn_u16 4 (reinterpret_u16 (hit_lanes (\<lambda>b. \<not> b = c) ch))))"
    "\<lambda>p. count_leading_neon p c" for c
proof (unfold_locales, goal_cases)
  case (4 p)
  then have m: "lane_mask 4 (\<lambda>b. \<not> b = c) (take 16 p)
      (load_u64 (shrn_u16 4 (reinterpret_u16 (hit_lanes (\<lambda>b. \<not> b = c) (take 16 p)))))"
    by (intro neon_lanes) simp
  show ?case using 4 by (subst count_leading_neon.simps) (simp add: Let_def lanes ctzll_step [OF m] split del: if_split cong: if_cong)
qed (auto simp: ctzll_first_hit [OF neon_lanes] count_leading_neon.simps count_scalar_hit)

lemma not_either: "(\<lambda>b. \<not> (b = d1 \<or> b = d2)) = (\<lambda>b. b \<noteq> d1 \<and> b \<noteq> d2)"
  by auto

lemma simd_find: "op_simd_find_delim arch p d1 d2 = Some (length (takeWhile (\<lambda>b. b \<noteq> d1 \<and> b \<noteq> d2) p))"
  by (cases arch) (auto simp: op_simd_find_delim_def not_either find_avx2.scan_first_hit find_sse2.scan_first_hit
      find_neon.scan_first_hit find_scalar_hit)

lemma simd_count: "op_simd_count_leading arch p c = Some (length (takeWhile (\<lambda>b. b = c) p))"
  by (cases arch) (auto simp: op_simd_count_leading_def count_avx2.scan_first_hit count_sse2.scan_first_hit
      count_neon.scan_first_hit count_scalar_hit)

section \<open>Properties of the component\<close>

text \<open>
  C16.  Every vector version is the byte-by-byte scan.  On each architecture
  \<^verbatim>\<open>op_simd_find_delim\<close> returns the offset of the first byte equal to one of the two
  delimiters, or the end, and \<^verbatim>\<open>op_simd_count_leading\<close> the number of leading bytes equal to
  \<open>c\<close>; no version reads past the end or takes the trailing zeros of an empty mask.
\<close>

theorem simd_scan_exact:
  "op_simd_find_delim arch p d1 d2 = Some (length (takeWhile (\<lambda>b. b \<noteq> d1 \<and> b \<noteq> d2) p))
   \<and> op_simd_count_leading arch p c = Some (length (takeWhile (\<lambda>b. b = c) p))"
  by (simp add: simd_find simd_count)

end
