(* ===== verification/Tools.thy ===== *)
theory Tools
  imports Key_Order Simd_Scan
begin

text \<open>
  The string helpers of \<^verbatim>\<open>src/tools.c\<close>: the bounded copies and comparisons, the formatted
  appends, path components, the formatting of a chain of descriptors, and the splitting of an
  IRC message into parameters.  A buffer is the list of its bytes; a write or read outside it
  is \<open>None\<close>.  \<^verbatim>\<open>vsnprintf\<close> is a function of the C library: its formatted text is an argument,
  \<open>None\<close> standing for a conversion error, and what it stores is written out.
\<close>

abbreviation (input) SPACE :: u8 where
  "SPACE \<equiv> 0x20"

abbreviation (input) COLON :: u8 where
  "COLON \<equiv> 0x3A"

abbreviation (input) SLASH :: u8 where
  "SLASH \<equiv> 0x2F"

abbreviation (input) DOT :: u8 where
  "DOT \<equiv> 0x2E"

definition INT_MAX :: nat where
  "INT_MAX = 2 ^ 31 - 1"

section \<open>Splitting a message into parameters\<close>

text \<open>
  The string is modified in place and the parameters are pointers into it: the result is the
  string and the offsets stored in \<^verbatim>\<open>parv\<close>.
\<close>

function string_to_array_loop ::
  "simd_arch \<Rightarrow> nat \<Rightarrow> int \<Rightarrow> u8 list \<Rightarrow> nat \<Rightarrow> nat list \<Rightarrow> (u8 list \<times> nat list) option" where
  "string_to_array_loop arch str_end maxpara s xbuf parv = do {
     c \<leftarrow> arr_get s xbuf;
     if c = COLON then Some (s, parv @ [xbuf + 1])
     else do {
       let parv = parv @ [xbuf];
       n \<leftarrow> op_simd_find_delim arch (take (str_end - xbuf) (drop xbuf s)) SPACE 0;
       let sp = xbuf + n;
       d \<leftarrow> arr_get s sp;
       if d = SPACE then do {
         s \<leftarrow> arr_set s sp 0;
         let xbuf = sp + 1;
         k \<leftarrow> op_simd_count_leading arch (take (str_end - xbuf) (drop xbuf s)) SPACE;
         let xbuf = xbuf + k;
         c \<leftarrow> arr_get s xbuf;
         if c = 0 then Some (s, parv)
         else if int (length parv) < maxpara - 1
         then string_to_array_loop arch str_end maxpara s xbuf parv
         else Some (s, parv @ [if c = COLON then xbuf + 1 else xbuf]) }
       else Some (s, parv) } }"
  by pat_completeness auto
termination
  by (relation "measure (\<lambda>(arch, str_end, maxpara, s, xbuf, parv). length s - xbuf)")
    (auto simp: arr_set_eq_Some arr_get_eq_Some split: if_splits)

definition op_string_to_array :: "simd_arch \<Rightarrow> u8 list ptr \<Rightarrow> int \<Rightarrow> (u8 list \<times> nat list) option" where
  "op_string_to_array arch string maxpara =
     (case string of None \<Rightarrow> Some ([], [])
      | Some s \<Rightarrow> do {
          c \<leftarrow> arr_get s 0;
          if c = 0 then Some (s, [])
          else do {
            let str_end = length (cstr_text s);
            k \<leftarrow> op_simd_count_leading arch (take str_end s) SPACE;
            c \<leftarrow> arr_get s k;
            if c = 0 then Some (s, []) else string_to_array_loop arch str_end maxpara s k [] } })"

section \<open>Comparison and search\<close>

fun op_strncasecmp :: "cstr \<Rightarrow> cstr \<Rightarrow> nat \<Rightarrow> int" where
  "op_strncasecmp us1 us2 0 = 0"
| "op_strncasecmp us1 us2 (Suc n) =
     (if c_tolower (cbyte us1) \<noteq> c_tolower (cbyte us2)
      then uint (c_tolower (cbyte us1)) - uint (c_tolower (cbyte us2))
      else if cbyte us1 = 0 then 0
      else op_strncasecmp (tl us1) (tl us2) n)"

fun strcasestr_loop :: "u8 \<Rightarrow> cstr \<Rightarrow> nat \<Rightarrow> cstr \<Rightarrow> cstr ptr" where
  "strcasestr_loop c needle len [] = NULL"
| "strcasestr_loop c needle len (sc # s) =
     (if sc = 0 then NULL
      else if c_tolower sc = c \<and> op_strncasecmp s needle len = 0 then Some (sc # s)
      else strcasestr_loop c needle len s)"

definition op_strcasestr :: "cstr \<Rightarrow> cstr \<Rightarrow> cstr ptr" where
  "op_strcasestr s needle =
     (let c = cbyte needle; needle = tl needle in
      if c \<noteq> 0 then strcasestr_loop (c_tolower c) needle (length (cstr_text needle)) s else Some s)"

section \<open>Bounded copies\<close>

text \<open>\<^verbatim>\<open>strlen\<close> of a buffer runs out of it when there is no terminator.\<close>

definition buf_strlen :: "u8 list \<Rightarrow> nat \<Rightarrow> nat option" where
  "buf_strlen buf off = (if 0 \<in> set (drop off buf) then Some (length (cstr_text (drop off buf))) else None)"

definition op_strlcpy :: "u8 list \<Rightarrow> nat \<Rightarrow> cstr \<Rightarrow> nat \<Rightarrow> (u8 list \<times> nat) option" where
  "op_strlcpy buf dest src siz =
     (let ret = length (cstr_text src) in
      if siz \<noteq> 0 then do {
        let len = (if ret \<ge> siz then siz - 1 else ret);
        buf \<leftarrow> arr_copy buf dest (take len src);
        buf \<leftarrow> arr_set buf (dest + len) 0;
        Some (buf, ret) }
      else Some (buf, ret))"

definition op_strlcat :: "u8 list \<Rightarrow> cstr \<Rightarrow> nat \<Rightarrow> (u8 list \<times> nat) option" where
  "op_strlcat buf src cnt = do {
     dsize \<leftarrow> buf_strlen buf 0;
     let len = length (cstr_text src);
     let res = wrap64 (dsize + len);
     if cnt = 0 \<or> dsize \<ge> cnt then Some (buf, res)
     else do {
       let cnt = cnt - dsize;
       let len = (if len \<ge> cnt then cnt - 1 else len);
       buf \<leftarrow> arr_copy buf dsize (take len src);
       buf \<leftarrow> arr_set buf (dsize + len) 0;
       Some (buf, res) } }"

fun op_strnlen :: "cstr \<Rightarrow> nat \<Rightarrow> nat" where
  "op_strnlen s 0 = 0"
| "op_strnlen s (Suc cnt) = (if cbyte s \<noteq> 0 then Suc (op_strnlen (tl s) cnt) else 0)"

section \<open>Formatted appends\<close>

definition c_vsnprintf :: "u8 list \<Rightarrow> nat \<Rightarrow> nat \<Rightarrow> u8 list option \<Rightarrow> (u8 list \<times> int) option" where
  "c_vsnprintf buf off siz text =
     (case text of None \<Rightarrow> Some (buf, -1)
      | Some t \<Rightarrow> if siz = 0 then Some (buf, int (length t))
          else do {
            buf \<leftarrow> arr_copy buf off (take (siz - 1) t @ [0]);
            Some (buf, int (length t)) })"

definition op_snprintf_append :: "u8 list \<Rightarrow> nat \<Rightarrow> u8 list option \<Rightarrow> (u8 list \<times> int) option" where
  "op_snprintf_append str len text =
     (if len = 0 then Some (str, -1)
      else do {
        orig_len \<leftarrow> buf_strlen str 0;
        if len \<le> orig_len then do { str \<leftarrow> arr_set str (len - 1) 0; Some (str, int (len - 1)) }
        else do {
          (str, append_len) \<leftarrow> c_vsnprintf str orig_len (len - orig_len) text;
          if append_len < 0 then Some (str, append_len)
          else let total = orig_len + nat append_len in
            if total > INT_MAX then Some (str, -1) else Some (str, int total) } })"

definition op_snprintf_try_append :: "u8 list \<Rightarrow> nat \<Rightarrow> u8 list option \<Rightarrow> (u8 list \<times> int) option" where
  "op_snprintf_try_append str len text =
     (if len = 0 then Some (str, -1)
      else do {
        orig_len \<leftarrow> buf_strlen str 0;
        if len \<le> orig_len then do { str \<leftarrow> arr_set str (len - 1) 0; Some (str, -1) }
        else do {
          (str, append_len) \<leftarrow> c_vsnprintf str orig_len (len - orig_len) text;
          if append_len < 0 then Some (str, append_len)
          else let total = orig_len + nat append_len in
            if total \<ge> len then do { str \<leftarrow> arr_set str orig_len 0; Some (str, -1) }
            else if total > INT_MAX then Some (str, -1) else Some (str, int total) } })"

section \<open>Paths\<close>

definition op_basename :: "cstr \<Rightarrow> cstr" where
  "op_basename path = (let t = cstr_text path in
     if SLASH \<in> set t then rev (takeWhile (\<lambda>c. c \<noteq> SLASH) (rev t)) else t)"

fun dirname_back :: "u8 list \<Rightarrow> nat \<Rightarrow> nat" where
  "dirname_back t 0 = 0"
| "dirname_back t (Suc s) = (if t ! Suc s = SLASH then dirname_back t s else Suc s)"

definition op_dirname :: "cstr \<Rightarrow> cstr" where
  "op_dirname path = (let t = cstr_text path in
     if SLASH \<notin> set t then [DOT]
     else let s = length (dropWhile (\<lambda>c. c \<noteq> SLASH) (rev t)) - 1
       in take (dirname_back t s + 1) t)"

section \<open>Chains of format descriptors\<close>

text \<open>
  A descriptor holds a format with arguments (its formatted text), a plain string, or a
  function that is given the space left and returns the bytes it stores and its result.
\<close>

datatype strf_body =
    StrfArgs "u8 list option"
  | StrfPlain cstr
  | StrfFunc "nat \<Rightarrow> u8 list \<times> int"
  | StrfNone

record op_strf =
  sf_length :: nat
  sf_body :: strf_body

definition strf_emit :: "u8 list \<Rightarrow> nat \<Rightarrow> nat \<Rightarrow> strf_body \<Rightarrow> (u8 list \<times> int) option" where
  "strf_emit buf off remaining body =
     (case body of
        StrfArgs text \<Rightarrow> c_vsnprintf buf off remaining text
      | StrfPlain s \<Rightarrow> do { (buf, n) \<leftarrow> op_strlcpy buf off s remaining; Some (buf, int n) }
      | StrfFunc f \<Rightarrow> (case f remaining of (bytes, ret) \<Rightarrow> do { buf \<leftarrow> arr_copy buf off bytes; Some (buf, ret) })
      | StrfNone \<Rightarrow> Some (buf, 0))"

primrec fsnprint_loop :: "op_strf list \<Rightarrow> u8 list \<Rightarrow> nat \<Rightarrow> nat \<Rightarrow> nat \<Rightarrow> (u8 list \<times> int) option" where
  "fsnprint_loop [] buf len used remaining = Some (buf, int used)"
| "fsnprint_loop (p # strings) buf len used remaining =
     (let remaining = (if sf_length p \<noteq> 0 then min (sf_length p) (len - used) else remaining) in
      if remaining = 0 then Some (buf, int used)
      else do {
        (buf, ret) \<leftarrow> strf_emit buf used remaining (sf_body p);
        if ret < 0 then Some (buf, ret)
        else let used = (if nat ret \<ge> remaining then used + (remaining - 1) else used + nat ret) in
          if used \<ge> len - 1 then Some (buf, int (len - 1))
          else fsnprint_loop strings buf len used (len - used) })"

definition op_fsnprint :: "u8 list \<Rightarrow> nat \<Rightarrow> op_strf list \<Rightarrow> (u8 list \<times> int) option" where
  "op_fsnprint buf len strings = fsnprint_loop strings buf len 0 len"

definition op_fsnprintf :: "u8 list \<Rightarrow> nat \<Rightarrow> op_strf list \<Rightarrow> u8 list option \<Rightarrow> (u8 list \<times> int) option" where
  "op_fsnprintf buf len strings text =
     op_fsnprint buf len (\<lparr>sf_length = 0, sf_body = StrfArgs text\<rparr> # strings)"

declare string_to_array_loop.simps [simp del]

section \<open>Parameters of a message\<close>

text \<open>
  The reference: at most \<open>n\<close> parameters separated by runs of spaces; a parameter that starts
  with a colon is the last and runs to the end, and so does the \<open>n\<close>-th.
\<close>

fun irc_params :: "nat \<Rightarrow> u8 list \<Rightarrow> u8 list list" where
  "irc_params 0 t = []"
| "irc_params (Suc n) t =
     (if t = [] then []
      else if hd t = COLON then [tl t]
      else if n = 0 then [t]
      else let w = takeWhile (\<lambda>c. c \<noteq> SPACE) t;
               r = dropWhile (\<lambda>c. c = SPACE) (dropWhile (\<lambda>c. c \<noteq> SPACE) t)
           in w # irc_params n r)"

lemma irc_params_Nil [simp]: "irc_params n [] = []"
  by (cases n) simp_all

abbreviation param_at :: "u8 list \<Rightarrow> nat \<Rightarrow> u8 list" where
  "param_at s i \<equiv> cstr_text (drop i s)"

lemma drop_split: "drop x s = u @ v \<Longrightarrow> drop (x + length u) s = v"
  by (metis add.commute append_eq_conv_conj drop_drop)

lemma nth_at: "drop x s = u @ c # v \<Longrightarrow> x + length u < length s \<and> s ! (x + length u) = c"
  by (metis append_is_Nil_conv drop_eq_Nil2 drop_split list.distinct(1) not_le nth_via_drop)

lemma string_to_array_word:
  assumes "x < length s" "s ! x \<noteq> COLON"
    and "op_simd_find_delim arch (take (e - x) (drop x s)) SPACE 0 = Some n"
    and "x + n < length s" "s ! (x + n) = SPACE" and s2: "s2 = s[x + n := 0]"
    and "op_simd_count_leading arch (take (e - (x + n + 1)) (drop (x + n + 1) s2)) SPACE = Some k"
    and x2: "x2 = x + n + 1 + k" "x2 < length s2"
  shows "string_to_array_loop arch e maxpara s x parv =
    (if s2 ! x2 = 0 then Some (s2, parv @ [x])
     else if int (length parv) + 2 < maxpara then string_to_array_loop arch e maxpara s2 x2 (parv @ [x])
     else Some (s2, parv @ [x, if s2 ! x2 = COLON then x2 + 1 else x2]))"
  using assms by (subst string_to_array_loop.simps) (auto simp: arr_get_def arr_set_def Let_def)

lemma string_to_array_last:
  assumes "x < length s" "s ! x \<noteq> COLON"
    and "op_simd_find_delim arch (take (e - x) (drop x s)) SPACE 0 = Some n"
    and "x + n < length s" "s ! (x + n) \<noteq> SPACE"
  shows "string_to_array_loop arch e maxpara s x parv = Some (s, parv @ [x])"
  using assms by (subst string_to_array_loop.simps) (simp add: arr_get_def Let_def)

lemma string_to_array_colon:
  "x < length s \<Longrightarrow> s ! x = COLON \<Longrightarrow> string_to_array_loop arch e maxpara s x parv = Some (s, parv @ [x + 1])"
  by (subst string_to_array_loop.simps) (simp add: arr_get_def)

text \<open>
  After a word of the message: its separator has become a terminator, the next parameter
  starts behind the run of spaces, and nothing stored from there on changes the word.
\<close>

lemma after_word:
  assumes s: "drop x s = w @ SPACE # v @ 0 # rest" and w: "0 \<notin> set w"
    and s2: "s2 = s[x + length w := 0]"
    and k: "k = length (takeWhile (\<lambda>c. c = SPACE) v)" and u2: "u2 = dropWhile (\<lambda>c. c = SPACE) v"
    and x2: "x2 = x + length w + 1 + k"
  shows "drop x2 s2 = u2 @ 0 # rest" and "x2 + length u2 = x + length w + 1 + length v"
    and "op_simd_count_leading arch (take (x2 + length u2 - (x + length w + 1)) (drop (x + length w + 1) s2)) SPACE = Some k"
    and "\<And>s'. take x2 s' = take x2 s2 \<Longrightarrow> param_at s' x = w"
proof -
  have sp: "x + length w < length s" using nth_at [OF s] by simp
  have v: "v = replicate k SPACE @ u2"
    unfolding k u2 by (metis (mono_tags, lifting) replicate_length_same set_takeWhileD takeWhile_dropWhile_id)
  have d2: "drop (x + length w + 1) s2 = v @ 0 # rest"
    using drop_split [of x s "w @ [SPACE]" "v @ 0 # rest"] s by (simp add: s2 add.assoc)
  show "drop x2 s2 = u2 @ 0 # rest"
    using drop_split [of "x + length w + 1" s2 "replicate k SPACE" "u2 @ 0 # rest"] d2 v by (simp add: x2)
  show len: "x2 + length u2 = x + length w + 1 + length v" using v by (simp add: x2)
  show "op_simd_count_leading arch (take (x2 + length u2 - (x + length w + 1)) (drop (x + length w + 1) s2)) SPACE = Some k"
    unfolding d2 len by (simp add: simd_count k)
  have prefix: "take (length w + 1) (drop x s2) = w @ [0]"
    using s sp by (simp add: s2 drop_update_swap take_update_swap)
  fix s' assume t: "take x2 s' = take x2 s2"
  have "take (length w + 1) (drop x s') = drop x (take (x + (length w + 1)) (take x2 s'))"
    by (simp add: x2 drop_take min_def)
  also have "\<dots> = take (length w + 1) (drop x s2)" unfolding t by (simp add: x2 drop_take min_def)
  finally have "drop x s' = w @ 0 # drop (length w + 1) (drop x s')"
    using prefix by (metis append_assoc append_Cons append_Nil append_take_drop_id)
  then show "param_at s' x = w" using w by (metis cstr_text_term)
qed

lemma string_to_array_loop_spec:
  "\<lbrakk>drop x s = u @ 0 # rest; 0 \<notin> set u; u \<noteq> []; hd u \<noteq> SPACE; int (length parv) + 2 \<le> maxpara\<rbrakk> \<Longrightarrow>
   \<exists>s' ps. string_to_array_loop arch (x + length u) maxpara s x parv = Some (s', parv @ ps)
     \<and> map (param_at s') ps = irc_params (nat maxpara - length parv) u
     \<and> length s' = length s \<and> take x s' = take x s"
proof (induction "length u" arbitrary: x s u parv rule: less_induct)
  case less
  note s = less.prems(1) and u = less.prems(2-4) and slots = less.prems(5)
  obtain n where n: "nat maxpara - length parv = Suc (Suc n)"
    using slots by (intro that [of "nat maxpara - length parv - 2"]) linarith
  obtain c0 u0 where c0: "u = c0 # u0" using u(2) by (cases u) auto
  have x: "x < length s" "s ! x = c0" using nth_at [of x s "[]"] s c0 by auto
  show ?case
  proof (cases "c0 = COLON")
    case True
    have "drop (x + 1) s = u0 @ 0 # rest" using drop_split [of x s "[c0]"] s c0 by simp
    then show ?thesis using x True c0 n u(1) by (auto simp: string_to_array_colon cstr_text_term)
  next
    case False
    define w where "w = takeWhile (\<lambda>c. c \<noteq> SPACE) u"
    define v where "v = dropWhile (\<lambda>c. c \<noteq> SPACE) u"
    have uwv: "u = w @ v" by (simp add: w_def v_def)
    have "takeWhile (\<lambda>c. c \<noteq> SPACE \<and> c \<noteq> 0) u = w"
      unfolding w_def using u(1) by (intro takeWhile_cong) auto
    then have scan: "op_simd_find_delim arch (take (x + length u - x) (drop x s)) SPACE 0 = Some (length w)"
      using s by (simp add: simd_find)
    have w0: "0 \<notin> set w" and v0: "0 \<notin> set v" using u(1) uwv by auto
    have params: "irc_params (Suc (Suc n)) u = w # irc_params (Suc n) (dropWhile (\<lambda>c. c = SPACE) v)"
      using False c0 by (simp add: w_def v_def Let_def)
    show ?thesis
    proof (cases v)
      case Nil
      then have "s ! (x + length w) = 0" "x + length w < length s" using nth_at [OF s] uwv by auto
      then have "string_to_array_loop arch (x + length u) maxpara s x parv = Some (s, parv @ [x])"
        using string_to_array_last [OF x(1) _ scan] x(2) False by simp
      moreover have "param_at s x = w" using s uwv Nil w0 by (simp add: cstr_text_term)
      ultimately show ?thesis using params n Nil by auto
    next
      case (Cons c1 v1)
      have c1: "c1 = SPACE" using Cons hd_dropWhile [of "\<lambda>c. c \<noteq> SPACE" u] unfolding v_def by auto
      define k where "k = length (takeWhile (\<lambda>c. c = SPACE) v1)"
      define u2 where "u2 = dropWhile (\<lambda>c. c = SPACE) v1"
      define s2 where "s2 = s[x + length w := 0]"
      define x2 where "x2 = x + length w + 1 + k"
      have sw: "drop x s = w @ SPACE # v1 @ 0 # rest" using s uwv Cons c1 by simp
      note after = after_word [OF sw w0 s2_def k_def u2_def x2_def]
      have sp: "x + length w < length s" "s ! (x + length w) = SPACE" using nth_at [OF sw] by auto
      have e: "x + length u = x2 + length u2" using after(2) uwv Cons by simp
      have tk: "take x s2 = take x s" "length s2 = length s" by (simp_all add: s2_def)
      have "x2 < length s2" using after(1) by (metis append_is_Nil_conv drop_eq_Nil2 list.distinct(1) not_le)
      then have step: "string_to_array_loop arch (x + length u) maxpara s x parv =
          (if s2 ! x2 = 0 then Some (s2, parv @ [x])
           else if int (length parv) + 2 < maxpara then string_to_array_loop arch (x + length u) maxpara s2 x2 (parv @ [x])
           else Some (s2, parv @ [x, if s2 ! x2 = COLON then x2 + 1 else x2]))"
        using string_to_array_word [OF x(1) _ scan sp s2_def after(3) [folded e] x2_def] x(2) False by simp
      have params2: "irc_params (Suc (Suc n)) u = w # irc_params (Suc n) u2"
        using params Cons c1 by (simp add: u2_def del: irc_params.simps(2))
      show ?thesis
      proof (cases u2)
        case u2: Nil
        then have "s2 ! x2 = 0" using nth_at [of x2 s2 "[]"] after(1) by auto
        then show ?thesis using step n after(4) [OF refl] tk params2 u2 by auto
      next
        case u2: (Cons c2 u3)
        have h2: "s2 ! x2 = c2" using nth_at [of x2 s2 "[]"] after(1) u2 by auto
        have z2: "0 \<notin> set u2" using v0 Cons set_dropWhileD unfolding u2_def by fastforce
        have "c2 \<noteq> 0" using z2 u2 by auto
        have sp2: "hd u2 \<noteq> SPACE" using u2 hd_dropWhile [of "\<lambda>c. c = SPACE" v1] unfolding u2_def by auto
        show ?thesis
        proof (cases "n = 0")
          case True
          have "\<not> int (length parv) + 2 < maxpara" using n True slots by auto
          then have r: "string_to_array_loop arch (x + length u) maxpara s x parv =
              Some (s2, parv @ [x, if c2 = COLON then x2 + 1 else x2])"
            using h2 \<open>c2 \<noteq> 0\<close> by (simp add: step)
          have "param_at s2 x2 = u2" using after(1) z2 by (simp add: cstr_text_term)
          moreover have "param_at s2 (x2 + 1) = u3"
            using drop_split [of x2 s2 "[c2]"] after(1) u2 z2 by (simp add: cstr_text_term)
          ultimately have "map (param_at s2) [x, if c2 = COLON then x2 + 1 else x2] = irc_params (Suc (Suc n)) u"
            using params2 True u2 after(4) [OF refl] by simp
          with r n tk show ?thesis by auto
        next
          case more: False
          have room: "int (length parv) + 2 < maxpara" using n more slots by auto
          have n': "nat maxpara - length (parv @ [x]) = Suc n" using n by simp
          obtain s3 ps where r: "string_to_array_loop arch (x2 + length u2) maxpara s2 x2 (parv @ [x]) = Some (s3, (parv @ [x]) @ ps)"
              "map (param_at s3) ps = irc_params (nat maxpara - length (parv @ [x])) u2"
              "length s3 = length s2" "take x2 s3 = take x2 s2"
            using less.hyps [of u2 x2 s2 "parv @ [x]"] after(1) z2 sp2 u2 e room by (auto simp: x2_def)
          have "take x s3 = take x (take x2 s3)" by (simp add: x2_def min_def)
          also have "\<dots> = take x s" unfolding r(4) using tk(1) by (simp add: x2_def min_def)
          finally have "take x s3 = take x s" .
          moreover have "map (param_at s3) (x # ps) = irc_params (Suc (Suc n)) u"
            using after(4) [OF r(4)] r(2) params2 n' by (simp del: irc_params.simps(2))
          moreover have "string_to_array_loop arch (x + length u) maxpara s x parv = Some (s3, parv @ x # ps)"
            unfolding step unfolding e using h2 \<open>c2 \<noteq> 0\<close> room r(1) by simp
          ultimately show ?thesis using n r(3) tk(2) by metis
        qed
      qed
    qed
  qed
qed

lemma string_to_array_spec:
  assumes "0 \<notin> set t" and "2 \<le> maxpara"
  shows "\<exists>s' parv. op_string_to_array arch (Some (t @ 0 # rest)) maxpara = Some (s', parv)
    \<and> map (param_at s') parv = irc_params (nat maxpara) (dropWhile (\<lambda>c. c = SPACE) t)
    \<and> length s' = length (t @ 0 # rest)"
proof (cases "t = []")
  case True
  then show ?thesis by (simp add: op_string_to_array_def)
next
  case False
  define k where "k = length (takeWhile (\<lambda>c. c = SPACE) t)"
  define u where "u = dropWhile (\<lambda>c. c = SPACE) t"
  let ?s = "t @ 0 # rest"
  have t: "t = replicate k SPACE @ u"
    unfolding k_def u_def by (metis (mono_tags, lifting) replicate_length_same set_takeWhileD takeWhile_dropWhile_id)
  have tx: "cstr_text ?s = t" using assms(1) by (rule cstr_text_term)
  have d: "drop k ?s = u @ 0 # rest" using t by simp
  have first: "arr_get ?s 0 = Some (hd t)" "hd t \<noteq> 0" using False assms(1) by (cases t; auto)+
  have skip: "op_simd_count_leading arch (take (length t) ?s) SPACE = Some k" by (simp add: simd_count k_def)
  show ?thesis
  proof (cases "u = []")
    case True
    then have "arr_get ?s k = Some 0" using t by (simp add: nth_append)
    then show ?thesis using first skip True by (simp add: op_string_to_array_def tx Let_def u_def [symmetric])
  next
    case u: False
    have z: "0 \<notin> set u" using assms(1) t by auto
    have at: "arr_get ?s k = Some (hd u)" using nth_at [of k ?s "[]"] d u by (cases u) auto
    have "hd u \<noteq> 0" using z u by (cases u) auto
    have "hd u \<noteq> SPACE" using hd_dropWhile [of "\<lambda>c. c = SPACE" t] u unfolding u_def by auto
    then obtain s' ps where "string_to_array_loop arch (k + length u) maxpara ?s k [] = Some (s', ps)"
        "map (param_at s') ps = irc_params (nat maxpara) u" "length s' = length ?s"
      using string_to_array_loop_spec [OF d z u, of "[]" maxpara arch] assms(2) by auto
    moreover have "length t = k + length u" using t by simp
    ultimately show ?thesis
      using first skip at \<open>hd u \<noteq> 0\<close> by (simp add: op_string_to_array_def tx Let_def u_def [symmetric])
  qed
qed

lemma length_irc_params: "length (irc_params n t) \<le> n"
  by (induction n arbitrary: t) (auto simp: Let_def)

section \<open>Copies, formatting and search\<close>

lemma take_cstr_text: "n \<le> length (cstr_text s) \<Longrightarrow> take n s = take n (cstr_text s)"
  by (metis cstr_text_def min.absorb1 take_take takeWhile_eq_take)

text \<open>
  A bounded write: the bytes \<open>t\<close> and a terminator are stored at \<open>off\<close>, and nothing else.
\<close>

definition stored_text :: "u8 list \<Rightarrow> nat \<Rightarrow> u8 list \<Rightarrow> u8 list \<Rightarrow> bool" where
  "stored_text buf off t buf' \<longleftrightarrow> length buf' = length buf \<and> take off buf' = take off buf
     \<and> take (Suc (length t)) (drop off buf') = t @ [0]
     \<and> drop (off + Suc (length t)) buf' = drop (off + Suc (length t)) buf"

lemma arr_copy_stored:
  assumes "off + Suc (length t) \<le> length buf"
  shows "\<exists>buf'. arr_copy buf off (t @ [0]) = Some buf' \<and> stored_text buf off t buf'"
  using assms by (auto simp: arr_copy_def stored_text_def)

lemma op_strlcpy_spec:
  assumes "0 < siz" and "off + siz \<le> length buf"
  shows "\<exists>buf'. op_strlcpy buf off src siz = Some (buf', length (cstr_text src))
    \<and> stored_text buf off (take (siz - 1) (cstr_text src)) buf'"
proof -
  define t where "t = take (siz - 1) (cstr_text src)"
  have len: "(if length (cstr_text src) \<ge> siz then siz - 1 else length (cstr_text src)) = length t"
    using assms(1) by (auto simp: t_def)
  have src: "take (length t) src = t"
    using take_cstr_text [of "length t" src] by (metis append_eq_conv_conj append_take_drop_id length_take min.cobounded1 t_def)
  have room: "off + Suc (length t) \<le> length buf" using assms by (auto simp: t_def)
  have c1: "arr_copy buf off t = Some (take off buf @ t @ drop (off + length t) buf)"
    using room by (simp add: arr_copy_def)
  have "arr_set (take off buf @ t @ drop (off + length t) buf) (off + length t) 0
      = Some (take off buf @ (t @ [0]) @ drop (off + Suc (length t)) buf)"
    using room by (simp add: arr_set_def list_update_append drop_update_swap Cons_nth_drop_Suc [symmetric, of "off + length t" buf])
  moreover have "stored_text buf off t (take off buf @ (t @ [0]) @ drop (off + Suc (length t)) buf)"
    using room by (auto simp: stored_text_def)
  ultimately show ?thesis
    using assms(1) c1 unfolding op_strlcpy_def Let_def len src t_def [symmetric] by simp
qed

lemma cstr_text_Cons: "c \<noteq> 0 \<Longrightarrow> cstr_text (c # s) = c # cstr_text s"
  by (simp add: cstr_text_def)

text \<open>
  \<^verbatim>\<open>op_strcasestr\<close> returns the first position at which the text, compared without regard to
  case, starts with the needle.
\<close>

lemma op_strncasecmp_prefix:
  "length (cstr_text needle) = n \<Longrightarrow>
   op_strncasecmp s needle n = 0 \<longleftrightarrow> map c_tolower (take n (cstr_text s)) = map c_tolower (cstr_text needle)"
proof (induction n arbitrary: s needle)
  case (Suc n)
  then have b: "cbyte needle \<noteq> 0" using cstr_text_unroll [of needle] by (auto split: if_splits)
  then have n: "cstr_text needle = cbyte needle # cstr_text (tl needle)" using cstr_text_unroll [of needle] by simp
  then have IH: "op_strncasecmp (tl s) (tl needle) n = 0 \<longleftrightarrow>
      map c_tolower (take n (cstr_text (tl s))) = map c_tolower (cstr_text (tl needle))"
    using Suc by simp
  have d: "uint (c_tolower (cbyte s)) - uint (c_tolower (cbyte needle)) = 0 \<longleftrightarrow> c_tolower (cbyte s) = c_tolower (cbyte needle)"
    using unsigned_word_eqI by auto
  have z: "cbyte s = 0 \<Longrightarrow> c_tolower (cbyte s) \<noteq> c_tolower (cbyte needle)" using b tolower_0D(2) by auto
  show ?case using IH d z n cstr_text_unroll [of s] by auto
qed simp

lemma op_strcasestr_first:
  assumes "0 \<notin> set needle" "needle \<noteq> []"
  shows "case op_strcasestr s needle of
      None \<Rightarrow> \<forall>i < length (cstr_text s). map c_tolower (take (length needle) (drop i (cstr_text s))) \<noteq> map c_tolower needle
    | Some r \<Rightarrow> \<exists>i < length (cstr_text s). r = drop i s
        \<and> map c_tolower (take (length needle) (drop i (cstr_text s))) = map c_tolower needle
        \<and> (\<forall>j < i. map c_tolower (take (length needle) (drop j (cstr_text s))) \<noteq> map c_tolower needle)"
proof -
  obtain c ns where n: "needle = c # ns" using assms(2) by (cases needle) auto
  have t: "cstr_text ns = ns" using assms(1) n by (intro cstr_text_id) auto
  define hit where "hit s i \<longleftrightarrow> map c_tolower (take (length needle) (drop i (cstr_text s))) = map c_tolower needle" for s i
  have here: "c_tolower sc = c_tolower c \<and> op_strncasecmp s' ns (length ns) = 0 \<longleftrightarrow> hit (sc # s') 0" if "sc \<noteq> 0" for sc s'
    using op_strncasecmp_prefix [of ns "length ns" s'] that t n by (auto simp: hit_def cstr_text_Cons)
  have shift: "hit (sc # s') (Suc i) = hit s' i" if "sc \<noteq> 0" for sc s' i
    using that by (simp add: hit_def cstr_text_Cons)
  have "case strcasestr_loop (c_tolower c) ns (length ns) s of
      None \<Rightarrow> \<forall>i < length (cstr_text s). \<not> hit s i
    | Some r \<Rightarrow> \<exists>i < length (cstr_text s). r = drop i s \<and> hit s i \<and> (\<forall>j < i. \<not> hit s j)"
  proof (induction s)
    case (Cons sc s)
    show ?case
    proof (cases "sc = 0 \<or> hit (sc # s) 0")
      case True
      then show ?thesis using here [of sc s] by (auto simp: cstr_text_def intro!: exI [of _ 0])
    next
      case False
      then have f: "strcasestr_loop (c_tolower c) ns (length ns) (sc # s) = strcasestr_loop (c_tolower c) ns (length ns) s"
        and len: "length (cstr_text (sc # s)) = Suc (length (cstr_text s))"
        using here [of sc s] by (auto simp: cstr_text_def)
      have all: "(\<forall>i < Suc m. \<not> hit (sc # s) i) \<longleftrightarrow> (\<forall>i < m. \<not> hit s i)" for m
        using False shift [of sc s] by (auto simp: less_Suc_eq_0_disj)
      show ?thesis
      proof (cases "strcasestr_loop (c_tolower c) ns (length ns) s")
        case None
        then show ?thesis using Cons f len all by simp
      next
        case (Some r)
        then obtain i where "i < length (cstr_text s)" "r = drop i s" "hit s i" "\<forall>j < i. \<not> hit s j" using Cons by auto
        then show ?thesis using Some f len all [of i] shift [of sc s i] False
          by (auto intro!: exI [of _ "Suc i"])
      qed
    qed
  qed (simp add: cstr_text_def)
  then show ?thesis using assms n t unfolding hit_def by (simp add: op_strcasestr_def)
qed

text \<open>
  What a descriptor contributes when \<open>rem\<close> bytes are left, and the text of a chain: each
  piece is cut to one byte less than its limit, and the whole to one byte less than the buffer.
\<close>

definition strf_ok :: "strf_body \<Rightarrow> bool" where
  "strf_ok body \<longleftrightarrow> (case body of
       StrfArgs text \<Rightarrow> text \<noteq> None
     | StrfFunc f \<Rightarrow> \<forall>rem > 0. \<exists>t. f rem = (take (rem - 1) t @ [0], int (length t))
     | _ \<Rightarrow> True)"

definition strf_out :: "strf_body \<Rightarrow> nat \<Rightarrow> u8 list" where
  "strf_out body rem = (case body of
       StrfArgs text \<Rightarrow> (case text of None \<Rightarrow> [] | Some t \<Rightarrow> take (rem - 1) t)
     | StrfPlain s \<Rightarrow> take (rem - 1) (cstr_text s)
     | StrfFunc f \<Rightarrow> butlast (fst (f rem))
     | StrfNone \<Rightarrow> [])"

primrec fsn_text :: "op_strf list \<Rightarrow> nat \<Rightarrow> nat \<Rightarrow> nat \<Rightarrow> u8 list" where
  "fsn_text [] len used rem = []"
| "fsn_text (p # ps) len used rem =
     (let rem = (if sf_length p \<noteq> 0 then min (sf_length p) (len - used) else rem);
          out = strf_out (sf_body p) rem
      in if rem = 0 then []
         else if used + length out \<ge> len - 1 then out
         else out @ fsn_text ps len (used + length out) (len - (used + length out)))"

lemma stored_text_take: "stored_text buf off t buf' \<Longrightarrow> off \<le> length buf \<Longrightarrow> take (off + length t) buf' = take off buf @ t"
proof -
  assume s: "stored_text buf off t buf'" and off: "off \<le> length buf"
  have "take (length t) (drop off buf') = take (length t) (take (Suc (length t)) (drop off buf'))" by simp
  also have "\<dots> = t" using s by (simp add: stored_text_def)
  finally show ?thesis using s by (simp add: take_add stored_text_def)
qed

lemma strf_emit_spec:
  assumes "strf_ok body" and "0 < rem" and "off + rem \<le> length buf"
  shows "\<exists>buf' n. strf_emit buf off rem body = Some (buf', int n) \<and> length (strf_out body rem) = min n (rem - 1)
    \<and> length buf' = length buf \<and> take (off + length (strf_out body rem)) buf' = take off buf @ strf_out body rem
    \<and> drop (off + rem) buf' = drop (off + rem) buf"
proof -
  have fin: "take (off + length t) b = take off buf @ t \<and> length b = length buf \<and> drop (off + rem) b = drop (off + rem) buf"
    if st: "stored_text buf off t b" and t: "length t \<le> rem - 1" for t b
  proof -
    have "drop (off + rem) b = drop (rem - Suc (length t)) (drop (off + Suc (length t)) b)"
      using t assms(2) by (simp add: add.commute)
    also have "\<dots> = drop (off + rem) buf" using st t assms(2) by (simp add: stored_text_def add.commute)
    finally show ?thesis using st stored_text_take [OF st] assms(3) by (simp add: stored_text_def)
  qed
  have room: "off + Suc (length (take (rem - 1) t)) \<le> length buf" for t :: "u8 list"
    using assms(2,3) by (simp add: min_def) linarith
  have vs: "\<exists>b. c_vsnprintf buf off rem (Some t) = Some (b, int (length t)) \<and> stored_text buf off (take (rem - 1) t) b" for t
    using arr_copy_stored [OF room, of t] assms(2) by (auto simp: c_vsnprintf_def)
  show ?thesis
  proof (cases body)
    case (StrfArgs tx)
    then obtain t where tx: "tx = Some t" using assms(1) by (auto simp: strf_ok_def)
    obtain b where b: "c_vsnprintf buf off rem (Some t) = Some (b, int (length t))" "stored_text buf off (take (rem - 1) t) b"
      using vs by blast
    have d: "take (off + length (take (rem - 1) t)) b = take off buf @ take (rem - 1) t \<and> length b = length buf
        \<and> drop (off + rem) b = drop (off + rem) buf"
      using fin [OF b(2)] by simp
    show ?thesis
      using b(1) d StrfArgs tx by (intro exI [of _ b] exI [of _ "length t"]) (simp add: strf_emit_def strf_out_def)
  next
    case (StrfPlain src)
    obtain b where b: "op_strlcpy buf off src rem = Some (b, length (cstr_text src))"
        "stored_text buf off (take (rem - 1) (cstr_text src)) b"
      using op_strlcpy_spec [OF assms(2,3), of src] by blast
    have d: "take (off + length (take (rem - 1) (cstr_text src))) b = take off buf @ take (rem - 1) (cstr_text src)
        \<and> length b = length buf \<and> drop (off + rem) b = drop (off + rem) buf"
      using fin [OF b(2)] by simp
    show ?thesis
      using b(1) d StrfPlain by (intro exI [of _ b] exI [of _ "length (cstr_text src)"]) (simp add: strf_emit_def strf_out_def)
  next
    case (StrfFunc f)
    then obtain t where t: "f rem = (take (rem - 1) t @ [0], int (length t))" using assms(1,2) by (auto simp: strf_ok_def)
    obtain b where b: "arr_copy buf off (take (rem - 1) t @ [0]) = Some b" "stored_text buf off (take (rem - 1) t) b"
      using arr_copy_stored [OF room, of t] by auto
    have d: "take (off + length (take (rem - 1) t)) b = take off buf @ take (rem - 1) t \<and> length b = length buf
        \<and> drop (off + rem) b = drop (off + rem) buf"
      using fin [OF b(2)] by simp
    show ?thesis
      using b(1) d StrfFunc t by (intro exI [of _ b] exI [of _ "length t"]) (simp add: strf_emit_def strf_out_def)
  next
    case StrfNone
    then show ?thesis using assms(3)
      by (intro exI [of _ buf] exI [of _ 0]) (simp add: strf_emit_def strf_out_def)
  qed
qed

lemma fsnprint_loop_spec:
  "\<lbrakk>\<forall>p\<in>set ps. strf_ok (sf_body p); used + rem \<le> len; len \<le> length buf; used < len\<rbrakk> \<Longrightarrow>
   \<exists>buf'. fsnprint_loop ps buf len used rem = Some (buf', int (used + length (fsn_text ps len used rem)))
     \<and> length buf' = length buf \<and> used + length (fsn_text ps len used rem) < len
     \<and> take (used + length (fsn_text ps len used rem)) buf' = take used buf @ fsn_text ps len used rem
     \<and> drop len buf' = drop len buf"
proof (induction ps arbitrary: buf used rem)
  case (Cons p ps)
  define r where "r = (if sf_length p \<noteq> 0 then min (sf_length p) (len - used) else rem)"
  have r: "used + r \<le> len" using Cons.prems by (auto simp: r_def)
  show ?case
  proof (cases "r = 0")
    case True
    then show ?thesis
      unfolding fsnprint_loop.simps fsn_text.simps r_def [symmetric] Let_def using Cons.prems by simp
  next
    case False
    define out where "out = strf_out (sf_body p) r"
    obtain b n where b: "strf_emit buf used r (sf_body p) = Some (b, int n)" "length out = min n (r - 1)"
        "length b = length buf" "take (used + length out) b = take used buf @ out" "drop (used + r) b = drop (used + r) buf"
      using strf_emit_spec [of "sf_body p" r used buf] Cons.prems r False unfolding out_def by auto
    have u: "(if nat (int n) \<ge> r then used + (r - 1) else used + nat (int n)) = used + length out"
      using b(2) False by auto
    have dl: "drop len b = drop len buf"
    proof -
      have "drop len b = drop (len - (used + r)) (drop (used + r) b)" using r by simp
      then show ?thesis using r b(5) by simp
    qed
    show ?thesis
    proof (cases "used + length out \<ge> len - 1")
      case True
      have "length out < r" using b(2) False by auto
      then have "used + length out = len - 1" using True r by simp
      then show ?thesis
        unfolding fsnprint_loop.simps fsn_text.simps r_def [symmetric] unfolding Let_def out_def [symmetric]
        using True False b u dl Cons.prems(4) by simp
    next
      case more: False
      have "\<exists>b'. fsnprint_loop ps b len (used + length out) (len - (used + length out))
          = Some (b', int (used + length out + length (fsn_text ps len (used + length out) (len - (used + length out)))))
        \<and> length b' = length b \<and> used + length out + length (fsn_text ps len (used + length out) (len - (used + length out))) < len
        \<and> take (used + length out + length (fsn_text ps len (used + length out) (len - (used + length out)))) b'
          = take (used + length out) b @ fsn_text ps len (used + length out) (len - (used + length out))
        \<and> drop len b' = drop len b"
        using more Cons.prems b(3) by (intro Cons.IH) auto
      then show ?thesis
        unfolding fsnprint_loop.simps fsn_text.simps r_def [symmetric] unfolding Let_def out_def [symmetric]
        using more False b u dl by (simp add: add.assoc)
    qed
  qed
qed simp

lemma op_fsnprint_spec:
  assumes "\<forall>p\<in>set ps. strf_ok (sf_body p)" and "0 < len" and "len \<le> length buf"
  shows "\<exists>buf'. op_fsnprint buf len ps = Some (buf', int (length (fsn_text ps len 0 len))) \<and> length buf' = length buf
    \<and> length (fsn_text ps len 0 len) < len \<and> take (length (fsn_text ps len 0 len)) buf' = fsn_text ps len 0 len
    \<and> drop len buf' = drop len buf"
  using fsnprint_loop_spec [OF assms(1), of 0 len len buf] assms(2,3) by (simp add: op_fsnprint_def)

text \<open>
  The limit of a descriptor does not extend to the ones behind it: a limit of three followed
  by a descriptor without one yields more than two characters.
\<close>

lemma fsnprint_limit_not_inherited:
  "fsn_text [\<lparr>sf_length = 3, sf_body = StrfPlain [0x61]\<rparr>, \<lparr>sf_length = 0, sf_body = StrfPlain [0x62, 0x63, 0x64]\<rparr>] 100 0 100
    = [0x61, 0x62, 0x63, 0x64]"
  by (simp add: strf_out_def cstr_text_def)

section \<open>Properties of the component\<close>

text \<open>
  C17.  Splitting a message into parameters.  On every architecture \<^verbatim>\<open>op_string_to_array\<close>, given
  a terminated string and room for at least two parameters, stays inside the string and stores
  pointers at which the modified string reads as the reference parameters: words separated by
  runs of spaces, at most \<open>maxpara\<close> of them, the last one running to the end when it starts
  with a colon or takes the last place.
\<close>

theorem string_to_array_splits:
  assumes "0 \<notin> set t" and "2 \<le> maxpara"
  shows "\<exists>s parv. op_string_to_array arch (Some (t @ 0 # rest)) maxpara = Some (s, parv)
    \<and> length s = length (t @ 0 # rest) \<and> int (length parv) \<le> maxpara
    \<and> map (\<lambda>i. cstr_text (drop i s)) parv = irc_params (nat maxpara) (dropWhile (\<lambda>c. c = SPACE) t)"
proof -
  obtain s parv where r: "op_string_to_array arch (Some (t @ 0 # rest)) maxpara = Some (s, parv)"
      "map (param_at s) parv = irc_params (nat maxpara) (dropWhile (\<lambda>c. c = SPACE) t)" "length s = length (t @ 0 # rest)"
    using string_to_array_spec [OF assms] by blast
  have "length parv \<le> nat maxpara" using length_irc_params [of "nat maxpara"] r(2) by (metis length_map)
  then show ?thesis using r assms(2) by auto
qed

theorem string_to_array_splits_witness:
  "\<exists>s parv. op_string_to_array Avx2 (Some [0x4A, 0x20, 0x23, 0x61, 0x20, 0x20, 0x3A, 0x68, 0x20, 0x69, 0]) 15 = Some (s, parv)
    \<and> map (\<lambda>i. cstr_text (drop i s)) parv = [[0x4A], [0x23, 0x61], [0x68, 0x20, 0x69]]"
proof -
  let ?t = "[0x4A, 0x20, 0x23, 0x61, 0x20, 0x20, 0x3A, 0x68, 0x20, 0x69] :: u8 list"
  have "irc_params (nat 15) (dropWhile (\<lambda>c. c = SPACE) ?t) = [[0x4A], [0x23, 0x61], [0x68, 0x20, 0x69]]" by code_simp
  then show ?thesis using string_to_array_splits [of ?t 15 Avx2 "[]"] by auto
qed

text \<open>With room for one parameter the code still stores a second pointer.\<close>

lemma string_to_array_one_slot:
  "op_string_to_array Scalar (Some [0x61, 0x20, 0x62, 0]) 1 = Some ([0x61, 0, 0x62, 0], [0, 2])"
  by (simp add: op_string_to_array_def string_to_array_loop.simps cstr_text_def op_simd_count_leading_def
      op_simd_find_delim_def Let_def)

end
