(* ===== verification/Linebuf.thy ===== *)
theory Linebuf
  imports Tools
begin

text \<open>
  The line buffer of \<^verbatim>\<open>src/linebuf.c\<close> and \<^verbatim>\<open>include/op_linebuf.h\<close>: assembly of CRLF-framed
  lines from chunks of input, their retrieval, reference-counted sharing between heads and
  senders, and flushing.  Lines live in a memory from identifiers to records, which the heads
  and the holders of extra references share; reading a line that is not there is undefined
  (\<open>None\<close>), so a proof that an operation returns is a proof that no freed line is touched.  The
  allocator is a parameter of which only freshness is assumed; exhaustion of memory aborts the
  process and is not represented.  The doubly linked list of a head is the list of its lines.
  \<^verbatim>\<open>slop_assert\<close> only logs and is left out.
\<close>

section \<open>Lines and heads\<close>

definition LINEBUF_SIZE :: nat where
  "LINEBUF_SIZE = 4096 + 510"

definition CRLF_LEN :: nat where
  "CRLF_LEN = 2"

type_synonym line_id = nat

record buf_line =
  bl_buf :: "u8 list"
  bl_terminated :: bool
  bl_raw :: bool
  bl_len :: nat
  bl_refcount :: nat

record buf_head =
  bh_list :: "line_id list"
  bh_len :: nat
  bh_alloclen :: nat
  bh_writeofs :: nat
  bh_numlines :: nat

text \<open>
  The lines in use and the diagnostic counter \<^verbatim>\<open>bufline_count\<close>.  The counter is an
  \<^verbatim>\<open>atomic_int\<close> in the code and an unbounded integer here: the two agree while fewer than
  \<open>2 ^ 31\<close> lines are in use, and only a diagnostic assertion reads it.
\<close>

record line_mem =
  lm_lines :: "line_id \<rightharpoonup> buf_line"
  lm_count :: int

definition lm_put :: "line_mem \<Rightarrow> line_id \<Rightarrow> buf_line \<Rightarrow> line_mem" where
  "lm_put m a l = m\<lparr>lm_lines := (lm_lines m)(a \<mapsto> l)\<rparr>"

text \<open>The slab allocator clears what it returns.\<close>

definition new_buf_line :: buf_line where
  "new_buf_line = \<lparr>bl_buf = replicate (LINEBUF_SIZE + CRLF_LEN + 1) 0, bl_terminated = False, bl_raw = False,
     bl_len = 0, bl_refcount = 1\<rparr>"

definition op_linebuf_new_line ::
  "(line_id set \<Rightarrow> line_id) \<Rightarrow> line_mem \<Rightarrow> buf_head \<Rightarrow> line_mem \<times> buf_head \<times> line_id" where
  "op_linebuf_new_line alloc m bufhead =
     (let a = alloc (dom (lm_lines m));
          m = m\<lparr>lm_lines := (lm_lines m)(a \<mapsto> new_buf_line), lm_count := lm_count m + 1\<rparr>
      in (m, bufhead\<lparr>bh_list := bh_list bufhead @ [a], bh_alloclen := wrap64 (bh_alloclen bufhead + 1),
              bh_numlines := wrap32 (bh_numlines bufhead + 1)\<rparr>, a))"

text \<open>Dropping one reference; the line is freed when it was the last.\<close>

definition op_linebuf_unref :: "line_mem \<Rightarrow> line_id \<Rightarrow> line_mem option" where
  "op_linebuf_unref m a = do {
     l \<leftarrow> lm_lines m a;
     if bl_refcount l = 1
     then Some (m\<lparr>lm_lines := (lm_lines m)(a := None), lm_count := lm_count m - 1\<rparr>)
     else Some (lm_put m a (l\<lparr>bl_refcount := sub32 (bl_refcount l) 1\<rparr>)) }"

definition op_linebuf_ref :: "line_mem \<Rightarrow> line_id \<Rightarrow> line_mem option" where
  "op_linebuf_ref m a = do {
     l \<leftarrow> lm_lines m a;
     Some (lm_put m a (l\<lparr>bl_refcount := wrap32 (bl_refcount l + 1)\<rparr>)) }"

text \<open>The node passed to \<^verbatim>\<open>op_linebuf_done_line\<close> is the head of the list in every call.\<close>

definition op_linebuf_done_line :: "line_mem \<Rightarrow> buf_head \<Rightarrow> (line_mem \<times> buf_head) option" where
  "op_linebuf_done_line m bufhead =
     (case bh_list bufhead of [] \<Rightarrow> None
      | a # rest \<Rightarrow> do {
          l \<leftarrow> lm_lines m a;
          m \<leftarrow> op_linebuf_unref m a;
          Some (m, bufhead\<lparr>bh_list := rest, bh_alloclen := sub64 (bh_alloclen bufhead) 1,
            bh_len := sub64 (bh_len bufhead) (bl_len l), bh_numlines := sub32 (bh_numlines bufhead) 1\<rparr>) })"

section \<open>Copying one logical line\<close>

definition is_crlf :: "u8 \<Rightarrow> bool" where
  "is_crlf c \<longleftrightarrow> c = 0x0D \<or> c = 0x0A"

definition linebuf_skip_crlf :: "u8 list \<Rightarrow> nat" where
  "linebuf_skip_crlf ch =
     (let rest = dropWhile (\<lambda>c. \<not> is_crlf c) ch;
          rest = dropWhile is_crlf rest
      in length ch - length rest)"

text \<open>The loops that overwrite trailing CR and LF bytes, walking back from \<open>base + n - 1\<close>.\<close>

primrec strip_back :: "nat \<Rightarrow> u8 list \<Rightarrow> nat \<Rightarrow> (u8 list \<times> nat) option" where
  "strip_back 0 buf base = Some (buf, 0)"
| "strip_back (Suc n) buf base = do {
     c \<leftarrow> arr_get buf (base + n);
     if is_crlf c then do { buf \<leftarrow> arr_set buf (base + n) 0; strip_back n buf base }
     else Some (buf, Suc n) }"

definition linebuf_copy ::
  "buf_head \<Rightarrow> buf_line \<Rightarrow> u8 list \<Rightarrow> bool \<Rightarrow> (buf_head \<times> buf_line \<times> nat) option" where
  "linebuf_copy bufhead bufline data raw =
     (if bl_terminated bufline then Some (bufhead, bufline, 0)
      else let bufline = bufline\<lparr>bl_raw := raw\<rparr>;
               consumed = linebuf_skip_crlf data;
               avail = sub64 LINEBUF_SIZE (bl_len bufline);
               dst = bl_len bufline
        in if consumed > avail then do {
             buf \<leftarrow> arr_copy (bl_buf bufline) dst (take avail data);
             buf \<leftarrow> arr_set buf LINEBUF_SIZE 0;
             (buf, cl) \<leftarrow> (if \<not> raw then strip_back avail buf dst else Some (buf, avail));
             Some (bufhead\<lparr>bh_len := wrap64 (bh_len bufhead + sub64 LINEBUF_SIZE (bl_len bufline))\<rparr>,
               bufline\<lparr>bl_buf := buf, bl_terminated := True, bl_len := LINEBUF_SIZE\<rparr>, consumed) }
           else do {
             let cpylen = consumed;
             buf \<leftarrow> arr_copy (bl_buf bufline) dst (take cpylen data);
             buf \<leftarrow> arr_set buf (dst + cpylen) 0;
             if cpylen = 0 \<or> \<not> is_crlf (buf ! (dst + cpylen - 1))
             then Some (bufhead\<lparr>bh_len := wrap64 (bh_len bufhead + cpylen)\<rparr>,
               bufline\<lparr>bl_buf := buf, bl_len := wrap64 (bl_len bufline + cpylen), bl_terminated := False\<rparr>, consumed)
             else do {
               (buf, cpylen) \<leftarrow> (if \<not> raw then strip_back cpylen buf dst else Some (buf, cpylen));
               Some (bufhead\<lparr>bh_len := wrap64 (bh_len bufhead + cpylen)\<rparr>,
                 bufline\<lparr>bl_buf := buf, bl_terminated := True, bl_len := wrap64 (bl_len bufline + cpylen)\<rparr>,
                 consumed) } })"

section \<open>The interface\<close>

definition op_linebuf_newbuf :: buf_head where
  "op_linebuf_newbuf = \<lparr>bh_list = [], bh_len = 0, bh_alloclen = 0, bh_writeofs = 0, bh_numlines = 0\<rparr>"

lemma done_line_list:
  "op_linebuf_done_line m bh = Some (m', bh') \<Longrightarrow> bh_list bh \<noteq> [] \<and> bh_list bh' = tl (bh_list bh)"
  by (auto simp: op_linebuf_done_line_def split: list.splits bind_splits)

lemma done_line_shorter:
  "op_linebuf_done_line m bh = Some (m', bh') \<Longrightarrow> length (bh_list bh') < length (bh_list bh)"
  using done_line_list [of m bh m' bh'] by (cases "bh_list bh") auto

function op_linebuf_donebuf :: "line_mem \<Rightarrow> buf_head \<Rightarrow> (line_mem \<times> buf_head) option" where
  "op_linebuf_donebuf m bufhead =
     (if bh_list bufhead \<noteq> [] then do {
        (m, bufhead) \<leftarrow> op_linebuf_done_line m bufhead;
        op_linebuf_donebuf m bufhead }
      else Some (m, bufhead))"
  by pat_completeness auto
termination
  by (relation "measure (\<lambda>(m, bh). length (bh_list bh))") (auto dest: done_line_shorter)

lemma linebuf_skip_crlf_pos: "data \<noteq> [] \<Longrightarrow> 0 < linebuf_skip_crlf data"
proof -
  assume "data \<noteq> []"
  then obtain c cs where d: "data = c # cs" by (cases data) auto
  have "length (dropWhile is_crlf (dropWhile (\<lambda>c. \<not> is_crlf c) data)) < length data"
    unfolding d using length_dropWhile_le [of is_crlf cs] length_dropWhile_le [of "\<lambda>c. \<not> is_crlf c" cs]
      length_dropWhile_le [of is_crlf "dropWhile (\<lambda>c. \<not> is_crlf c) cs"]
    by (auto simp: less_Suc_eq_le)
  then show ?thesis by (simp add: linebuf_skip_crlf_def)
qed

lemma linebuf_copy_consumed:
  "linebuf_copy bh l data raw = Some (bh', l', n) \<Longrightarrow> n = (if bl_terminated l then 0 else linebuf_skip_crlf data)"
  by (auto simp: linebuf_copy_def Let_def split: if_splits bind_splits)

lemma new_line_lookup: "op_linebuf_new_line alloc m bh = (m', bh', a) \<Longrightarrow> lm_lines m' a = Some new_buf_line"
  by (auto simp: op_linebuf_new_line_def Let_def)

function parse_loop :: "(line_id set \<Rightarrow> line_id) \<Rightarrow> line_mem \<Rightarrow> buf_head \<Rightarrow> u8 list \<Rightarrow> bool \<Rightarrow> int
    \<Rightarrow> (line_mem \<times> buf_head \<times> int) option" where
  "parse_loop alloc m bufhead data raw linecnt =
     (if data = [] then Some (m, bufhead, linecnt)
      else case op_linebuf_new_line alloc m bufhead of (m, bufhead, a) \<Rightarrow> do {
        l \<leftarrow> lm_lines m a;
        (bufhead, l, cpylen) \<leftarrow> linebuf_copy bufhead l data raw;
        parse_loop alloc (lm_put m a l) bufhead (drop cpylen data) raw (linecnt + 1) })"
  by pat_completeness auto
termination
  by (relation "measure (\<lambda>(alloc, m, bh, data, raw, n). length data)")
    (auto dest!: new_line_lookup [OF sym] linebuf_copy_consumed simp: new_buf_line_def linebuf_skip_crlf_pos)

text \<open>
  The bytes passed are the list \<open>data\<close>, whose length is \<^verbatim>\<open>slen\<close>; a non-positive length is the
  empty list.  The count of lines is an \<^verbatim>\<open>int\<close> in the code and an unbounded
  integer here: the two agree for calls that parse fewer than \<open>2 ^ 31\<close> lines.
\<close>

definition op_linebuf_parse :: "(line_id set \<Rightarrow> line_id) \<Rightarrow> line_mem \<Rightarrow> buf_head \<Rightarrow> u8 list \<Rightarrow> bool
    \<Rightarrow> (line_mem \<times> buf_head \<times> int) option" where
  "op_linebuf_parse alloc m bufhead data raw =
     (if data = [] then Some (m, bufhead, 0)
      else if bh_list bufhead \<noteq> [] then do {
        let a = last (bh_list bufhead);
        l \<leftarrow> lm_lines m a;
        (bufhead, l, cpylen) \<leftarrow> linebuf_copy bufhead l data raw;
        let m = lm_put m a l;
        if cpylen > 0 then
          if cpylen \<ge> length data then Some (m, bufhead, 1)
          else parse_loop alloc m bufhead (drop cpylen data) raw 1
        else parse_loop alloc m bufhead data raw 0 }
      else parse_loop alloc m bufhead data raw 0)"

text \<open>
  What \<^verbatim>\<open>op_linebuf_get\<close> copies from a line: at most \<open>buflen - 1\<close> bytes, and for a line stored
  raw but wanted parsed the leading and trailing CR and LF bytes are cut off.
\<close>

definition get_text :: "buf_line \<Rightarrow> nat \<Rightarrow> bool \<Rightarrow> u8 list" where
  "get_text l buflen raw =
     (let start = take (min (bl_len l) (buflen - 1)) (bl_buf l)
      in if bl_raw l \<and> \<not> raw
         then rev (dropWhile is_crlf (rev (dropWhile is_crlf start)))
         else start)"

function op_linebuf_get :: "line_mem \<Rightarrow> buf_head \<Rightarrow> u8 list \<Rightarrow> nat \<Rightarrow> bool \<Rightarrow> bool
    \<Rightarrow> (line_mem \<times> buf_head \<times> u8 list \<times> int) option" where
  "op_linebuf_get m bufhead buf buflen partial raw =
     (case bh_list bufhead of [] \<Rightarrow> Some (m, bufhead, buf, 0)
      | a # rest \<Rightarrow> do {
          l \<leftarrow> lm_lines m a;
          if \<not> (partial \<or> bl_terminated l) then Some (m, bufhead, buf, 0)
          else if buflen = 0 then Some (m, bufhead, buf, 0)
          else let t = get_text l buflen raw in
            if t = [] then do {
              (m, bufhead) \<leftarrow> op_linebuf_done_line m bufhead;
              op_linebuf_get m bufhead buf buflen partial raw }
            else do {
              buf \<leftarrow> arr_copy buf 0 t;
              buf \<leftarrow> (if \<not> raw then arr_set buf (length t) 0 else Some buf);
              (m, bufhead) \<leftarrow> op_linebuf_done_line m bufhead;
              Some (m, bufhead, buf, int (length t)) } })"
  by pat_completeness auto
termination
  by (relation "measure (\<lambda>(m, bh, buf, buflen, partial, raw). length (bh_list bh))") (auto dest: done_line_shorter)

primrec attach_lines :: "line_id list \<Rightarrow> line_mem \<Rightarrow> buf_head \<Rightarrow> (line_mem \<times> buf_head) option" where
  "attach_lines [] m bufhead = Some (m, bufhead)"
| "attach_lines (a # as) m bufhead = do {
     l \<leftarrow> lm_lines m a;
     let bufhead = bufhead\<lparr>bh_list := bh_list bufhead @ [a], bh_alloclen := wrap64 (bh_alloclen bufhead + 1),
       bh_len := wrap64 (bh_len bufhead + bl_len l), bh_numlines := wrap32 (bh_numlines bufhead + 1)\<rparr>;
     m \<leftarrow> op_linebuf_ref m a;
     attach_lines as m bufhead }"

definition op_linebuf_attach :: "line_mem \<Rightarrow> buf_head \<Rightarrow> buf_head \<Rightarrow> (line_mem \<times> buf_head) option" where
  "op_linebuf_attach m bufhead new = attach_lines (bh_list new) m bufhead"

definition op_linebuf_put :: "(line_id set \<Rightarrow> line_id) \<Rightarrow> line_mem \<Rightarrow> buf_head \<Rightarrow> op_strf list
    \<Rightarrow> (line_mem \<times> buf_head) option" where
  "op_linebuf_put alloc m bufhead strings =
     (case op_linebuf_new_line alloc m bufhead of (m, bufhead, a) \<Rightarrow> do {
        l \<leftarrow> lm_lines m a;
        (buf, ret) \<leftarrow> op_fsnprint (bl_buf l) (LINEBUF_SIZE + 1) strings;
        let len = (if ret > 0 then nat ret else 0);
        let len = (if len > LINEBUF_SIZE then LINEBUF_SIZE else len);
        buf \<leftarrow> arr_set buf len 0x0D;
        buf \<leftarrow> arr_set buf (len + 1) 0x0A;
        buf \<leftarrow> arr_set buf (len + 2) 0;
        Some (lm_put m a (l\<lparr>bl_buf := buf, bl_terminated := True, bl_len := len + 2\<rparr>),
          bufhead\<lparr>bh_len := wrap64 (bh_len bufhead + (len + 2))\<rparr>) })"

definition op_linebuf_peek :: "line_mem \<Rightarrow> buf_head \<Rightarrow> line_id ptr option" where
  "op_linebuf_peek m bufhead =
     (case bh_list bufhead of [] \<Rightarrow> Some NULL
      | a # _ \<Rightarrow> do { l \<leftarrow> lm_lines m a; Some (if bl_terminated l then Some a else NULL) })"

definition op_linebuf_consume :: "line_mem \<Rightarrow> buf_head \<Rightarrow> (line_mem \<times> buf_head) option" where
  "op_linebuf_consume m bufhead =
     (if bh_list bufhead = [] then Some (m, bufhead) else op_linebuf_done_line m bufhead)"

section \<open>Flushing\<close>

text \<open>
  The writer \<open>write\<close> is \<^verbatim>\<open>op_writev\<close> or \<^verbatim>\<open>op_write\<close>: it is given the byte ranges and returns
  the number of bytes taken, zero or an error.  \<open>maxiov\<close> is \<^verbatim>\<open>OP_UIO_MAXIOV\<close>.
\<close>

primrec collect_iov :: "line_id list \<Rightarrow> line_mem \<Rightarrow> nat \<Rightarrow> u8 list list option" where
  "collect_iov [] m x = Some []"
| "collect_iov (a # as) m x =
     (if x = 0 then Some []
      else do {
        l \<leftarrow> lm_lines m a;
        if \<not> bl_terminated l then Some []
        else do { vs \<leftarrow> collect_iov as m (x - 1); Some (take (bl_len l) (bl_buf l) # vs) } })"

primrec flush_done :: "nat \<Rightarrow> line_mem \<Rightarrow> buf_head \<Rightarrow> nat \<Rightarrow> (line_mem \<times> buf_head) option" where
  "flush_done 0 m bufhead sxret = Some (m, bufhead)"
| "flush_done (Suc x) m bufhead sxret =
     (case bh_list bufhead of [] \<Rightarrow> None
      | a # _ \<Rightarrow> do {
          l \<leftarrow> lm_lines m a;
          let remaining = sub64 (bl_len l) (bh_writeofs bufhead);
          if sxret \<ge> remaining then do {
            (m, bufhead) \<leftarrow> op_linebuf_done_line m bufhead;
            flush_done x m (bufhead\<lparr>bh_writeofs := 0\<rparr>) (sxret - remaining) }
          else Some (m, bufhead\<lparr>bh_writeofs := wrap64 (bh_writeofs bufhead + sxret)\<rparr>) })"

definition op_linebuf_flush :: "nat \<Rightarrow> bool \<Rightarrow> (u8 list list \<Rightarrow> int) \<Rightarrow> line_mem \<Rightarrow> buf_head
    \<Rightarrow> (line_mem \<times> buf_head \<times> u8 list list \<times> int) option" where
  "op_linebuf_flush maxiov ssl write m bufhead =
     (case bh_list bufhead of [] \<Rightarrow> Some (m, bufhead, [], -1)
      | a # rest \<Rightarrow> do {
          l \<leftarrow> lm_lines m a;
          if \<not> bl_terminated l then Some (m, bufhead, [], -1)
          else do {
            let v = take (sub64 (bl_len l) (bh_writeofs bufhead)) (drop (bh_writeofs bufhead) (bl_buf l));
            if \<not> ssl then do {
              vs \<leftarrow> collect_iov rest m (maxiov - 1);
              let vec = v # vs;
              let retval = write vec;
              if retval \<le> 0 then Some (m, bufhead, vec, retval)
              else do {
                (m, bufhead) \<leftarrow> flush_done (length vec) m bufhead (nat retval);
                Some (m, bufhead, vec, retval) } }
            else do {
              let retval = write [v];
              if retval \<le> 0 then Some (m, bufhead, [v], retval)
              else do {
                let bufhead = bufhead\<lparr>bh_writeofs := wrap64 (bh_writeofs bufhead + nat retval)\<rparr>;
                if bh_writeofs bufhead = bl_len l then do {
                  (m, bufhead) \<leftarrow> op_linebuf_done_line m (bufhead\<lparr>bh_writeofs := 0\<rparr>);
                  Some (m, bufhead, [v], retval) }
                else Some (m, bufhead, [v], retval) } } } })"

declare op_linebuf_donebuf.simps [simp del] parse_loop.simps [simp del] op_linebuf_get.simps [simp del]

section \<open>Lines stay inside their buffer\<close>

definition line_ok :: "buf_line \<Rightarrow> bool" where
  "line_ok l \<longleftrightarrow> length (bl_buf l) = LINEBUF_SIZE + CRLF_LEN + 1 \<and> bl_len l \<le> LINEBUF_SIZE + CRLF_LEN
     \<and> (\<not> bl_terminated l \<longrightarrow> bl_len l \<le> LINEBUF_SIZE)"

definition line_text :: "buf_line \<Rightarrow> u8 list" where
  "line_text l = take (bl_len l) (bl_buf l)"

lemma linebuf_size_small: "LINEBUF_SIZE + CRLF_LEN + 1 < W64" "LINEBUF_SIZE < W64" "0 < LINEBUF_SIZE"
  by (simp_all add: LINEBUF_SIZE_def CRLF_LEN_def W64_def)

lemma new_line_ok [simp]: "line_ok new_buf_line" "bl_terminated new_buf_line = False" "bl_len new_buf_line = 0"
    "bl_refcount new_buf_line = 1"
  by (simp_all add: line_ok_def new_buf_line_def)

text \<open>The length of a logical line and its two parts.\<close>

definition content :: "u8 list \<Rightarrow> u8 list" where
  "content data = takeWhile (\<lambda>c. \<not> is_crlf c) data"

definition crlf_run :: "u8 list \<Rightarrow> u8 list" where
  "crlf_run data = takeWhile is_crlf (dropWhile (\<lambda>c. \<not> is_crlf c) data)"

lemma skip_crlf_parts: "linebuf_skip_crlf data = length (content data) + length (crlf_run data)"
proof -
  let ?r = "dropWhile (\<lambda>c. \<not> is_crlf c) data"
  have "length data = length (content data) + length ?r"
    unfolding content_def by (metis length_append takeWhile_dropWhile_id)
  moreover have "length ?r = length (takeWhile is_crlf ?r) + length (dropWhile is_crlf ?r)"
    by (metis length_append takeWhile_dropWhile_id)
  ultimately show ?thesis by (simp add: linebuf_skip_crlf_def crlf_run_def)
qed

lemma skip_crlf_split:
  "take (linebuf_skip_crlf data) data = content data @ crlf_run data \<and>
   drop (linebuf_skip_crlf data) data = dropWhile is_crlf (dropWhile (\<lambda>c. \<not> is_crlf c) data)"
proof -
  have "data = (content data @ crlf_run data) @ dropWhile is_crlf (dropWhile (\<lambda>c. \<not> is_crlf c) data)"
    by (simp only: append_assoc takeWhile_dropWhile_id content_def crlf_run_def)
  moreover have "linebuf_skip_crlf data = length (content data @ crlf_run data)" by (simp add: skip_crlf_parts)
  ultimately show ?thesis by (metis append_eq_conv_conj)
qed

lemmas take_skip_crlf = skip_crlf_split [THEN conjunct1]
lemmas drop_skip_crlf = skip_crlf_split [THEN conjunct2]

lemma part_bytes: "\<forall>x\<in>set (crlf_run data). is_crlf x" "\<forall>x\<in>set (content data). \<not> is_crlf x"
  by (auto simp: crlf_run_def content_def dest: set_takeWhileD)

lemma drop_skip_hd: "drop (linebuf_skip_crlf data) data \<noteq> [] \<Longrightarrow> \<not> is_crlf (hd (drop (linebuf_skip_crlf data) data))"
  unfolding drop_skip_crlf by (rule hd_dropWhile)

lemma open_consumes_all:
  assumes "crlf_run data = []"
  shows "drop (linebuf_skip_crlf data) data = []"
proof -
  define w where "w = dropWhile (\<lambda>c. \<not> is_crlf c) data"
  have "w \<noteq> [] \<Longrightarrow> is_crlf (hd w)" unfolding w_def using hd_dropWhile by force
  then show ?thesis using assms unfolding drop_skip_crlf crlf_run_def w_def [symmetric] by (cases w) auto
qed

lemma skip_crlf_le: "linebuf_skip_crlf data \<le> length data"
  by (simp add: linebuf_skip_crlf_def)

lemma strip_back_spec:
  "base + n \<le> length buf \<Longrightarrow> \<exists>buf' k. strip_back n buf base = Some (buf', k) \<and> length buf' = length buf \<and> k \<le> n
     \<and> take (base + k) buf' = take (base + k) buf
     \<and> take k (drop base buf) = rev (dropWhile is_crlf (rev (take n (drop base buf))))"
proof (induction n arbitrary: buf)
  case (Suc n)
  have seg: "take (Suc n) (drop base buf) = take n (drop base buf) @ [buf ! (base + n)]"
    using Suc.prems by (simp add: take_Suc_conv_app_nth)
  show ?case
  proof (cases "is_crlf (buf ! (base + n))")
    case True
    let ?b = "buf[base + n := 0]"
    have t: "take n (drop base ?b) = take n (drop base buf)" by (simp add: drop_update_swap)
    obtain buf' k where r: "strip_back n ?b base = Some (buf', k)" "length buf' = length ?b" "k \<le> n"
        "take (base + k) buf' = take (base + k) ?b"
        "take k (drop base ?b) = rev (dropWhile is_crlf (rev (take n (drop base ?b))))"
      using Suc.IH [of ?b] Suc.prems by auto
    moreover have "take k (drop base ?b) = take k (drop base buf)" using r(3) by (simp add: drop_update_swap)
    moreover have "take (base + k) ?b = take (base + k) buf" using r(3) by simp
    ultimately show ?thesis using True Suc.prems t by (auto simp: seg)
  next
    case False
    then show ?thesis using Suc.prems by (auto simp: seg)
  qed
qed simp

lemma line_write:
  assumes "length buf = N" "d + length bs < N"
  shows "\<exists>buf'. arr_copy buf d bs = Some buf' \<and> length buf' = N \<and> take (d + length bs) buf' = take d buf @ bs"
proof -
  have "take (d + length bs) (take d buf @ bs @ drop (d + length bs) buf) = take d buf @ bs"
    using assms by (simp add: min_def)
  then show ?thesis using assms by (simp add: arr_copy_def)
qed

lemma linebuf_copy_ok:
  assumes "line_ok l"
  shows "\<exists>bh' l' n. linebuf_copy bh l data raw = Some (bh', l', n) \<and> line_ok l' \<and> bl_refcount l' = bl_refcount l
    \<and> bh_list bh' = bh_list bh \<and> bh_writeofs bh' = bh_writeofs bh"
proof (cases "bl_terminated l")
  case True
  then show ?thesis using assms by (simp add: linebuf_copy_def)
next
  case False
  have l: "length (bl_buf l) = LINEBUF_SIZE + CRLF_LEN + 1" "bl_len l \<le> LINEBUF_SIZE" using assms False by (auto simp: line_ok_def)
  have av: "sub64 LINEBUF_SIZE (bl_len l) = LINEBUF_SIZE - bl_len l" using l(2) linebuf_size_small by (intro sub64_le) auto
  define c where "c = linebuf_skip_crlf data"
  have cd: "c \<le> length data" by (simp add: c_def skip_crlf_le)
  show ?thesis
  proof (cases "c > LINEBUF_SIZE - bl_len l")
    case True
    let ?av = "LINEBUF_SIZE - bl_len l"
    obtain b1 where b1: "arr_copy (bl_buf l) (bl_len l) (take ?av data) = Some b1" "length b1 = LINEBUF_SIZE + CRLF_LEN + 1"
      using line_write [OF l(1), of "bl_len l" "take ?av data"] l(2) True cd by (auto simp: CRLF_LEN_def)
    let ?b2 = "b1[LINEBUF_SIZE := 0]"
    obtain b3 k where b3: "strip_back ?av ?b2 (bl_len l) = Some (b3, k)" "length b3 = length ?b2"
      using strip_back_spec [of "bl_len l" ?av ?b2] b1(2) l(2) by (auto simp: CRLF_LEN_def)
    show ?thesis
      using True False av b1 b3 by (auto simp: linebuf_copy_def c_def [symmetric] Let_def CRLF_LEN_def line_ok_def)
  next
    case False
    then have fit: "bl_len l + c \<le> LINEBUF_SIZE" "\<not> c > LINEBUF_SIZE - bl_len l" using l(2) by auto
    obtain b1 where b1: "arr_copy (bl_buf l) (bl_len l) (take c data) = Some b1" "length b1 = LINEBUF_SIZE + CRLF_LEN + 1"
      using line_write [OF l(1), of "bl_len l" "take c data"] l(2) fit cd by (auto simp: CRLF_LEN_def)
    let ?b2 = "b1[bl_len l + c := 0]"
    obtain b3 k where b3: "strip_back c ?b2 (bl_len l) = Some (b3, k)" "length b3 = length ?b2" "k \<le> c"
      using strip_back_spec [of "bl_len l" c ?b2] b1(2) l(2) fit by (auto simp: CRLF_LEN_def)
    have w: "wrap64 (bl_len l + c) = bl_len l + c" "wrap64 (bl_len l + k) = bl_len l + k"
      using l(2) fit b3(3) linebuf_size_small by (auto intro!: wrap64_small)
    show ?thesis
      using fit \<open>\<not> bl_terminated l\<close> av b1 b3 w l(2) by (auto simp: linebuf_copy_def c_def [symmetric] Let_def CRLF_LEN_def line_ok_def)
  qed
qed

text \<open>In parsed mode, a logical line that fits is appended without its terminator.\<close>

lemma last_of_parts:
  "\<forall>x\<in>set ys. P x \<Longrightarrow> \<forall>x\<in>set xs. \<not> P x \<Longrightarrow> xs @ ys \<noteq> [] \<Longrightarrow> P (last (xs @ ys)) \<longleftrightarrow> ys \<noteq> []"
  by (auto simp: last_append)

lemma strip_of_parts:
  "\<forall>x\<in>set ys. P x \<Longrightarrow> \<forall>x\<in>set xs. \<not> P x \<Longrightarrow> rev (dropWhile P (rev (xs @ ys))) = xs"
proof -
  assume "\<forall>x\<in>set ys. P x" and n: "\<forall>x\<in>set xs. \<not> P x"
  then have "dropWhile P (rev ys @ rev xs) = dropWhile P (rev xs)" by (intro dropWhile_append2) simp
  also have "\<dots> = rev xs" using n by (cases xs rule: rev_cases) simp_all
  finally show ?thesis by simp
qed

lemma linebuf_copy_text:
  assumes "line_ok l" "\<not> bl_terminated l" "bl_len l + linebuf_skip_crlf data \<le> LINEBUF_SIZE" "data \<noteq> []"
  shows "\<exists>bh' l'. linebuf_copy bh l data False = Some (bh', l', linebuf_skip_crlf data) \<and> line_ok l'
    \<and> bl_refcount l' = bl_refcount l \<and> bh_list bh' = bh_list bh \<and> \<not> bl_raw l'
    \<and> line_text l' = line_text l @ content data \<and> bl_terminated l' = (crlf_run data \<noteq> [])"
proof -
  have l: "length (bl_buf l) = LINEBUF_SIZE + CRLF_LEN + 1" "bl_len l \<le> LINEBUF_SIZE" using assms by (auto simp: line_ok_def)
  have av: "sub64 LINEBUF_SIZE (bl_len l) = LINEBUF_SIZE - bl_len l" using l(2) linebuf_size_small by (intro sub64_le) auto
  define c where "c = linebuf_skip_crlf data"
  define d where "d = bl_len l"
  have cpos: "0 < c" using linebuf_skip_crlf_pos [OF assms(4)] by (simp add: c_def)
  have cl: "length (take c data) = c" by (simp add: c_def skip_crlf_le)
  have fit: "d + c \<le> LINEBUF_SIZE" using assms(3) by (simp add: c_def d_def)
  obtain b1 where b1: "arr_copy (bl_buf l) d (take c data) = Some b1" "length b1 = LINEBUF_SIZE + CRLF_LEN + 1"
      "take (d + c) b1 = take d (bl_buf l) @ take c data"
    using line_write [OF l(1), of d "take c data"] fit cl by (auto simp: CRLF_LEN_def)
  let ?b2 = "b1[d + c := 0]"
  have parts: "take c data = content data @ crlf_run data" unfolding c_def by (rule take_skip_crlf)
  have dl: "length (take d (bl_buf l)) = d" using fit l(1) by simp
  have seg: "take c (drop d ?b2) = take c data"
  proof -
    have "take c (drop d ?b2) = drop d (take (d + c) b1)" by (simp add: take_drop add.commute)
    then show ?thesis using b1(3) dl by simp
  qed
  have at: "?b2 ! (d + c - 1) = last (take c data)"
  proof -
    have "last (take c (drop d ?b2)) = ?b2 ! (d + c - 1)"
      using cpos b1(2) fit by (subst last_conv_nth) (auto simp: CRLF_LEN_def)
    then show ?thesis by (simp add: seg)
  qed
  have ne: "take c data \<noteq> []" using cpos cl by (metis length_0_conv less_numeral_extra(3))
  have tm: "is_crlf (last (take c data)) \<longleftrightarrow> crlf_run data \<noteq> []"
    using last_of_parts [OF part_bytes] ne unfolding parts by blast
  show ?thesis
  proof (cases "crlf_run data = []")
    case True
    have "wrap64 (d + c) = d + c" using fit linebuf_size_small by (intro wrap64_small) auto
    then show ?thesis
      using assms(2) av b1 fit cpos at tm True parts
      by (auto simp: linebuf_copy_def c_def [symmetric] d_def [symmetric] Let_def CRLF_LEN_def line_ok_def line_text_def)
  next
    case False
    obtain b3 k where b3: "strip_back c ?b2 d = Some (b3, k)" "length b3 = length ?b2" "k \<le> c"
        "take (d + k) b3 = take (d + k) ?b2" "take k (drop d ?b2) = rev (dropWhile is_crlf (rev (take c (drop d ?b2))))"
      using strip_back_spec [of d c ?b2] b1(2) fit by (auto simp: CRLF_LEN_def)
    have "rev (dropWhile is_crlf (rev (take c data))) = content data"
      unfolding parts by (rule strip_of_parts [OF part_bytes])
    then have kt: "take k (drop d ?b2) = content data" using b3(5) seg by simp
    have "take (d + k) b3 = take d (bl_buf l) @ content data"
    proof -
      have "take d ?b2 = take d (take (d + c) b1)" by simp
      then have "take d ?b2 = take d (bl_buf l)" using b1(3) dl by simp
      then show ?thesis using b3(4) kt by (simp only: take_add)
    qed
    moreover have "wrap64 (d + k) = d + k" using fit b3(3) linebuf_size_small by (intro wrap64_small) auto
    ultimately show ?thesis
      using assms(2) av b1 b3 fit cpos at tm False
      by (auto simp: linebuf_copy_def c_def [symmetric] d_def [symmetric] Let_def CRLF_LEN_def line_ok_def line_text_def)
  qed
qed

text \<open>
  A line that does not fit is given the full length although its terminator is cut off: a chunk
  of \<^verbatim>\<open>LINEBUF_SIZE - 1\<close> characters with its CR and LF is delivered with a zero byte at its end.
\<close>

lemma overflow_leaves_nul:
  assumes "\<not> is_crlf x"
  shows "\<exists>bh' l'. linebuf_copy bh new_buf_line (replicate (LINEBUF_SIZE - 1) x @ [0x0D, 0x0A]) False = Some (bh', l', LINEBUF_SIZE + 1)
    \<and> line_text l' = replicate (LINEBUF_SIZE - 1) x @ [0]"
proof -
  obtain k where k: "LINEBUF_SIZE = Suc (Suc k)" by (simp add: LINEBUF_SIZE_def)
  let ?d = "replicate (Suc k) x @ [0x0D, 0x0A]"
  have cr: "is_crlf 0x0D" "is_crlf 0x0A" by (simp_all add: is_crlf_def)
  have sk: "linebuf_skip_crlf ?d = Suc (Suc (Suc k))"
    using assms cr dropWhile_append2 [of "replicate (Suc k) x" "\<lambda>c. \<not> is_crlf c" "[0x0D, 0x0A]"]
    by (simp add: linebuf_skip_crlf_def del: replicate_Suc)
  have b: "bl_buf new_buf_line = replicate (Suc (Suc (Suc (Suc (Suc k))))) 0" by (simp add: new_buf_line_def k CRLF_LEN_def)
  have cp: "arr_copy (bl_buf new_buf_line) 0 (take (Suc (Suc k)) ?d) = Some (replicate (Suc k) x @ [0x0D, 0, 0, 0])"
    unfolding b by (simp add: arr_copy_def take_append del: replicate_Suc) (simp add: numeral_eq_Suc)
  have s1: "arr_set (replicate (Suc k) x @ [0x0D, 0, 0, 0]) (Suc (Suc k)) 0 = Some (replicate (Suc k) x @ [0x0D, 0, 0, 0 :: u8])"
    by (simp add: arr_set_def list_update_append del: replicate_Suc)
  have s2: "strip_back (Suc (Suc k)) (replicate (Suc k) x @ [0x0D, 0, 0, 0]) 0 = Some (replicate (Suc k) x @ [0, 0, 0, 0], Suc k)"
    using assms cr by (simp add: arr_get_def arr_set_def nth_append list_update_append del: replicate_Suc)
  have av: "sub64 (Suc (Suc k)) 0 = Suc (Suc k)" using linebuf_size_small(2) k by (intro sub64_le [THEN trans]) simp_all
  show ?thesis
    using sk cp s1 s2 av unfolding k
    by (simp add: linebuf_copy_def k Let_def line_text_def del: replicate_Suc strip_back.simps)
qed

section \<open>Parsed lines\<close>

text \<open>
  The reference for parsed mode is a byte automaton: the finished lines and the line being
  received.  A CR or LF ends a line; empty lines vanish.
\<close>

fun feed_byte :: "u8 list list \<times> u8 list \<Rightarrow> u8 \<Rightarrow> u8 list list \<times> u8 list" where
  "feed_byte (ls, cur) b =
     (if is_crlf b then (if cur = [] then (ls, []) else (ls @ [cur], []))
      else (ls, cur @ [b]))"

definition feed :: "u8 list list \<times> u8 list \<Rightarrow> u8 list \<Rightarrow> u8 list list \<times> u8 list" where
  "feed st bs = foldl feed_byte st bs"

lemma feed_append: "feed st (xs @ ys) = feed (feed st xs) ys"
  by (simp add: feed_def)

lemma feed_content: "\<forall>x\<in>set xs. \<not> is_crlf x \<Longrightarrow> feed (ls, cur) xs = (ls, cur @ xs)"
  by (induction xs arbitrary: cur) (simp_all add: feed_def)

lemma feed_crlf: "\<forall>x\<in>set xs. is_crlf x \<Longrightarrow> xs \<noteq> [] \<Longrightarrow> feed (ls, cur) xs = (if cur = [] then ls else ls @ [cur], [])"
proof -
  have e: "\<forall>x\<in>set xs. is_crlf x \<Longrightarrow> feed (ls, []) xs = (ls, [])" for xs ls
    by (induction xs) (simp_all add: feed_def)
  assume "\<forall>x\<in>set xs. is_crlf x" "xs \<noteq> []"
  then show ?thesis using e [of "tl xs"] by (cases xs) (simp_all add: feed_def)
qed

text \<open>
  The length of the current logical line with its terminator, and whether the terminator has
  begun; \<open>fits\<close> says that no line grows beyond the buffer.
\<close>

fun feed_len :: "nat \<times> bool \<Rightarrow> u8 \<Rightarrow> nat \<times> bool" where
  "feed_len (n, t) b = (if is_crlf b then (n + 1, True) else if t then (1, False) else (n + 1, False))"

primrec fits :: "u8 list \<Rightarrow> nat \<times> bool \<Rightarrow> bool" where
  "fits [] st \<longleftrightarrow> True"
| "fits (b # bs) st \<longleftrightarrow> fst (feed_len st b) \<le> LINEBUF_SIZE \<and> fits bs (feed_len st b)"

lemma fits_append: "fits (xs @ ys) st \<longleftrightarrow> fits xs st \<and> fits ys (foldl feed_len st xs)"
  by (induction xs arbitrary: st) auto

lemma len_content: "\<forall>x\<in>set xs. \<not> is_crlf x \<Longrightarrow> foldl feed_len (n, False) xs = (n + length xs, False)"
  by (induction xs arbitrary: n) simp_all

lemma len_crlf: "\<forall>x\<in>set xs. is_crlf x \<Longrightarrow> foldl feed_len (n, t) xs = (n + length xs, t \<or> xs \<noteq> [])"
  by (induction xs arbitrary: n t) auto

lemma fits_last: "fits xs st \<Longrightarrow> xs \<noteq> [] \<Longrightarrow> fst (foldl feed_len st xs) \<le> LINEBUF_SIZE"
  by (cases xs rule: rev_cases) (simp_all add: fits_append)

text \<open>One logical line of the input.\<close>

lemma logical_line:
  fixes data
  assumes "data \<noteq> []"
  defines "c \<equiv> linebuf_skip_crlf data"
  shows "feed (ls, cur) data =
      feed (if crlf_run data = [] then (ls, cur @ content data)
            else (if cur @ content data = [] then ls else ls @ [cur @ content data], [])) (drop c data)"
    and "fits data (n, t) \<Longrightarrow> (t \<Longrightarrow> content data = []) \<Longrightarrow> n + c \<le> LINEBUF_SIZE"
    and "(t \<Longrightarrow> content data = []) \<Longrightarrow> foldl feed_len (n, t) (take c data) = (n + c, t \<or> crlf_run data \<noteq> [])"
    and "fits data st \<Longrightarrow> fits (drop c data) (foldl feed_len st (take c data))"
proof -
  define x y z where "x = content data" and "y = crlf_run data" and "z = drop c data"
  have d: "take c data = x @ y" unfolding c_def x_def y_def by (rule take_skip_crlf)
  have dz: "data = (x @ y) @ z" using append_take_drop_id [of c data] unfolding d z_def by simp
  have nx: "\<forall>v\<in>set x. \<not> is_crlf v" and ny: "\<forall>v\<in>set y. is_crlf v" using part_bytes by (auto simp: x_def y_def)
  have "feed (ls, cur) (x @ y) = (if y = [] then (ls, cur @ x) else (if cur @ x = [] then ls else ls @ [cur @ x], []))"
    unfolding feed_append feed_content [OF nx] using feed_crlf [OF ny, of ls "cur @ x"] by (simp add: feed_def)
  then have "feed (ls, cur) ((x @ y) @ z) =
      feed (if y = [] then (ls, cur @ x) else (if cur @ x = [] then ls else ls @ [cur @ x], [])) z"
    by (simp only: feed_append)
  then show "feed (ls, cur) data =
      feed (if crlf_run data = [] then (ls, cur @ content data)
            else (if cur @ content data = [] then ls else ls @ [cur @ content data], [])) (drop c data)"
    unfolding dz [symmetric] unfolding x_def y_def z_def .
  have c: "c = length x + length y" unfolding c_def x_def y_def by (rule skip_crlf_parts)
  have f: "foldl feed_len (n, t) (x @ y) = (n + c, t \<or> y \<noteq> [])" if "t \<Longrightarrow> x = []" for n t
    using that len_content [OF nx, of n] len_crlf [OF ny] by (cases t) (simp_all add: c)
  then show "foldl feed_len (n, t) (take c data) = (n + c, t \<or> crlf_run data \<noteq> [])" if "t \<Longrightarrow> content data = []"
    using that unfolding d x_def [symmetric] y_def [symmetric] by blast
  have fa: "fits data st \<longleftrightarrow> fits (x @ y) st \<and> fits z (foldl feed_len st (x @ y))" for st
    using fits_append [of "x @ y" z st] unfolding dz [symmetric] .
  have tk: "x @ y \<noteq> []" using linebuf_skip_crlf_pos [OF assms(1)] c unfolding c_def by auto
  show "n + c \<le> LINEBUF_SIZE" if "fits data (n, t)" "t \<Longrightarrow> content data = []"
    using fits_last [OF fa [THEN iffD1, OF that(1), THEN conjunct1] tk] f [of t n] that(2)
    unfolding x_def [symmetric] by simp
  show "fits data st \<Longrightarrow> fits (drop c data) (foldl feed_len st (take c data))"
    using fa unfolding d z_def by blast
qed

lemma fits_mono: "fits data (n, True) \<Longrightarrow> n' \<le> n \<Longrightarrow> fits data (n', True)"
  by (induction data arbitrary: n n') (auto split: if_splits)

lemma fits_restart: "fits data (n, t) \<Longrightarrow> t \<or> n = 0 \<Longrightarrow> fits data (0, False)"
  by (cases data) (auto split: if_splits intro: fits_mono)

text \<open>The number of logical lines that begin in a chunk, counting the one it starts in.\<close>

primrec line_starts :: "u8 list \<Rightarrow> bool \<Rightarrow> nat" where
  "line_starts [] after = 0"
| "line_starts (b # bs) after = (if after \<and> \<not> is_crlf b then 1 else 0) + line_starts bs (is_crlf b)"

definition pieces :: "u8 list \<Rightarrow> nat" where
  "pieces data = (if data = [] then 0 else 1 + line_starts (tl data) (is_crlf (hd data)))"

lemma line_starts_content: "\<forall>x\<in>set xs. \<not> is_crlf x \<Longrightarrow> line_starts (xs @ ys) False = line_starts ys False"
  by (induction xs) simp_all

lemma line_starts_crlf: "\<forall>x\<in>set xs. is_crlf x \<Longrightarrow> xs \<noteq> [] \<Longrightarrow> line_starts (xs @ ys) p = line_starts ys True"
  by (induction xs arbitrary: p) (auto, fastforce)

lemma pieces_step:
  assumes "data \<noteq> []"
  shows "pieces data = 1 + pieces (drop (linebuf_skip_crlf data) data)"
proof -
  define x y z where "x = content data" and "y = crlf_run data" and "z = drop (linebuf_skip_crlf data) data"
  have xy: "take (linebuf_skip_crlf data) data = x @ y" unfolding x_def y_def by (rule take_skip_crlf)
  have dz: "data = x @ y @ z"
    using append_take_drop_id [of "linebuf_skip_crlf data" data] unfolding xy z_def by simp
  have nx: "\<forall>v\<in>set x. \<not> is_crlf v" and ny: "\<forall>v\<in>set y. is_crlf v" using part_bytes by (auto simp: x_def y_def)
  have z: "z = [] \<or> (\<not> is_crlf (hd z) \<and> y \<noteq> [])"
  proof -
    have "z \<noteq> [] \<Longrightarrow> \<not> is_crlf (hd z)" unfolding z_def by (rule drop_skip_hd)
    moreover have "y = [] \<Longrightarrow> z = []" unfolding z_def y_def by (rule open_consumes_all)
    ultimately show ?thesis by blast
  qed
  have p: "pieces z = line_starts z True" using z by (cases z) (auto simp: pieces_def)
  have "line_starts data True = pieces z + (if x = [] then 0 else 1)"
  proof (cases "y = []")
    case True
    then have "z = []" using z by blast
    then show ?thesis unfolding dz using True nx line_starts_content [of "tl x" "[]"] by (cases x) (auto simp: pieces_def)
  next
    case False
    then show ?thesis unfolding dz using nx line_starts_content [of "tl x" "y @ z"] line_starts_crlf [OF ny False] p by (cases x) auto
  qed
  moreover have "pieces data = line_starts data True + (if x = [] then 1 else 0)"
    unfolding x_def using assms by (cases data) (simp_all add: pieces_def content_def)
  ultimately show ?thesis by (simp add: z_def)
qed

text \<open>The lines of a head that nobody else refers to.\<close>

definition fresh_ids :: "(line_id set \<Rightarrow> line_id) \<Rightarrow> bool" where
  "fresh_ids alloc \<longleftrightarrow> (\<forall>A. finite A \<longrightarrow> alloc A \<notin> A)"

definition holds :: "line_mem \<Rightarrow> line_id list \<Rightarrow> buf_line list \<Rightarrow> bool" where
  "holds m as L \<longleftrightarrow> finite (dom (lm_lines m)) \<and> distinct as \<and> map (lm_lines m) as = map Some L
     \<and> (\<forall>l\<in>set L. line_ok l \<and> \<not> bl_raw l \<and> bl_refcount l = 1)"

definition texts :: "buf_line list \<Rightarrow> u8 list list" where
  "texts L = filter (\<lambda>t. t \<noteq> []) (map line_text L)"

lemma texts_simps [simp]: "texts [] = []" "texts (l # L) = (if line_text l = [] then texts L else line_text l # texts L)"
    "texts (L @ L') = texts L @ texts L'"
  by (simp_all add: texts_def)

definition closed_lines :: "line_mem \<Rightarrow> buf_head \<Rightarrow> u8 list list \<Rightarrow> bool" where
  "closed_lines m bh ls \<longleftrightarrow> (\<exists>L. holds m (bh_list bh) L \<and> (\<forall>l\<in>set L. bl_terminated l) \<and> ls = texts L)"

definition open_line :: "line_mem \<Rightarrow> buf_head \<Rightarrow> u8 list list \<Rightarrow> u8 list \<Rightarrow> bool" where
  "open_line m bh ls cur \<longleftrightarrow> (\<exists>L l. holds m (bh_list bh) (L @ [l]) \<and> (\<forall>l\<in>set L. bl_terminated l) \<and> ls = texts L
     \<and> \<not> bl_terminated l \<and> line_text l = cur \<and> cur \<noteq> [])"

definition parsed :: "line_mem \<Rightarrow> buf_head \<Rightarrow> u8 list list \<times> u8 list \<Rightarrow> bool" where
  "parsed m bh st \<longleftrightarrow> closed_lines m bh (fst st) \<and> snd st = [] \<or> open_line m bh (fst st) (snd st)"

lemma holds_new:
  assumes "fresh_ids alloc" "holds m as L" "line_ok l" "\<not> bl_raw l" "bl_refcount l = 1"
  shows "holds (lm_put (m\<lparr>lm_lines := (lm_lines m)(alloc (dom (lm_lines m)) \<mapsto> l0), lm_count := c\<rparr>) (alloc (dom (lm_lines m))) l)
    (as @ [alloc (dom (lm_lines m))]) (L @ [l])"
proof -
  let ?a = "alloc (dom (lm_lines m))"
  have "?a \<notin> dom (lm_lines m)" using assms(1,2) by (simp add: fresh_ids_def holds_def)
  moreover have "set as \<subseteq> dom (lm_lines m)"
  proof
    fix x assume "x \<in> set as"
    then have "lm_lines m x \<in> set (map Some L)" using assms(2) unfolding holds_def by (metis image_eqI set_map)
    then show "x \<in> dom (lm_lines m)" by auto
  qed
  ultimately have "?a \<notin> set as" by blast
  moreover from this have "map ((lm_lines m)(?a \<mapsto> l)) as = map (lm_lines m) as" by simp
  ultimately show ?thesis using assms(2-) by (simp add: holds_def lm_put_def)
qed

lemma holds_last:
  assumes "holds m (as @ [a]) (L @ [l])" "line_ok l'" "\<not> bl_raw l'" "bl_refcount l' = 1"
  shows "holds (lm_put m a l') (as @ [a]) (L @ [l'])"
proof -
  have "a \<notin> set as" "map (lm_lines m) as = map Some L" using assms(1) by (auto simp: holds_def)
  then have "map ((lm_lines m)(a \<mapsto> l')) as = map Some L" by simp
  then show ?thesis using assms by (simp add: holds_def lm_put_def)
qed

lemma holds_lookup:
  assumes "holds m (as @ [a]) (L @ [l])"
  shows "lm_lines m a = Some l"
  using assms by (auto simp: holds_def dest: map_eq_imp_length_eq)

lemma holds_length: "holds m as L \<Longrightarrow> length as = length L"
  by (auto simp: holds_def dest: map_eq_imp_length_eq)

lemma parse_loop_parsed:
  assumes "fresh_ids alloc"
  shows "closed_lines m bh ls \<Longrightarrow> fits data (0, False) \<Longrightarrow>
    \<exists>m' bh'. parse_loop alloc m bh data False cnt = Some (m', bh', cnt + int (pieces data)) \<and> parsed m' bh' (feed (ls, []) data)"
proof (induction "length data" arbitrary: m bh ls data cnt rule: less_induct)
  case less
  show ?case
  proof (cases "data = []")
    case True
    then show ?thesis using less.prems by (subst parse_loop.simps) (auto simp: parsed_def feed_def pieces_def)
  next
    case False
    define c where "c = linebuf_skip_crlf data"
    let ?a = "alloc (dom (lm_lines m))"
    obtain L where L: "holds m (bh_list bh) L" "\<forall>l\<in>set L. bl_terminated l" "ls = texts L"
      using less.prems(1) by (auto simp: closed_lines_def)
    obtain m1 bh1 where n: "op_linebuf_new_line alloc m bh = (m1, bh1, ?a)"
        "m1 = m\<lparr>lm_lines := (lm_lines m)(?a \<mapsto> new_buf_line), lm_count := lm_count m + 1\<rparr>" "bh_list bh1 = bh_list bh @ [?a]"
      by (simp add: op_linebuf_new_line_def Let_def)
    have "c \<le> LINEBUF_SIZE" using logical_line(2) [OF False less.prems(2)] by (simp add: c_def)
    then obtain bh2 l where l: "linebuf_copy bh1 new_buf_line data False = Some (bh2, l, c)" "line_ok l" "bl_refcount l = 1"
        "bh_list bh2 = bh_list bh1" "\<not> bl_raw l" "line_text l = content data" "bl_terminated l = (crlf_run data \<noteq> [])"
      using linebuf_copy_text [of new_buf_line data bh1] False by (auto simp: c_def line_text_def)
    define m2 where "m2 = lm_put m1 ?a l"
    have h: "holds m2 (bh_list bh2) (L @ [l])"
      unfolding m2_def n(2) l(4) n(3) by (rule holds_new [OF assms L(1) l(2,5,3)])
    have step: "parse_loop alloc m bh data False cnt = parse_loop alloc m2 bh2 (drop c data) False (cnt + 1)"
      using False n(1) new_line_lookup [OF n(1)] l(1) by (subst parse_loop.simps) (simp add: m2_def)
    have pc: "pieces data = 1 + pieces (drop c data)" unfolding c_def by (rule pieces_step [OF False])
    have fd: "feed (ls, []) data = feed (if crlf_run data = [] then (ls, content data)
        else (if content data = [] then ls else ls @ [content data], [])) (drop c data)"
      using logical_line(1) [OF False, of ls "[]"] by (simp only: c_def append_Nil)
    show ?thesis
    proof (cases "crlf_run data = []")
      case True
      then have dn: "drop c data = []" unfolding c_def by (rule open_consumes_all)
      have "c = length (content data)" using True by (simp add: c_def skip_crlf_parts)
      then have "content data \<noteq> []" using linebuf_skip_crlf_pos [OF False] unfolding c_def by auto
      then have "open_line m2 bh2 ls (content data)"
        unfolding open_line_def using h L(2,3) l(6,7) True by blast
      then show ?thesis using step pc fd True dn by (subst step, subst parse_loop.simps) (simp add: parsed_def feed_def pieces_def)
    next
      case False
      have "closed_lines m2 bh2 (if content data = [] then ls else ls @ [content data])"
        unfolding closed_lines_def by (rule exI [of _ "L @ [l]"]) (use h L(2,3) l(6,7) False in auto)
      moreover have "fits (drop c data) (0, False)"
        using logical_line(4) [OF \<open>data \<noteq> []\<close> less.prems(2)] logical_line(3) [OF \<open>data \<noteq> []\<close>, of False 0] False
        unfolding c_def by (intro fits_restart) auto
      moreover have "length (drop c data) < length data"
        using \<open>data \<noteq> []\<close> linebuf_skip_crlf_pos [of data] by (simp add: c_def)
      ultimately obtain m' bh' where "parse_loop alloc m2 bh2 (drop c data) False (cnt + 1) = Some (m', bh', cnt + 1 + int (pieces (drop c data)))"
          "parsed m' bh' (feed (if content data = [] then ls else ls @ [content data], []) (drop c data))"
        using less.hyps by blast
      then show ?thesis using step pc fd False by simp
    qed
  qed
qed

text \<open>What the byte automaton and the length counter have in common.\<close>

definition in_step :: "u8 list list \<times> u8 list \<Rightarrow> nat \<times> bool \<Rightarrow> bool" where
  "in_step st c \<longleftrightarrow> (if snd c then snd st = [] else fst c = length (snd st))"

lemma in_step_feed: "in_step st c \<Longrightarrow> in_step (feed st bs) (foldl feed_len c bs)"
proof (induction bs arbitrary: st c)
  case (Cons b bs)
  have "in_step (feed_byte st b) (feed_len c b)"
    using Cons.prems by (cases st; cases c) (auto simp: in_step_def split: if_splits)
  from Cons.IH [OF this] show ?case by (simp add: feed_def)
qed (simp add: feed_def)

lemma parse_parsed:
  assumes fr: "fresh_ids alloc" and p: "parsed m bh st" and c: "in_step st (n, t)" and f: "fits data (n, t)"
  shows "\<exists>m' bh'. op_linebuf_parse alloc m bh data False = Some (m', bh', int (pieces data)) \<and> parsed m' bh' (feed st data)"
proof (cases "data = []")
  case True
  then show ?thesis using p by (simp add: op_linebuf_parse_def feed_def pieces_def)
next
  case ne: False
  obtain ls cur where st: "st = (ls, cur)" by (cases st)
  from p consider "closed_lines m bh ls" "cur = []" | "open_line m bh ls cur" by (auto simp: parsed_def st)
  then show ?thesis
  proof cases
    case 1
    have f0: "fits data (0, False)" using f c 1(2) by (intro fits_restart [OF f]) (auto simp: in_step_def st split: if_splits)
    obtain L where L: "holds m (bh_list bh) L" "\<forall>l\<in>set L. bl_terminated l" "ls = texts L"
      using 1(1) by (auto simp: closed_lines_def)
    have "op_linebuf_parse alloc m bh data False = parse_loop alloc m bh data False 0"
    proof (cases L rule: rev_cases)
      case Nil
      then show ?thesis using ne L(1) by (simp add: op_linebuf_parse_def holds_def)
    next
      case (snoc L' l)
      then obtain as a where as: "bh_list bh = as @ [a]" using holds_length [OF L(1)] by (cases "bh_list bh" rule: rev_cases) auto
      have lk: "lm_lines m a = Some l" using L(1) unfolding snoc as by (rule holds_lookup)
      have "lm_put m a l = m" using lk by (simp add: lm_put_def fun_upd_idem)
      then show ?thesis using ne as lk L(2) snoc by (simp add: op_linebuf_parse_def linebuf_copy_def)
    qed
    then show ?thesis using parse_loop_parsed [OF fr 1(1) f0, of 0] 1(2) st by auto
  next
    case 2
    obtain L l where L: "holds m (bh_list bh) (L @ [l])" "\<forall>l\<in>set L. bl_terminated l" "ls = texts L"
        "\<not> bl_terminated l" "line_text l = cur" "cur \<noteq> []"
      using 2 unfolding open_line_def by blast
    obtain as a where as: "bh_list bh = as @ [a]" using holds_length [OF L(1)] by (cases "bh_list bh" rule: rev_cases) auto
    note h = L(1) [unfolded as]
    have lk: "lm_lines m a = Some l" by (rule holds_lookup [OF h])
    have ok: "line_ok l" "\<not> bl_raw l" "bl_refcount l = 1" using h by (auto simp: holds_def)
    have "\<not> t" "n = length cur" using c L(6) by (auto simp: in_step_def st split: if_splits)
    moreover have "bl_len l = length cur" using L(5) ok(1) by (auto simp: line_ok_def line_text_def)
    ultimately have nt: "\<not> t" "bl_len l = n" by simp_all
    define k where "k = linebuf_skip_crlf data"
    have "n + k \<le> LINEBUF_SIZE" unfolding k_def by (rule logical_line(2) [OF ne f]) (simp add: nt)
    then obtain bh2 l' where l: "linebuf_copy bh l data False = Some (bh2, l', k)" "line_ok l'" "bl_refcount l' = 1"
        "bh_list bh2 = as @ [a]" "\<not> bl_raw l'" "line_text l' = cur @ content data" "bl_terminated l' = (crlf_run data \<noteq> [])"
      using linebuf_copy_text [OF ok(1) L(4) _ ne, of bh] nt(2) ok(3) L(5) as unfolding k_def by auto
    define m2 where "m2 = lm_put m a l'"
    have h2: "holds m2 (bh_list bh2) (L @ [l'])" unfolding m2_def l(4) by (rule holds_last [OF h l(2,5,3)])
    have k0: "0 < k" unfolding k_def by (rule linebuf_skip_crlf_pos [OF ne])
    have kd: "drop k data = [] \<longleftrightarrow> k \<ge> length data" by simp
    have pc: "pieces data = 1 + pieces (drop k data)" unfolding k_def by (rule pieces_step [OF ne])
    have step: "op_linebuf_parse alloc m bh data False = parse_loop alloc m2 bh2 (drop k data) False 1"
      using ne as lk l(1) k0 parse_loop.simps [of alloc m2 bh2 "[]" False 1] by (auto simp: op_linebuf_parse_def m2_def Let_def)
    have fd: "feed st data = feed (if crlf_run data = [] then (ls, cur @ content data)
            else (if cur @ content data = [] then ls else ls @ [cur @ content data], [])) (drop k data)"
      unfolding st k_def by (rule logical_line(1) [OF ne])
    show ?thesis
    proof (cases "crlf_run data = []")
      case True
      have dn: "drop k data = []" unfolding k_def by (rule open_consumes_all [OF True])
      have "open_line m2 bh2 ls (cur @ content data)" unfolding open_line_def using h2 L(2,3,6) l(6,7) True by blast
      then show ?thesis using pc fd True dn by (subst step, subst parse_loop.simps) (simp add: parsed_def feed_def pieces_def)
    next
      case False
      have "closed_lines m2 bh2 (ls @ [cur @ content data])"
        unfolding closed_lines_def by (rule exI [of _ "L @ [l']"]) (use h2 L(2,3,6) l(6,7) False in auto)
      moreover have "fits (drop k data) (0, False)"
        using logical_line(4) [OF ne f] logical_line(3) [OF ne, of t n] nt(1) False
        unfolding k_def by (intro fits_restart) auto
      ultimately have "\<exists>m' bh'. parse_loop alloc m2 bh2 (drop k data) False 1 = Some (m', bh', 1 + int (pieces (drop k data)))
          \<and> parsed m' bh' (feed (ls @ [cur @ content data], []) (drop k data))"
        by (rule parse_loop_parsed [OF fr])
      then show ?thesis using step pc fd False L(6) by simp
    qed
  qed
qed

text \<open>Taking a line out.\<close>

lemma holds_done:
  assumes "holds m (bh_list bh) (l # L)"
  shows "\<exists>m' bh'. op_linebuf_done_line m bh = Some (m', bh') \<and> holds m' (bh_list bh') L"
proof -
  obtain a as where as: "bh_list bh = a # as" using holds_length [OF assms] by (cases "bh_list bh") auto
  have h: "lm_lines m a = Some l" "bl_refcount l = 1" "map (lm_lines m) as = map Some L" "a \<notin> set as"
    using assms as by (auto simp: holds_def)
  have "map ((lm_lines m)(a := None)) as = map Some L" using h(3,4) by simp
  then show ?thesis using assms as h(1,2) by (auto simp: op_linebuf_done_line_def op_linebuf_unref_def holds_def)
qed

lemma get_parsed_text:
  "\<not> bl_raw l \<Longrightarrow> get_text l n raw = take (n - 1) (line_text l)"
  by (simp add: get_text_def line_text_def min.commute)

definition got :: "u8 list \<Rightarrow> u8 list \<Rightarrow> u8 list" where
  "got buf x = take (length buf - 1) x @ [0] @ drop (length (take (length buf - 1) x) + 1) buf"

lemma parsed_Nil: "parsed m bh (ls, cur) \<Longrightarrow> bh_list bh = [] \<Longrightarrow> ls = [] \<and> cur = []"
  by (auto simp: parsed_def closed_lines_def open_line_def holds_def)

lemma parsed_Cons:
  assumes "parsed m bh (ls, cur)" "bh_list bh = a # as"
  obtains (ready) l where "lm_lines m a = Some l" "bl_terminated l" "\<not> bl_raw l" "line_ok l"
      "\<And>m' bh'. op_linebuf_done_line m bh = Some (m', bh') \<Longrightarrow> parsed m' bh' (if line_text l = [] then ls else tl ls, cur)"
      "line_text l \<noteq> [] \<Longrightarrow> ls \<noteq> [] \<and> hd ls = line_text l" "op_linebuf_done_line m bh \<noteq> None"
    | (partial) l where "lm_lines m a = Some l" "\<not> bl_terminated l" "ls = []"
proof -
  from assms(1) consider (c) L where "holds m (bh_list bh) L" "\<forall>l\<in>set L. bl_terminated l" "ls = texts L" "cur = []"
    | (o) L l where "holds m (bh_list bh) (L @ [l])" "\<forall>l\<in>set L. bl_terminated l" "ls = texts L"
        "\<not> bl_terminated l" "line_text l = cur" "cur \<noteq> []"
    unfolding parsed_def closed_lines_def open_line_def by auto
  then show thesis
  proof cases
    case c
    then obtain l L' where L: "L = l # L'" using holds_length [OF c(1)] assms(2) by (cases L) auto
    from holds_done [OF c(1) [unfolded L]] obtain m1 bh1 where d: "op_linebuf_done_line m bh = Some (m1, bh1)" "holds m1 (bh_list bh1) L'" by blast
    show thesis
    proof (rule ready [of l])
      show "lm_lines m a = Some l" "bl_terminated l" "\<not> bl_raw l" "line_ok l" using c(1,2) L assms(2) by (auto simp: holds_def)
      show "op_linebuf_done_line m bh \<noteq> None" using d by simp
      show "line_text l \<noteq> [] \<Longrightarrow> ls \<noteq> [] \<and> hd ls = line_text l" using c(3) L by simp
      fix m' bh' assume "op_linebuf_done_line m bh = Some (m', bh')"
      then have "closed_lines m' bh' (texts L')" using d c(2) L unfolding closed_lines_def by auto
      then show "parsed m' bh' (if line_text l = [] then ls else tl ls, cur)" using c(3,4) L by (simp add: parsed_def)
    qed
  next
    case o
    show thesis
    proof (cases L)
      case Nil
      then show thesis using o assms(2) by (intro partial [of l]) (auto simp: holds_def)
    next
      case (Cons l0 L')
      from holds_done [of m bh l0 "L' @ [l]"] o(1) Cons
      obtain m1 bh1 where d: "op_linebuf_done_line m bh = Some (m1, bh1)" "holds m1 (bh_list bh1) (L' @ [l])" by auto
      show thesis
      proof (rule ready [of l0])
        show "lm_lines m a = Some l0" "bl_terminated l0" "\<not> bl_raw l0" "line_ok l0" using o(1,2) Cons assms(2) by (auto simp: holds_def)
        show "op_linebuf_done_line m bh \<noteq> None" using d by simp
        show "line_text l0 \<noteq> [] \<Longrightarrow> ls \<noteq> [] \<and> hd ls = line_text l0" using o(3) Cons by simp
        fix m' bh' assume "op_linebuf_done_line m bh = Some (m', bh')"
        then have "open_line m' bh' (texts L') cur" using d o Cons unfolding open_line_def by auto
        then show "parsed m' bh' (if line_text l0 = [] then ls else tl ls, cur)" using o(3) Cons by (simp add: parsed_def)
      qed
    qed
  qed
qed

lemma get_parsed:
  assumes "parsed m bh (ls, cur)" "2 \<le> length buf"
  shows "\<exists>m' bh'. op_linebuf_get m bh buf (length buf) False False =
      Some (m', bh', if ls = [] then buf else got buf (hd ls), if ls = [] then 0 else int (length (take (length buf - 1) (hd ls))))
    \<and> parsed m' bh' (tl ls, cur)"
  using assms(1)
proof (induction "length (bh_list bh)" arbitrary: m bh rule: less_induct)
  case less
  show ?case
  proof (cases "bh_list bh")
    case Nil
    then show ?thesis using parsed_Nil [OF less.prems] less.prems by (subst op_linebuf_get.simps) simp
  next
    case (Cons a as)
    from less.prems Cons show ?thesis
    proof (cases rule: parsed_Cons)
      case (ready l)
      obtain m1 bh1 where d: "op_linebuf_done_line m bh = Some (m1, bh1)" using ready(7) by auto
      note p1 = ready(5) [OF d]
      have gt: "get_text l (length buf) False = take (length buf - 1) (line_text l)" by (rule get_parsed_text [OF ready(3)])
      show ?thesis
      proof (cases "line_text l = []")
        case True
        have "op_linebuf_get m bh buf (length buf) False False = op_linebuf_get m1 bh1 buf (length buf) False False"
          using Cons ready(1,2) d gt True assms(2) by (subst op_linebuf_get.simps) (auto simp: Let_def)
        moreover have "length (bh_list bh1) < length (bh_list bh)" by (rule done_line_shorter [OF d])
        ultimately show ?thesis using less.hyps [of bh1 m1] p1 True by simp
      next
        case False
        define t where "t = take (length buf - 1) (line_text l)"
        have t: "t \<noteq> []" "length t < length buf" using False assms(2) by (auto simp: t_def)
        then have "arr_copy buf 0 t = Some (t @ drop (length t) buf)" by (simp add: arr_copy_def)
        moreover have "arr_set (t @ drop (length t) buf) (length t) 0 = Some (t @ [0] @ drop (length t + 1) buf)"
          using t(2) by (simp add: arr_set_def list_update_append upd_conv_take_nth_drop)
        ultimately have "op_linebuf_get m bh buf (length buf) False False = Some (m1, bh1, t @ [0] @ drop (length t + 1) buf, int (length t))"
          using Cons ready(1,2) d gt [folded t_def] t assms(2) by (subst op_linebuf_get.simps) (auto simp: Let_def)
        then show ?thesis using p1 ready(6) [OF False] False by (simp add: got_def t_def)
      qed
    next
      case (partial l)
      then show ?thesis using Cons less.prems by (subst op_linebuf_get.simps) simp
    qed
  qed
qed

section \<open>Sequences of calls\<close>

datatype lb_req = LParse "u8 list" | LGet "u8 list"

text \<open>The answer of a request is the caller's buffer and the returned number.\<close>

primrec lb_step :: "(line_id set \<Rightarrow> line_id) \<Rightarrow> lb_req \<Rightarrow> line_mem \<times> buf_head \<Rightarrow> ((u8 list \<times> int) \<times> line_mem \<times> buf_head) option" where
  "lb_step alloc (LParse data) s = do {
     (m, bh, n) \<leftarrow> op_linebuf_parse alloc (fst s) (snd s) data False; Some (([], n), m, bh) }"
| "lb_step alloc (LGet buf) s = do {
     (m, bh, buf, n) \<leftarrow> op_linebuf_get (fst s) (snd s) buf (length buf) False False; Some ((buf, n), m, bh) }"

primrec lb_run :: "lb_req list \<Rightarrow> (line_id set \<Rightarrow> line_id) \<Rightarrow> line_mem \<times> buf_head \<Rightarrow> ((u8 list \<times> int) list \<times> line_mem \<times> buf_head) option" where
  "lb_run [] alloc s = Some ([], s)"
| "lb_run (r # rs) alloc s = do { (x, s) \<leftarrow> lb_step alloc r s; (xs, s) \<leftarrow> lb_run rs alloc s; Some (x # xs, s) }"

fun lines_step :: "lb_req \<Rightarrow> u8 list list \<times> u8 list \<Rightarrow> (u8 list \<times> int) \<times> u8 list list \<times> u8 list" where
  "lines_step (LParse data) st = (([], int (pieces data)), feed st data)"
| "lines_step (LGet buf) ([], cur) = ((buf, 0), [], cur)"
| "lines_step (LGet buf) (x # ls, cur) = ((got buf x, int (min (length x) (length buf - 1))), ls, cur)"

primrec lines_run :: "lb_req list \<Rightarrow> u8 list list \<times> u8 list \<Rightarrow> (u8 list \<times> int) list \<times> u8 list list \<times> u8 list" where
  "lines_run [] st = ([], st)"
| "lines_run (r # rs) st = (let (x, st) = lines_step r st; (xs, st) = lines_run rs st in (x # xs, st))"

primrec received :: "lb_req list \<Rightarrow> u8 list" where
  "received [] = []"
| "received (r # rs) = (case r of LParse data \<Rightarrow> data | LGet _ \<Rightarrow> []) @ received rs"

primrec big_enough :: "lb_req \<Rightarrow> bool" where
  "big_enough (LParse _) \<longleftrightarrow> True"
| "big_enough (LGet buf) \<longleftrightarrow> 2 \<le> length buf"

lemma lb_run_parsed:
  assumes fr: "fresh_ids alloc"
  shows "parsed m bh st \<Longrightarrow> in_step st c \<Longrightarrow> fits (received rs) c \<Longrightarrow> list_all big_enough rs \<Longrightarrow>
    \<exists>m' bh'. lb_run rs alloc (m, bh) = Some (fst (lines_run rs st), m', bh') \<and> parsed m' bh' (snd (lines_run rs st))"
proof (induction rs arbitrary: m bh st c)
  case (Cons r rs)
  obtain ls cur where st: "st = (ls, cur)" by (cases st)
  have "\<exists>m1 bh1 c'. lb_step alloc r (m, bh) = Some (fst (lines_step r st), m1, bh1) \<and> parsed m1 bh1 (snd (lines_step r st))
    \<and> in_step (snd (lines_step r st)) c' \<and> fits (received rs) c'"
  proof (cases r)
    case (LParse data)
    have f: "fits data c" "fits (received rs) (foldl feed_len c data)"
      using Cons.prems(3) LParse by (simp_all add: fits_append)
    show ?thesis using parse_parsed [OF fr Cons.prems(1), of "fst c" "snd c" data] Cons.prems(2) f in_step_feed [OF Cons.prems(2), of data] LParse
      by fastforce
  next
    case (LGet buf)
    have "2 \<le> length buf" "fits (received rs) c" using Cons.prems(3,4) LGet by auto
    moreover have "in_step (snd (lines_step r st)) c" using Cons.prems(2) LGet st by (cases ls) (auto simp: in_step_def)
    ultimately show ?thesis using get_parsed [OF Cons.prems(1) [unfolded st], of buf] LGet st by (cases ls; cases c) (auto, blast+)
  qed
  then obtain m1 bh1 c' where 1: "lb_step alloc r (m, bh) = Some (fst (lines_step r st), m1, bh1)" "parsed m1 bh1 (snd (lines_step r st))"
    "in_step (snd (lines_step r st)) c'" "fits (received rs) c'" by blast
  have "list_all big_enough rs" using Cons.prems(4) by simp
  from Cons.IH [OF 1(2,3,4) this] 1(1) show ?case by (auto simp: split_beta)
qed simp

lemma parsed_new: "finite (dom (lm_lines m)) \<Longrightarrow> parsed m op_linebuf_newbuf ([], [])"
  by (simp add: parsed_def closed_lines_def holds_def op_linebuf_newbuf_def)

text \<open>
  C4. A line buffer that is fed network chunks in parsed mode and read line by line delivers
  exactly the lines of the byte stream, however the stream is cut into chunks and however
  parsing and reading alternate: the bytes between CR or LF runs, without empty lines, in
  order, each cut to the reader's buffer and followed by a zero byte; an unfinished line stays
  until its end arrives.  Parsing returns the number of logical lines the chunk has a part of.
  No call leaves a buffer or follows a freed line.  This holds while no line with its
  terminators is longer than \<^verbatim>\<open>LINEBUF_SIZE\<close>.
\<close>

theorem linebuf_delivers_lines:
  assumes "fresh_ids alloc" "finite (dom (lm_lines m))" "fits (received rs) (0, False)" "list_all big_enough rs"
  shows "\<exists>m' bh'. lb_run rs alloc (m, op_linebuf_newbuf) = Some (fst (lines_run rs ([], [])), m', bh')"
  using lb_run_parsed [OF assms(1) parsed_new [OF assms(2)] _ assms(3,4)] by (auto simp: in_step_def)

lemma next_id_fresh: "fresh_ids (\<lambda>A. if A = {} then 0 else Suc (Max A))"
  unfolding fresh_ids_def
proof (intro allI impI)
  fix A :: "line_id set" assume f: "finite A"
  show "(if A = {} then 0 else Suc (Max A)) \<notin> A"
  proof (cases "A = {}")
    case False
    then show ?thesis using Max_ge [OF f, of "Suc (Max A)"] by auto
  qed simp
qed

theorem linebuf_delivers_lines_witness:
  "\<exists>m' bh'. lb_run [LParse [0x48, 0x69, 0x0D], LParse [0x0A, 0x0A, 0x4F], LGet [1, 1, 1, 1], LGet [1, 1], LParse [0x4B, 0x0A], LGet [1, 1]]
     (\<lambda>A. if A = {} then 0 else Suc (Max A)) (\<lparr>lm_lines = Map.empty, lm_count = 0\<rparr>, op_linebuf_newbuf)
   = Some ([([], 1), ([], 2), ([0x48, 0x69, 0, 1], 2), ([1, 1], 0), ([], 1), ([0x4F, 0], 1)], m', bh')"
  using linebuf_delivers_lines [OF next_id_fresh, of "\<lparr>lm_lines = Map.empty, lm_count = 0\<rparr>"
    "[LParse [0x48, 0x69, 0x0D], LParse [0x0A, 0x0A, 0x4F], LGet [1, 1, 1, 1], LGet [1, 1], LParse [0x4B, 0x0A], LGet [1, 1]]"]
  by (simp add: LINEBUF_SIZE_def is_crlf_def pieces_def feed_def got_def)

end
