(* ===== verification/Linebuf_Refs.thy ===== *)
theory Linebuf_Refs
  imports Linebuf
begin

text \<open>
  Several line buffers that share lines.  \<^verbatim>\<open>op_linebuf_attach\<close> puts the lines of one head into
  another, and a send queue may hold a line on its own through \<^verbatim>\<open>op_linebuf_ref\<close>; a line is freed
  with its last reference.  The references to all lines form a multiset, of which the reference
  counts are the multiplicities; every operation keeps this, so that none reaches a freed line and
  none leaks one.  The second part is \<^verbatim>\<open>op_linebuf_flush\<close>, which takes what was written from the
  front of the pending bytes.
\<close>

section \<open>Reference counts\<close>

definition line_counted :: "buf_line option \<Rightarrow> nat \<Rightarrow> bool" where
  "line_counted x n \<longleftrightarrow> (case x of None \<Rightarrow> n = 0 | Some l \<Rightarrow> line_ok l \<and> 0 < n \<and> bl_refcount l = n)"

definition counted :: "line_mem \<Rightarrow> line_id multiset \<Rightarrow> bool" where
  "counted m M \<longleftrightarrow> finite (dom (lm_lines m)) \<and> lm_count m = int (card (dom (lm_lines m))) \<and> size M < 2 ^ 32
     \<and> (\<forall>a. line_counted (lm_lines m a) (count M a))"

lemma line_counted_simps [simp]:
  "line_counted None n \<longleftrightarrow> n = 0" "line_counted (Some l) n \<longleftrightarrow> line_ok l \<and> 0 < n \<and> bl_refcount l = n"
  by (simp_all add: line_counted_def)

lemma counted_at: "counted m M \<Longrightarrow> line_counted (lm_lines m a) (count M a)"
  by (simp add: counted_def)

lemma counted_lookup: "counted m M \<Longrightarrow> a \<in># M \<Longrightarrow> \<exists>l. lm_lines m a = Some l \<and> line_ok l \<and> bl_refcount l = count M a"
  using counted_at [of m M a] by (cases "lm_lines m a") (auto simp: count_eq_zero_iff)

lemma counted_in: "counted m M \<Longrightarrow> lm_lines m a = Some l \<Longrightarrow> line_ok l \<and> a \<in># M \<and> bl_refcount l = count M a"
  using counted_at [of m M a] by simp

lemma counted_empty: "counted m {#} \<Longrightarrow> lm_lines m = Map.empty \<and> lm_count m = 0"
proof -
  assume c: "counted m {#}"
  have "lm_lines m a = None" for a using counted_in [OF c, of a] by (cases "lm_lines m a") auto
  then have "lm_lines m = Map.empty" by blast
  then show ?thesis using c by (simp add: counted_def)
qed

text \<open>Changing one line and the references to it.\<close>

lemma counted_change:
  assumes "counted m M" "line_counted y (count N a)" "\<And>x. x \<noteq> a \<Longrightarrow> count N x = count M x" "size N < 2 ^ 32"
    "lm_lines m' = (lm_lines m)(a := y)" "lm_count m' = int (card (dom ((lm_lines m)(a := y))))"
  shows "counted m' N"
proof -
  have "finite (dom ((lm_lines m)(a := y)))" using assms(1) by (cases y) (simp_all add: counted_def)
  then show ?thesis using assms counted_at [OF assms(1)] by (simp add: counted_def)
qed

lemma counted_put:
  assumes "counted m M" "lm_lines m a = Some l" "line_ok l'" "bl_refcount l' = bl_refcount l"
  shows "counted (lm_put m a l') M"
proof -
  have d: "dom ((lm_lines m)(a \<mapsto> l')) = dom (lm_lines m)" using assms(2) by auto
  have "line_counted (Some l') (count M a)" using counted_at [OF assms(1), of a] assms(2-4) by simp
  then show ?thesis by (rule counted_change [OF assms(1)]) (use assms(1) d in \<open>simp_all add: lm_put_def counted_def\<close>)
qed

lemma counted_new:
  assumes "fresh_ids alloc" "counted m M" "size M + 1 < 2 ^ 32"
  shows "\<exists>m' bh' a. op_linebuf_new_line alloc m bh = (m', bh', a) \<and> counted m' (add_mset a M)
    \<and> bh_list bh' = bh_list bh @ [a] \<and> bh_writeofs bh' = bh_writeofs bh \<and> lm_lines m' a = Some new_buf_line"
proof -
  let ?a = "alloc (dom (lm_lines m))"
  have a: "?a \<notin> dom (lm_lines m)" using assms(1,2) by (simp add: fresh_ids_def counted_def)
  then have n: "lm_lines m ?a = None" by blast
  then have "line_counted (Some new_buf_line) (count (add_mset ?a M) ?a)" using counted_at [OF assms(2), of ?a] by simp
  then have "counted (m\<lparr>lm_lines := (lm_lines m)(?a \<mapsto> new_buf_line), lm_count := lm_count m + 1\<rparr>) (add_mset ?a M)"
    by (rule counted_change [OF assms(2)]) (use assms(2,3) a in \<open>simp_all add: counted_def\<close>)
  then show ?thesis by (simp add: op_linebuf_new_line_def Let_def)
qed

lemma counted_unref:
  assumes "counted m (add_mset a M)"
  shows "\<exists>m'. op_linebuf_unref m a = Some m' \<and> counted m' M"
proof -
  obtain l where l: "lm_lines m a = Some l" "line_ok l" "bl_refcount l = Suc (count M a)"
    using counted_lookup [OF assms, of a] by auto
  have fin: "finite (dom (lm_lines m))" and s: "Suc (size M) < 2 ^ 32" using assms by (simp_all add: counted_def)
  have o: "x \<noteq> a \<Longrightarrow> count M x = count (add_mset a M) x" for x by simp
  show ?thesis
  proof (cases "count M a = 0")
    case True
    have "card (dom (lm_lines m)) = Suc (card (dom (lm_lines m) - {a}))" by (rule card.remove [OF fin]) (use l(1) in auto)
    then have "counted (m\<lparr>lm_lines := (lm_lines m)(a := None), lm_count := lm_count m - 1\<rparr>) M"
      by (intro counted_change [OF assms, of None M a, OF _ o]) (use assms True s in \<open>simp_all add: counted_def\<close>)
    then show ?thesis using l(1,3) True by (simp add: op_linebuf_unref_def)
  next
    case False
    have "count M a \<le> size M" by (rule count_le_size)
    then have c: "sub32 (Suc (count M a)) (Suc 0) = count M a" using s by (simp add: sub32_def)
    have d: "dom ((lm_lines m)(a \<mapsto> l\<lparr>bl_refcount := count M a\<rparr>)) = dom (lm_lines m)" using l(1) by auto
    have "line_counted (Some (l\<lparr>bl_refcount := count M a\<rparr>)) (count M a)" using l(2) False by (simp add: line_ok_def)
    then have "counted (lm_put m a (l\<lparr>bl_refcount := count M a\<rparr>)) M"
      by (rule counted_change [OF assms _ o]) (use assms d s in \<open>simp_all add: lm_put_def counted_def\<close>)
    then show ?thesis using l c False unfolding op_linebuf_unref_def by (simp del: count_greater_zero_iff)
  qed
qed

lemma counted_ref:
  assumes "counted m M" "a \<in># M" "size M + 1 < 2 ^ 32"
  shows "\<exists>m'. op_linebuf_ref m a = Some m' \<and> counted m' (add_mset a M)"
proof -
  obtain l where l: "lm_lines m a = Some l" "line_ok l" "bl_refcount l = count M a"
    using counted_lookup [OF assms(1,2)] by auto
  have "count M a \<le> size M" by (rule count_le_size)
  then have w: "wrap32 (Suc (count M a)) = Suc (count M a)" using assms(3) by (simp add: wrap32_def)
  have d: "dom ((lm_lines m)(a \<mapsto> l\<lparr>bl_refcount := Suc (count M a)\<rparr>)) = dom (lm_lines m)" using l(1) by auto
  have "line_counted (Some (l\<lparr>bl_refcount := Suc (count M a)\<rparr>)) (count (add_mset a M) a)" using l(2) by (simp add: line_ok_def)
  then have "counted (lm_put m a (l\<lparr>bl_refcount := Suc (count M a)\<rparr>)) (add_mset a M)"
    by (rule counted_change [OF assms(1)]) (use assms(1,3) d in \<open>simp_all add: lm_put_def counted_def\<close>)
  then show ?thesis using l w by (simp add: op_linebuf_ref_def)
qed

section \<open>The operations\<close>

text \<open>\<open>R\<close> are the references from elsewhere.\<close>

lemma counted_done_line:
  assumes "counted m (mset (bh_list bh) + R)" "bh_list bh \<noteq> []"
  shows "\<exists>m' bh'. op_linebuf_done_line m bh = Some (m', bh') \<and> counted m' (mset (bh_list bh') + R) \<and> bh_list bh' = tl (bh_list bh)"
proof -
  obtain a as where as: "bh_list bh = a # as" using assms(2) by (cases "bh_list bh") auto
  obtain l where "lm_lines m a = Some l" using counted_lookup [OF assms(1), of a] as by auto
  moreover obtain m' where "op_linebuf_unref m a = Some m'" "counted m' (mset as + R)"
    using counted_unref [of m a "mset as + R"] assms(1) as by auto
  ultimately show ?thesis using as by (simp add: op_linebuf_done_line_def)
qed

lemma counted_donebuf:
  "counted m (mset (bh_list bh) + R) \<Longrightarrow>
   \<exists>m' bh'. op_linebuf_donebuf m bh = Some (m', bh') \<and> counted m' (mset (bh_list bh') + R) \<and> bh_list bh' = []"
proof (induction "length (bh_list bh)" arbitrary: m bh)
  case 0
  then show ?case by (subst op_linebuf_donebuf.simps) simp
next
  case (Suc n)
  then have "bh_list bh \<noteq> []" by auto
  with counted_done_line [OF Suc.prems] obtain m1 bh1 where
    1: "op_linebuf_done_line m bh = Some (m1, bh1)" "counted m1 (mset (bh_list bh1) + R)" "bh_list bh1 = tl (bh_list bh)" by blast
  have "n = length (bh_list bh1)" using Suc(2) 1(3) by simp
  from Suc(1) [OF this 1(2)] show ?case using 1(1) \<open>bh_list bh \<noteq> []\<close> by (subst op_linebuf_donebuf.simps) simp
qed

lemma counted_copy:
  assumes "counted m M" "lm_lines m a = Some l"
  shows "\<exists>bh' l' n. linebuf_copy bh l data raw = Some (bh', l', n) \<and> counted (lm_put m a l') M \<and> bh_list bh' = bh_list bh"
proof -
  have "line_ok l" using counted_in [OF assms] by simp
  from linebuf_copy_ok [OF this, of bh data raw] counted_put [OF assms] show ?thesis by blast
qed

lemma counted_parse_loop:
  assumes "fresh_ids alloc"
  shows "counted m (mset (bh_list bh) + R) \<Longrightarrow> length (bh_list bh) + size R + length data < 2 ^ 32 \<Longrightarrow>
    \<exists>m' bh' k. parse_loop alloc m bh data raw n = Some (m', bh', k) \<and> counted m' (mset (bh_list bh') + R)"
proof (induction "length data" arbitrary: m bh data n rule: less_induct)
  case less
  show ?case
  proof (cases "data = []")
    case True
    then show ?thesis using less.prems by (subst parse_loop.simps) simp
  next
    case False
    then have "1 \<le> length data" by (simp add: Suc_le_eq)
    then have "size (mset (bh_list bh) + R) + 1 < 2 ^ 32" using less.prems(2) by simp
    from counted_new [OF assms less.prems(1) this, of bh] obtain m1 bh1 a where
      1: "op_linebuf_new_line alloc m bh = (m1, bh1, a)" "counted m1 (add_mset a (mset (bh_list bh) + R))"
         "bh_list bh1 = bh_list bh @ [a]" "lm_lines m1 a = Some new_buf_line" by blast
    from counted_copy [OF 1(2,4), of bh1 data raw] obtain bh2 l k where
      2: "linebuf_copy bh1 new_buf_line data raw = Some (bh2, l, k)" "counted (lm_put m1 a l) (add_mset a (mset (bh_list bh) + R))"
         "bh_list bh2 = bh_list bh1" by blast
    have k: "0 < k" "k \<le> length data"
      using linebuf_copy_consumed [OF 2(1)] linebuf_skip_crlf_pos [OF False] skip_crlf_le [of data] by simp_all
    have "counted (lm_put m1 a l) (mset (bh_list bh2) + R)" using 2(2,3) 1(3) by simp
    moreover have "length (bh_list bh2) + size R + length (drop k data) < 2 ^ 32"
      using less.prems(2) 2(3) 1(3) k by simp
    moreover have "length (drop k data) < length data" using k by simp
    ultimately have "\<exists>m' bh' j. parse_loop alloc (lm_put m1 a l) bh2 (drop k data) raw (n + 1) = Some (m', bh', j) \<and> counted m' (mset (bh_list bh') + R)"
      using less.hyps by blast
    then show ?thesis using False 1(1,4) 2(1) by (subst parse_loop.simps) simp
  qed
qed

lemma counted_parse:
  assumes "fresh_ids alloc" "counted m (mset (bh_list bh) + R)" "length (bh_list bh) + size R + length data < 2 ^ 32"
  shows "\<exists>m' bh' k. op_linebuf_parse alloc m bh data raw = Some (m', bh', k) \<and> counted m' (mset (bh_list bh') + R)"
proof (cases "data = [] \<or> bh_list bh = []")
  case True
  then show ?thesis using counted_parse_loop [OF assms] assms(2) by (auto simp: op_linebuf_parse_def)
next
  case False
  let ?a = "last (bh_list bh)"
  obtain l where l: "lm_lines m ?a = Some l" using counted_lookup [OF assms(2), of ?a] False by auto
  from counted_copy [OF assms(2) l, of bh data raw] obtain bh' l' n where
    c: "linebuf_copy bh l data raw = Some (bh', l', n)" "counted (lm_put m ?a l') (mset (bh_list bh) + R)" "bh_list bh' = bh_list bh" by blast
  have "length (bh_list bh') + size R + length (drop n data) < 2 ^ 32" using assms(3) c(3) by simp
  from counted_parse_loop [OF assms(1) c(2) [folded c(3)] this] counted_parse_loop [OF assms(1) c(2) [folded c(3)], of data] c(3) assms(3)
  show ?thesis using False l c by (auto simp: op_linebuf_parse_def Let_def)
qed

lemma counted_get:
  assumes "2 \<le> length buf"
  shows "counted m (mset (bh_list bh) + R) \<Longrightarrow>
    \<exists>m' bh' buf' k. op_linebuf_get m bh buf (length buf) partial raw = Some (m', bh', buf', k) \<and> counted m' (mset (bh_list bh') + R)"
proof (induction "length (bh_list bh)" arbitrary: m bh rule: less_induct)
  case less
  show ?case
  proof (cases "bh_list bh")
    case Nil
    then show ?thesis using less.prems by (subst op_linebuf_get.simps) simp
  next
    case (Cons a as)
    obtain l where l: "lm_lines m a = Some l" using counted_lookup [OF less.prems, of a] Cons by auto
    from counted_done_line [OF less.prems] Cons obtain m1 bh1 where
      1: "op_linebuf_done_line m bh = Some (m1, bh1)" "counted m1 (mset (bh_list bh1) + R)" "bh_list bh1 = as" by auto
    have tl: "length (get_text l (length buf) raw) \<le> length buf - 1"
      by (auto simp: get_text_def Let_def intro!: order_trans [OF length_dropWhile_le])
    have "\<exists>m' bh' buf' k. op_linebuf_get m1 bh1 buf (length buf) partial raw = Some (m', bh', buf', k) \<and> counted m' (mset (bh_list bh') + R)"
      using less.hyps [OF _ 1(2)] 1(3) Cons by simp
    then show ?thesis using Cons l 1(1,2) less.prems tl assms
      by (subst op_linebuf_get.simps) (auto simp: Let_def arr_copy_def arr_set_def)
  qed
qed

lemma counted_attach_lines:
  "counted m (mset (bh_list bh) + R) \<Longrightarrow> set as \<subseteq> set_mset R \<Longrightarrow> length (bh_list bh) + size R + length as < 2 ^ 32 \<Longrightarrow>
   \<exists>m' bh'. attach_lines as m bh = Some (m', bh') \<and> counted m' (mset (bh_list bh') + R) \<and> bh_list bh' = bh_list bh @ as"
proof (induction as arbitrary: m bh)
  case (Cons a as)
  obtain l where l: "lm_lines m a = Some l" using counted_lookup [OF Cons.prems(1), of a] Cons.prems(2) by auto
  have "a \<in># mset (bh_list bh) + R" "size (mset (bh_list bh) + R) + 1 < 2 ^ 32" using Cons.prems(2,3) by auto
  from counted_ref [OF Cons.prems(1) this] obtain m1 where
    1: "op_linebuf_ref m a = Some m1" "counted m1 (add_mset a (mset (bh_list bh) + R))" by blast
  define bh1 where "bh1 = bh\<lparr>bh_list := bh_list bh @ [a], bh_alloclen := wrap64 (bh_alloclen bh + 1),
       bh_len := wrap64 (bh_len bh + bl_len l), bh_numlines := wrap32 (bh_numlines bh + 1)\<rparr>"
  have "\<exists>m' bh'. attach_lines as m1 bh1 = Some (m', bh') \<and> counted m' (mset (bh_list bh') + R) \<and> bh_list bh' = bh_list bh1 @ as"
    using 1(2) Cons.prems(2,3) by (intro Cons.IH) (simp_all add: bh1_def)
  moreover have "attach_lines (a # as) m bh = attach_lines as m1 bh1" using l 1(1) by (simp add: bh1_def)
  ultimately show ?case by (simp add: bh1_def)
qed simp

lemma put_line:
  assumes "\<forall>p\<in>set strings. strf_ok (sf_body p)" "op_linebuf_new_line alloc m bh = (m1, bh1, a)"
  shows "\<exists>l bh'. op_linebuf_put alloc m bh strings = Some (lm_put m1 a l, bh') \<and> line_ok l \<and> bl_refcount l = 1 \<and> bl_terminated l
    \<and> bh_list bh' = bh_list bh1 \<and> line_text l = fsn_text strings (LINEBUF_SIZE + 1) 0 (LINEBUF_SIZE + 1) @ [0x0D, 0x0A]"
proof -
  let ?N = "LINEBUF_SIZE + 1"
  define t where "t = fsn_text strings ?N 0 ?N"
  have lb: "length (bl_buf new_buf_line) = LINEBUF_SIZE + 3" by (simp add: new_buf_line_def CRLF_LEN_def)
  obtain b where b: "op_fsnprint (bl_buf new_buf_line) ?N strings = Some (b, int (length t))" "length b = LINEBUF_SIZE + 3"
      "length t < ?N" "take (length t) b = t"
    using op_fsnprint_spec [OF assms(1), of ?N "bl_buf new_buf_line"] lb by (auto simp: t_def)
  have w: "take (length t + 2) (b[length t := 0x0D, length t + 1 := 0x0A, length t + 2 := 0]) = t @ [0x0D, 0x0A]"
    using b(2,3,4) by (intro nth_equalityI) (auto simp: nth_append nth_list_update less_Suc_eq, metis nth_take)
  define l where "l = new_buf_line\<lparr>bl_buf := b[length t := 0x0D, length t + 1 := 0x0A, length t + 2 := 0],
    bl_terminated := True, bl_len := length t + 2\<rparr>"
  have "op_linebuf_put alloc m bh strings = Some (lm_put m1 a l, bh1\<lparr>bh_len := wrap64 (bh_len bh1 + (length t + 2))\<rparr>)"
    using b(1-3) new_line_lookup [OF assms(2)] by (simp add: op_linebuf_put_def assms(2) Let_def arr_set_def l_def)
  moreover have "line_ok l" "bl_refcount l = 1" "bl_terminated l" using b(2,3) by (simp_all add: l_def line_ok_def CRLF_LEN_def)
  moreover have "line_text l = t @ [0x0D, 0x0A]" using w by (simp add: l_def line_text_def)
  ultimately show ?thesis unfolding t_def by (auto intro: exI [of _ l])
qed

lemma counted_op_put:
  assumes "fresh_ids alloc" "counted m (mset (bh_list bh) + R)" "length (bh_list bh) + size R + 1 < 2 ^ 32"
    "\<forall>p\<in>set strings. strf_ok (sf_body p)"
  shows "\<exists>m' bh'. op_linebuf_put alloc m bh strings = Some (m', bh') \<and> counted m' (mset (bh_list bh') + R)"
proof -
  have "size (mset (bh_list bh) + R) + 1 < 2 ^ 32" using assms(3) by simp
  from counted_new [OF assms(1,2) this, of bh] obtain m1 bh1 a where
      1: "op_linebuf_new_line alloc m bh = (m1, bh1, a)" "counted m1 (add_mset a (mset (bh_list bh) + R))"
         "bh_list bh1 = bh_list bh @ [a]" "lm_lines m1 a = Some new_buf_line" by blast
  from put_line [OF assms(4) 1(1)] obtain l bh' where
    2: "op_linebuf_put alloc m bh strings = Some (lm_put m1 a l, bh')" "line_ok l" "bl_refcount l = 1" "bh_list bh' = bh_list bh1" by blast
  have "counted (lm_put m1 a l) (add_mset a (mset (bh_list bh) + R))" using counted_put [OF 1(2,4) 2(2)] 2(3) by simp
  then show ?thesis using 2(1,4) 1(3) by simp
qed

lemma counted_consume:
  assumes "counted m (mset (bh_list bh) + R)"
  shows "\<exists>m' bh'. op_linebuf_consume m bh = Some (m', bh') \<and> counted m' (mset (bh_list bh') + R)"
  using counted_done_line [OF assms] assms by (auto simp: op_linebuf_consume_def)

lemma counted_collect:
  "counted m M \<Longrightarrow> set as \<subseteq> set_mset M \<Longrightarrow> \<exists>vs. collect_iov as m x = Some vs \<and> length vs \<le> length as"
proof (induction as arbitrary: x)
  case (Cons a as)
  obtain l where "lm_lines m a = Some l" using counted_lookup [OF Cons.prems(1), of a] Cons.prems(2) by auto
  then show ?case using Cons.IH [OF Cons.prems(1), of "x - 1"] Cons.prems(2) by auto
qed simp

lemma counted_flush_done:
  "counted m (mset (bh_list bh) + R) \<Longrightarrow> n \<le> length (bh_list bh) \<Longrightarrow>
   \<exists>m' bh'. flush_done n m bh sxret = Some (m', bh') \<and> counted m' (mset (bh_list bh') + R)"
proof (induction n arbitrary: m bh sxret)
  case (Suc n)
  obtain a as where as: "bh_list bh = a # as" using Suc.prems(2) by (cases "bh_list bh") auto
  obtain l where l: "lm_lines m a = Some l" using counted_lookup [OF Suc.prems(1), of a] as by auto
  obtain m1 bh1 where 1: "op_linebuf_done_line m bh = Some (m1, bh1)" "counted m1 (mset (bh_list bh1) + R)" "bh_list bh1 = as"
    using counted_done_line [OF Suc.prems(1)] as by auto
  have "\<exists>m' bh'. flush_done n m1 (bh1\<lparr>bh_writeofs := 0\<rparr>) k = Some (m', bh') \<and> counted m' (mset (bh_list bh') + R)" for k
    using 1(2,3) Suc.prems(2) as by (intro Suc.IH) simp_all
  then show ?case using as l 1(1) Suc.prems(1) by (auto simp: Let_def)
qed simp

lemma counted_flush:
  assumes "counted m (mset (bh_list bh) + R)"
  shows "\<exists>m' bh' vec n. op_linebuf_flush maxiov ssl write m bh = Some (m', bh', vec, n) \<and> counted m' (mset (bh_list bh') + R)"
proof (cases "bh_list bh")
  case Nil
  then show ?thesis using assms by (simp add: op_linebuf_flush_def)
next
  case (Cons a as)
  obtain l where l: "lm_lines m a = Some l" using counted_lookup [OF assms, of a] Cons by auto
  obtain vs where vs: "collect_iov as m (maxiov - 1) = Some vs" "length vs \<le> length as"
    using counted_collect [OF assms, of as "maxiov - 1"] Cons by auto
  let ?v = "take (sub64 (bl_len l) (bh_writeofs bh)) (drop (bh_writeofs bh) (bl_buf l))"
  have f: "\<exists>m' bh'. flush_done (length (?v # vs)) m bh k = Some (m', bh') \<and> counted m' (mset (bh_list bh') + R)" for k
    using counted_flush_done [OF assms, of "length (?v # vs)"] vs(2) Cons by simp
  have d: "\<exists>m' bh'. op_linebuf_done_line m (bh\<lparr>bh_writeofs := w\<rparr>) = Some (m', bh') \<and> counted m' (mset (bh_list bh') + R)" for w
    using counted_done_line [of m "bh\<lparr>bh_writeofs := w\<rparr>" R] assms Cons by auto
  show ?thesis
  proof (cases "bl_terminated l \<and> \<not> ssl")
    case True
    show ?thesis
    proof (cases "write (?v # vs) \<le> 0")
      case True
      then show ?thesis using Cons l vs(1) assms \<open>bl_terminated l \<and> \<not> ssl\<close> by (simp add: op_linebuf_flush_def Let_def)
    next
      case False
      obtain m' bh' where "flush_done (length (?v # vs)) m bh (nat (write (?v # vs))) = Some (m', bh')"
          "counted m' (mset (bh_list bh') + R)" using f by blast
      then show ?thesis using False Cons l vs(1) \<open>bl_terminated l \<and> \<not> ssl\<close>
        by (simp add: op_linebuf_flush_def Let_def del: flush_done.simps)
    qed
  next
    case False
    then show ?thesis using Cons l assms d [of 0] by (auto simp: op_linebuf_flush_def Let_def)
  qed
qed

section \<open>A world of heads\<close>

record lb_world =
  w_mem :: line_mem
  w_heads :: "buf_head list"
  w_held :: "line_id list"

text \<open>
  The operations on the heads, by index; \<open>WHold\<close> is what a send queue does with the line it
  peeks at, and \<open>WRelease\<close> gives up one of the held lines.
\<close>

datatype lb_op =
    WParse nat "u8 list" bool
  | WGet nat "u8 list" bool bool
  | WPut nat "op_strf list"
  | WAttach nat nat
  | WConsume nat
  | WFlush nat nat bool "u8 list list \<Rightarrow> int"
  | WDone nat
  | WHold nat
  | WRelease nat

definition set_head :: "lb_world \<Rightarrow> nat \<Rightarrow> line_mem \<Rightarrow> buf_head \<Rightarrow> lb_world" where
  "set_head w h m bh = w\<lparr>w_mem := m, w_heads := (w_heads w)[h := bh]\<rparr>"

primrec w_apply :: "lb_op \<Rightarrow> (line_id set \<Rightarrow> line_id) \<Rightarrow> lb_world \<Rightarrow> lb_world option" where
  "w_apply (WParse h data raw) alloc w = do {
     (m, bh, n) \<leftarrow> op_linebuf_parse alloc (w_mem w) (w_heads w ! h) data raw; Some (set_head w h m bh) }"
| "w_apply (WGet h buf partial raw) alloc w = do {
     (m, bh, buf, n) \<leftarrow> op_linebuf_get (w_mem w) (w_heads w ! h) buf (length buf) partial raw; Some (set_head w h m bh) }"
| "w_apply (WPut h strings) alloc w = do {
     (m, bh) \<leftarrow> op_linebuf_put alloc (w_mem w) (w_heads w ! h) strings; Some (set_head w h m bh) }"
| "w_apply (WAttach h k) alloc w = do {
     (m, bh) \<leftarrow> op_linebuf_attach (w_mem w) (w_heads w ! h) (w_heads w ! k); Some (set_head w h m bh) }"
| "w_apply (WConsume h) alloc w = do {
     (m, bh) \<leftarrow> op_linebuf_consume (w_mem w) (w_heads w ! h); Some (set_head w h m bh) }"
| "w_apply (WFlush h maxiov ssl wr) alloc w = do {
     (m, bh, vec, n) \<leftarrow> op_linebuf_flush maxiov ssl wr (w_mem w) (w_heads w ! h); Some (set_head w h m bh) }"
| "w_apply (WDone h) alloc w = do {
     (m, bh) \<leftarrow> op_linebuf_donebuf (w_mem w) (w_heads w ! h); Some (set_head w h m bh) }"
| "w_apply (WHold h) alloc w = do {
     p \<leftarrow> op_linebuf_peek (w_mem w) (w_heads w ! h);
     (case p of None \<Rightarrow> Some w
      | Some a \<Rightarrow> do { m \<leftarrow> op_linebuf_ref (w_mem w) a; Some (w\<lparr>w_mem := m, w_held := w_held w @ [a]\<rparr>) }) }"
| "w_apply (WRelease i) alloc w = do {
     m \<leftarrow> op_linebuf_unref (w_mem w) (w_held w ! i);
     Some (w\<lparr>w_mem := m, w_held := take i (w_held w) @ drop (Suc i) (w_held w)\<rparr>) }"

text \<open>All references to lines.\<close>

definition refs :: "lb_world \<Rightarrow> line_id multiset" where
  "refs w = mset (concat (map bh_list (w_heads w))) + mset (w_held w)"

definition rest_refs :: "lb_world \<Rightarrow> nat \<Rightarrow> line_id multiset" where
  "rest_refs w h = mset (concat (map bh_list (take h (w_heads w) @ drop (Suc h) (w_heads w)))) + mset (w_held w)"

text \<open>
  The calls the interface allows: existing heads, a buffer of at least two bytes, two distinct
  heads to attach, and fewer than \<open>2 ^ 32\<close> references afterwards.
\<close>

primrec allowed :: "lb_op \<Rightarrow> lb_world \<Rightarrow> bool" where
  "allowed (WParse h data raw) w \<longleftrightarrow> h < length (w_heads w) \<and> size (refs w) + length data < 2 ^ 32"
| "allowed (WGet h buf partial raw) w \<longleftrightarrow> h < length (w_heads w) \<and> 2 \<le> length buf"
| "allowed (WPut h strings) w \<longleftrightarrow> h < length (w_heads w) \<and> size (refs w) + 1 < 2 ^ 32 \<and> (\<forall>p\<in>set strings. strf_ok (sf_body p))"
| "allowed (WAttach h k) w \<longleftrightarrow> h < length (w_heads w) \<and> k < length (w_heads w) \<and> h \<noteq> k
     \<and> size (refs w) + length (bh_list (w_heads w ! k)) < 2 ^ 32"
| "allowed (WConsume h) w \<longleftrightarrow> h < length (w_heads w)"
| "allowed (WFlush h maxiov ssl wr) w \<longleftrightarrow> h < length (w_heads w)"
| "allowed (WDone h) w \<longleftrightarrow> h < length (w_heads w)"
| "allowed (WHold h) w \<longleftrightarrow> h < length (w_heads w) \<and> size (refs w) + 1 < 2 ^ 32"
| "allowed (WRelease i) w \<longleftrightarrow> i < length (w_held w)"

lemma refs_split: "h < length (w_heads w) \<Longrightarrow> refs w = mset (bh_list (w_heads w ! h)) + rest_refs w h"
  unfolding refs_def rest_refs_def
  by (subst id_take_nth_drop [of h "w_heads w"]) (simp_all add: ac_simps)

lemma refs_set_head: "h < length (w_heads w) \<Longrightarrow> refs (set_head w h m bh) = mset (bh_list bh) + rest_refs w h"
  by (simp add: refs_def rest_refs_def set_head_def upd_conv_take_nth_drop ac_simps)

lemma refs_size: "h < length (w_heads w) \<Longrightarrow> size (refs w) = length (bh_list (w_heads w ! h)) + size (rest_refs w h)"
  by (simp add: refs_split)

lemma counted_head:
  "counted (w_mem w) (refs w) \<Longrightarrow> h < length (w_heads w) \<Longrightarrow> counted (w_mem w) (mset (bh_list (w_heads w ! h)) + rest_refs w h)"
  by (simp only: refs_split)

lemma other_head_refs:
  assumes "k < length (w_heads w)" "h \<noteq> k"
  shows "set (bh_list (w_heads w ! k)) \<subseteq> set_mset (rest_refs w h)"
proof -
  have "w_heads w ! k \<in> set (take h (w_heads w) @ drop (Suc h) (w_heads w))"
  proof (cases "k < h")
    case True
    then show ?thesis using assms(1) by (auto simp: in_set_conv_nth intro!: exI [of _ k])
  next
    case False
    then show ?thesis using assms by (auto simp: in_set_conv_nth intro!: exI [of _ "k - Suc h"])
  qed
  then have "set (bh_list (w_heads w ! k)) \<subseteq> set (concat (map bh_list (take h (w_heads w) @ drop (Suc h) (w_heads w))))"
    by (metis UN_upper image_eqI set_concat set_map)
  then show ?thesis unfolding rest_refs_def by auto
qed

lemma w_head_op:
  assumes "h < length (w_heads w)" "\<exists>m bh. r = Some (m, bh) \<and> counted m (mset (bh_list bh) + rest_refs w h)"
  shows "\<exists>w'. (do { (m, bh) \<leftarrow> r; Some (set_head w h m bh) }) = Some w' \<and> counted (w_mem w') (refs w')"
  using assms by (auto simp: refs_set_head) (simp add: set_head_def)

lemma w_apply_counted:
  assumes fr: "fresh_ids alloc" and c: "counted (w_mem w) (refs w)" and al: "allowed r w"
  shows "\<exists>w'. w_apply r alloc w = Some w' \<and> counted (w_mem w') (refs w')"
proof (cases r)
  case (WParse h data raw)
  with al c have h: "h < length (w_heads w)" "counted (w_mem w) (mset (bh_list (w_heads w ! h)) + rest_refs w h)"
    using counted_head [OF c, of h] by simp_all
  show ?thesis using counted_parse [OF fr h(2), of data raw] al h(1) WParse by (auto simp: refs_size refs_set_head) (simp add: set_head_def)
next
  case (WGet h buf partial raw)
  with al c have h: "h < length (w_heads w)" "counted (w_mem w) (mset (bh_list (w_heads w ! h)) + rest_refs w h)"
    using counted_head [OF c, of h] by simp_all
  show ?thesis using counted_get [OF _ h(2), of buf partial raw] al h(1) WGet by (auto simp: refs_set_head) (simp add: set_head_def)
next
  case (WPut h strings)
  with al c have h: "h < length (w_heads w)" "counted (w_mem w) (mset (bh_list (w_heads w ! h)) + rest_refs w h)"
    using counted_head [OF c, of h] by simp_all
  show ?thesis using w_head_op [OF h(1) counted_op_put [OF fr h(2)]] al h(1) WPut by (simp add: refs_size)
next
  case (WAttach h k)
  with al c have h: "h < length (w_heads w)" "counted (w_mem w) (mset (bh_list (w_heads w ! h)) + rest_refs w h)"
    using counted_head [OF c, of h] by simp_all
  have "set (bh_list (w_heads w ! k)) \<subseteq> set_mset (rest_refs w h)" using al WAttach by (intro other_head_refs) auto
  from counted_attach_lines [OF h(2) this] show ?thesis using w_head_op [OF h(1)] al h(1) WAttach
    by (fastforce simp: op_linebuf_attach_def refs_size)
next
  case (WConsume h)
  with al c have h: "h < length (w_heads w)" "counted (w_mem w) (mset (bh_list (w_heads w ! h)) + rest_refs w h)"
    using counted_head [OF c, of h] by simp_all
  show ?thesis using w_head_op [OF h(1) counted_consume [OF h(2)]] WConsume by simp
next
  case (WFlush h maxiov ssl wr)
  with al c have h: "h < length (w_heads w)" "counted (w_mem w) (mset (bh_list (w_heads w ! h)) + rest_refs w h)"
    using counted_head [OF c, of h] by simp_all
  show ?thesis using counted_flush [OF h(2), of maxiov ssl wr] h(1) WFlush by (auto simp: refs_set_head) (simp add: set_head_def)
next
  case (WDone h)
  with al c have h: "h < length (w_heads w)" "counted (w_mem w) (mset (bh_list (w_heads w ! h)) + rest_refs w h)"
    using counted_head [OF c, of h] by simp_all
  show ?thesis using counted_donebuf [OF h(2)] h(1) WDone by (auto simp: refs_set_head) (simp add: set_head_def)
next
  case (WHold h)
  with al have h: "h < length (w_heads w)" "size (refs w) + 1 < 2 ^ 32" by simp_all
  show ?thesis
  proof (cases "bh_list (w_heads w ! h)")
    case Nil
    then show ?thesis using WHold c by (simp add: op_linebuf_peek_def)
  next
    case (Cons a as)
    then have a: "a \<in># refs w" using h(1) by (simp add: refs_split)
    from counted_lookup [OF c a] counted_ref [OF c a h(2)] Cons WHold c show ?thesis
      by (auto simp: op_linebuf_peek_def refs_def)
  qed
next
  case (WRelease i)
  with al have i: "i < length (w_held w)" by simp
  have "refs w = add_mset (w_held w ! i) (mset (concat (map bh_list (w_heads w))) + mset (take i (w_held w) @ drop (Suc i) (w_held w)))"
    unfolding refs_def by (subst id_take_nth_drop [OF i]) simp
  from counted_unref [OF c [unfolded this]] WRelease show ?thesis by (auto simp: refs_def)
qed

inductive lb_reach :: "(line_id set \<Rightarrow> line_id) \<Rightarrow> lb_world \<Rightarrow> bool" for alloc where
  start: "lb_reach alloc \<lparr>w_mem = \<lparr>lm_lines = Map.empty, lm_count = 0\<rparr>, w_heads = replicate n op_linebuf_newbuf, w_held = []\<rparr>"
| step: "lb_reach alloc w \<Longrightarrow> allowed r w \<Longrightarrow> w_apply r alloc w = Some w' \<Longrightarrow> lb_reach alloc w'"

lemma reach_counted:
  assumes "fresh_ids alloc"
  shows "lb_reach alloc w \<Longrightarrow> counted (w_mem w) (refs w)"
proof (induction rule: lb_reach.induct)
  case (start n)
  have "refs \<lparr>w_mem = \<lparr>lm_lines = Map.empty, lm_count = 0\<rparr>, w_heads = replicate n op_linebuf_newbuf, w_held = []\<rparr> = {#}"
    by (simp add: refs_def op_linebuf_newbuf_def)
  then show ?case by (simp only:) (simp add: counted_def)
next
  case (step w r w')
  from w_apply_counted [OF assms step.IH step.hyps(2)] step.hyps(3) show ?case by auto
qed

text \<open>
  C5. Lines shared between line buffers and send queues are never used after they are freed and
  never leak.  From empty buffers, through any sequence of parsing, reading, formatting,
  attaching, consuming, flushing, destroying, holding and releasing, every allowed call
  returns; the lines in memory are exactly those some buffer or holder refers to, each with
  its number of references as its count; the global counter is their number; and when the last
  reference is gone no line is left.
\<close>

theorem linebuf_refcounts:
  assumes "fresh_ids alloc" "lb_reach alloc w"
  shows "(\<forall>r. allowed r w \<longrightarrow> (\<exists>w'. w_apply r alloc w = Some w'))
    \<and> dom (lm_lines (w_mem w)) = set_mset (refs w)
    \<and> (\<forall>a l. lm_lines (w_mem w) a = Some l \<longrightarrow> bl_refcount l = count (refs w) a)
    \<and> lm_count (w_mem w) = int (card (set_mset (refs w)))
    \<and> (refs w = {#} \<longrightarrow> lm_lines (w_mem w) = Map.empty)"
proof -
  note c = reach_counted [OF assms]
  have d: "dom (lm_lines (w_mem w)) = set_mset (refs w)" using counted_lookup [OF c] counted_in [OF c] by blast
  moreover have "lm_count (w_mem w) = int (card (dom (lm_lines (w_mem w))))" using c by (simp add: counted_def)
  moreover have "\<forall>r. allowed r w \<longrightarrow> (\<exists>w'. w_apply r alloc w = Some w')" using w_apply_counted [OF assms(1) c] by blast
  ultimately show ?thesis using counted_in [OF c] by auto
qed

theorem linebuf_refcounts_witness:
  "\<exists>w1 w2. w_apply (WParse 0 [0x48, 0x69, 0x0A] False) (\<lambda>A. if A = {} then 0 else Suc (Max A))
       \<lparr>w_mem = \<lparr>lm_lines = Map.empty, lm_count = 0\<rparr>, w_heads = [op_linebuf_newbuf, op_linebuf_newbuf], w_held = []\<rparr> = Some w1
     \<and> w_apply (WConsume 0) (\<lambda>A. if A = {} then 0 else Suc (Max A)) w1 = Some w2"
proof -
  let ?al = "\<lambda>A. if A = {} then 0 else Suc (Max A)"
  let ?w = "\<lparr>w_mem = \<lparr>lm_lines = Map.empty, lm_count = 0\<rparr>, w_heads = [op_linebuf_newbuf, op_linebuf_newbuf], w_held = []\<rparr>"
  let ?r = "WParse 0 [0x48, 0x69, 0x0A] False"
  have 0: "lb_reach ?al ?w" using lb_reach.start [of ?al 2] by (simp add: numeral_2_eq_2)
  have a: "allowed ?r ?w" by (simp add: refs_def op_linebuf_newbuf_def)
  obtain w1 where 1: "w_apply ?r ?al ?w = Some w1" using linebuf_refcounts [OF next_id_fresh 0] a by blast
  have "length (w_heads w1) = 2" using 1 by (auto simp: set_head_def split: bind_splits)
  then have "allowed (WConsume 0) w1" by simp
  moreover have "lb_reach ?al w1" by (rule lb_reach.step [OF 0 a 1])
  ultimately show ?thesis using linebuf_refcounts [OF next_id_fresh] 1 by blast
qed

section \<open>The bytes still to be written\<close>

definition text_at :: "line_mem \<Rightarrow> line_id \<Rightarrow> u8 list" where
  "text_at m a = (case lm_lines m a of None \<Rightarrow> [] | Some l \<Rightarrow> line_text l)"

definition ready_at :: "line_mem \<Rightarrow> line_id \<Rightarrow> bool" where
  "ready_at m a \<longleftrightarrow> (case lm_lines m a of None \<Rightarrow> False | Some l \<Rightarrow> bl_terminated l)"

definition stream :: "line_mem \<Rightarrow> buf_head \<Rightarrow> u8 list" where
  "stream m bh = drop (bh_writeofs bh) (concat (map (text_at m) (takeWhile (ready_at m) (bh_list bh))))"

text \<open>The write offset is a position in the first line.\<close>

definition offset_ok :: "line_mem \<Rightarrow> buf_head \<Rightarrow> bool" where
  "offset_ok m bh \<longleftrightarrow> (case bh_list bh of [] \<Rightarrow> bh_writeofs bh = 0
     | a # _ \<Rightarrow> bh_writeofs bh \<le> length (text_at m a) \<and> (ready_at m a \<or> bh_writeofs bh = 0))"

lemma done_line_texts:
  assumes "counted m (mset (bh_list bh) + R)" "op_linebuf_done_line m bh = Some (m', bh')" "x \<in> set (bh_list bh')"
  shows "text_at m' x = text_at m x \<and> ready_at m' x = ready_at m x"
proof -
  obtain a as where as: "bh_list bh = a # as" using done_line_list [OF assms(2)] by (cases "bh_list bh") auto
  then have x: "x \<in> set as" using done_line_list [OF assms(2)] assms(3) by simp
  obtain l where l: "lm_lines m a = Some l" "bl_refcount l = count (mset (bh_list bh) + R) a"
    using counted_lookup [OF assms(1), of a] as by auto
  then have "op_linebuf_unref m a = Some m'" using assms(2) as by (auto simp: op_linebuf_done_line_def split: bind_splits)
  moreover have "bl_refcount l = 1 \<Longrightarrow> x \<noteq> a" using l(2) as x by (auto simp: count_mset_0_iff)
  ultimately show ?thesis using l(1)
    by (auto simp: op_linebuf_unref_def lm_put_def text_at_def ready_at_def line_text_def split: if_splits)
qed

lemma map_takeWhile_cong:
  "(\<And>x. x \<in> set xs \<Longrightarrow> f x = g x \<and> P x = Q x) \<Longrightarrow> map f (takeWhile P xs) = map g (takeWhile Q xs)"
  by (induction xs) auto

lemma done_line_stream:
  assumes "counted m (mset (bh_list bh) + R)" "op_linebuf_done_line m bh = Some (m', bh')" "bh_list bh = a # as"
  shows "stream m' (bh'\<lparr>bh_writeofs := 0\<rparr>) = concat (map (text_at m) (takeWhile (ready_at m) as))"
    and "takeWhile (ready_at m') as = takeWhile (ready_at m) as" and "map (text_at m') as = map (text_at m) as"
    and "offset_ok m' (bh'\<lparr>bh_writeofs := 0\<rparr>)"
proof -
  have b: "bh_list bh' = as" using done_line_list [OF assms(2)] assms(3) by simp
  note t = done_line_texts [OF assms(1,2), unfolded b]
  show "stream m' (bh'\<lparr>bh_writeofs := 0\<rparr>) = concat (map (text_at m) (takeWhile (ready_at m) as))"
    unfolding stream_def using map_takeWhile_cong [of as "text_at m'" "text_at m" "ready_at m'" "ready_at m"] t b by simp
  show "takeWhile (ready_at m') as = takeWhile (ready_at m) as" using t by (auto cong: takeWhile_cong)
  show "map (text_at m') as = map (text_at m) as" using t by simp
  show "offset_ok m' (bh'\<lparr>bh_writeofs := 0\<rparr>)" by (simp add: offset_ok_def split: list.split)
qed

lemma line_text_length: "line_ok l \<Longrightarrow> length (line_text l) = bl_len l"
  by (auto simp: line_ok_def line_text_def)

lemma flush_done_stream:
  "counted m (mset (bh_list bh) + R) \<Longrightarrow> offset_ok m bh \<Longrightarrow> n \<le> length (takeWhile (ready_at m) (bh_list bh)) \<Longrightarrow>
   bh_writeofs bh + k \<le> length (concat (map (text_at m) (take n (bh_list bh)))) \<or> n = 0 \<and> k = 0 \<Longrightarrow>
   flush_done n m bh k = Some (m', bh') \<Longrightarrow>
   stream m' bh' = drop k (stream m bh) \<and> offset_ok m' bh' \<and> counted m' (mset (bh_list bh') + R)"
proof (induction n arbitrary: m bh k)
  case (Suc n)
  obtain a as where as: "bh_list bh = a # as" using Suc.prems(3) by (cases "bh_list bh") auto
  obtain l where l: "lm_lines m a = Some l" "line_ok l" using counted_lookup [OF Suc.prems(1), of a] as by auto
  have tx: "text_at m a = line_text l" "length (line_text l) = bl_len l" using l line_text_length by (simp_all add: text_at_def)
  have rd: "ready_at m a" using Suc.prems(3) as by (auto split: if_splits)
  have wo: "bh_writeofs bh \<le> bl_len l" using Suc.prems(2) as tx by (simp add: offset_ok_def)
  have small: "bl_len l < W64" using l(2) linebuf_size_small(1) by (simp add: line_ok_def)
  then have sb: "sub64 (bl_len l) (bh_writeofs bh) = bl_len l - bh_writeofs bh" using wo by (intro sub64_le) auto
  have st: "stream m bh = drop (bh_writeofs bh) (line_text l) @ concat (map (text_at m) (takeWhile (ready_at m) as))"
    using as rd tx wo by (simp add: stream_def)
  show ?case
  proof (cases "bl_len l - bh_writeofs bh \<le> k")
    case True
    obtain m1 bh1 where 1: "op_linebuf_done_line m bh = Some (m1, bh1)" "counted m1 (mset (bh_list bh1) + R)" "bh_list bh1 = as"
      using counted_done_line [OF Suc.prems(1)] as by auto
    note d = done_line_stream [OF Suc.prems(1) 1(1) as]
    let ?bh = "bh1\<lparr>bh_writeofs := 0\<rparr>" let ?k = "k - (bl_len l - bh_writeofs bh)"
    have "flush_done n m1 ?bh ?k = Some (m', bh')" using Suc.prems(5) as l(1) 1(1) True sb by (simp add: Let_def)
    moreover have "counted m1 (mset (bh_list ?bh) + R)" using 1(2) by simp
    moreover have "n \<le> length (takeWhile (ready_at m1) (bh_list ?bh))" using Suc.prems(3) as rd d(2) 1(3) by simp
    moreover have "bh_writeofs ?bh + ?k \<le> length (concat (map (text_at m1) (take n (bh_list ?bh)))) \<or> n = 0 \<and> ?k = 0"
    proof -
      have q: "bh_list ?bh = as" "map (text_at m1) (take n as) = map (text_at m) (take n as)" using 1(3) d(3) by (simp, metis take_map)
      have "bh_writeofs bh + k \<le> bl_len l + length (concat (map (text_at m) (take n as)))" using Suc.prems(4) as tx by simp
      then show ?thesis unfolding q using wo True by (intro disjI1) simp
    qed
    ultimately have "stream m' bh' = drop ?k (stream m1 ?bh) \<and> offset_ok m' bh' \<and> counted m' (mset (bh_list bh') + R)"
      using Suc.IH [OF _ d(4)] by blast
    moreover have "drop ?k (stream m1 ?bh) = drop k (stream m bh)"
      unfolding d(1) st using True tx(2) by simp
    ultimately show ?thesis by simp
  next
    case False
    then have "wrap64 (bh_writeofs bh + k) = bh_writeofs bh + k" using small by (intro wrap64_small) simp
    then have r: "m' = m" "bh' = bh\<lparr>bh_writeofs := bh_writeofs bh + k\<rparr>" using Suc.prems(5) as l(1) False sb by (simp_all add: Let_def)
    have "offset_ok m' bh'" using r as rd False tx by (simp add: offset_ok_def)
    then show ?thesis using r Suc.prems(1) by (simp add: stream_def add.commute)
  qed
qed auto

lemma collect_texts:
  "counted m M \<Longrightarrow> set as \<subseteq> set_mset M \<Longrightarrow> collect_iov as m x = Some (map (text_at m) (take x (takeWhile (ready_at m) as)))"
proof (induction as arbitrary: x)
  case (Cons a as)
  obtain l where "lm_lines m a = Some l" using counted_lookup [OF Cons.prems(1), of a] Cons.prems(2) by auto
  then show ?case using Cons.IH [OF Cons.prems(1), of "x - 1"] Cons.prems(2)
    by (cases x) (auto simp: text_at_def ready_at_def line_text_def)
qed simp

lemma take_takeWhile: "take (length (take k (takeWhile P xs))) xs = take k (takeWhile P xs)"
  by (induction xs arbitrary: k) (auto simp: take_Cons split: nat.split)

text \<open>The first line of a head that has something to write.\<close>

definition first_ready :: "line_mem \<Rightarrow> buf_head \<Rightarrow> line_id \<Rightarrow> line_id list \<Rightarrow> buf_line \<Rightarrow> bool" where
  "first_ready m bh a as l \<longleftrightarrow> bh_list bh = a # as \<and> lm_lines m a = Some l \<and> line_ok l \<and> bl_terminated l \<and> bh_writeofs bh \<le> bl_len l"

lemma first_ready_facts:
  assumes "first_ready m bh a as l"
  defines "v \<equiv> drop (bh_writeofs bh) (line_text l)"
  shows "take (sub64 (bl_len l) (bh_writeofs bh)) (drop (bh_writeofs bh) (bl_buf l)) = v"
    and "stream m bh = v @ concat (map (text_at m) (takeWhile (ready_at m) as))"
    and "length v = bl_len l - bh_writeofs bh" and "ready_at m a" and "text_at m a = line_text l"
    and "k \<le> length v \<Longrightarrow> wrap64 (bh_writeofs bh + k) = bh_writeofs bh + k"
proof -
  have r: "bh_list bh = a # as" "lm_lines m a = Some l" "line_ok l" "bl_terminated l" "bh_writeofs bh \<le> bl_len l"
    using assms(1) by (auto simp: first_ready_def)
  have small: "bl_len l < W64" using r(3) linebuf_size_small(1) by (simp add: line_ok_def)
  have sb: "sub64 (bl_len l) (bh_writeofs bh) = bl_len l - bh_writeofs bh" using r(5) small by (intro sub64_le) auto
  show "take (sub64 (bl_len l) (bh_writeofs bh)) (drop (bh_writeofs bh) (bl_buf l)) = v"
    unfolding v_def sb line_text_def by (rule drop_take [symmetric])
  show rd: "ready_at m a" and tx: "text_at m a = line_text l" using r by (simp_all add: ready_at_def text_at_def)
  show "stream m bh = v @ concat (map (text_at m) (takeWhile (ready_at m) as))"
    using r rd tx line_text_length [OF r(3)] by (simp add: stream_def v_def)
  show lv: "length v = bl_len l - bh_writeofs bh" using line_text_length [OF r(3)] by (simp add: v_def)
  show "k \<le> length v \<Longrightarrow> wrap64 (bh_writeofs bh + k) = bh_writeofs bh + k" using lv r(5) small by (intro wrap64_small) simp
qed

lemma flush_ssl_stream:
  assumes c: "counted m (mset (bh_list bh) + R)" and fr: "first_ready m bh a as l"
    and w: "write [drop (bh_writeofs bh) (line_text l)] \<le> int (length (drop (bh_writeofs bh) (line_text l)))"
    and f: "op_linebuf_flush maxiov True write m bh = Some (m', bh', vec, n)" and n0: "0 < n"
  shows "stream m bh = take (nat n) (concat vec) @ stream m' bh' \<and> offset_ok m' bh' \<and> counted m' (mset (bh_list bh') + R)"
proof -
  define v where "v = drop (bh_writeofs bh) (line_text l)"
  note F = first_ready_facts [OF fr, folded v_def]
  have r: "bh_list bh = a # as" "lm_lines m a = Some l" "bl_terminated l" "bh_writeofs bh \<le> bl_len l" using fr by (auto simp: first_ready_def)
  have n: "vec = [v]" "n = write [v]" using f r n0 F(1) by (auto simp: op_linebuf_flush_def Let_def split: bind_splits if_splits)
  have nv: "nat n \<le> length v" using w n by (simp add: v_def)
  note wr = F(6) [OF nv]
  show ?thesis
  proof (cases "bh_writeofs bh + nat n = bl_len l")
    case True
    then have nl: "nat n = length v" using F(3) by simp
    obtain m1 bh1 where 1: "op_linebuf_done_line m (bh\<lparr>bh_writeofs := 0\<rparr>) = Some (m1, bh1)" "m' = m1" "bh' = bh1"
      using f r F(1) True wr n n0 by (auto simp: op_linebuf_flush_def Let_def split: bind_splits)
    have c0: "counted m (mset (bh_list (bh\<lparr>bh_writeofs := 0\<rparr>)) + R)" "bh_list (bh\<lparr>bh_writeofs := 0\<rparr>) = a # as" using c r by simp_all
    have "bh_writeofs bh1 = 0" using 1(1) r by (auto simp: op_linebuf_done_line_def split: bind_splits)
    then have z: "bh1\<lparr>bh_writeofs := 0\<rparr> = bh1" by simp
    note d = done_line_stream [OF c0(1) 1(1) c0(2), unfolded z]
    have "counted m1 (mset (bh_list bh1) + R)" using counted_done_line [OF c0(1)] 1(1) c0(2) by auto
    then show ?thesis using d(1,4) 1(2,3) F(2) nl n(1) by simp
  next
    case False
    have s: "m' = m" "bh' = bh\<lparr>bh_writeofs := bh_writeofs bh + nat n\<rparr>"
      using f r F(1) False wr n n0 by (auto simp: op_linebuf_flush_def Let_def)
    have "offset_ok m' bh'" using s r nv F(3,4,5) line_text_length [of l] fr by (simp add: offset_ok_def first_ready_def)
    moreover have "stream m' bh' = drop (nat n) (stream m bh)" using s by (simp add: stream_def add.commute)
    ultimately show ?thesis using s c F(2) nv n(1) by simp
  qed
qed

lemma prefix_split: "k \<le> length xs \<Longrightarrow> xs @ ys = take k xs @ drop k (xs @ ys)"
  by simp

lemma flush_writev_stream:
  assumes c: "counted m (mset (bh_list bh) + R)" and o: "offset_ok m bh" and fr: "first_ready m bh a as l"
    and w: "\<And>v. write v \<le> int (length (concat v))"
    and f: "op_linebuf_flush maxiov False write m bh = Some (m', bh', vec, n)" and n0: "0 < n"
  shows "stream m bh = take (nat n) (concat vec) @ stream m' bh' \<and> offset_ok m' bh' \<and> counted m' (mset (bh_list bh') + R)"
proof -
  define v where "v = drop (bh_writeofs bh) (line_text l)"
  note F = first_ready_facts [OF fr, folded v_def]
  have r: "bh_list bh = a # as" "lm_lines m a = Some l" "bl_terminated l" "bh_writeofs bh \<le> bl_len l" using fr by (auto simp: first_ready_def)
  define tw where "tw = takeWhile (ready_at m) as"
  define vs where "vs = map (text_at m) (take (maxiov - 1) tw)"
  have cv: "collect_iov as m (maxiov - 1) = Some vs"
    unfolding vs_def tw_def by (rule collect_texts [OF c]) (use r in auto)
  have st: "stream m bh = concat (v # vs) @ concat (map (text_at m) (drop (maxiov - 1) tw))"
  proof -
    have "concat (map (text_at m) tw) = concat vs @ concat (map (text_at m) (drop (maxiov - 1) tw))"
      unfolding vs_def by (metis append_take_drop_id concat_append map_append)
    then show ?thesis using F(2) by (simp add: tw_def)
  qed
  have n: "vec = v # vs" "n = write (v # vs)" "flush_done (length (v # vs)) m bh (nat n) = Some (m', bh')"
    using f r n0 F(1) cv by (auto simp: op_linebuf_flush_def Let_def split: bind_splits if_splits simp del: flush_done.simps)
  have nv: "nat n \<le> length (concat (v # vs))" using w [of "v # vs"] n(2) by simp
  have vl: "length vs \<le> length tw" "take (length vs) as = take (maxiov - 1) tw"
    using take_takeWhile [of "maxiov - 1" "ready_at m" as] by (simp_all add: vs_def tw_def)
  have "length (v # vs) \<le> length (takeWhile (ready_at m) (bh_list bh))" using r F(4) vl(1) by (simp add: tw_def)
  moreover have "bh_writeofs bh + nat n \<le> length (concat (map (text_at m) (take (length (v # vs)) (bh_list bh))))"
    using r nv vl(2) F(3,5) line_text_length [of l] fr by (simp add: vs_def first_ready_def)
  ultimately have "stream m' bh' = drop (nat n) (stream m bh) \<and> offset_ok m' bh' \<and> counted m' (mset (bh_list bh') + R)"
    using flush_done_stream [OF c o _ _ n(3)] by blast
  moreover have "stream m bh = take (nat n) (concat (v # vs)) @ drop (nat n) (stream m bh)"
    unfolding st by (rule prefix_split [OF nv])
  ultimately show ?thesis unfolding n(1) by metis
qed

lemma flush_stream:
  assumes c: "counted m (mset (bh_list bh) + R)" and o: "offset_ok m bh" and w: "\<And>v. write v \<le> int (length (concat v))"
    and f: "op_linebuf_flush maxiov ssl write m bh = Some (m', bh', vec, n)"
  shows "stream m bh = take (nat n) (concat vec) @ stream m' bh' \<and> offset_ok m' bh' \<and> counted m' (mset (bh_list bh') + R)"
proof (cases "0 < n")
  case False
  have "m' = m \<and> bh' = bh"
    using f False by (auto simp: op_linebuf_flush_def Let_def split: list.splits if_splits bind_splits)
  then show ?thesis using False c o by simp
next
  case True
  then obtain a as l where al: "bh_list bh = a # as" "lm_lines m a = Some l" "bl_terminated l"
    using f by (auto simp: op_linebuf_flush_def split: list.splits bind_splits if_splits)
  have "line_ok l" using counted_in [OF c al(2)] by simp
  then have fr: "first_ready m bh a as l"
    using al o line_text_length [of l] by (simp add: first_ready_def offset_ok_def text_at_def)
  show ?thesis
  proof (cases ssl)
    case ssl: True
    have f': "op_linebuf_flush maxiov True write m bh = Some (m', bh', vec, n)" using f ssl by simp
    show ?thesis by (rule flush_ssl_stream [OF c fr _ f' True]) (use w [of "[drop (bh_writeofs bh) (line_text l)]"] in simp)
  next
    case False
    then show ?thesis using f True by (intro flush_writev_stream [OF c o fr w]) auto
  qed
qed

text \<open>A sequence of flushes, each with its own path and writer; what the writers took.\<close>

primrec flush_run :: "(nat \<times> bool \<times> (u8 list list \<Rightarrow> int)) list \<Rightarrow> line_mem \<Rightarrow> buf_head \<Rightarrow> (line_mem \<times> buf_head \<times> u8 list) option" where
  "flush_run [] m bh = Some (m, bh, [])"
| "flush_run (r # rs) m bh = (case r of (maxiov, ssl, wr) \<Rightarrow> do {
     (m, bh, vec, n) \<leftarrow> op_linebuf_flush maxiov ssl wr m bh;
     (m, bh, out) \<leftarrow> flush_run rs m bh;
     Some (m, bh, take (nat n) (concat vec) @ out) })"

text \<open>
  C14. However a line buffer is flushed, through the vector or the TLS path, with short writes and
  errors at any point, what the writers took followed by what is still pending is what was
  pending at first: no byte is lost, repeated or reordered, and no unfinished line is sent.  The
  lines may be shared with other buffers.
\<close>

theorem linebuf_flush_in_order:
  assumes "counted m (mset (bh_list bh) + R)" "offset_ok m bh"
    "\<forall>(maxiov, ssl, wr) \<in> set rs. \<forall>v. wr v \<le> int (length (concat v))"
  shows "\<exists>m' bh' out. flush_run rs m bh = Some (m', bh', out) \<and> stream m bh = out @ stream m' bh'
    \<and> counted m' (mset (bh_list bh') + R) \<and> offset_ok m' bh'"
  using assms
proof (induction rs arbitrary: m bh)
  case (Cons r rs)
  obtain maxiov ssl wr where r: "r = (maxiov, ssl, wr)" by (cases r)
  obtain m1 bh1 vec n where 1: "op_linebuf_flush maxiov ssl wr m bh = Some (m1, bh1, vec, n)"
    using counted_flush [OF Cons.prems(1)] by blast
  have 2: "stream m bh = take (nat n) (concat vec) @ stream m1 bh1 \<and> offset_ok m1 bh1 \<and> counted m1 (mset (bh_list bh1) + R)"
    by (rule flush_stream [OF Cons.prems(1,2) _ 1]) (use Cons.prems(3) r in auto)
  then obtain m' bh' out where "flush_run rs m1 bh1 = Some (m', bh', out)" "stream m1 bh1 = out @ stream m' bh'"
      "counted m' (mset (bh_list bh') + R)" "offset_ok m' bh'"
    using Cons.IH [of m1 bh1] Cons.prems(3) by auto
  then show ?case using r 1 2 by simp
qed simp

theorem linebuf_flush_in_order_witness:
  "\<exists>m' bh' out. flush_run [(16, False, \<lambda>v. min 1 (int (length (concat v)))), (16, True, \<lambda>v. -1)]
      \<lparr>lm_lines = [0 \<mapsto> new_buf_line\<lparr>bl_buf := (bl_buf new_buf_line)[0 := 0x0D, 1 := 0x0A], bl_terminated := True, bl_len := 2\<rparr>], lm_count = 1\<rparr>
      (op_linebuf_newbuf\<lparr>bh_list := [0]\<rparr>) = Some (m', bh', out)
    \<and> [0x0D, 0x0A] = out @ stream m' bh'"
proof -
  let ?l = "new_buf_line\<lparr>bl_buf := (bl_buf new_buf_line)[0 := 0x0D, 1 := 0x0A], bl_terminated := True, bl_len := 2\<rparr>"
  let ?m = "\<lparr>lm_lines = [0 \<mapsto> ?l], lm_count = 1\<rparr>" let ?bh = "op_linebuf_newbuf\<lparr>bh_list := [0 :: line_id]\<rparr>"
  have ok: "line_ok ?l" "line_text ?l = [0x0D, 0x0A]"
    by (simp_all add: line_ok_def new_buf_line_def line_text_def CRLF_LEN_def numeral_2_eq_2)
  have "counted ?m (mset (bh_list ?bh) + {#})" using ok(1) by (simp add: counted_def op_linebuf_newbuf_def)
  moreover have "offset_ok ?m ?bh" using ok by (simp add: offset_ok_def text_at_def op_linebuf_newbuf_def)
  moreover have "stream ?m ?bh = [0x0D, 0x0A]" using ok by (simp add: stream_def ready_at_def text_at_def op_linebuf_newbuf_def)
  ultimately show ?thesis using linebuf_flush_in_order [of ?m ?bh "{#}"
    "[(16, False, \<lambda>v. min 1 (int (length (concat v)))), (16, True, \<lambda>v. -1)]"] by auto
qed

end
