(* ===== verification/Spec2Isabelle.thy ===== *)
theory Spec2Isabelle
  imports Htab_Keys Pqueue Deque Utf8 Trie Cidr Clocks Crdt Lru Ringbuf Ratelimit Bitset Key_Order Rbt Simd_Scan Tools Linebuf Linebuf_Refs
begin

text \<open>
  Verification of libop, the C support library of the ophion IRC server (\<^verbatim>\<open>src/src\<close> and
  \<^verbatim>\<open>src/include\<close>).

  \<^bold>\<open>The program and its parts.\<close>  libop is a set of containers and protocol helpers below an IRC
  server: a hash table with its three key modes (\<^verbatim>\<open>htab.c\<close>), a vector (\<^verbatim>\<open>vec.c\<close>), in which the
  hash table also registers its live tables, an LRU cache on top of the hash table (\<^verbatim>\<open>lru.c\<close>), a
  red-black tree (\<^verbatim>\<open>rbt.c\<close>), a priority queue (\<^verbatim>\<open>pqueue.c\<close>), a deque (\<^verbatim>\<open>deque.c\<close>), a ternary trie (\<^verbatim>\<open>trie.c\<close>), prefix tables
  for addresses (\<^verbatim>\<open>cidr_tbl.c\<close>), UTF-8 (\<^verbatim>\<open>utf8.c\<close>), the line buffers of
  connections (\<^verbatim>\<open>linebuf.c\<close>), bit sets (\<^verbatim>\<open>op_bitset.h\<close>), a rate limiter
  (\<^verbatim>\<open>op_ratelimit.h\<close>), two rings between threads (\<^verbatim>\<open>op_ringbuf.h\<close>, \<^verbatim>\<open>op_spsc.h\<close>), and the clocks
  and replicated data types of the server mesh (\<^verbatim>\<open>op_hlc.h\<close>, \<^verbatim>\<open>op_vclock.h\<close>, \<^verbatim>\<open>crdt.c\<close>).

  \<^bold>\<open>Conventions.\<close>  The definitions keep the names of the C functions and have their arguments;
  state is passed in and returned.  A C pointer is \<open>'a ptr\<close>, with \<open>NULL\<close> for the null pointer; an
  array is a list, and an access outside of it, like every other undefined behaviour of C the code
  could run into, is the value \<open>None\<close>, so that a theorem that an operation returns is also the
  theorem that it stays inside its memory.  \<^verbatim>\<open>size_t\<close> is \<open>nat\<close> with the wrap-around at 64 bits
  written out (\<open>wrap64\<close>, \<open>sub64\<close>), bytes and fixed-width fields are words; where an \<^verbatim>\<open>int\<close> can
  overflow, a conversion truncates (\<open>int_cast\<close>) and an addition out of range is \<open>None\<close>
  (\<open>int_add\<close>).  Allocation never fails,
  since the wrappers of \<^verbatim>\<open>op_memory.h\<close> abort; the size of a block wraps at 64 bits as in the code.
  Callbacks are functions of the model, with the user state they may change.

  \<^bold>\<open>Theories.\<close>
  \<^item> \<open>Libop_Prelude\<close>: 64-bit and \<^verbatim>\<open>int\<close> arithmetic, rounding to powers of two by bit smearing, arrays, and the
    reference walk \<open>visit_list\<close> for enumeration with a stopping callback.
  \<^item> \<open>Vec\<close>: \<^verbatim>\<open>vec.c\<close>.  Invariant and abstraction to a list; every request sequence behaves as on a
    list; the index binary search returns.  Interprets the locale \<open>ptr_sequence\<close>, which the table registry uses.
  \<^item> \<open>Htab\<close>, \<open>Htab_Map\<close>, \<open>Htab_Keys\<close>: \<^verbatim>\<open>htab.c\<close>.  The probe loops, Robin Hood insertion,
    backward-shift deletion, growth and compaction with the displacement invariant; the table as a
    map under the locale \<open>htab_keys\<close> of a hash that respects an equivalence; its interpretations for
    the string, case-insensitive (against the case table of RFC 1459) and pointer modes; merging.
  \<^item> \<open>Cstring\<close>: strings of C and the comparison and folding of the library.
  \<^item> \<open>Tools\<close>: the string functions of \<^verbatim>\<open>tools.c\<close> and the chained formatter \<^verbatim>\<open>op_fsnprint\<close>; splitting a
    line into IRC parameters against the grammar of the protocol.
  \<^item> \<open>Linebuf\<close>, \<open>Linebuf_Refs\<close>: \<^verbatim>\<open>linebuf.c\<close>.  Parsed mode against a byte automaton that cuts a stream
    into lines; reference counts of lines shared by several buffers and send queues, as an invariant
    of all reachable states; flushing with short writes keeps the order of the pending bytes.
  \<^item> \<open>Simd_Scan\<close>: \<^verbatim>\<open>simd_scan.c\<close>.  The locale \<open>block_scan\<close> is the loop that looks at a block of bytes
    through a mask; its instances for the three vector widths agree with the scalar loops.
  \<^item> \<open>Lru\<close>: \<^verbatim>\<open>lru.c\<close>.  The entries live in an explicit memory which the table and the doubly linked
    recency list share; from creation to destruction the cache is a bounded list, and every entry is
    freed.  The allocator is a parameter, of which only freshness is assumed.
  \<^item> \<open>Key_Order\<close>, \<open>Rbt\<close>: \<^verbatim>\<open>rbt.c\<close>.  The locale \<open>key_order\<close> is the contract of a three-way
    comparator, met by the comparators of the file.  Insertion and top-down deletion in a left-leaning
    red-black tree keep balance and colours and never follow a null pointer; a tree is a list of
    entries in key order; its height is logarithmic, so the iterator's fixed stack suffices.
  \<^item> \<open>Pqueue\<close>: \<^verbatim>\<open>pqueue.c\<close>.  Heap order through sifting and resizing; draining sorts; removal.
  \<^item> \<open>Deque\<close>: \<^verbatim>\<open>deque.c\<close>.  The ring with its masks as a list.
  \<^item> \<open>Trie\<close>: \<^verbatim>\<open>trie.c\<close>.  Search order, pruning, and the walks with their key buffer: prefix and
    wildcard enumeration against a reference matcher.
  \<^item> \<open>Cidr\<close>: \<^verbatim>\<open>cidr_tbl.c\<close>.  Binary tries against tables of prefixes; longest match; enumeration.
  \<^item> \<open>Utf8\<close>: \<^verbatim>\<open>utf8.c\<close>.  The decoder accepts exactly the encodings of scalar values; validation,
    truncation, and sanitising as one U+FFFD for each byte that begins no encoding.
  \<^item> \<open>Clocks\<close>: \<^verbatim>\<open>op_hlc.h\<close> and \<^verbatim>\<open>op_vclock.h\<close>, with the counter tables they share with the
    replicated types; the comparison as the causal order and merge as its least upper bound, the
    wire format, monotone timestamps.
  \<^item> \<open>Crdt\<close>: \<^verbatim>\<open>crdt.c\<close> and \<^verbatim>\<open>op_crdt.h\<close>.  Causal contexts as sets of dots; what applying a
    delta does, against the rule of its comment; registers keep the last write and converge; counters.
  \<^item> \<open>Ringbuf\<close>: the two rings.  The locale \<open>ring\<close> states what the four atomic actions of a call
    promise; its lemmas, for every interleaving of a producer and a consumer, are interpreted on both
    rings.
  \<^item> \<open>Ratelimit\<close>: the token bucket; the bound on what it allows, recovery and starvation.
  \<^item> \<open>Bitset\<close>: word arrays as sets, and the iteration over their members.

  \<^bold>\<open>What the theorems show.\<close>  For each container a refinement: any sequence of calls returns the
  answers of a plain mathematical object (a list, a map, a queue, a set, a bounded list in recency
  order) and keeps the invariant, which includes staying inside the allocated arrays.  For parsing and
  encoding, exactness and round trips.  For the replicated types, the effect of a delta on the
  live dots, and convergence.  For the rings, order, bound, freedom from races on a slot, and progress.  Several
  theorems state the behaviour of the code where it is not the documented one: merging tables without
  a callback, and the key that merging with one reports; the index that binary search returns among
  equal elements; one replacement character per invalid byte; a delta that shares a covered dot with
  the set, and so the redelivery of an add delta; checks faster than the token rate.

  \<^bold>\<open>Bounds.\<close>  The refinement theorems assume sizes for which the byte counts of the allocations are
  representable (a table below \<open>2 ^ 58\<close> slots, \<open>2 ^ 60\<close> pointers in a vector or a ring, request
  sequences of up to \<open>2 ^ 56\<close> steps); beyond them the code itself computes wrapped sizes.  Iterating over a bit set assumes fewer
  than \<open>2 ^ 31\<close> bits, since bit numbers are \<^verbatim>\<open>int\<close>; counting is stated for every size, with the
  overflow.  The two line counters of \<open>Linebuf\<close>, \<^verbatim>\<open>int\<close> in the code, are unbounded integers.  Loops whose
  end is not structural are functions with a termination proof; those that follow links in memory
  (the walks of \<open>Lru\<close>, the iteration of \<open>Bitset\<close>) are partial functions that are proved to return.
  No fuel is used.

  \<^bold>\<open>Not modelled.\<close>  The event loop, sockets, TLS, helper processes, threads and sandboxing
  (\<^verbatim>\<open>commio.c\<close>, the I/O backends, \<^verbatim>\<open>opssl_backend.c\<close>, \<^verbatim>\<open>helper.c\<close>, \<^verbatim>\<open>thread_pool.c\<close>, \<^verbatim>\<open>async.c\<close>,
  \<^verbatim>\<open>coro.c\<close>, \<^verbatim>\<open>seccomp.c\<close>, \<^verbatim>\<open>op_lib.c\<close> and others) are system calls or machine contexts throughout.
  \<^verbatim>\<open>hll.c\<close> is floating point.  The allocators \<^verbatim>\<open>balloc.c\<close> and
  \<^verbatim>\<open>arena.c\<close> stand behind the modelled components as the creation of fresh objects.  Pure parts that
  are left out so far are the interval and skip-list maps, the graph, the Bloom filter, the
  window meter, the Merkle tree, interning, the string, raw and send buffers, the TOML parser,
  the hashes and the WebSocket framing.  Weak memory orders are not modelled: the rings are proved for
  interleavings, which their acquire and release accesses provide between one producer and one
  consumer.  The identity of key pointers is not modelled in the hash table, where a key is its text.
\<close>

end
